(* ===== verification/Prelude.thy ===== *)
theory Prelude
  imports Main "HOL-Library.Word"
begin

unbundle bit_operations_syntax

text \<open>
  Shared vocabulary of the development: the machine integers of the C sources, the
  conversions between them that C performs implicitly, byte-addressed memory with its
  load and store operations, the byte order of a host, and the lemmas on these that the
  component theories use.
\<close>

section \<open>Machine integers\<close>

type_synonym u8 = "8 word"
type_synonym u16 = "16 word"
type_synonym u32 = "32 word"
type_synonym u64 = "64 word"

text \<open>
  \<open>int\<close> of the sources is 32 bits wide and two's complement: assigning a 64-bit value to
  it keeps the low half, and using it in a 64-bit expression sign-extends it.
\<close>

definition int_of_u64 :: "u64 \<Rightarrow> u32" where
  "int_of_u64 x = ucast x"

definition u64_of_int :: "u32 \<Rightarrow> u64" where
  "u64_of_int x = scast x"

text \<open>Values below \<open>2 ^ 31\<close> survive the trip through an \<open>int\<close>.\<close>

lemma u64_of_int_of_u64 [simp]:
  assumes "unat x < 2 ^ 31"
  shows "u64_of_int (int_of_u64 x) = x"
proof (rule bit_word_eqI)
  fix n assume "n < LENGTH(64)"
  have high: "\<not> bit x k" if "31 \<le> k" for k
  proof
    assume "bit x k"
    then have "bit (uint x) k"
      using bit_imp_le_length [of x k] by (simp add: bit_uint_iff)
    moreover have "int (unat x) < int (2 ^ 31)"
      using assms by (simp only: of_nat_less_iff)
    then have "uint x < 2 ^ 31" by simp
    then have "take_bit 31 (uint x) = uint x"
      by (simp add: take_bit_int_eq_self)
    ultimately have "bit (take_bit 31 (uint x)) k" by simp
    with that show False by (simp add: bit_take_bit_iff)
  qed
  show "bit (u64_of_int (int_of_u64 x)) n \<longleftrightarrow> bit x n"
    using high [of n] high [of 31]
    by (auto simp: u64_of_int_def int_of_u64_def bit_simps min_def)
qed

lemma not_bit_unat_less:
  assumes "unat (x::'a::len word) < 2 ^ k" and "k \<le> n"
  shows "\<not> bit x n"
proof
  assume "bit x n"
  then have "bit (unat x) n"
    using bit_imp_le_length [of x n] by (simp add: bit_unsigned_iff)
  moreover have "take_bit k (unat x) = unat x" using assms(1) by (simp add: take_bit_nat_eq_self)
  ultimately have "bit (take_bit k (unat x)) n" by simp
  with assms(2) show False by (simp add: bit_take_bit_iff)
qed

lemma unat_add_no_wrap:
  "unat (x::'a::len word) + unat y < 2 ^ LENGTH('a) \<Longrightarrow> unat (x + y) = unat x + unat y"
  by (simp add: unat_word_ariths)

lemma unat_mult_no_wrap:
  "unat (x::'a::len word) * unat y < 2 ^ LENGTH('a) \<Longrightarrow> unat (x * y) = unat x * unat y"
  by (simp add: unat_word_ariths)

lemma unat_diff_no_wrap:
  "unat y \<le> unat (x::'a::len word) \<Longrightarrow> unat (x - y) = unat x - unat y"
  by (simp add: unat_sub word_le_nat_alt)

lemma unat_of_nat_small [simp]:
  "n < 2 ^ LENGTH('a) \<Longrightarrow> unat (of_nat n :: 'a::len word) = n"
  by (simp add: unat_of_nat)

lemma ucast_eq_of_nat: "unat w = n \<Longrightarrow> ucast w = (of_nat n :: 'b::len word)"
  by auto

lemma ucast_of_nat_down:
  "LENGTH('b) \<le> LENGTH('a) \<Longrightarrow> ucast (of_nat n :: 'a::len word) = (of_nat n :: 'b::len word)"
  by transfer (simp add: min_def)

lemma of_nat_u64_eq:
  assumes "a < 2 ^ 64" and "b < 2 ^ 64"
  shows "(of_nat a :: u64) = of_nat b \<longleftrightarrow> a = b"
proof
  assume "(of_nat a :: u64) = of_nat b"
  then have "unat (of_nat a :: u64) = unat (of_nat b :: u64)" by simp
  with assms show "a = b" by simp
qed simp

lemma radix_less: "q < n \<Longrightarrow> i < k \<Longrightarrow> q * k + i < n * k" for q n i k :: nat
proof -
  assume "q < n" "i < k"
  then have "q * k + i < Suc q * k" by simp
  also have "\<dots> \<le> n * k" using \<open>q < n\<close> by (intro mult_le_mono1) simp
  finally show ?thesis .
qed

section \<open>Bytes of a word\<close>

text \<open>The \<open>n\<close> low bytes of a word, least significant first, and the word they make up.\<close>

definition bytes_le :: "nat \<Rightarrow> 'a::len word \<Rightarrow> u8 list" where
  "bytes_le n w = map (\<lambda>i. ucast (drop_bit (8 * i) w)) [0..<n]"

fun word_le :: "u8 list \<Rightarrow> 'a::len word" where
  "word_le [] = 0"
| "word_le (b # bs) = ucast b OR push_bit 8 (word_le bs)"

lemma length_bytes_le [simp]: "length (bytes_le n w) = n"
  by (simp add: bytes_le_def)

lemma bit_u8D: "bit (b::u8) n \<Longrightarrow> n < 8"
  using bit_imp_le_length [of b n] by simp

lemma word_le_Cons_add: "word_le (b # bs) = ucast b + push_bit 8 (word_le bs)"
  by (auto intro!: disjunctive_add [symmetric] simp: bit_simps dest!: bit_u8D)

lemma bit_word_le:
  "bit (word_le bs :: 'a::len word) n \<longleftrightarrow>
     n < LENGTH('a) \<and> n div 8 < length bs \<and> bit (bs ! (n div 8)) (n mod 8)"
proof (induction bs arbitrary: n)
  case Nil
  then show ?case by simp
next
  case (Cons b bs)
  show ?case
  proof (cases "n < 8")
    case True
    then show ?thesis by (auto simp: bit_simps)
  next
    case False
    then obtain k where n: "n = k + 8"
      by (metis add.commute le_Suc_ex not_less)
    have "(k + 8) div 8 = Suc (k div 8)" by simp
    with n show ?thesis
      using Cons [of k] by (auto simp: bit_simps dest: bit_u8D)
  qed
qed

lemma word_le_bytes_le:
  "LENGTH('a) = 8 * n \<Longrightarrow> word_le (bytes_le n (w::'a::len word)) = w"
  by (rule bit_word_eqI)
    (auto simp: bit_word_le bytes_le_def bit_simps less_mult_imp_div_less mult.commute)

lemma bytes_le_word_le:
  assumes "LENGTH('a) = 8 * length bs"
  shows "bytes_le (length bs) (word_le bs :: 'a::len word) = bs"
proof (rule nth_equalityI)
  fix i assume "i < length (bytes_le (length bs) (word_le bs :: 'a word))"
  with assms show "bytes_le (length bs) (word_le bs :: 'a word) ! i = bs ! i"
    by (intro bit_word_eqI) (auto simp: bit_word_le bytes_le_def bit_simps)
qed simp

section \<open>Byte order of a host\<close>

text \<open>
  The sources write integers by copying their bytes as they lie in memory and detect on
  reading whether the writer's byte order differs. The byte order of the machine is a
  parameter of every definition that copies an integer.
\<close>

datatype endian = Little | Big

definition enc :: "endian \<Rightarrow> nat \<Rightarrow> 'a::len word \<Rightarrow> u8 list" where
  "enc e n w = (case e of Little \<Rightarrow> bytes_le n w | Big \<Rightarrow> rev (bytes_le n w))"

definition dec :: "endian \<Rightarrow> u8 list \<Rightarrow> 'a::len word" where
  "dec e bs = (case e of Little \<Rightarrow> word_le bs | Big \<Rightarrow> word_le (rev bs))"

lemma length_enc [simp]: "length (enc e n w) = n"
  by (cases e) (simp_all add: enc_def)

lemma dec_enc: "LENGTH('a) = 8 * n \<Longrightarrow> dec e (enc e n (w::'a::len word)) = w"
  by (cases e) (simp_all add: enc_def dec_def word_le_bytes_le)

lemma enc_dec:
  "LENGTH('a) = 8 * length bs \<Longrightarrow> enc e (length bs) (dec e bs :: 'a::len word) = bs"
  using bytes_le_word_le [of bs, where 'a = 'a] bytes_le_word_le [of "rev bs", where 'a = 'a]
  by (cases e) (simp_all add: enc_def dec_def)

lemma enc_opposite: "e \<noteq> e' \<Longrightarrow> enc e n w = rev (enc e' n w)"
  by (cases e; cases e') (simp_all add: enc_def)

lemma dec_rev: "dec Little (rev bs) = dec Big bs" "dec Big (rev bs) = dec Little bs"
  by (simp_all add: dec_def)

section \<open>Byte-addressed memory\<close>

type_synonym mem = "u64 \<Rightarrow> u8"

definition load :: "u64 \<Rightarrow> nat \<Rightarrow> mem \<Rightarrow> u8 list" where
  "load a n m = map (\<lambda>i. m (a + of_nat i)) [0..<n]"

definition store :: "u64 \<Rightarrow> u8 list \<Rightarrow> mem \<Rightarrow> mem" where
  "store a bs m = (\<lambda>x. if unat (x - a) < length bs then bs ! unat (x - a) else m x)"

text \<open>
  \<open>memcpy\<close> and \<open>memmove\<close> of the C library: all source bytes are read, then stored. For a \<open>memcpy\<close> of
  overlapping blocks, which C leaves undefined, this is an assumption.
\<close>

definition memcpy :: "u64 \<Rightarrow> u64 \<Rightarrow> nat \<Rightarrow> mem \<Rightarrow> mem" where
  "memcpy dst src n m = store dst (load src n m) m"

lemma length_load [simp]: "length (load a n m) = n"
  by (simp add: load_def)

lemma load_nth [simp]: "i < n \<Longrightarrow> load a n m ! i = m (a + of_nat i)"
  by (simp add: load_def)

lemma store_in:
  "i < length bs \<Longrightarrow> i < 2 ^ 64 \<Longrightarrow> store a bs m (a + of_nat i) = bs ! i"
  by (simp add: store_def)

lemma store_out: "\<not> unat (x - a) < length bs \<Longrightarrow> store a bs m x = m x"
  by (simp add: store_def)

lemma load_store_same [simp]: "length bs \<le> 2 ^ 64 \<Longrightarrow> load a (length bs) (store a bs m) = bs"
  by (rule nth_equalityI) (auto simp: store_in)

lemma store_nil [simp]: "store a [] m = m"
  by (auto simp: store_def)

lemma memcpy_in:
  "i < n \<Longrightarrow> n \<le> 2 ^ 64 \<Longrightarrow> memcpy dst src n m (dst + of_nat i) = m (src + of_nat i)"
  by (simp add: memcpy_def store_in)

lemma memcpy_out: "\<not> unat (x - dst) < n \<Longrightarrow> memcpy dst src n m x = m x"
  by (simp add: memcpy_def store_out)

text \<open>Membership of an address in a window that starts \<open>a\<close> bytes after \<open>p\<close>.\<close>

lemma unat_diff_of_nat:
  fixes y :: u64
  assumes "a < 2 ^ 64"
  shows "unat (y - of_nat a) = (if a \<le> unat y then unat y - a else unat y + 2 ^ 64 - a)"
  using assms by (simp add: unat_sub_if' unat_of_nat)

lemma unat_u64_less: "unat (y::u64) < 2 ^ 64"
  using unsigned_less [of y, where 'a = nat] by simp

lemma window_iff:
  fixes x p :: u64
  assumes "a + c \<le> 2 ^ 64"
  shows "unat (x - (p + of_nat a)) < c \<longleftrightarrow> a \<le> unat (x - p) \<and> unat (x - p) < a + c"
proof (cases "c = 0")
  case False
  with assms have "a < 2 ^ 64" by linarith
  note diff = unat_diff_of_nat [OF this, of "x - p"]
  show ?thesis
    using assms unat_u64_less [of "x - p"] by (auto simp: diff diff_diff_eq [symmetric])
qed auto

lemma window_offset:
  fixes x p :: u64
  assumes "a \<le> unat (x - p)" and "a < 2 ^ 64"
  shows "unat (x - (p + of_nat a)) = unat (x - p) - a"
  using unat_diff_of_nat [OF assms(2), of "x - p"] assms(1)
  by (simp add: diff_diff_eq [symmetric])

text \<open>
  A loop over the \<open>n\<close> elements of \<open>sz\<close> bytes at \<open>p\<close> that replaces each element by \<open>f\<close> of
  it: the memory it leaves, byte by byte.
\<close>

definition map_elems :: "(u8 list \<Rightarrow> u8 list) \<Rightarrow> u64 \<Rightarrow> nat \<Rightarrow> nat \<Rightarrow> mem \<Rightarrow> mem" where
  "map_elems f p sz n m =
     fold (\<lambda>i m. store (p + of_nat (i * sz)) (f (load (p + of_nat (i * sz)) sz m)) m) [0..<n] m"

lemma map_elems_0 [simp]: "map_elems f p sz 0 m = m"
  by (simp add: map_elems_def)

lemma map_elems_Suc:
  "map_elems f p sz (Suc n) m =
     store (p + of_nat (n * sz)) (f (load (p + of_nat (n * sz)) sz (map_elems f p sz n m)))
       (map_elems f p sz n m)"
  by (simp add: map_elems_def)

lemma map_elems_apply:
  assumes len: "\<And>bs. length bs = sz \<Longrightarrow> length (f bs) = sz"
    and "n * sz \<le> 2 ^ 64"
  shows "map_elems f p sz n m x =
     (if unat (x - p) < n * sz
      then f (load (p + of_nat (unat (x - p) div sz * sz)) sz m) ! (unat (x - p) mod sz)
      else m x)"
  using assms(2)
proof (induction n arbitrary: x)
  case 0
  then show ?case by simp
next
  case (Suc n)
  let ?m = "map_elems f p sz n m" and ?q = "p + of_nat (n * sz) :: u64"
  have le: "n * sz + sz \<le> 2 ^ 64" using Suc.prems by (simp add: add.commute)
  have out: "?m y = m y" if "\<not> unat (y - p) < n * sz" for y
    using Suc.IH [of y] le that by simp
  have load: "load ?q sz ?m = load ?q sz m"
  proof (rule nth_equalityI)
    fix i assume "i < length (load ?q sz ?m)"
    then have i: "i < sz" by simp
    then have "unat (of_nat (n * sz + i) :: u64) = n * sz + i"
      using le by (intro unat_of_nat_small) simp
    then have "unat (?q + of_nat i - p) = n * sz + i" by simp
    with i show "load ?q sz ?m ! i = load ?q sz m ! i" by (simp add: out)
  qed simp
  have step: "map_elems f p sz (Suc n) m x =
      (if unat (x - ?q) < sz then f (load ?q sz m) ! unat (x - ?q) else ?m x)"
    by (simp only: map_elems_Suc load) (simp add: store_def len)
  show ?case
  proof (cases "unat (x - ?q) < sz")
    case True
    then have k: "n * sz \<le> unat (x - p)" "unat (x - p) < n * sz + sz"
      using window_iff [OF le, of x p] by auto
    then have "n * sz < 2 ^ 64" using le by linarith
    then have off: "unat (x - ?q) = unat (x - p) - n * sz"
      by (rule window_offset [OF k(1)])
    have "unat (x - p) div sz = n"
      using k by (intro div_nat_eqI) (simp_all add: mult.commute)
    moreover from this have "unat (x - p) mod sz = unat (x - p) - n * sz"
      by (simp add: minus_div_mult_eq_mod [symmetric])
    ultimately show ?thesis using True k off step by (simp add: add.commute)
  next
    case False
    then have "\<not> (n * sz \<le> unat (x - p) \<and> unat (x - p) < n * sz + sz)"
      using window_iff [OF le, of x p] by simp
    then show ?thesis using step False Suc.IH [of x] le by (auto simp: add.commute)
  qed
qed

section \<open>Refinement of operations\<close>

text \<open>
  A component whose operations may get stuck (a dangling pointer, a loop that does not end)
  and an abstract one whose operations are total, related by \<open>rel\<close>. A run of the concrete
  component then never gets stuck and gives the outputs of the abstract one.
\<close>

fun run_ops :: "('op \<Rightarrow> 's \<Rightarrow> ('out \<times> 's) option) \<Rightarrow> 'op list \<Rightarrow> 's \<Rightarrow> ('out list \<times> 's) option" where
  "run_ops step [] s = Some ([], s)"
| "run_ops step (p # ps) s =
     (case step p s of
        None \<Rightarrow> None
      | Some (out, s') \<Rightarrow> map_option (\<lambda>(outs, s''). (out # outs, s'')) (run_ops step ps s'))"

fun run_abs :: "('op \<Rightarrow> 'm \<Rightarrow> 'out \<times> 'm) \<Rightarrow> 'op list \<Rightarrow> 'm \<Rightarrow> 'out list \<times> 'm" where
  "run_abs step [] m = ([], m)"
| "run_abs step (p # ps) m =
     (let (out, m') = step p m; (outs, m'') = run_abs step ps m' in (out # outs, m''))"

locale simulation =
  fixes step :: "'op \<Rightarrow> 's \<Rightarrow> ('out \<times> 's) option"
    and spec :: "'op \<Rightarrow> 'm \<Rightarrow> 'out \<times> 'm"
    and rel :: "'s \<Rightarrow> 'm \<Rightarrow> bool"
  assumes simulates: "rel s m \<Longrightarrow> \<exists>s'. step p s = Some (fst (spec p m), s') \<and> rel s' (snd (spec p m))"
begin

lemma run_refines:
  "rel s m \<Longrightarrow>
   \<exists>s'. run_ops step ps s = Some (fst (run_abs spec ps m), s') \<and> rel s' (snd (run_abs spec ps m))"
proof (induction ps arbitrary: s m)
  case Nil
  then show ?case by simp
next
  case (Cons p ps)
  from simulates [OF Cons.prems, of p] obtain s1
    where s1: "step p s = Some (fst (spec p m), s1)" "rel s1 (snd (spec p m))" by blast
  from Cons.IH [OF s1(2)] obtain s2
    where "run_ops step ps s1 = Some (fst (run_abs spec ps (snd (spec p m))), s2)"
      "rel s2 (snd (run_abs spec ps (snd (spec p m))))" by blast
  with s1 show ?case by (auto simp: split_beta Let_def)
qed

end

section \<open>Strings\<close>

text \<open>
  A C string is its characters up to the terminating zero byte. \<open>strlen\<close> is the length of
  that list, and the bytes of the string are the codes of its characters.
\<close>

type_synonym cstring = string

definition byte_of_char :: "char \<Rightarrow> u8" where
  "byte_of_char c = of_nat (of_char c)"

definition char_of_byte :: "u8 \<Rightarrow> char" where
  "char_of_byte b = char_of (unat b)"

definition bytes_of_string :: "cstring \<Rightarrow> u8 list" where
  "bytes_of_string s = map byte_of_char s"

definition string_of_bytes :: "u8 list \<Rightarrow> cstring" where
  "string_of_bytes bs = map char_of_byte (takeWhile (\<lambda>b. b \<noteq> 0) bs)"

text \<open>\<open>strcasecmp\<close> gives 0, in the locale of C.\<close>

definition tolower :: "char \<Rightarrow> char" where
  "tolower c = (let n = of_char c :: nat in if 65 \<le> n \<and> n \<le> 90 then char_of (n + 32) else c)"

definition same_case :: "cstring \<Rightarrow> cstring \<Rightarrow> bool" where
  "same_case a b \<longleftrightarrow> map tolower a = map tolower b"

definition nul_free :: "cstring \<Rightarrow> bool" where
  "nul_free s = (CHR 0x00 \<notin> set s)"

lemma length_bytes_of_string [simp]: "length (bytes_of_string s) = length s"
  by (simp add: bytes_of_string_def)

lemma of_char_less: "(of_char c :: nat) < 256"
  by (simp add: of_char_def)

lemma char_of_byte_of_char [simp]: "char_of_byte (byte_of_char c) = c"
  by (simp add: char_of_byte_def byte_of_char_def unat_of_nat)

lemma byte_of_char_inject [simp]: "byte_of_char c = byte_of_char d \<longleftrightarrow> c = d"
  by (metis char_of_byte_of_char)

lemma byte_of_char_eq_0 [simp]: "byte_of_char c = 0 \<longleftrightarrow> c = CHR 0x00"
proof -
  have "byte_of_char (CHR 0x00) = 0" by (simp add: byte_of_char_def)
  then show ?thesis by (metis byte_of_char_inject)
qed

lemma bytes_of_string_inject [simp]: "bytes_of_string s = bytes_of_string t \<longleftrightarrow> s = t"
  by (simp add: bytes_of_string_def inj_map_eq_map inj_def)

lemma string_of_bytes_of_string [simp]:
  "nul_free s \<Longrightarrow> string_of_bytes (bytes_of_string s) = s"
  by (induction s) (auto simp: string_of_bytes_def bytes_of_string_def nul_free_def)

end
