(* ===== verification/Adios_Types.thy ===== *)
theory Adios_Types
  imports Prelude
begin

text \<open>
  The enumerations of \<open>public/adios_types.h\<close>, \<open>core/adios_bp_v1.h\<close> and
  \<open>public/adios_selection.h\<close> with their integer codes, the error codes the modelled
  functions report, and the size functions of \<open>core/adios_bp_v1.c\<close> and
  \<open>core/bp_utils.c\<close>.
\<close>

section \<open>Data types\<close>

datatype ADIOS_DATATYPES =
    adios_unknown
  | adios_byte | adios_short | adios_integer | adios_long
  | adios_unsigned_byte | adios_unsigned_short | adios_unsigned_integer | adios_unsigned_long
  | adios_real | adios_double | adios_long_double
  | adios_string | adios_complex | adios_double_complex

fun type_code :: "ADIOS_DATATYPES \<Rightarrow> int" where
  "type_code adios_unknown = -1"
| "type_code adios_byte = 0"
| "type_code adios_short = 1"
| "type_code adios_integer = 2"
| "type_code adios_long = 4"
| "type_code adios_unsigned_byte = 50"
| "type_code adios_unsigned_short = 51"
| "type_code adios_unsigned_integer = 52"
| "type_code adios_unsigned_long = 54"
| "type_code adios_real = 5"
| "type_code adios_double = 6"
| "type_code adios_long_double = 7"
| "type_code adios_string = 9"
| "type_code adios_complex = 10"
| "type_code adios_double_complex = 11"

datatype ADIOS_FLAG = adios_flag_unknown | adios_flag_yes | adios_flag_no

datatype ADIOS_STAT =
    adios_statistic_min | adios_statistic_max | adios_statistic_cnt | adios_statistic_sum
  | adios_statistic_sum_square | adios_statistic_hist | adios_statistic_finite

text \<open>Error codes of \<open>public/adios_error.h\<close> that the modelled code reports.\<close>

datatype adios_errcode =
    err_no_memory | err_invalid_buffer | err_invalid_argument | err_invalid_timestep
  | err_invalid_buffer_version | err_invalid_buffer_index | err_invalid_buffer_group
  | err_invalid_buffer_vars | err_invalid_buffer_attrs | err_dimension_required
  | err_invalid_var_as_dimension | err_unspecified
  | err_no_data_at_timestep | err_out_of_bound | err_operation_not_supported
  | err_assertion \<comment> \<open>a failed \<open>assert\<close>\<close>
  | err_out_of_bounds \<comment> \<open>an access outside an allocated block\<close>

section \<open>Sizes\<close>

text \<open>
  \<open>adios_get_type_size (type, var)\<close>: \<open>var\<close> is only looked at for a string; \<open>None\<close> is the
  null pointer. An unknown type gives \<open>-1\<close>, which as a \<open>uint64_t\<close> is the largest value.
\<close>

fun adios_get_type_size :: "ADIOS_DATATYPES \<Rightarrow> cstring option \<Rightarrow> u64" where
  "adios_get_type_size adios_byte v = 1"
| "adios_get_type_size adios_unsigned_byte v = 1"
| "adios_get_type_size adios_string v =
     (case v of None \<Rightarrow> 0 | Some s \<Rightarrow> of_nat (length s))"
| "adios_get_type_size adios_short v = 2"
| "adios_get_type_size adios_unsigned_short v = 2"
| "adios_get_type_size adios_integer v = 4"
| "adios_get_type_size adios_unsigned_integer v = 4"
| "adios_get_type_size adios_long v = 8"
| "adios_get_type_size adios_unsigned_long v = 8"
| "adios_get_type_size adios_real v = 4"
| "adios_get_type_size adios_double v = 8"
| "adios_get_type_size adios_long_double v = 16"
| "adios_get_type_size adios_complex v = 8"
| "adios_get_type_size adios_double_complex v = 16"
| "adios_get_type_size adios_unknown v = -1"

text \<open>\<open>bp_get_type_size\<close> counts the terminating zero of a string and returns an \<open>int\<close>.\<close>

fun bp_get_type_size :: "ADIOS_DATATYPES \<Rightarrow> cstring option \<Rightarrow> u32" where
  "bp_get_type_size adios_byte v = 1"
| "bp_get_type_size adios_unsigned_byte v = 1"
| "bp_get_type_size adios_string v =
     (case v of None \<Rightarrow> 1 | Some s \<Rightarrow> of_nat (length s) + 1)"
| "bp_get_type_size adios_short v = 2"
| "bp_get_type_size adios_unsigned_short v = 2"
| "bp_get_type_size adios_integer v = 4"
| "bp_get_type_size adios_unsigned_integer v = 4"
| "bp_get_type_size adios_long v = 8"
| "bp_get_type_size adios_unsigned_long v = 8"
| "bp_get_type_size adios_real v = 4"
| "bp_get_type_size adios_double v = 8"
| "bp_get_type_size adios_long_double v = 16"
| "bp_get_type_size adios_complex v = 8"
| "bp_get_type_size adios_double_complex v = 16"
| "bp_get_type_size adios_unknown v = -1"

text \<open>
  \<open>adios_get_stat_size\<close>: the size of one statistic. \<open>num_breaks\<close> is the field of the
  histogram that \<open>data\<close> points to. The cases of the two complex types cover every
  statistic, so control never falls through to the next case.
\<close>

fun adios_get_stat_size :: "u32 \<Rightarrow> ADIOS_DATATYPES \<Rightarrow> ADIOS_STAT \<Rightarrow> u64" where
  "adios_get_stat_size num_breaks type stat_id =
     (if type = adios_complex then
        (case stat_id of
           adios_statistic_min \<Rightarrow> adios_get_type_size adios_double (Some '''')
         | adios_statistic_max \<Rightarrow> adios_get_type_size adios_double (Some '''')
         | adios_statistic_sum \<Rightarrow> adios_get_type_size adios_double (Some '''')
         | adios_statistic_sum_square \<Rightarrow> adios_get_type_size adios_double (Some '''')
         | adios_statistic_finite \<Rightarrow> adios_get_type_size adios_byte (Some '''')
         | adios_statistic_cnt \<Rightarrow> adios_get_type_size adios_unsigned_integer (Some '''')
         | adios_statistic_hist \<Rightarrow> 0)
      else if type = adios_double_complex then
        (case stat_id of
           adios_statistic_min \<Rightarrow> adios_get_type_size adios_long_double (Some '''')
         | adios_statistic_max \<Rightarrow> adios_get_type_size adios_long_double (Some '''')
         | adios_statistic_sum \<Rightarrow> adios_get_type_size adios_long_double (Some '''')
         | adios_statistic_sum_square \<Rightarrow> adios_get_type_size adios_long_double (Some '''')
         | adios_statistic_finite \<Rightarrow> adios_get_type_size adios_byte (Some '''')
         | adios_statistic_cnt \<Rightarrow> adios_get_type_size adios_unsigned_integer (Some '''')
         | adios_statistic_hist \<Rightarrow> 0)
      else
        (case stat_id of
           adios_statistic_min \<Rightarrow> adios_get_type_size type (Some '''')
         | adios_statistic_max \<Rightarrow> adios_get_type_size type (Some '''')
         | adios_statistic_sum \<Rightarrow> adios_get_type_size adios_double (Some '''')
         | adios_statistic_sum_square \<Rightarrow> adios_get_type_size adios_double (Some '''')
         | adios_statistic_finite \<Rightarrow> adios_get_type_size adios_byte (Some '''')
         | adios_statistic_cnt \<Rightarrow> adios_get_type_size adios_unsigned_integer (Some '''')
         | adios_statistic_hist \<Rightarrow>
             adios_get_type_size adios_unsigned_integer (Some '''')
             + adios_get_type_size adios_double (Some '''')
             + adios_get_type_size adios_double (Some '''')
             + ucast (num_breaks + 1) * adios_get_type_size adios_unsigned_integer (Some '''')
             + ucast num_breaks * adios_get_type_size adios_double (Some '''')))"

definition adios_get_stat_set_count :: "ADIOS_DATATYPES \<Rightarrow> u8" where
  "adios_get_stat_set_count type =
     (if type = adios_complex \<or> type = adios_double_complex then 3 else 1)"

section \<open>Properties\<close>

text \<open>The two size functions agree on every type but strings.\<close>

lemma type_sizes_agree:
  "type \<noteq> adios_string \<Longrightarrow>
   u64_of_int (bp_get_type_size type v) = adios_get_type_size type w"
  by (cases type) (simp_all add: u64_of_int_def)

text \<open>The sizes an array element can have.\<close>

lemma type_size_cases:
  "type \<noteq> adios_string \<Longrightarrow> type \<noteq> adios_unknown \<Longrightarrow>
   adios_get_type_size type v \<in> {1, 2, 4, 8, 16}"
  by (cases type) simp_all

lemma type_code_inj: "type_code s = type_code t \<longleftrightarrow> s = t"
  by (cases s; cases t) simp_all

section \<open>Selections\<close>

text \<open>
  The selections of \<open>public/adios_selection.h\<close>. An array with an entry per dimension is a
  list, so that \<open>ndim\<close> of a bounding box is the length of its lists; the linearised point
  array is the list of its entries.
\<close>

record ADIOS_SELECTION_BOUNDINGBOX_STRUCT =
  bb_ndim :: nat
  bb_start :: "u64 list"
  bb_count :: "u64 list"

record ADIOS_SELECTION_POINTS_STRUCT =
  pts_ndim :: nat
  pts_npoints :: u64
  pts_points :: "u64 list"

record ADIOS_SELECTION_WRITEBLOCK_STRUCT =
  wb_index :: int
  wb_is_absolute_index :: bool
  wb_is_sub_pg_selection :: bool
  wb_element_offset :: u64
  wb_nelements :: u64

record ADIOS_SELECTION_AUTO_STRUCT =
  auto_hints :: "cstring option"

datatype ADIOS_SELECTION =
    Sel_boundingbox ADIOS_SELECTION_BOUNDINGBOX_STRUCT
  | Sel_points ADIOS_SELECTION_POINTS_STRUCT
  | Sel_writeblock ADIOS_SELECTION_WRITEBLOCK_STRUCT
  | Sel_auto ADIOS_SELECTION_AUTO_STRUCT

record ADIOS_VARBLOCK =
  vb_start :: "u64 list"
  vb_count :: "u64 list"

definition bb_wf :: "ADIOS_SELECTION_BOUNDINGBOX_STRUCT \<Rightarrow> bool" where
  "bb_wf bb = (length (bb_start bb) = bb_ndim bb \<and> length (bb_count bb) = bb_ndim bb)"

end
