(* ===== verification/Geometry.thy ===== *)
theory Geometry
  imports Adios_Types
begin

text \<open>
  The arithmetic on volumes of \<open>core/adios_subvolume.c\<close>: vectors, volumes, linear offsets and
  the intersection of segments, volumes and bounding boxes. A vector of \<open>ndim\<close> entries is a
  list of that length. The \<open>int\<close> variables of \<open>intersect_segments\<close> are kept at their width.
\<close>

section \<open>Definitions\<close>

definition vector_add :: "u64 list \<Rightarrow> u64 list \<Rightarrow> u64 list" where
  "vector_add vec1 vec2 = map2 (+) vec1 vec2"

definition vector_sub :: "u64 list \<Rightarrow> u64 list \<Rightarrow> u64 list" where
  "vector_sub vec1 vec2 = map2 (-) vec1 vec2"

definition compute_volume :: "u64 list \<Rightarrow> u64" where
  "compute_volume dims = fold (\<lambda>d volume. volume * d) dims 1"

text \<open>
  \<open>intersect_segments\<close>: the start and the length of the intersection, \<open>None\<close> for the return
  value 0. The segments are exchanged through \<open>int\<close> variables and the ends are \<open>int\<close>s.
\<close>

definition intersect_segments :: "u64 \<Rightarrow> u64 \<Rightarrow> u64 \<Rightarrow> u64 \<Rightarrow> (u64 \<times> u64) option" where
  "intersect_segments start1 len1 start2 len2 =
     (let (start1, len1, start2, len2) =
            (if start1 > start2
             then let tmps = int_of_u64 start1; tmpl = int_of_u64 len1
                  in (start2, len2, u64_of_int tmps, u64_of_int tmpl)
             else (start1, len1, start2, len2));
          end1 = int_of_u64 (start1 + len1);
          end2 = int_of_u64 (start2 + len2)
      in if u64_of_int end1 \<le> start2 then None
         else let inter_start = start2;
                  inter_end = (if sint end1 \<le> sint end2 then end1 else end2)
              in Some (inter_start, u64_of_int inter_end - inter_start))"

text \<open>
  \<open>intersect_volumes\<close>: the four output arrays in the order of the parameters of the
  definition (\<open>inter_dims\<close>, \<open>inter_offset\<close>, \<open>inter_offset_rel1\<close>, \<open>inter_offset_rel2\<close>).
\<close>

fun intersect_volumes ::
  "u64 list \<Rightarrow> u64 list \<Rightarrow> u64 list \<Rightarrow> u64 list
    \<Rightarrow> (u64 list \<times> u64 list \<times> u64 list \<times> u64 list) option" where
  "intersect_volumes (d1 # dims1) (o1 # offset1) (d2 # dims2) (o2 # offset2) =
     (case intersect_segments o1 d1 o2 d2 of
        None \<Rightarrow> None
      | Some (tmp_inter_offset, inter_dim) \<Rightarrow>
          (case intersect_volumes dims1 offset1 dims2 offset2 of
             None \<Rightarrow> None
           | Some (inter_dims, inter_offset, rel1, rel2) \<Rightarrow>
               Some (inter_dim # inter_dims, tmp_inter_offset # inter_offset,
                 (tmp_inter_offset - o1) # rel1, (tmp_inter_offset - o2) # rel2)))"
| "intersect_volumes _ _ _ _ = Some ([], [], [], [])"

definition intersect_bb ::
  "ADIOS_SELECTION_BOUNDINGBOX_STRUCT \<Rightarrow> ADIOS_SELECTION_BOUNDINGBOX_STRUCT
    \<Rightarrow> adios_errcode + (u64 list \<times> u64 list \<times> u64 list \<times> u64 list) option" where
  "intersect_bb bb1 bb2 =
     (if bb_ndim bb1 \<noteq> bb_ndim bb2 then Inl err_assertion
      else Inr (intersect_volumes (bb_count bb1) (bb_start bb1) (bb_count bb2) (bb_start bb2)))"

definition compute_linear_offset_in_volume :: "u64 list \<Rightarrow> u64 list \<Rightarrow> u64" where
  "compute_linear_offset_in_volume point dims =
     fst (foldr (\<lambda>(p, d) (ragged_off, volume_so_far).
            (ragged_off + p * volume_so_far, volume_so_far * d)) (zip point dims) (0, 1))"

definition new_derelativized_selection :: "ADIOS_SELECTION \<Rightarrow> u64 list \<Rightarrow> adios_errcode + ADIOS_SELECTION" where
  "new_derelativized_selection sel sel_global_offset =
     (case sel of
        Sel_boundingbox bb \<Rightarrow>
          Inr (Sel_boundingbox \<lparr>bb_ndim = bb_ndim bb,
            bb_start = vector_add (bb_start bb) sel_global_offset, bb_count = bb_count bb\<rparr>)
      | Sel_points pts \<Rightarrow>
          Inr (Sel_points \<lparr>pts_ndim = pts_ndim pts, pts_npoints = pts_npoints pts,
            pts_points = concat (map (\<lambda>i.
              vector_add (take (pts_ndim pts) (drop (i * pts_ndim pts) (pts_points pts)))
                sel_global_offset) [0..<unat (pts_npoints pts)])\<rparr>)
      | _ \<Rightarrow> Inl err_assertion)"

definition varblock_to_bb :: "nat \<Rightarrow> ADIOS_VARBLOCK \<Rightarrow> ADIOS_SELECTION" where
  "varblock_to_bb ndim vb =
     Sel_boundingbox \<lparr>bb_ndim = ndim, bb_start = take ndim (vb_start vb),
       bb_count = take ndim (vb_count vb)\<rparr>"

definition compute_selection_size :: "ADIOS_SELECTION \<Rightarrow> adios_errcode + u64" where
  "compute_selection_size sel =
     (case sel of
        Sel_boundingbox bb \<Rightarrow> Inr (fold (\<lambda>c sel_size. sel_size * c) (bb_count bb) 1)
      | Sel_points pts \<Rightarrow> Inr (pts_npoints pts)
      | _ \<Rightarrow> Inl err_assertion)"

lemma vector_add_simps [simp]:
  "vector_add [] v = []" "vector_add v [] = []"
  "vector_add (a # v) (b # w) = (a + b) # vector_add v w"
  by (simp_all add: vector_add_def)

lemma length_vector_add [simp]: "length (vector_add v w) = min (length v) (length w)"
  by (simp add: vector_add_def)

section \<open>Segments\<close>

text \<open>A segment that ends below \<open>2 ^ 31\<close> is not affected by the conversions to \<open>int\<close>.\<close>

abbreviation seg_fits :: "u64 \<Rightarrow> u64 \<Rightarrow> bool" where
  "seg_fits s l \<equiv> unat s + unat l < 2 ^ 31"

abbreviation seg :: "u64 \<Rightarrow> u64 \<Rightarrow> nat set" where
  "seg s l \<equiv> {unat s ..< unat s + unat l}"

lemma sint_int_of_u64_le:
  fixes x y :: u64
  assumes "unat x < 2 ^ 31" "unat y < 2 ^ 31"
  shows "sint (int_of_u64 x) \<le> sint (int_of_u64 y) \<longleftrightarrow> x \<le> y"
proof -
  have "sint (int_of_u64 z) = uint z" if "unat z < 2 ^ 31" for z :: u64
  proof -
    have "int (unat z) < int (2 ^ 31)" using that by (simp only: of_nat_less_iff)
    then have "uint z < 2 ^ 31" by simp
    moreover have "- 2147483648 \<le> uint z" by (rule order_trans [of _ 0]) simp_all
    ultimately show ?thesis
      by (simp add: int_of_u64_def sint_uint unsigned_ucast_eq take_bit_int_eq_self)
        (simp add: signed_take_bit_int_eq_self_iff)
  qed
  with assms show ?thesis by (simp add: word_le_def)
qed

text \<open>What the code computes on such segments: no conversion shows.\<close>

lemma intersect_segments_plain:
  assumes "seg_fits s1 l1" "seg_fits s2 l2"
  shows "intersect_segments s1 l1 s2 l2 =
    (let (a, la, b, lb) = (if s1 > s2 then (s2, l2, s1, l1) else (s1, l1, s2, l2))
     in if a + la \<le> b then None else Some (b, (if a + la \<le> b + lb then a + la else b + lb) - b))"
proof -
  have small: "u64_of_int (int_of_u64 s) = s" "u64_of_int (int_of_u64 l) = l"
      "u64_of_int (int_of_u64 (s + l)) = s + l" "unat (s + l) < 2 ^ 31"
    if "seg_fits s l" for s l :: u64
  proof -
    have "unat (s + l) = unat s + unat l" using that by (intro unat_add_no_wrap) simp
    then show "unat (s + l) < 2 ^ 31" using that by simp
    then show "u64_of_int (int_of_u64 (s + l)) = s + l" by (rule u64_of_int_of_u64)
  qed (use that in \<open>auto intro!: u64_of_int_of_u64\<close>)
  show ?thesis
    using small [OF assms(1)] small [OF assms(2)]
    by (simp add: intersect_segments_def Let_def sint_int_of_u64_le if_distrib cong: if_cong)
qed

lemma intersect_segments_None:
  assumes "seg_fits s1 l1" "seg_fits s2 l2" "intersect_segments s1 l1 s2 l2 = None"
  shows "seg s1 l1 \<inter> seg s2 l2 = {}"
proof -
  have "unat (s1 + l1) = unat s1 + unat l1" "unat (s2 + l2) = unat s2 + unat l2"
    using assms(1,2) by (auto intro!: unat_add_no_wrap)
  with assms(3) show ?thesis unfolding intersect_segments_plain [OF assms(1,2)]
    by (auto simp: word_le_nat_alt word_less_nat_alt split: if_splits)
qed

lemma intersect_segments_Some:
  assumes "seg_fits s1 l1" "seg_fits s2 l2" "intersect_segments s1 l1 s2 l2 = Some (s, l)"
  shows "seg s1 l1 \<inter> seg s2 l2 = seg s l" "unat s1 \<le> unat s" "unat s2 \<le> unat s"
    "unat s + unat l \<le> unat s1 + unat l1" "unat s + unat l \<le> unat s2 + unat l2"
proof -
  have ends: "unat (s1 + l1) = unat s1 + unat l1" "unat (s2 + l2) = unat s2 + unat l2"
    using assms(1,2) by (auto intro!: unat_add_no_wrap)
  have diff: "unat (x - y) = unat x - unat y" if "y \<le> x" for x y :: u64
    using that by (simp add: unat_sub)
  have *: "unat s = max (unat s1) (unat s2) \<and> unat s + unat l = min (unat s1 + unat l1) (unat s2 + unat l2)"
    using assms(3) ends unfolding intersect_segments_plain [OF assms(1,2)]
    by (auto simp: word_le_nat_alt word_less_nat_alt diff split: if_splits)
  then show "seg s1 l1 \<inter> seg s2 l2 = seg s l" "unat s1 \<le> unat s" "unat s2 \<le> unat s"
    "unat s + unat l \<le> unat s1 + unat l1" "unat s + unat l \<le> unat s2 + unat l2"
    by auto
qed

section \<open>Boxes\<close>

text \<open>The points of a box, coordinate by coordinate.\<close>

fun in_box :: "u64 list \<Rightarrow> u64 list \<Rightarrow> nat list \<Rightarrow> bool" where
  "in_box (s # start) (l # count) (p # ps) = (p \<in> seg s l \<and> in_box start count ps)"
| "in_box [] [] [] = True"
| "in_box _ _ _ = False"

fun box_fits :: "u64 list \<Rightarrow> u64 list \<Rightarrow> bool" where
  "box_fits (s # start) (l # count) = (seg_fits s l \<and> box_fits start count)"
| "box_fits [] [] = True"
| "box_fits _ _ = False"

lemma box_fits_length: "box_fits start count \<Longrightarrow> length start = length count"
  by (induction start count rule: box_fits.induct) auto

lemma intersect_volumes_None:
  "box_fits o1 d1 \<Longrightarrow> box_fits o2 d2 \<Longrightarrow> length d1 = length d2 \<Longrightarrow>
   intersect_volumes d1 o1 d2 o2 = None \<Longrightarrow> \<not> (in_box o1 d1 p \<and> in_box o2 d2 p)"
proof (induction d1 o1 d2 o2 arbitrary: p rule: intersect_volumes.induct)
  case (1 l1 d1 s1 o1 l2 d2 s2 o2)
  show ?case
  proof (cases p)
    case (Cons x xs)
    with 1 show ?thesis
      using intersect_segments_None [of s1 l1 s2 l2]
      by (auto split: option.splits prod.splits)
  qed simp
qed auto

lemma intersect_volumes_Some:
  "box_fits o1 d1 \<Longrightarrow> box_fits o2 d2 \<Longrightarrow> length d1 = length d2 \<Longrightarrow>
   intersect_volumes d1 o1 d2 o2 = Some (ds, off, r1, r2) \<Longrightarrow>
   (in_box o1 d1 p \<and> in_box o2 d2 p \<longleftrightarrow> in_box off ds p)
   \<and> off = vector_add o1 r1 \<and> off = vector_add o2 r2
   \<and> length ds = length d1 \<and> length off = length d1 \<and> length r1 = length d1 \<and> length r2 = length d1
   \<and> list_all2 (\<lambda>(r, l) d. unat r + unat l \<le> unat d) (zip r1 ds) d1
   \<and> list_all2 (\<lambda>(r, l) d. unat r + unat l \<le> unat d) (zip r2 ds) d2"
proof (induction d1 o1 d2 o2 arbitrary: p ds off r1 r2 rule: intersect_volumes.induct)
  case (1 l1 d1 s1 o1 l2 d2 s2 o2)
  then obtain s l ds' off' r1' r2' where seg: "intersect_segments s1 l1 s2 l2 = Some (s, l)"
    and vol: "intersect_volumes d1 o1 d2 o2 = Some (ds', off', r1', r2')"
    and out: "ds = l # ds'" "off = s # off'" "r1 = (s - s1) # r1'" "r2 = (s - s2) # r2'"
    by (auto split: option.splits)
  note hd = intersect_segments_Some [OF _ _ seg]
  have fits: "seg_fits s1 l1" "seg_fits s2 l2" using 1(2,3) by simp_all
  have rel: "unat (s - s1) = unat s - unat s1" "unat (s - s2) = unat s - unat s2"
    using hd [OF fits] by (simp_all add: unat_diff_no_wrap)
  note tl = 1(1) [OF seg refl _ _ _ vol, where p = "tl p"]
  have pts: "in_box (s1 # o1) (l1 # d1) p \<and> in_box (s2 # o2) (l2 # d2) p
      \<longleftrightarrow> in_box (s # off') (l # ds') p"
    using tl hd(1) [OF fits] 1(2-4) by (cases p) auto
  show ?case
    using tl 1(2-4) hd(2-5) [OF fits] rel pts by (auto simp: out dest!: box_fits_length)
qed (auto dest!: box_fits_length)

section \<open>Linear offsets\<close>

text \<open>The row-major index of a point, as a natural number.\<close>

fun row_major :: "nat list \<Rightarrow> nat list \<Rightarrow> nat" where
  "row_major (d # dims) (p # ps) = p * prod_list dims + row_major dims ps"
| "row_major _ _ = 0"

lemma row_major_less: "list_all2 (<) p dims \<Longrightarrow> row_major dims p < prod_list dims"
proof (induction rule: list_all2_induct)
  case (Cons p ps d ds)
  then show ?case using radix_less [of p d "row_major ds ps" "prod_list ds"] by simp
qed simp

lemma row_major_inj:
  "list_all2 (<) p dims \<Longrightarrow> list_all2 (<) q dims \<Longrightarrow> row_major dims p = row_major dims q \<Longrightarrow> p = q"
proof (induction dims arbitrary: p q)
  case (Cons d ds)
  then obtain x xs y ys where pq: "p = x # xs" "q = y # ys" by (auto simp: list_all2_Cons2)
  let ?n = "prod_list ds"
  have less: "row_major ds xs < ?n" "row_major ds ys < ?n"
    using Cons.prems pq by (auto intro: row_major_less)
  have eq: "x * ?n + row_major ds xs = y * ?n + row_major ds ys" using Cons.prems pq by simp
  then have "x = y" using less by (metis add.commute div_mult_self1 div_less add_0 less_nat_zero_code)
  moreover from this eq have "row_major ds xs = row_major ds ys" by simp
  ultimately show ?case using Cons pq by auto
qed auto

abbreviation rm :: "u64 list \<Rightarrow> u64 list \<Rightarrow> nat" where
  "rm dims p \<equiv> row_major (map unat dims) (map unat p)"

lemma row_major_le: "list_all2 (\<le>) p q \<Longrightarrow> row_major ds p \<le> row_major ds q"
proof (induction arbitrary: ds rule: list_all2_induct)
  case (Cons x xs y ys)
  then show ?case by (cases ds) (auto intro: add_mono mult_le_mono)
qed simp

lemma row_major_last: "list_all (\<lambda>d. 0 < d) ds \<Longrightarrow> row_major ds (map (\<lambda>d. d - 1) ds) + 1 = prod_list ds"
proof (induction ds)
  case (Cons d ds)
  then obtain d' where "d = Suc d'" by (cases d) auto
  with Cons show ?case by simp
qed simp

lemma linear_offset_foldr:
  "length point = length dims \<Longrightarrow>
   foldr (\<lambda>(p, d) (off, vol). (off + p * vol, vol * d)) (zip point dims) (0, 1)
   = (of_nat (row_major (map unat dims) (map unat point)), of_nat (prod_list (map unat dims)) :: u64)"
  by (induction point dims rule: list_induct2) (simp_all add: algebra_simps)

lemma compute_linear_offset_row_major:
  "length point = length dims \<Longrightarrow>
   compute_linear_offset_in_volume point dims = of_nat (row_major (map unat dims) (map unat point))"
  by (simp add: compute_linear_offset_in_volume_def linear_offset_foldr)

lemma fold_times: "fold (\<lambda>d v. v * d) ds v = v * of_nat (prod_list (map unat ds))" for v :: u64
  by (induction ds arbitrary: v) (simp_all add: algebra_simps)

lemma compute_volume_prod: "compute_volume ds = of_nat (prod_list (map unat ds))"
  by (simp add: compute_volume_def fold_times)

section \<open>Properties\<close>

text \<open>
  \<open>intersect_segments\<close> computes the intersection of two segments, also of empty ones,
  whenever both end below \<open>2 ^ 31\<close>: 0 is returned only if no index is in both, and otherwise
  the indices in both are those of the segment returned.
\<close>

theorem intersect_segments_correct:
  assumes "unat s1 + unat l1 < 2 ^ 31" and "unat s2 + unat l2 < 2 ^ 31"
  shows "case intersect_segments s1 l1 s2 l2 of
      None \<Rightarrow> seg s1 l1 \<inter> seg s2 l2 = {}
    | Some (s, l) \<Rightarrow> seg s1 l1 \<inter> seg s2 l2 = seg s l"
  using intersect_segments_None [OF assms] intersect_segments_Some(1) [OF assms]
  by (auto split: option.split)

theorem intersect_segments_correct_witness:
  "intersect_segments 10 5 3 9 = Some (10, 2) \<and> seg 10 5 \<inter> seg 3 9 = seg 10 2"
proof -
  have "intersect_segments 10 5 3 9 = Some (10, 2)" by code_simp
  with intersect_segments_correct [of 10 5 3 9] show ?thesis by simp
qed

text \<open>
  Because the segment ends are kept in an \<open>int\<close>, a segment that starts at 0 and whose
  length is a multiple of \<open>2 ^ 32\<close> is reported to be disjoint from every segment, itself
  included.
\<close>

theorem intersect_segments_truncates: "intersect_segments 0 (push_bit 32 k) s l = None"
proof -
  have "(ucast (push_bit 32 k) :: u32) = 0"
    by (rule bit_word_eqI) (simp add: bit_simps)
  then show ?thesis by (simp add: intersect_segments_def int_of_u64_def u64_of_int_def)
qed

text \<open>
  C24. \<open>intersect_volumes\<close> computes the intersection of two boxes of any dimensionality: it
  returns 0 only if the boxes have no point in common, and otherwise the points in both are
  those of the box returned, whose offsets relative to the two boxes give its offset and
  place it inside either box. The ends of both boxes lie below \<open>2 ^ 31\<close> in every dimension
  (\<open>box_fits\<close>): \<open>intersect_segments\<close> keeps them in \<open>int\<close> variables and is wrong for larger ones
  (\<open>intersect_segments_truncates\<close>).
\<close>

theorem intersect_volumes_correct:
  assumes "box_fits o1 d1" and "box_fits o2 d2" and "length d1 = length d2"
  shows "case intersect_volumes d1 o1 d2 o2 of
      None \<Rightarrow> \<not> (\<exists>p. in_box o1 d1 p \<and> in_box o2 d2 p)
    | Some (ds, off, r1, r2) \<Rightarrow>
        (\<forall>p. in_box o1 d1 p \<and> in_box o2 d2 p \<longleftrightarrow> in_box off ds p)
        \<and> off = vector_add o1 r1 \<and> off = vector_add o2 r2
        \<and> list_all2 (\<lambda>(r, l) d. unat r + unat l \<le> unat d) (zip r1 ds) d1
        \<and> list_all2 (\<lambda>(r, l) d. unat r + unat l \<le> unat d) (zip r2 ds) d2"
proof (cases "intersect_volumes d1 o1 d2 o2")
  case None
  with intersect_volumes_None [OF assms] show ?thesis by simp
next
  case (Some r)
  obtain ds off r1 r2 where "r = (ds, off, r1, r2)" by (cases r)
  with Some have *: "intersect_volumes d1 o1 d2 o2 = Some (ds, off, r1, r2)" by simp
  then show ?thesis using intersect_volumes_Some [OF assms *] by auto
qed

theorem intersect_volumes_correct_witness:
  "intersect_volumes [10, 10] [0, 5] [4, 20] [8, 0] = Some ([2, 10], [8, 5], [8, 0], [0, 5])
   \<and> (\<forall>p. in_box [0, 5] [10, 10] p \<and> in_box [8, 0] [4, 20] p \<longleftrightarrow> in_box [8, 5] [2, 10] p)"
proof -
  have "intersect_volumes [10, 10] [0, 5] [4, 20] [8, 0] = Some ([2, 10], [8, 5], [8, 0], [0, 5])"
    by code_simp
  with intersect_volumes_correct [of "[0, 5]" "[10, 10]" "[8, 0]" "[4, 20]"] show ?thesis by simp
qed

text \<open>
  \<open>compute_linear_offset_in_volume\<close> numbers the points of a volume: inside a volume of at
  most \<open>2 ^ 64\<close> points, it maps distinct points to distinct offsets, each below the volume.
\<close>

theorem linear_offset_injective:
  assumes "list_all2 (\<lambda>x d. x < d) p dims" and "list_all2 (\<lambda>x d. x < d) q dims"
    and "prod_list (map unat dims) < 2 ^ 64"
  shows "compute_linear_offset_in_volume p dims < compute_volume dims
    \<and> (compute_linear_offset_in_volume p dims = compute_linear_offset_in_volume q dims \<longleftrightarrow> p = q)"
proof -
  let ?d = "map unat dims"
  have in_p: "list_all2 (<) (map unat p) ?d" and in_q: "list_all2 (<) (map unat q) ?d"
    using assms(1,2) by (simp_all add: list_all2_map1 list_all2_map2 word_less_nat_alt)
  have len: "length p = length dims" "length q = length dims"
    using assms(1,2) by (auto dest: list_all2_lengthD)
  have *: "row_major ?d (map unat p) < prod_list ?d" "row_major ?d (map unat q) < prod_list ?d"
    using row_major_less [OF in_p] row_major_less [OF in_q] .
  have "(of_nat (row_major ?d (map unat p)) :: u64) = of_nat (row_major ?d (map unat q))
      \<longleftrightarrow> row_major ?d (map unat p) = row_major ?d (map unat q)"
    using * assms(3) by (intro of_nat_u64_eq) simp_all
  moreover have "map unat p = map unat q \<longleftrightarrow> p = q"
    by (metis inj_map_eq_map inj_onI unsigned_word_eqI)
  ultimately show ?thesis
    using * assms(3) row_major_inj [OF in_p in_q] len
    by (auto simp: compute_linear_offset_row_major compute_volume_prod word_less_nat_alt)
qed

theorem linear_offset_injective_witness:
  "compute_linear_offset_in_volume [1, 2] [3, 4] < compute_volume [3, 4]
   \<and> (compute_linear_offset_in_volume [1, 2] [3, 4] = compute_linear_offset_in_volume [1, 3] [3, 4]
      \<longleftrightarrow> [1, 2] = ([1, 3] :: u64 list))"
  by (rule linear_offset_injective) simp_all

end
