(* ===== verification/Copyspec.thy ===== *)
theory Copyspec
  imports Geometry
begin

text \<open>
  The copy specifications of \<open>core/adios_copyspec.c\<close>: a subvolume with its place in a source
  and in a destination volume. An array of the struct is \<open>None\<close> while it is allocated but not
  initialised.
\<close>

section \<open>Definitions\<close>

record adios_subvolume_copy_spec =
  cs_ndim :: nat
  cs_subv_dims :: "u64 list option"
  cs_dst_dims :: "u64 list option"
  cs_dst_subv_offsets :: "u64 list option"
  cs_src_dims :: "u64 list option"
  cs_src_subv_offsets :: "u64 list option"

text \<open>A null argument leaves the array as \<open>malloc\<close> returns it; others are duplicated.\<close>

definition adios_copyspec_init_from_bufs ::
  "nat \<Rightarrow> u64 list option \<Rightarrow> u64 list option \<Rightarrow> u64 list option \<Rightarrow> u64 list option
    \<Rightarrow> u64 list option \<Rightarrow> adios_subvolume_copy_spec" where
  "adios_copyspec_init_from_bufs ndim subv_dims dst_dims dst_subv_offsets src_dims src_subv_offsets =
     (let bufdup = map_option (take ndim) in
      \<lparr>cs_ndim = ndim, cs_subv_dims = bufdup subv_dims, cs_dst_dims = bufdup dst_dims,
       cs_dst_subv_offsets = bufdup dst_subv_offsets, cs_src_dims = bufdup src_dims,
       cs_src_subv_offsets = bufdup src_subv_offsets\<rparr>)"

definition adios_copyspec_init ::
  "nat \<Rightarrow> u64 list option \<Rightarrow> u64 list option \<Rightarrow> u64 list option \<Rightarrow> u64 list option
    \<Rightarrow> u64 list option \<Rightarrow> adios_errcode + adios_subvolume_copy_spec" where
  "adios_copyspec_init ndim subv_dims dst_dims dst_subv_offsets src_dims src_subv_offsets =
     (if \<not> (ndim > 0 \<and> subv_dims \<noteq> None \<and> dst_dims \<noteq> None \<and> dst_subv_offsets \<noteq> None
            \<and> src_dims \<noteq> None \<and> src_subv_offsets \<noteq> None)
      then Inl err_assertion
      else Inr \<lparr>cs_ndim = ndim, cs_subv_dims = subv_dims, cs_dst_dims = dst_dims,
             cs_dst_subv_offsets = dst_subv_offsets, cs_src_dims = src_dims,
             cs_src_subv_offsets = src_subv_offsets\<rparr>)"

text \<open>The returned flag is the \<open>int\<close> the C function returns.\<close>

definition adios_copyspec_init_from_intersection ::
  "nat \<Rightarrow> u64 list \<Rightarrow> u64 list \<Rightarrow> u64 list \<Rightarrow> u64 list \<Rightarrow> bool \<times> adios_subvolume_copy_spec" where
  "adios_copyspec_init_from_intersection ndim dst_dims dst_goffsets src_dims src_goffsets =
     (let copy_spec = adios_copyspec_init_from_bufs ndim None (Some dst_dims) None (Some src_dims) None
      in case intersect_volumes (take ndim dst_dims) (take ndim dst_goffsets)
                (take ndim src_dims) (take ndim src_goffsets) of
           Some (subv_dims, _, dst_subv_offsets, src_subv_offsets) \<Rightarrow>
             (True, copy_spec\<lparr>cs_subv_dims := Some subv_dims,
                cs_dst_subv_offsets := Some dst_subv_offsets,
                cs_src_subv_offsets := Some src_subv_offsets\<rparr>)
         | None \<Rightarrow> (False, copy_spec))"

definition adios_copyspec_init_from_bb_intersection ::
  "ADIOS_SELECTION_BOUNDINGBOX_STRUCT \<Rightarrow> u64 list \<Rightarrow> u64 list \<Rightarrow> bool \<times> adios_subvolume_copy_spec" where
  "adios_copyspec_init_from_bb_intersection dst_bb src_dims src_goffsets =
     adios_copyspec_init_from_intersection (bb_ndim dst_bb) (bb_count dst_bb) (bb_start dst_bb)
       src_dims src_goffsets"

definition adios_copyspec_init_from_2bb_intersection ::
  "ADIOS_SELECTION_BOUNDINGBOX_STRUCT \<Rightarrow> ADIOS_SELECTION_BOUNDINGBOX_STRUCT
    \<Rightarrow> adios_errcode + (bool \<times> adios_subvolume_copy_spec)" where
  "adios_copyspec_init_from_2bb_intersection dst_bb src_bb =
     (if bb_ndim dst_bb \<noteq> bb_ndim src_bb then Inl err_assertion
      else Inr (adios_copyspec_init_from_intersection (bb_ndim dst_bb)
        (bb_count dst_bb) (bb_start dst_bb) (bb_count src_bb) (bb_start src_bb)))"

definition adios_copyspec_copy :: "adios_subvolume_copy_spec \<Rightarrow> adios_subvolume_copy_spec" where
  "adios_copyspec_copy src_copy_spec =
     adios_copyspec_init_from_bufs (cs_ndim src_copy_spec) (cs_subv_dims src_copy_spec)
       (cs_dst_dims src_copy_spec) (cs_dst_subv_offsets src_copy_spec)
       (cs_src_dims src_copy_spec) (cs_src_subv_offsets src_copy_spec)"

definition adios_copyspec_dup :: "adios_subvolume_copy_spec \<Rightarrow> adios_subvolume_copy_spec" where
  "adios_copyspec_dup copy_spec = adios_copyspec_copy copy_spec"

definition adios_copyspec_shrink_dst_to_subv ::
  "adios_subvolume_copy_spec \<Rightarrow> adios_subvolume_copy_spec" where
  "adios_copyspec_shrink_dst_to_subv src_copy_spec =
     (let ndim = cs_ndim src_copy_spec in
      adios_copyspec_init_from_bufs ndim (cs_subv_dims src_copy_spec)
        (cs_subv_dims src_copy_spec) (Some (replicate ndim 0))
        (cs_src_dims src_copy_spec) (cs_src_subv_offsets src_copy_spec))"

definition adios_copyspec_shrink_src_to_subv ::
  "adios_subvolume_copy_spec \<Rightarrow> adios_subvolume_copy_spec" where
  "adios_copyspec_shrink_src_to_subv src_copy_spec =
     (let ndim = cs_ndim src_copy_spec in
      adios_copyspec_init_from_bufs ndim (cs_subv_dims src_copy_spec)
        (cs_dst_dims src_copy_spec) (cs_dst_subv_offsets src_copy_spec)
        (cs_subv_dims src_copy_spec) (Some (replicate ndim 0)))"

text \<open>The inspections read every array they need; \<open>the\<close> stands for such a read.\<close>

definition adios_copyspec_is_subvolume_src_covering :: "adios_subvolume_copy_spec \<Rightarrow> bool" where
  "adios_copyspec_is_subvolume_src_covering subv_spec =
     list_all (\<lambda>dim. \<not> (the (cs_src_subv_offsets subv_spec) ! dim \<noteq> 0
         \<or> the (cs_src_dims subv_spec) ! dim \<noteq> the (cs_subv_dims subv_spec) ! dim))
       [0..<cs_ndim subv_spec]"

definition adios_copyspec_is_subvolume_dst_covering :: "adios_subvolume_copy_spec \<Rightarrow> bool" where
  "adios_copyspec_is_subvolume_dst_covering subv_spec =
     list_all (\<lambda>dim. \<not> (the (cs_dst_subv_offsets subv_spec) ! dim \<noteq> 0
         \<or> the (cs_dst_dims subv_spec) ! dim \<noteq> the (cs_subv_dims subv_spec) ! dim))
       [0..<cs_ndim subv_spec]"

definition adios_copyspec_is_noop :: "adios_subvolume_copy_spec \<Rightarrow> bool" where
  "adios_copyspec_is_noop copy_spec =
     (let ndim = cs_ndim copy_spec;
          src_dims = take ndim (the (cs_src_dims copy_spec));
          dst_dims = take ndim (the (cs_dst_dims copy_spec));
          subv_dims = take ndim (the (cs_subv_dims copy_spec))
      in if src_dims \<noteq> dst_dims \<or> src_dims \<noteq> subv_dims then False
         else list_all (\<lambda>dim. \<not> (the (cs_dst_subv_offsets copy_spec) ! dim \<noteq> 0
                 \<or> the (cs_src_subv_offsets copy_spec) ! dim \<noteq> 0)) [0..<ndim])"

definition adios_copyspec_to_src_selection :: "adios_subvolume_copy_spec \<Rightarrow> ADIOS_SELECTION" where
  "adios_copyspec_to_src_selection copy_spec =
     Sel_boundingbox \<lparr>bb_ndim = cs_ndim copy_spec,
       bb_start = take (cs_ndim copy_spec) (the (cs_src_subv_offsets copy_spec)),
       bb_count = take (cs_ndim copy_spec) (the (cs_subv_dims copy_spec))\<rparr>"

definition adios_copyspec_to_dst_selection :: "adios_subvolume_copy_spec \<Rightarrow> ADIOS_SELECTION" where
  "adios_copyspec_to_dst_selection copy_spec =
     Sel_boundingbox \<lparr>bb_ndim = cs_ndim copy_spec,
       bb_start = take (cs_ndim copy_spec) (the (cs_dst_subv_offsets copy_spec)),
       bb_count = take (cs_ndim copy_spec) (the (cs_subv_dims copy_spec))\<rparr>"

section \<open>Well-formed copy specifications\<close>

text \<open>Every array is initialised and the subvolume lies inside both volumes.\<close>

definition fits_in :: "u64 list \<Rightarrow> u64 list \<Rightarrow> u64 list \<Rightarrow> bool" where
  "fits_in off subv dims \<longleftrightarrow>
     length off = length subv \<and> list_all2 (\<lambda>(r, l) d. unat r + unat l \<le> unat d) (zip off subv) dims"

definition mk_copyspec ::
  "u64 list \<Rightarrow> u64 list \<Rightarrow> u64 list \<Rightarrow> u64 list \<Rightarrow> u64 list \<Rightarrow> adios_subvolume_copy_spec" where
  "mk_copyspec subv dd doff sd soff =
     \<lparr>cs_ndim = length subv, cs_subv_dims = Some subv, cs_dst_dims = Some dd,
      cs_dst_subv_offsets = Some doff, cs_src_dims = Some sd, cs_src_subv_offsets = Some soff\<rparr>"

definition copyspec_wf :: "adios_subvolume_copy_spec \<Rightarrow> bool" where
  "copyspec_wf c \<longleftrightarrow>
     (\<exists>subv dd doff sd soff. c = mk_copyspec subv dd doff sd soff
        \<and> fits_in doff subv dd \<and> fits_in soff subv sd)"

lemma fits_in_length: "fits_in off subv dims \<Longrightarrow> length off = length subv \<and> length dims = length subv"
  by (auto simp: fits_in_def dest: list_all2_lengthD)

lemma fits_in_zero: "fits_in (replicate (length subv) 0) subv subv"
  by (simp add: fits_in_def list_all2_conv_all_nth)

lemma copyspec_wfE:
  assumes "copyspec_wf c"
  obtains subv dd doff sd soff where
    "c = mk_copyspec subv dd doff sd soff"
    "fits_in doff subv dd" "fits_in soff subv sd"
    "length dd = length subv" "length doff = length subv" "length sd = length subv"
    "length soff = length subv"
proof -
  from assms obtain subv dd doff sd soff where "c = mk_copyspec subv dd doff sd soff"
    "fits_in doff subv dd" "fits_in soff subv sd" unfolding copyspec_wf_def by blast
  with that show ?thesis using fits_in_length by blast
qed

text \<open>The operations on a specification whose arrays have the right length.\<close>

lemma shrink_mk:
  assumes "length dd = length subv" "length doff = length subv" "length sd = length subv"
    "length soff = length subv"
  shows "adios_copyspec_shrink_dst_to_subv (mk_copyspec subv dd doff sd soff)
      = mk_copyspec subv subv (replicate (length subv) 0) sd soff"
    and "adios_copyspec_shrink_src_to_subv (mk_copyspec subv dd doff sd soff)
      = mk_copyspec subv dd doff subv (replicate (length subv) 0)"
  using assms
  by (simp_all add: adios_copyspec_shrink_dst_to_subv_def adios_copyspec_shrink_src_to_subv_def
      adios_copyspec_init_from_bufs_def mk_copyspec_def Let_def)

lemma list_all_zero:
  "length xs = n \<Longrightarrow> list_all (\<lambda>i. xs ! i = 0) [0..<n] \<longleftrightarrow> xs = replicate n 0"
  by (simp add: list_all_iff list_eq_iff_nth_eq Ball_def)

lemma list_all_same:
  "length xs = n \<Longrightarrow> length ys = n \<Longrightarrow> list_all (\<lambda>i. xs ! i = ys ! i) [0..<n] \<longleftrightarrow> xs = ys"
  by (simp add: list_all_iff list_eq_iff_nth_eq Ball_def)

lemma list_all_both: "list_all (\<lambda>i. P i \<and> Q i) xs \<longleftrightarrow> list_all P xs \<and> list_all Q xs"
  by (induction xs) auto

lemmas list_all_arrays = list_all_zero list_all_same list_all_both

lemma covering_mk:
  assumes "length dd = length subv" "length doff = length subv" "length sd = length subv"
    "length soff = length subv"
  shows "adios_copyspec_is_subvolume_dst_covering (mk_copyspec subv dd doff sd soff)
      \<longleftrightarrow> doff = replicate (length subv) 0 \<and> dd = subv"
    and "adios_copyspec_is_subvolume_src_covering (mk_copyspec subv dd doff sd soff)
      \<longleftrightarrow> soff = replicate (length subv) 0 \<and> sd = subv"
    and "adios_copyspec_is_noop (mk_copyspec subv dd doff sd soff)
      \<longleftrightarrow> doff = replicate (length subv) 0 \<and> soff = replicate (length subv) 0 \<and> dd = subv \<and> sd = subv"
proof -
  show "adios_copyspec_is_subvolume_dst_covering (mk_copyspec subv dd doff sd soff)
      \<longleftrightarrow> doff = replicate (length subv) 0 \<and> dd = subv"
    using assms by (simp add: adios_copyspec_is_subvolume_dst_covering_def mk_copyspec_def
        list_all_arrays)
  show "adios_copyspec_is_subvolume_src_covering (mk_copyspec subv dd doff sd soff)
      \<longleftrightarrow> soff = replicate (length subv) 0 \<and> sd = subv"
    using assms by (simp add: adios_copyspec_is_subvolume_src_covering_def mk_copyspec_def
        list_all_arrays)
  show "adios_copyspec_is_noop (mk_copyspec subv dd doff sd soff)
      \<longleftrightarrow> doff = replicate (length subv) 0 \<and> soff = replicate (length subv) 0 \<and> dd = subv \<and> sd = subv"
    using assms by (auto simp: adios_copyspec_is_noop_def mk_copyspec_def Let_def list_all_arrays)
qed

lemma copyspec_wf_mk: "fits_in doff subv dd \<Longrightarrow> fits_in soff subv sd \<Longrightarrow> copyspec_wf (mk_copyspec subv dd doff sd soff)"
  unfolding copyspec_wf_def by blast

lemma copyspec_wf_copy: "copyspec_wf c \<Longrightarrow> adios_copyspec_copy c = c"
  by (elim copyspec_wfE)
    (simp add: adios_copyspec_copy_def adios_copyspec_init_from_bufs_def mk_copyspec_def)

section \<open>Properties\<close>

text \<open>
  C25. Building the copy specification of two boxes in global space, with all ends below \<open>2 ^ 31\<close>
  (\<open>box_fits\<close>; larger ones are truncated by \<open>intersect_segments\<close>), fails only when they have
  no point in common; when it succeeds, the specification is well formed (the subvolume lies inside the source and inside the destination volume), and the subvolume
  in the source and in the destination, moved by the global offsets of their volumes, is one
  and the same global box, the intersection of the two.
\<close>

theorem copyspec_from_intersection:
  assumes "box_fits dst_off dst_dims" and "box_fits src_off src_dims"
    and "length dst_dims = ndim" and "length src_dims = ndim"
    and "adios_copyspec_init_from_intersection ndim dst_dims dst_off src_dims src_off = (ok, c)"
  shows "if ok then copyspec_wf c
      \<and> new_derelativized_selection (adios_copyspec_to_src_selection c) src_off
        = new_derelativized_selection (adios_copyspec_to_dst_selection c) dst_off
      \<and> (\<exists>bb. new_derelativized_selection (adios_copyspec_to_dst_selection c) dst_off
             = Inr (Sel_boundingbox bb)
           \<and> (\<forall>p. in_box (bb_start bb) (bb_count bb) p
                \<longleftrightarrow> in_box dst_off dst_dims p \<and> in_box src_off src_dims p))
    else \<not> (\<exists>p. in_box dst_off dst_dims p \<and> in_box src_off src_dims p)"
proof -
  have len: "length dst_off = ndim" "length src_off = ndim"
    using assms(1-4) by (auto dest: box_fits_length)
  show ?thesis
  proof (cases "intersect_volumes dst_dims dst_off src_dims src_off")
    case None
    with assms intersect_volumes_None [OF assms(1,2) _ None] len show ?thesis
      by (simp add: adios_copyspec_init_from_intersection_def)
  next
    case (Some r)
    obtain ds off r1 r2 where r: "r = (ds, off, r1, r2)" by (cases r)
    note * = intersect_volumes_Some [OF assms(1,2) _ Some [unfolded r]]
    have len': "length ds = ndim" "length r1 = ndim" "length r2 = ndim"
      using * assms(3,4) by simp_all
    have c: "ok" "c = mk_copyspec ds dst_dims r1 src_dims r2"
      using assms(3-5) len len' Some r
      by (auto simp: adios_copyspec_init_from_intersection_def adios_copyspec_init_from_bufs_def
          mk_copyspec_def)
    have off: "vector_add dst_off r1 = off" "vector_add src_off r2 = off"
      using *(1) [of undefined] assms(3,4) by metis+
    have comm: "vector_add v w = vector_add w v" for v w
      unfolding vector_add_def by (rule nth_equalityI) (auto simp: add.commute)
    have "copyspec_wf c" unfolding c(2)
      using * assms(3,4) len' by (intro copyspec_wf_mk) (simp_all add: fits_in_def)
    moreover have "new_derelativized_selection (adios_copyspec_to_dst_selection c) dst_off
        = Inr (Sel_boundingbox \<lparr>bb_ndim = ndim, bb_start = off, bb_count = ds\<rparr>)"
      "new_derelativized_selection (adios_copyspec_to_src_selection c) src_off
        = Inr (Sel_boundingbox \<lparr>bb_ndim = ndim, bb_start = off, bb_count = ds\<rparr>)"
      using off len' comm [of r1 dst_off] comm [of r2 src_off]
      by (simp_all add: c new_derelativized_selection_def mk_copyspec_def
          adios_copyspec_to_src_selection_def adios_copyspec_to_dst_selection_def)
    moreover have "in_box off ds p \<longleftrightarrow> in_box dst_off dst_dims p \<and> in_box src_off src_dims p" for p
      using * assms(3,4) by simp
    ultimately show ?thesis using c(1) by simp
  qed
qed

theorem copyspec_from_intersection_witness:
  "\<exists>c. adios_copyspec_init_from_intersection 1 [10] [0] [10] [4] = (True, c) \<and> copyspec_wf c"
proof -
  obtain ok c where c: "adios_copyspec_init_from_intersection 1 [10] [0] [10] [4] = (ok, c)"
    by (cases "adios_copyspec_init_from_intersection 1 [10] [0] [10] [4]")
  have "fst (adios_copyspec_init_from_intersection 1 [10] [0] [10] [4])" by code_simp
  with c have "ok" by simp
  with c copyspec_from_intersection [OF _ _ _ _ c] show ?thesis by simp
qed

text \<open>
  A copy specification is a no-op exactly when its subvolume covers both the source and
  the destination volume.
\<close>

theorem copyspec_noop_iff_covering:
  assumes "copyspec_wf c"
  shows "adios_copyspec_is_noop c \<longleftrightarrow>
    adios_copyspec_is_subvolume_src_covering c \<and> adios_copyspec_is_subvolume_dst_covering c"
  using assms by (elim copyspec_wfE) (auto simp: covering_mk)

theorem copyspec_noop_iff_covering_witness:
  "let c = \<lparr>cs_ndim = 1, cs_subv_dims = Some [4], cs_dst_dims = Some [4],
      cs_dst_subv_offsets = Some [0], cs_src_dims = Some [4], cs_src_subv_offsets = Some [0]\<rparr>
   in adios_copyspec_is_noop c"
proof -
  let ?c = "\<lparr>cs_ndim = 1, cs_subv_dims = Some [4], cs_dst_dims = Some [4],
      cs_dst_subv_offsets = Some [0], cs_src_dims = Some [4], cs_src_subv_offsets = Some [0]\<rparr>"
  have "copyspec_wf ?c"
    using copyspec_wf_mk [of "[0]" "[4]" "[4]" "[0]" "[4]"] by (simp add: fits_in_def mk_copyspec_def)
  from copyspec_noop_iff_covering [OF this] show ?thesis
    by (simp add: adios_copyspec_is_subvolume_src_covering_def
        adios_copyspec_is_subvolume_dst_covering_def)
qed

text \<open>
  Shrinking the destination volume to the subvolume, then the source volume, keeps the
  specification well formed and makes it a no-op: the subvolume covers both volumes.
\<close>

theorem copyspec_shrink_covers:
  assumes "copyspec_wf c"
  shows "copyspec_wf (adios_copyspec_shrink_dst_to_subv c)
    \<and> adios_copyspec_is_subvolume_dst_covering (adios_copyspec_shrink_dst_to_subv c)
    \<and> copyspec_wf (adios_copyspec_shrink_src_to_subv c)
    \<and> adios_copyspec_is_subvolume_src_covering (adios_copyspec_shrink_src_to_subv c)
    \<and> adios_copyspec_is_noop
        (adios_copyspec_shrink_src_to_subv (adios_copyspec_shrink_dst_to_subv c))"
  using assms by (elim copyspec_wfE) (simp add: shrink_mk covering_mk copyspec_wf_mk fits_in_zero)

theorem copyspec_shrink_covers_witness:
  "let c = \<lparr>cs_ndim = 1, cs_subv_dims = Some [2], cs_dst_dims = Some [4],
      cs_dst_subv_offsets = Some [1], cs_src_dims = Some [9], cs_src_subv_offsets = Some [3]\<rparr>
   in adios_copyspec_is_noop (adios_copyspec_shrink_src_to_subv (adios_copyspec_shrink_dst_to_subv c))"
proof -
  have "copyspec_wf \<lparr>cs_ndim = 1, cs_subv_dims = Some [2], cs_dst_dims = Some [4],
      cs_dst_subv_offsets = Some [1], cs_src_dims = Some [9], cs_src_subv_offsets = Some [3]\<rparr>"
    using copyspec_wf_mk [of "[1]" "[2]" "[4]" "[3]" "[9]"] by (simp add: fits_in_def mk_copyspec_def)
  from copyspec_shrink_covers [OF this] show ?thesis by (simp add: Let_def)
qed

end
