(* ===== verification/Endianness.thy ===== *)
theory Endianness
  imports Adios_Types
begin

text \<open>
  The byte-order conversions of \<open>core/adios_endianness.c\<close> and \<open>change_endianness\<close> of
  \<open>core/util.c\<close>. The conversions read a value of the machine's own byte order at a
  pointer, permute its bytes with masks and shifts, and write it back.
\<close>

section \<open>Definitions\<close>

definition swap_16 :: "u16 \<Rightarrow> u16" where
  "swap_16 d = drop_bit 8 d OR push_bit 8 d"

definition swap_32 :: "u32 \<Rightarrow> u32" where
  "swap_32 d = push_bit 24 (d AND 0x000000FF)
     + push_bit 8 (d AND 0x0000FF00)
     + drop_bit 8 (d AND 0x00FF0000)
     + drop_bit 24 (d AND 0xFF000000)"

definition swap_64 :: "u64 \<Rightarrow> u64" where
  "swap_64 d = push_bit 56 (d AND 0x00000000000000FF)
     + push_bit 40 (d AND 0x000000000000FF00)
     + push_bit 24 (d AND 0x0000000000FF0000)
     + push_bit 8 (d AND 0x00000000FF000000)
     + drop_bit 8 (d AND 0x000000FF00000000)
     + drop_bit 24 (d AND 0x0000FF0000000000)
     + drop_bit 40 (d AND 0x00FF000000000000)
     + drop_bit 56 (d AND 0xFF00000000000000)"

definition swap_16_ptr :: "endian \<Rightarrow> u64 \<Rightarrow> mem \<Rightarrow> mem" where
  "swap_16_ptr e p m = store p (enc e 2 (swap_16 (dec e (load p 2 m)))) m"

definition swap_32_ptr :: "endian \<Rightarrow> u64 \<Rightarrow> mem \<Rightarrow> mem" where
  "swap_32_ptr e p m = store p (enc e 4 (swap_32 (dec e (load p 4 m)))) m"

definition swap_64_ptr :: "endian \<Rightarrow> u64 \<Rightarrow> mem \<Rightarrow> mem" where
  "swap_64_ptr e p m = store p (enc e 8 (swap_64 (dec e (load p 8 m)))) m"

text \<open>
  \<open>swap_128_ptr\<close>: swap the first half in place, swap the second half in a local, move the
  first half to the second place and write the local to the first.
\<close>

definition swap_128_ptr :: "endian \<Rightarrow> u64 \<Rightarrow> mem \<Rightarrow> mem" where
  "swap_128_ptr e p m =
     (let m1 = store p (enc e 8 (swap_64 (dec e (load p 8 m)))) m;
          d = swap_64 (dec e (load (p + 8) 8 m1));
          m2 = store (p + 8) (enc e 8 (dec e (load p 8 m1) :: u64)) m1
      in store p (enc e 8 d) m2)"

text \<open>
  \<open>swap_adios_type\<close> dispatches on the size of the type. The labels \<open>adios_complex\<close> and
  \<open>adios_double_complex\<close> of its \<open>switch (size)\<close> are the codes 10 and 11, which are no
  sizes of a type.
\<close>

definition swap_adios_type :: "endian \<Rightarrow> u64 \<Rightarrow> ADIOS_DATATYPES \<Rightarrow> mem \<Rightarrow> mem" where
  "swap_adios_type e p type m =
     (if type = adios_string then m
      else let size = adios_get_type_size type (Some '''') in
        if size = 1 then m
        else if size = 2 then swap_16_ptr e p m
        else if size = 4 then swap_32_ptr e p m
        else if size = 8 then swap_64_ptr e p m
        else if size = 16 then swap_128_ptr e p m
        else m)"

text \<open>
  \<open>swap_adios_type_array\<close>: the loop over the elements. For a string the size is that of
  the empty string, and the number of elements divides by zero: \<open>None\<close>.
\<close>

definition swap_adios_type_array ::
  "endian \<Rightarrow> u64 \<Rightarrow> ADIOS_DATATYPES \<Rightarrow> u64 \<Rightarrow> mem \<Rightarrow> mem option" where
  "swap_adios_type_array e data type payload_size m =
     (let size = adios_get_type_size type (Some '''') in
        if size = 0 then None
        else let num_elements = payload_size div size in
          Some (fold (\<lambda>i. swap_adios_type e (data + of_nat i * size) type)
                  [0..<unat num_elements] m))"

definition swap_ptr :: "endian \<Rightarrow> u64 \<Rightarrow> int \<Rightarrow> mem \<Rightarrow> mem" where
  "swap_ptr e p sz m =
     (if sz = 16 then swap_16_ptr e p m
      else if sz = 32 then swap_32_ptr e p m
      else if sz = 64 then swap_64_ptr e p m
      else if sz = 128 then swap_128_ptr e p m
      else m)"

text \<open>
  One step of the loops of \<open>change_endianness\<close>: which swaps are applied at \<open>ptr\<close> for an
  element of the type. A size that is no multiple of the element size is only logged.
\<close>

definition swap_element :: "endian \<Rightarrow> ADIOS_DATATYPES \<Rightarrow> u64 \<Rightarrow> mem \<Rightarrow> mem" where
  "swap_element e type ptr m =
     (case type of
        adios_string \<Rightarrow> m
      | adios_unknown \<Rightarrow> m
      | adios_complex \<Rightarrow> swap_32_ptr e (ptr + 4) (swap_32_ptr e ptr m)
      | adios_double_complex \<Rightarrow> swap_64_ptr e (ptr + 8) (swap_64_ptr e ptr m)
      | _ \<Rightarrow>
         (let size_of_type = bp_get_type_size type (Some '''') in
            if size_of_type = 2 then swap_16_ptr e ptr m
            else if size_of_type = 4 then swap_32_ptr e ptr m
            else if size_of_type = 8 then swap_64_ptr e ptr m
            else if size_of_type = 16 then swap_128_ptr e ptr m
            else m))"

definition change_endianness ::
  "endian \<Rightarrow> u64 \<Rightarrow> u64 \<Rightarrow> ADIOS_DATATYPES \<Rightarrow> mem \<Rightarrow> mem" where
  "change_endianness e data slice_size type m =
     (let size_of_type = u64_of_int (bp_get_type_size type (Some ''''));
          n = slice_size div size_of_type
      in fold (\<lambda>i. swap_element e type (data + of_nat i * size_of_type)) [0..<unat n] m)"

section \<open>The swaps reverse bytes\<close>

lemma and_byte_mask:
  "w AND push_bit n (mask 8) = push_bit n (ucast (ucast (drop_bit n w) :: u8))"
  for w :: "'a::len word"
  by (rule bit_word_eqI) (auto simp: bit_simps dest: bit_u8D)

lemma drop_push_byte:
  assumes "m \<le> n" "n + 8 \<le> LENGTH('a)"
  shows "drop_bit m (push_bit n (ucast (b::u8) :: 'a::len word)) = push_bit (n - m) (ucast b)"
proof (rule bit_word_eqI)
  fix k
  have "m + k - n = k - (n - m)" "n \<le> m + k \<longleftrightarrow> n - m \<le> k" using assms by auto
  then show "bit (drop_bit m (push_bit n (ucast b :: 'a word))) k
      \<longleftrightarrow> bit (push_bit (n - m) (ucast b :: 'a word)) k"
    using assms by (auto simp: bit_simps dest: bit_u8D)
qed

lemma masks_32:
  "(w::u32) AND 0xFF = ucast (ucast w :: u8)"
  "w AND 0xFF00 = push_bit 8 (ucast (ucast (drop_bit 8 w) :: u8))"
  "w AND 0xFF0000 = push_bit 16 (ucast (ucast (drop_bit 16 w) :: u8))"
  "w AND 0xFF000000 = push_bit 24 (ucast (ucast (drop_bit 24 w) :: u8))"
  using and_byte_mask [of w 0] and_byte_mask [of w 8] and_byte_mask [of w 16]
    and_byte_mask [of w 24]
  by (simp_all add: push_bit_eq_mult mask_eq_exp_minus_1)

lemma masks_64:
  "(w::u64) AND 0xFF = ucast (ucast w :: u8)"
  "w AND 0xFF00 = push_bit 8 (ucast (ucast (drop_bit 8 w) :: u8))"
  "w AND 0xFF0000 = push_bit 16 (ucast (ucast (drop_bit 16 w) :: u8))"
  "w AND 0xFF000000 = push_bit 24 (ucast (ucast (drop_bit 24 w) :: u8))"
  "w AND 0xFF00000000 = push_bit 32 (ucast (ucast (drop_bit 32 w) :: u8))"
  "w AND 0xFF0000000000 = push_bit 40 (ucast (ucast (drop_bit 40 w) :: u8))"
  "w AND 0xFF000000000000 = push_bit 48 (ucast (ucast (drop_bit 48 w) :: u8))"
  "w AND 0xFF00000000000000 = push_bit 56 (ucast (ucast (drop_bit 56 w) :: u8))"
  using and_byte_mask [of w 0] and_byte_mask [of w 8] and_byte_mask [of w 16]
    and_byte_mask [of w 24] and_byte_mask [of w 32] and_byte_mask [of w 40]
    and_byte_mask [of w 48] and_byte_mask [of w 56]
  by (simp_all add: push_bit_eq_mult mask_eq_exp_minus_1)

lemma swap_16_bytes: "swap_16 d = word_le (rev (bytes_le 2 d))"
proof -
  have "drop_bit 8 d = ucast (ucast (drop_bit 8 d) :: u8)"
    by (rule bit_word_eqI) (auto simp: bit_simps dest: bit_imp_le_length)
  moreover have "push_bit 8 d = push_bit 8 (ucast (ucast d :: u8))"
    by (rule bit_word_eqI) (auto simp: bit_simps)
  ultimately show ?thesis by (simp add: swap_16_def bytes_le_def upt_rec)
qed

lemma swap_32_bytes: "swap_32 d = word_le (rev (bytes_le 4 d))"
  unfolding swap_32_def masks_32
  by (simp add: drop_push_byte word_le_Cons_add bytes_le_def upt_rec push_bit_add
      del: word_le.simps(2))

lemma swap_64_bytes: "swap_64 d = word_le (rev (bytes_le 8 d))"
  unfolding swap_64_def masks_64
  by (simp add: drop_push_byte word_le_Cons_add bytes_le_def upt_rec push_bit_add
      del: word_le.simps(2))

lemma enc_word_le_rev:
  assumes "LENGTH('a) = 8 * length bs"
  shows "enc e (length bs) (word_le (rev (bytes_le (length bs) (dec e bs :: 'a::len word))) :: 'a word)
     = rev bs"
  using assms bytes_le_word_le [of bs, where 'a = 'a] bytes_le_word_le [of "rev bs", where 'a = 'a]
  by (cases e) (simp_all add: enc_def dec_def)

lemma swap_16_ptr_rev: "swap_16_ptr e p m = store p (rev (load p 2 m)) m"
  using enc_word_le_rev [of "load p 2 m" e, where 'a = 16]
  by (simp add: swap_16_ptr_def swap_16_bytes)

lemma swap_32_ptr_rev: "swap_32_ptr e p m = store p (rev (load p 4 m)) m"
  using enc_word_le_rev [of "load p 4 m" e, where 'a = 32]
  by (simp add: swap_32_ptr_def swap_32_bytes)

lemma swap_64_ptr_rev: "swap_64_ptr e p m = store p (rev (load p 8 m)) m"
  using enc_word_le_rev [of "load p 8 m" e, where 'a = 64]
  by (simp add: swap_64_ptr_def swap_64_bytes)

lemma load_append: "load p (a + b) m = load p a m @ load (p + of_nat a) b m"
  by (rule nth_equalityI) (auto simp: nth_append add.assoc simp flip: of_nat_add)

lemma store_append:
  assumes "length xs + length ys \<le> 2 ^ 64"
  shows "store p (xs @ ys) m = store p xs (store (p + of_nat (length xs)) ys m)"
proof
  fix x
  have *: "unat (x - (p + of_nat (length xs))) = unat (x - p) - length xs"
    if "\<not> unat (x - p) < length xs" "ys \<noteq> []"
    using that assms by (intro window_offset) (auto simp: neq_Nil_conv)
  show "store p (xs @ ys) m x = store p xs (store (p + of_nat (length xs)) ys m) x"
    using window_iff [OF assms, of x p] *
    by (cases "ys = []") (auto simp: store_def nth_append)
qed

lemma swap_128_ptr_rev: "swap_128_ptr e p m = store p (rev (load p 16 m)) m"
proof -
  let ?a = "load p 8 m" and ?b = "load (p + 8) 8 m"
  let ?m1 = "store p (rev ?a) m"
  have split: "load p 16 m = ?a @ ?b" using load_append [of p 8 8 m] by simp
  have m1: "store p (enc e 8 (swap_64 (dec e ?a))) m = ?m1"
    using swap_64_ptr_rev [of e p m] by (simp add: swap_64_ptr_def)
  have b: "load (p + 8) 8 ?m1 = ?b"
  proof (rule nth_equalityI)
    fix i assume "i < length (load (p + 8) 8 ?m1)"
    then have i: "i < 8" by simp
    then have "unat (of_nat (8 + i) :: u64) = 8 + i"
      by (intro unat_of_nat_small) simp
    then have "unat (p + 8 + of_nat i - p) = 8 + i" by simp
    with i show "load (p + 8) 8 ?m1 ! i = ?b ! i" by (simp add: store_def)
  qed simp
  have a: "load p 8 ?m1 = rev ?a" using load_store_same [of "rev ?a" p m] by simp
  have d: "enc e 8 (swap_64 (dec e ?b)) = rev ?b"
    using enc_word_le_rev [of ?b e, where 'a = 64] by (simp add: swap_64_bytes)
  have e: "enc e 8 (dec e (rev ?a) :: u64) = rev ?a"
    using enc_dec [of "rev ?a" e, where 'a = 64] by simp
  have "swap_128_ptr e p m = store p (rev ?b) (store (p + 8) (rev ?a) ?m1)"
    unfolding swap_128_ptr_def Let_def m1 b a d e ..
  also have "\<dots> = store p (rev ?b @ rev ?a) ?m1"
    using store_append [of "rev ?b" "rev ?a" p ?m1] by simp
  also have "\<dots> = store p (rev ?b @ rev ?a) m"
    by (auto simp: store_def)
  finally show ?thesis by (simp add: split)
qed

lemmas swap_ptr_rev = swap_128_ptr_rev swap_16_ptr_rev swap_32_ptr_rev swap_64_ptr_rev

section \<open>Arrays\<close>

text \<open>What \<open>change_endianness\<close> does to the bytes of one element.\<close>

definition swap_bytes :: "ADIOS_DATATYPES \<Rightarrow> u8 list \<Rightarrow> u8 list" where
  "swap_bytes type bs =
     (case type of
        adios_string \<Rightarrow> bs
      | adios_unknown \<Rightarrow> bs
      | adios_complex \<Rightarrow> rev (take 4 bs) @ rev (drop 4 bs)
      | adios_double_complex \<Rightarrow> rev (take 8 bs) @ rev (drop 8 bs)
      | _ \<Rightarrow> rev bs)"

abbreviation elem_size :: "ADIOS_DATATYPES \<Rightarrow> nat" where
  "elem_size type \<equiv> unat (bp_get_type_size type (Some ''''))"

lemma length_swap_bytes [simp]: "length (swap_bytes type bs) = length bs"
  by (cases type) (simp_all add: swap_bytes_def)

lemma swap_bytes_involution:
  "length bs = elem_size type \<Longrightarrow> swap_bytes type (swap_bytes type bs) = bs"
  by (cases type) (simp_all add: swap_bytes_def)

lemma swap_halves:
  assumes "n \<le> 8"
  shows "store (p + of_nat n) (rev (load (p + of_nat n) n (store p (rev (load p n m)) m)))
      (store p (rev (load p n m)) m)
    = store p (rev (take n (load p (n + n) m)) @ rev (drop n (load p (n + n) m))) m"
proof -
  let ?a = "load p n m" and ?b = "load (p + of_nat n) n m"
  let ?m1 = "store p (rev ?a) m"
  have b: "load (p + of_nat n) n ?m1 = ?b"
  proof (rule nth_equalityI)
    fix i assume "i < length (load (p + of_nat n) n ?m1)"
    then have i: "i < n" by simp
    then have "unat (of_nat (n + i) :: u64) = n + i"
      using assms by (intro unat_of_nat_small) simp
    then have "unat (p + of_nat n + of_nat i - p) = n + i" by simp
    with i show "load (p + of_nat n) n ?m1 ! i = ?b ! i" by (simp add: store_def)
  qed simp
  have "store (p + of_nat n) (rev ?b) ?m1 = store p (rev ?a) (store (p + of_nat n) (rev ?b) m)"
  proof
    fix x
    have le: "n + n \<le> 2 ^ 64" using assms by simp
    show "store (p + of_nat n) (rev ?b) ?m1 x
        = store p (rev ?a) (store (p + of_nat n) (rev ?b) m) x"
      using window_iff [OF le, of x p] by (auto simp: store_def)
  qed
  also have "\<dots> = store p (rev ?a @ rev ?b) m"
    using store_append [of "rev ?a" "rev ?b" p m] assms by simp
  finally show ?thesis by (simp add: b load_append)
qed

lemma store_byte_id: "store p [m p] m = m"
proof
  fix x
  have "x = p" if "unat (x - p) = 0" using that by (simp add: unat_eq_0)
  then show "store p [m p] m x = m x" by (auto simp: store_def)
qed

lemma swap_element_store:
  assumes "type \<noteq> adios_unknown"
  shows "swap_element e type p m = store p (swap_bytes type (load p (elem_size type) m)) m"
proof -
  have one: "load p (Suc 0) m = [m p]" by (simp add: load_def)
  show ?thesis
    using assms swap_halves [of 4 p m] swap_halves [of 8 p m]
    by (cases type)
      (simp_all add: swap_element_def swap_bytes_def swap_ptr_rev one store_byte_id)
qed

lemma elem_size_pos: "type \<noteq> adios_unknown \<Longrightarrow> 0 < elem_size type \<and> elem_size type \<le> 16"
  by (cases type) simp_all

lemma u64_elem_size:
  "type \<noteq> adios_unknown \<Longrightarrow> u64_of_int (bp_get_type_size type (Some '''')) = of_nat (elem_size type)"
  by (cases type) (simp_all add: u64_of_int_def)

lemma change_endianness_map_elems:
  assumes "type \<noteq> adios_unknown"
  shows "change_endianness e p sz type m =
     map_elems (swap_bytes type) p (elem_size type) (unat sz div elem_size type) m"
proof -
  have "unat (of_nat (elem_size type) :: u64) = elem_size type"
    using elem_size_pos [OF assms] by (intro unat_of_nat_small) simp
  then have "unat (sz div of_nat (elem_size type)) = unat sz div elem_size type"
    by (simp add: unat_div)
  moreover have "swap_element e type =
      (\<lambda>p m. store p (swap_bytes type (load p (elem_size type) m)) m)"
    by (intro ext swap_element_store [OF assms])
  ultimately show ?thesis
    by (simp add: change_endianness_def map_elems_def u64_elem_size [OF assms] Let_def)
qed

lemma array_fits: "unat (sz::u64) div k * k \<le> 2 ^ 64"
  using div_times_less_eq_dividend [of "unat sz" k] unat_u64_less [of sz] by linarith

lemma change_endianness_unknown: "change_endianness e p sz adios_unknown m = m"
proof -
  have "fold (\<lambda>i. swap_element e adios_unknown (g i)) xs m = m" for g :: "nat \<Rightarrow> u64" and xs
    by (induction xs) (simp_all add: swap_element_def)
  then show ?thesis by (simp add: change_endianness_def Let_def)
qed

lemma map_elems_involution:
  assumes len: "\<And>bs. length bs = sz \<Longrightarrow> length (f bs) = sz"
    and inv: "\<And>bs. length bs = sz \<Longrightarrow> f (f bs) = bs"
    and n: "n * sz \<le> 2 ^ 64"
  shows "map_elems f p sz n (map_elems f p sz n m) = m"
proof
  fix x
  let ?k = "unat (x - p)"
  let ?q = "p + of_nat (?k div sz * sz)"
  show "map_elems f p sz n (map_elems f p sz n m) x = m x"
  proof (cases "?k < n * sz")
    case False
    then show ?thesis by (simp add: map_elems_apply [OF len n])
  next
    case True
    then have sz: "0 < sz" by (cases sz) auto
    have "load ?q sz (map_elems f p sz n m) = f (load ?q sz m)"
    proof (rule nth_equalityI)
      fix i assume "i < length (load ?q sz (map_elems f p sz n m))"
      then have i: "i < sz" by simp
      have "?k div sz < n" using True by (simp add: less_mult_imp_div_less)
      then have "?k div sz * sz + i < n * sz" using i by (rule radix_less)
      moreover from this have "unat (of_nat (?k div sz * sz + i) :: u64) = ?k div sz * sz + i"
        using n by (intro unat_of_nat_small) simp
      then have "unat (?q + of_nat i - p) = ?k div sz * sz + i" by simp
      ultimately show "load ?q sz (map_elems f p sz n m) ! i = f (load ?q sz m) ! i"
        using i by (simp add: map_elems_apply [OF len n])
    qed (simp add: len)
    moreover have "?q + of_nat (?k mod sz) = x"
    proof -
      have "?q + of_nat (?k mod sz) = p + of_nat (?k div sz * sz + ?k mod sz)"
        by (simp only: of_nat_add add.assoc)
      also have "\<dots> = p + of_nat ?k" by (simp only: div_mult_mod_eq)
      also have "\<dots> = x" by simp
      finally show ?thesis .
    qed
    ultimately show ?thesis
      using True sz by (simp add: map_elems_apply [OF len n] inv)
  qed
qed

section \<open>Correctness\<close>

lemma load_change_endianness:
  assumes "type \<noteq> adios_unknown" and i: "i < unat sz div elem_size type"
  shows "load (p + of_nat (i * elem_size type)) (elem_size type) (change_endianness e p sz type m)
    = swap_bytes type (load (p + of_nat (i * elem_size type)) (elem_size type) m)"
proof (rule nth_equalityI)
  let ?k = "elem_size type" and ?n = "unat sz div elem_size type"
  fix j assume "j < length (load (p + of_nat (i * ?k)) ?k (change_endianness e p sz type m))"
  then have j: "j < ?k" by simp
  then have "i * ?k + j < ?n * ?k" using i by (intro radix_less)
  moreover from this have "unat (of_nat (i * ?k + j) :: u64) = i * ?k + j"
    using array_fits [of sz ?k] by (intro unat_of_nat_small) simp
  then have "unat (p + of_nat (i * ?k) + of_nat j - p) = i * ?k + j" by simp
  moreover have "(i * ?k + j) div ?k = i" "(i * ?k + j) mod ?k = j" using j by simp_all
  ultimately show "load (p + of_nat (i * ?k)) ?k (change_endianness e p sz type m) ! j
      = swap_bytes type (load (p + of_nat (i * ?k)) ?k m) ! j"
    using j by (simp add: change_endianness_map_elems [OF assms(1)]
        map_elems_apply [OF _ array_fits] del: of_nat_add of_nat_mult)
qed simp

text \<open>
  C29. \<open>change_endianness\<close> applied twice restores the memory: for every data type (complex
  numbers, whose parts are converted separately, and strings included), every pointer and
  every size in bytes, also one that is no multiple of the element size.
\<close>

theorem change_endianness_involution:
  "change_endianness e p sz type (change_endianness e p sz type m) = m"
proof (cases "type = adios_unknown")
  case True
  then show ?thesis by (simp add: change_endianness_unknown)
next
  case False
  then show ?thesis
    by (simp add: change_endianness_map_elems
        map_elems_involution [OF _ swap_bytes_involution array_fits])
qed

definition opposite :: "endian \<Rightarrow> endian" where
  "opposite e = (case e of Little \<Rightarrow> Big | Big \<Rightarrow> Little)"

lemma dec_rev_opposite: "dec e (rev bs) = (dec (opposite e) bs :: 'a::len word)"
  by (cases e) (simp_all add: dec_rev opposite_def)

text \<open>
  C30. \<open>change_endianness\<close> converts every element of an integer or real array from the other
  machine's byte order: the value a host reads from the converted element is the value the
  host of the other byte order wrote, element by element, for each element width the format
  has.
\<close>

theorem change_endianness_reads_foreign:
  assumes "type \<in> {adios_short, adios_unsigned_short, adios_integer, adios_unsigned_integer,
      adios_long, adios_unsigned_long, adios_real, adios_double, adios_long_double}"
    and "i < unat sz div elem_size type"
  shows "dec e (load (p + of_nat (i * elem_size type)) (elem_size type)
        (change_endianness e p sz type m))
    = (dec (opposite e) (load (p + of_nat (i * elem_size type)) (elem_size type) m) :: 'a::len word)"
proof -
  have "type \<noteq> adios_unknown" and "swap_bytes type bs = rev bs" for bs
    using assms(1) by (auto simp: swap_bytes_def)
  then show ?thesis
    using assms(2) by (simp add: load_change_endianness dec_rev_opposite del: of_nat_mult)
qed

theorem change_endianness_reads_foreign_witness:
  "dec Little (load (100 + of_nat (1 * elem_size adios_integer)) (elem_size adios_integer)
        (change_endianness Little 100 12 adios_integer (\<lambda>a. ucast a)))
    = (dec (opposite Little) (load (100 + of_nat (1 * elem_size adios_integer))
        (elem_size adios_integer) (\<lambda>a. ucast a)) :: u32)"
  by (rule change_endianness_reads_foreign) simp_all

text \<open>
  \<open>swap_adios_type\<close> agrees with \<open>change_endianness\<close> on one element of every type except
  the two complex types.
\<close>

theorem swap_adios_type_eq_change_endianness:
  assumes "type \<notin> {adios_complex, adios_double_complex, adios_string, adios_unknown}"
  shows "swap_adios_type e p type m = change_endianness e p (of_nat (elem_size type)) type m"
proof -
  have "unat (of_nat (elem_size type) :: u64) div elem_size type = 1"
    using assms by (cases type) simp_all
  then have "change_endianness e p (of_nat (elem_size type)) type m = swap_element e type p m"
    using assms by (simp add: change_endianness_map_elems swap_element_store map_elems_def)
  also have "\<dots> = swap_adios_type e p type m"
    using assms by (cases type) (simp_all add: swap_adios_type_def swap_element_def)
  finally show ?thesis by simp
qed

theorem swap_adios_type_eq_change_endianness_witness:
  "swap_adios_type Big 8 adios_double (\<lambda>a. ucast a)
     = change_endianness Big 8 (of_nat (elem_size adios_double)) adios_double (\<lambda>a. ucast a)"
  by (rule swap_adios_type_eq_change_endianness) simp

text \<open>
  For a complex number \<open>swap_adios_type\<close> reverses all eight bytes at once: besides
  converting the two floats it exchanges the real and the imaginary part. The converted real
  part is the reversed imaginary part and the other way round, while \<open>change_endianness\<close>
  keeps each part in its place.
\<close>

theorem swap_adios_type_complex_exchanges_parts:
  "load p 4 (swap_adios_type e p adios_complex m) = rev (load (p + 4) 4 m)
   \<and> load (p + 4) 4 (swap_adios_type e p adios_complex m) = rev (load p 4 m)
   \<and> load p 8 (change_endianness e p 8 adios_complex m)
       = rev (load p 4 m) @ rev (load (p + 4) 4 m)"
proof -
  let ?a = "load p 4 m" and ?b = "load (p + 4) 4 m"
  have split: "load p 8 x = load p 4 x @ load (p + 4) 4 x" for x
    using load_append [of p 4 4 x] by simp
  have "load p 8 (swap_64_ptr e p m) = rev (load p 8 m)"
    using load_store_same [of "rev (load p 8 m)" p m] by (simp add: swap_64_ptr_rev)
  then have "load p 4 (swap_64_ptr e p m) @ load (p + 4) 4 (swap_64_ptr e p m)
      = rev ?b @ rev ?a"
    by (simp add: split)
  moreover have "load p 8 (change_endianness e p 8 adios_complex m)
      = swap_bytes adios_complex (load p 8 m)"
    using load_change_endianness [of adios_complex 0 8 p e m] by simp
  ultimately show ?thesis
    by (simp add: swap_adios_type_def swap_bytes_def split)
qed

end
