(* ===== verification/Subvolume.thy ===== *)
theory Subvolume
  imports Copyspec Endianness
begin

text \<open>
  The copy of a subvolume between two multi-dimensional arrays in memory
  (\<open>core/adios_subvolume.c\<close>), with its two optimisations: the trailing dimensions along which
  subvolume, source and destination coincide are collapsed into one block copy, and the byte
  order of a block is converted in one pass. Memory is one byte-addressed store for source
  and destination. Where the C code has undefined behaviour the result is \<open>None\<close>, with one
  exception: a \<open>memcpy\<close> whose blocks overlap is undefined in C and is given the behaviour of
  \<open>memmove\<close> here. No block overlaps in C1 and C28; C2 also covers overlapping buffers, under
  this reading.
\<close>

section \<open>Definitions\<close>

text \<open>
  The loop \<open>for (i = 0; i < n; i++) { f (dst, src); src += src_stride; dst += dst_stride; }\<close>.
\<close>

primrec stride_loop ::
  "nat \<Rightarrow> (u64 \<Rightarrow> u64 \<Rightarrow> mem \<Rightarrow> mem option) \<Rightarrow> u64 \<Rightarrow> u64 \<Rightarrow> u64 \<Rightarrow> u64 \<Rightarrow> mem \<Rightarrow> mem option" where
  "stride_loop 0 f dst_stride src_stride dst src m = Some m"
| "stride_loop (Suc n) f dst_stride src_stride dst src m =
     (case f dst src m of
        None \<Rightarrow> None
      | Some m' \<Rightarrow> stride_loop n f dst_stride src_stride (dst + dst_stride) (src + src_stride) m')"

definition copy_block ::
  "endian \<Rightarrow> ADIOS_DATATYPES \<Rightarrow> bool \<Rightarrow> u64 \<Rightarrow> u64 \<Rightarrow> u64 \<Rightarrow> mem \<Rightarrow> mem" where
  "copy_block e buftype swap_endianness n dst src m =
     (let m1 = memcpy dst src (unat n) m
      in if swap_endianness then change_endianness e dst n buftype m1 else m1)"

text \<open>
  \<open>copy_subvolume_helper\<close>; the number of dimensions is the length of the first list. The loop
  counter is an \<open>int\<close>: counting to \<open>2 ^ 31\<close> or beyond overflows it.
\<close>

fun copy_subvolume_helper ::
  "endian \<Rightarrow> ADIOS_DATATYPES \<Rightarrow> bool \<Rightarrow> u64 list \<Rightarrow> u64 list \<Rightarrow> u64 list
    \<Rightarrow> u64 \<Rightarrow> u64 \<Rightarrow> mem \<Rightarrow> mem option" where
  "copy_subvolume_helper e buftype swap [d] dst_strides src_strides dst src m =
     Some (copy_block e buftype swap d dst src m)"
| "copy_subvolume_helper e buftype swap (d # d' # ds) (dst_stride # dst_strides)
       (src_stride # src_strides) dst src m =
     (if unat d \<ge> 2 ^ 31 then None
      else stride_loop (unat d)
        (copy_subvolume_helper e buftype swap (d' # ds) dst_strides src_strides)
        dst_stride src_stride dst src m)"
| "copy_subvolume_helper _ _ _ _ _ _ _ _ _ = None"

text \<open>The index of the last dimension along which the three volumes do not coincide.\<close>

definition last_noncovering_dim ::
  "u64 list \<Rightarrow> u64 list \<Rightarrow> u64 list \<Rightarrow> u64 list \<Rightarrow> u64 list \<Rightarrow> nat" where
  "last_noncovering_dim subv_dims dst_dims dst_subv_offsets src_dims src_subv_offsets =
     fold (\<lambda>i last.
         if src_subv_offsets ! i \<noteq> 0 \<or> dst_subv_offsets ! i \<noteq> 0
            \<or> subv_dims ! i \<noteq> src_dims ! i \<or> subv_dims ! i \<noteq> dst_dims ! i
         then i else last)
       [0..<length subv_dims] 0"

text \<open>The strides of the dimensions, computed from the last dimension to the first.\<close>

definition compute_strides :: "u64 \<Rightarrow> u64 list \<Rightarrow> u64 list" where
  "compute_strides type_size dims =
     snd (foldr (\<lambda>d (volume, strides). (volume * d, volume # strides)) dims (type_size, []))"

definition compute_start_offset :: "u64 list \<Rightarrow> u64 list \<Rightarrow> u64" where
  "compute_start_offset offsets strides =
     fold (\<lambda>(off, stride) acc. acc + off * stride) (zip offsets strides) 0"

definition copy_subvolume_ragged_offset ::
  "endian \<Rightarrow> u64 \<Rightarrow> u64 \<Rightarrow> u64 list \<Rightarrow> u64 list \<Rightarrow> u64 list \<Rightarrow> u64 \<Rightarrow> u64 list \<Rightarrow> u64 list \<Rightarrow> u64
    \<Rightarrow> ADIOS_DATATYPES \<Rightarrow> ADIOS_FLAG \<Rightarrow> mem \<Rightarrow> mem option" where
  "copy_subvolume_ragged_offset e dst src subv_dims dst_dims dst_subv_offsets dst_ragged_offset
       src_dims src_subv_offsets src_ragged_offset datum_type swap_endianness m =
     (if length subv_dims = 0 \<or> length subv_dims > 32 then None
      else
        let type_size = u64_of_int (int_of_u64 (adios_get_type_size datum_type None));
            k = last_noncovering_dim subv_dims dst_dims dst_subv_offsets src_dims src_subv_offsets;
            contig_dims_volume = fold (\<lambda>d v. v * d) (drop k subv_dims) 1 * type_size;
            src_strides = compute_strides type_size src_dims;
            dst_strides = compute_strides type_size dst_dims;
            src_offset = compute_start_offset src_subv_offsets src_strides
                           - src_ragged_offset * type_size;
            dst_offset = compute_start_offset dst_subv_offsets dst_strides
                           - dst_ragged_offset * type_size
        in copy_subvolume_helper e datum_type (swap_endianness = adios_flag_yes)
             (take (k + 1) (subv_dims[k := contig_dims_volume])) dst_strides src_strides
             (dst + dst_offset) (src + src_offset) m)"

definition copy_subvolume_ragged ::
  "endian \<Rightarrow> u64 \<Rightarrow> u64 \<Rightarrow> u64 list \<Rightarrow> u64 list \<Rightarrow> u64 list \<Rightarrow> u64 list option \<Rightarrow> u64 list \<Rightarrow> u64 list
    \<Rightarrow> u64 list option \<Rightarrow> ADIOS_DATATYPES \<Rightarrow> ADIOS_FLAG \<Rightarrow> mem \<Rightarrow> mem option" where
  "copy_subvolume_ragged e dst src subv_dims dst_dims dst_subv_offsets dst_ragged_offsets
       src_dims src_subv_offsets src_ragged_offsets datum_type swap_endianness m =
     (let total_src_ragged_offset =
            (case src_ragged_offsets of None \<Rightarrow> 0 | Some r \<Rightarrow> compute_linear_offset_in_volume r src_dims);
          total_dst_ragged_offset =
            (case dst_ragged_offsets of None \<Rightarrow> 0 | Some r \<Rightarrow> compute_linear_offset_in_volume r dst_dims)
      in copy_subvolume_ragged_offset e dst src subv_dims dst_dims dst_subv_offsets
           total_dst_ragged_offset src_dims src_subv_offsets total_src_ragged_offset
           datum_type swap_endianness m)"

definition copy_subvolume ::
  "endian \<Rightarrow> u64 \<Rightarrow> u64 \<Rightarrow> u64 list \<Rightarrow> u64 list \<Rightarrow> u64 list \<Rightarrow> u64 list \<Rightarrow> u64 list
    \<Rightarrow> ADIOS_DATATYPES \<Rightarrow> ADIOS_FLAG \<Rightarrow> mem \<Rightarrow> mem option" where
  "copy_subvolume e dst src subv_dims dst_dims dst_subv_offsets src_dims src_subv_offsets
       datum_type swap_endianness m =
     copy_subvolume_ragged e dst src subv_dims dst_dims dst_subv_offsets None
       src_dims src_subv_offsets None datum_type swap_endianness m"

definition copy_subvolume_with_spec ::
  "endian \<Rightarrow> u64 \<Rightarrow> u64 \<Rightarrow> adios_subvolume_copy_spec \<Rightarrow> ADIOS_DATATYPES \<Rightarrow> ADIOS_FLAG \<Rightarrow> mem
    \<Rightarrow> mem option" where
  "copy_subvolume_with_spec e dst src copy_spec datum_type swap_endianness m =
     copy_subvolume e dst src (the (cs_subv_dims copy_spec))
       (the (cs_dst_dims copy_spec)) (the (cs_dst_subv_offsets copy_spec))
       (the (cs_src_dims copy_spec)) (the (cs_src_subv_offsets copy_spec))
       datum_type swap_endianness m"

definition copy_subvolume_ragged_with_spec ::
  "endian \<Rightarrow> u64 \<Rightarrow> u64 \<Rightarrow> adios_subvolume_copy_spec \<Rightarrow> u64 list option \<Rightarrow> u64 list option
    \<Rightarrow> ADIOS_DATATYPES \<Rightarrow> ADIOS_FLAG \<Rightarrow> mem \<Rightarrow> mem option" where
  "copy_subvolume_ragged_with_spec e dst src copy_spec dst_ragged_offsets src_ragged_offsets
       datum_type swap_endianness m =
     copy_subvolume_ragged e dst src (the (cs_subv_dims copy_spec))
       (the (cs_dst_dims copy_spec)) (the (cs_dst_subv_offsets copy_spec)) dst_ragged_offsets
       (the (cs_src_dims copy_spec)) (the (cs_src_subv_offsets copy_spec)) src_ragged_offsets
       datum_type swap_endianness m"

definition copy_subvolume_ragged_offset_with_spec ::
  "endian \<Rightarrow> u64 \<Rightarrow> u64 \<Rightarrow> adios_subvolume_copy_spec \<Rightarrow> u64 \<Rightarrow> u64
    \<Rightarrow> ADIOS_DATATYPES \<Rightarrow> ADIOS_FLAG \<Rightarrow> mem \<Rightarrow> mem option" where
  "copy_subvolume_ragged_offset_with_spec e dst src copy_spec dst_ragged_offset src_ragged_offset
       datum_type swap_endianness m =
     copy_subvolume_ragged_offset e dst src (the (cs_subv_dims copy_spec))
       (the (cs_dst_dims copy_spec)) (the (cs_dst_subv_offsets copy_spec)) dst_ragged_offset
       (the (cs_src_dims copy_spec)) (the (cs_src_subv_offsets copy_spec)) src_ragged_offset
       datum_type swap_endianness m"

text \<open>
  \<open>compact_subvolume_ragged_offset\<close>, which moves a subvolume to the front of its own buffer.
  Its assertion adds in \<open>uint64_t\<close>.
\<close>

definition compact_subvolume_ragged_offset ::
  "endian \<Rightarrow> u64 \<Rightarrow> u64 list \<Rightarrow> u64 list \<Rightarrow> u64 \<Rightarrow> u64 list \<Rightarrow> ADIOS_DATATYPES \<Rightarrow> mem
    \<Rightarrow> adios_errcode + mem option" where
  "compact_subvolume_ragged_offset e buf subv_dims buf_dims buf_ragged_offset buf_subv_offsets
       elem_type m =
     (let ndim = length subv_dims in
      if \<not> list_all (\<lambda>i. buf_dims ! i \<ge> subv_dims ! i + buf_subv_offsets ! i) [0..<ndim]
      then Inl err_assertion
      else case adios_copyspec_init ndim (Some subv_dims) (Some subv_dims) (Some (replicate ndim 0))
             (Some buf_dims) (Some buf_subv_offsets) of
          Inl err \<Rightarrow> Inl err
        | Inr compact_copyspec \<Rightarrow>
            Inr (if \<not> adios_copyspec_is_noop compact_copyspec
                 then copy_subvolume_ragged_offset_with_spec e buf buf compact_copyspec
                   0 buf_ragged_offset elem_type adios_flag_no m
                 else Some m))"

section \<open>Copies element by element\<close>

text \<open>
  The specification: a list of moves, each from a source to a destination address, done one
  element at a time, with its bytes exchanged if asked for.
\<close>

definition elem_fun :: "ADIOS_DATATYPES \<Rightarrow> bool \<Rightarrow> u8 list \<Rightarrow> u8 list" where
  "elem_fun type swap bs = (if swap then swap_bytes type bs else bs)"

definition elem_copy :: "ADIOS_DATATYPES \<Rightarrow> bool \<Rightarrow> u64 \<times> u64 \<Rightarrow> mem \<Rightarrow> mem" where
  "elem_copy type swap mv m =
     store (fst mv) (elem_fun type swap (load (snd mv) (elem_size type) m)) m"

abbreviation sized_type :: "ADIOS_DATATYPES \<Rightarrow> bool" where
  "sized_type type \<equiv> type \<noteq> adios_string \<and> type \<noteq> adios_unknown"

text \<open>Two blocks of \<open>k\<close> bytes without a common address.\<close>

definition apart :: "nat \<Rightarrow> u64 \<Rightarrow> u64 \<Rightarrow> bool" where
  "apart k d s \<longleftrightarrow> (\<forall>u < k. \<forall>v < k. d + of_nat u \<noteq> s + of_nat v)"

lemma apartD: "apart k d s \<Longrightarrow> u < k \<Longrightarrow> v < k \<Longrightarrow> d + of_nat u \<noteq> s + of_nat v"
  by (simp add: apart_def)

text \<open>No move writes what a later move reads.\<close>

abbreviation in_order :: "nat \<Rightarrow> (u64 \<times> u64) list \<Rightarrow> bool" where
  "in_order k mvs \<equiv> sorted_wrt (\<lambda>x y. apart k (fst x) (snd y)) mvs"

lemma length_elem_fun [simp]: "length (elem_fun type swap bs) = length bs"
  by (simp add: elem_fun_def)

lemma elem_size_small: "type \<noteq> adios_unknown \<Longrightarrow> 0 < elem_size type \<and> elem_size type \<le> 16"
  by (cases type) simp_all

lemma type_size_elem_size:
  "sized_type type \<Longrightarrow> u64_of_int (int_of_u64 (adios_get_type_size type None)) = of_nat (elem_size type)"
  by (cases type) (simp_all add: u64_of_int_of_u64)

lemma window_memE:
  fixes x D :: u64
  assumes "unat (x - D) < n * k"
  obtains j u where "j < n" "u < k" "x = D + of_nat (j * k) + of_nat u"
proof
  show "unat (x - D) div k < n" using assms by (simp add: less_mult_imp_div_less)
  have "k \<noteq> 0" using assms by (cases k) auto
  then show "unat (x - D) mod k < k" by simp
  have "x = D + of_nat (unat (x - D))" by simp
  also have "unat (x - D) = unat (x - D) div k * k + unat (x - D) mod k" by simp
  finally show "x = D + of_nat (unat (x - D) div k * k) + of_nat (unat (x - D) mod k)"
    by (simp only: of_nat_add add.assoc)
qed

lemma unat_window_byte:
  fixes D :: u64
  assumes "j < n" "u < k" "n * k \<le> 2 ^ 64"
  shows "unat (D + of_nat (j * k) + of_nat u - D) = j * k + u"
proof -
  have "j * k + u < 2 ^ 64" using radix_less [OF assms(1,2)] assms(3) by simp
  then have "unat (of_nat (j * k + u) :: u64) = j * k + u" by (intro unat_of_nat_small) simp
  moreover have "D + of_nat (j * k) + of_nat u - D = (of_nat (j * k + u) :: u64)" by simp
  ultimately show ?thesis by simp
qed

text \<open>The moves of a contiguous block, in order, and what they leave in memory.\<close>

definition block_moves :: "nat \<Rightarrow> u64 \<Rightarrow> u64 \<Rightarrow> nat \<Rightarrow> (u64 \<times> u64) list" where
  "block_moves k D S n = map (\<lambda>i. (D + of_nat (i * k), S + of_nat (i * k))) [0..<n]"

lemma block_moves_Suc: "block_moves k D S (Suc n) = block_moves k D S n @ [(D + of_nat (n * k), S + of_nat (n * k))]"
  by (simp add: block_moves_def)

definition block_result ::
  "(u8 list \<Rightarrow> u8 list) \<Rightarrow> nat \<Rightarrow> u64 \<Rightarrow> u64 \<Rightarrow> nat \<Rightarrow> mem \<Rightarrow> mem" where
  "block_result f k D S n m x =
     (if unat (x - D) < n * k
      then f (load (S + of_nat (unat (x - D) div k * k)) k m) ! (unat (x - D) mod k) else m x)"

lemma fold_block_moves:
  assumes "n * elem_size type \<le> 2 ^ 64" and "type \<noteq> adios_unknown"
    and "in_order (elem_size type) (block_moves (elem_size type) D S n)"
  shows "fold (elem_copy type swap) (block_moves (elem_size type) D S n) m
    = block_result (elem_fun type swap) (elem_size type) D S n m"
  using assms(1,3)
proof (induction n)
  case 0
  then show ?case by (simp add: block_moves_def block_result_def fun_eq_iff)
next
  case (Suc n)
  let ?k = "elem_size type" and ?f = "elem_fun type swap"
  let ?D = "D + of_nat (n * ?k) :: u64" and ?S = "S + of_nat (n * ?k) :: u64"
  let ?m = "block_result ?f ?k D S n m"
  have k: "0 < ?k" using elem_size_small [OF assms(2)] by simp
  have le: "n * ?k + ?k \<le> 2 ^ 64" using Suc.prems(1) by (simp add: add.commute)
  have order: "in_order ?k (block_moves ?k D S n)"
      "\<forall>mv \<in> set (block_moves ?k D S n). apart ?k (fst mv) ?S"
    using Suc.prems(2) by (auto simp: block_moves_Suc sorted_wrt_append)
  have load: "load ?S ?k ?m = load ?S ?k m"
  proof (rule nth_equalityI)
    fix v assume "v < length (load ?S ?k ?m)"
    then have v: "v < ?k" by simp
    have "\<not> unat (?S + of_nat v - D) < n * ?k"
    proof
      assume "unat (?S + of_nat v - D) < n * ?k"
      then obtain j u where ju: "j < n" "u < ?k" "?S + of_nat v = D + of_nat (j * ?k) + of_nat u"
        by (rule window_memE)
      then have "apart ?k (D + of_nat (j * ?k)) ?S"
        using order(2) by (auto simp: block_moves_def)
      from apartD [OF this ju(2) v] ju(3) [symmetric] show False by (rule notE)
    qed
    with v show "load ?S ?k ?m ! v = load ?S ?k m ! v" by (simp add: block_result_def)
  qed simp
  have step: "fold (elem_copy type swap) (block_moves ?k D S (Suc n)) m = store ?D (?f (load ?S ?k m)) ?m"
  proof -
    have "fold (elem_copy type swap) (block_moves ?k D S n) m = ?m"
      by (rule Suc.IH [OF _ order(1)]) (use le in simp)
    then have "fold (elem_copy type swap) (block_moves ?k D S (Suc n)) m = elem_copy type swap (?D, ?S) ?m"
      by (simp add: block_moves_Suc)
    also have "\<dots> = store ?D (?f (load ?S ?k m)) ?m" by (simp only: elem_copy_def fst_conv snd_conv load)
    finally show ?thesis .
  qed
  show ?case
  proof
    fix x
    show "fold (elem_copy type swap) (block_moves ?k D S (Suc n)) m x = block_result ?f ?k D S (Suc n) m x"
    proof (cases "unat (x - ?D) < ?k")
      case True
      then have w: "n * ?k \<le> unat (x - D)" "unat (x - D) < n * ?k + ?k"
        using window_iff [OF le, of x D] by auto
      have off: "unat (x - ?D) = unat (x - D) - n * ?k"
        using w le k by (intro window_offset) auto
      have "unat (x - D) div ?k = n" using w by (intro div_nat_eqI) (simp_all add: mult.commute)
      moreover from this have "unat (x - D) mod ?k = unat (x - D) - n * ?k"
        by (simp add: minus_div_mult_eq_mod [symmetric])
      ultimately show ?thesis
        using w off True by (simp add: step store_def block_result_def add.commute)
    next
      case False
      then have "\<not> (n * ?k \<le> unat (x - D) \<and> unat (x - D) < n * ?k + ?k)"
        using window_iff [OF le, of x D] by simp
      then show ?thesis using False by (auto simp: step store_def block_result_def add.commute)
    qed
  qed
qed

text \<open>A block copy with one pass of byte swapping leaves the same memory.\<close>

lemma copy_block_result:
  assumes "type \<noteq> adios_unknown" and N: "unat N = n * elem_size type"
  shows "copy_block e type swap N D S m = block_result (elem_fun type swap) (elem_size type) D S n m"
proof
  fix x
  let ?k = "elem_size type"
  have k: "0 < ?k" using elem_size_small [OF assms(1)] by simp
  have le: "n * ?k \<le> 2 ^ 64" using N unat_u64_less [of N] by simp
  let ?m = "memcpy D S (n * ?k) m"
  have m: "?m y = (if unat (y - D) < n * ?k then m (S + of_nat (unat (y - D))) else m y)" for y
    by (simp add: memcpy_def store_def)
  have load: "load (D + of_nat (q * ?k)) ?k ?m = load (S + of_nat (q * ?k)) ?k m" if "q < n" for q
  proof (rule nth_equalityI)
    fix v assume "v < length (load (D + of_nat (q * ?k)) ?k ?m)"
    then have v: "v < ?k" by simp
    have "?m (D + of_nat (q * ?k) + of_nat v) = m (S + of_nat (q * ?k + v))"
      unfolding m unat_window_byte [OF that v le] using radix_less [OF that v] by simp
    with v show "load (D + of_nat (q * ?k)) ?k ?m ! v = load (S + of_nat (q * ?k)) ?k m ! v"
      by (simp add: add.assoc)
  qed simp
  show "copy_block e type swap N D S m x = block_result (elem_fun type swap) ?k D S n m x"
  proof (cases "unat (x - D) < n * ?k")
    case False
    then show ?thesis
      using le assms k
      by (simp add: copy_block_def block_result_def m Let_def change_endianness_map_elems map_elems_apply)
  next
    case True
    then have q: "unat (x - D) div ?k < n" by (simp add: less_mult_imp_div_less)
    have r: "unat (x - D) mod ?k < ?k" using k by simp
    have "load (S + of_nat (unat (x - D) div ?k * ?k)) ?k m ! (unat (x - D) mod ?k)
        = m (S + of_nat (unat (x - D) div ?k * ?k + unat (x - D) mod ?k))"
      using r by (simp only: load_nth of_nat_add add.assoc)
    then have plain: "load (S + of_nat (unat (x - D) div ?k * ?k)) ?k m ! (unat (x - D) mod ?k) = ?m x"
      using True by (simp add: m)
    show ?thesis
      using le assms k True plain load [OF q]
      by (simp add: copy_block_def block_result_def elem_fun_def Let_def change_endianness_map_elems
          map_elems_apply del: of_nat_mult)
  qed
qed

lemma copy_block_moves:
  assumes "type \<noteq> adios_unknown" and "unat N = n * elem_size type"
    and "in_order (elem_size type) (block_moves (elem_size type) D S n)"
  shows "copy_block e type swap N D S m
    = fold (elem_copy type swap) (block_moves (elem_size type) D S n) m"
  using assms unat_u64_less [of N]
  by (subst fold_block_moves) (auto simp: copy_block_result)

section \<open>The loop nest\<close>

text \<open>The offsets the loop nest visits for given dimensions and strides, in its order.\<close>

fun nest_offsets :: "u64 list \<Rightarrow> u64 list \<Rightarrow> u64 list \<Rightarrow> (u64 \<times> u64) list" where
  "nest_offsets (d # ds) (a # as) (b # bs) =
     concat (map (\<lambda>i. map (\<lambda>(x, y). (of_nat i * a + x, of_nat i * b + y)) (nest_offsets ds as bs))
       [0..<unat d])"
| "nest_offsets _ _ _ = [(0, 0)]"

lemma stride_loop_fold:
  assumes "\<And>dst src m. f dst src m = Some (g dst src m)"
  shows "stride_loop n f a b dst src m
    = Some (fold (\<lambda>i. g (dst + of_nat i * a) (src + of_nat i * b)) [0..<n] m)"
proof (induction n arbitrary: dst src m)
  case 0
  then show ?case by simp
next
  case (Suc n)
  have "[0..<Suc n] = 0 # map Suc [0..<n]" by (simp add: upt_conv_Cons map_Suc_upt del: upt_Suc)
  then show ?case
    by (simp add: assms [of dst src m] Suc.IH fold_map o_def algebra_simps del: upt_Suc)
qed

lemma fold_concat_map: "fold f (concat (map g xs)) m = fold (\<lambda>x. fold f (g x)) xs m"
  by (induction xs arbitrary: m) simp_all

lemma helper_fold:
  "list_all (\<lambda>d. unat d < 2 ^ 31) os \<Longrightarrow> length os \<le> length as \<Longrightarrow> length os \<le> length bs \<Longrightarrow>
   copy_subvolume_helper e type swap (os @ [c]) as bs dst src m
   = Some (fold (\<lambda>(x, y). copy_block e type swap c (dst + x) (src + y)) (nest_offsets os as bs) m)"
proof (induction os arbitrary: as bs dst src m)
  case Nil
  then show ?case by simp
next
  case (Cons d os)
  then obtain a as' b bs' where ab: "as = a # as'" "bs = b # bs'"
    by (cases as; cases bs) auto
  obtain d' ds where dds: "os @ [c] = d' # ds" by (cases os) auto
  let ?g = "\<lambda>dst src. fold (\<lambda>(x, y). copy_block e type swap c (dst + x) (src + y))
      (nest_offsets os as' bs')"
  have "copy_subvolume_helper e type swap (os @ [c]) as' bs' dst src m = Some (?g dst src m)" for dst src m
    using Cons.prems ab by (intro Cons.IH) auto
  then have "copy_subvolume_helper e type swap ((d # os) @ [c]) as bs dst src m
      = Some (fold (\<lambda>i. ?g (dst + of_nat i * a) (src + of_nat i * b)) [0..<unat d] m)"
    using Cons.prems ab dds by (simp add: stride_loop_fold)
  also have "\<dots> = Some (fold (\<lambda>(x, y). copy_block e type swap c (dst + x) (src + y))
      (nest_offsets (d # os) as bs) m)"
    by (simp add: ab fold_concat_map fold_map o_def case_prod_unfold add.assoc)
  finally show ?case .
qed

lemma concat_concat_map: "concat (concat xss) = concat (map concat xss)"
  by (induction xss) simp_all

lemma nest_offsets_append:
  "length as = length os \<Longrightarrow> length bs = length os \<Longrightarrow>
   nest_offsets (os @ ns) (as @ as') (bs @ bs')
   = concat (map (\<lambda>(x, y). map (\<lambda>(x', y'). (x + x', y + y')) (nest_offsets ns as' bs'))
       (nest_offsets os as bs))"
proof (induction os arbitrary: as bs)
  case Nil
  then show ?case by simp
next
  case (Cons d os)
  then obtain a as1 b bs1 where "as = a # as1" "bs = b # bs1" by (cases as; cases bs) auto
  with Cons show ?case
    by (simp add: map_concat o_def case_prod_unfold add.assoc concat_concat_map)
qed

section \<open>Collapsed dimensions\<close>

lemma compute_strides_Nil [simp]: "compute_strides t [] = []"
  by (simp add: compute_strides_def)

lemma strides_volume:
  "fst (foldr (\<lambda>d (volume, strides). (volume * d, volume # strides)) dims (t, []))
   = t * of_nat (prod_list (map unat dims))" for t :: u64
  by (induction dims) (auto simp: algebra_simps split: prod.splits)

lemma compute_strides_Cons [simp]:
  "compute_strides t (d # dims) = (t * of_nat (prod_list (map unat dims))) # compute_strides t dims"
  by (simp add: compute_strides_def case_prod_unfold strides_volume [unfolded case_prod_unfold])

lemma length_compute_strides [simp]: "length (compute_strides t dims) = length dims"
  by (induction dims) simp_all

lemma drop_compute_strides: "drop k (compute_strides t dims) = compute_strides t (drop k dims)"
  by (induction dims arbitrary: k) (auto simp: drop_Cons split: nat.split)

lemma concat_upt_blocks: "concat (map (\<lambda>i. map (\<lambda>j. i * p + j) [0..<p]) [0..<n]) = [0..<n * p]" for n p :: nat
proof (induction n)
  case (Suc n)
  have "map (\<lambda>j. n * p + j) [0..<p] = [n * p..<n * p + p]"
    using map_add_upt [of "n * p" p] by (simp add: add.commute)
  then show ?case using Suc upt_add_eq_append [of 0 "n * p" p] by (simp add: add.commute)
qed simp

lemma nest_offsets_contiguous:
  "nest_offsets ns (compute_strides t ns) (compute_strides t ns)
   = map (\<lambda>i. (of_nat i * t, of_nat i * t)) [0..<prod_list (map unat ns)]"
proof (induction ns)
  case (Cons n ns)
  let ?p = "prod_list (map unat ns)"
  have "nest_offsets (n # ns) (compute_strides t (n # ns)) (compute_strides t (n # ns))
      = map (\<lambda>i. (of_nat i * t, of_nat i * t))
          (concat (map (\<lambda>i. map (\<lambda>j. i * ?p + j) [0..<?p]) [0..<unat n]))"
    by (simp add: Cons map_concat o_def algebra_simps)
  then show ?case by (simp add: concat_upt_blocks)
qed simp

lemma nest_offsets_block:
  "nest_offsets (n # ns) (compute_strides t (d # ns)) (compute_strides t (d' # ns))
   = map (\<lambda>i. (of_nat i * t, of_nat i * t)) [0..<prod_list (map unat (n # ns))]"
  using nest_offsets_contiguous [of "n # ns" t] by simp

text \<open>After the last non-covering dimension the three volumes coincide.\<close>

lemma fold_last:
  "n > 0 \<Longrightarrow> fold (\<lambda>i l. if P i then i else l) [0..<n] 0 < n
    \<and> (\<forall>i. fold (\<lambda>i l. if P i then i else l) [0..<n] 0 < i \<and> i < n \<longrightarrow> \<not> P i)" for n :: nat
proof (induction n)
  case (Suc n)
  then show ?case by (cases "n = 0") (auto simp: less_Suc_eq)
qed simp

lemma last_noncovering_dim:
  assumes "length subv > 0" "length dd = length subv" "length sd = length subv"
    and k: "k = last_noncovering_dim subv dd doff sd soff"
  shows "k < length subv" "drop (Suc k) dd = drop (Suc k) subv" "drop (Suc k) sd = drop (Suc k) subv"
proof -
  have *: "k < length subv \<and> (\<forall>i. k < i \<and> i < length subv \<longrightarrow> subv ! i = sd ! i \<and> subv ! i = dd ! i)"
    using fold_last [OF assms(1), of "\<lambda>i. soff ! i \<noteq> 0 \<or> doff ! i \<noteq> 0 \<or> subv ! i \<noteq> sd ! i \<or> subv ! i \<noteq> dd ! i"]
    unfolding k last_noncovering_dim_def by blast
  then show "k < length subv" by simp
  have "dd ! i = subv ! i" "sd ! i = subv ! i" if "k < i" "i < length subv" for i
    using * that by auto
  then show "drop (Suc k) dd = drop (Suc k) subv" "drop (Suc k) sd = drop (Suc k) subv"
    using assms(2,3) by (auto intro!: nth_equalityI)
qed

lemma sorted_wrt_concat_part: "sorted_wrt R (concat xss) \<Longrightarrow> xs \<in> set xss \<Longrightarrow> sorted_wrt R xs"
  by (induction xss) (auto simp: sorted_wrt_append)

section \<open>The optimised copy does the moves of all elements\<close>

definition copy_moves ::
  "nat \<Rightarrow> u64 \<Rightarrow> u64 \<Rightarrow> u64 list \<Rightarrow> u64 list \<Rightarrow> u64 list \<Rightarrow> u64 \<Rightarrow> u64 list \<Rightarrow> u64 list \<Rightarrow> u64
    \<Rightarrow> (u64 \<times> u64) list" where
  "copy_moves k dst src subv dd doff dr sd soff sr =
     (let t = of_nat k;
          dst_offset = compute_start_offset doff (compute_strides t dd) - dr * t;
          src_offset = compute_start_offset soff (compute_strides t sd) - sr * t
      in map (\<lambda>(x, y). (dst + dst_offset + x, src + src_offset + y))
           (nest_offsets subv (compute_strides t dd) (compute_strides t sd)))"

text \<open>If the dimensions behind \<open>k\<close> coincide, the elements of the last ones are contiguous blocks.\<close>

lemma nest_offsets_split:
  assumes k: "k < length subv" "drop (Suc k) dd = drop (Suc k) subv" "drop (Suc k) sd = drop (Suc k) subv"
    and len: "length dd = length subv" "length sd = length subv"
  shows "nest_offsets subv (compute_strides t dd) (compute_strides t sd)
    = concat (map (\<lambda>(x, y). map (\<lambda>i. (x + of_nat i * t, y + of_nat i * t))
          [0..<prod_list (map unat (drop k subv))])
        (nest_offsets (take k subv) (take k (compute_strides t dd)) (take k (compute_strides t sd))))"
proof -
  have parts: "drop k subv = subv ! k # drop (Suc k) subv" "drop k dd = dd ! k # drop (Suc k) subv"
    "drop k sd = sd ! k # drop (Suc k) subv"
    using k len by (simp_all flip: Cons_nth_drop_Suc)
  have block: "nest_offsets (drop k subv) (compute_strides t (drop k dd)) (compute_strides t (drop k sd))
      = map (\<lambda>i. (of_nat i * t, of_nat i * t)) [0..<prod_list (map unat (drop k subv))]"
    unfolding parts by (rule nest_offsets_block)
  have "nest_offsets subv (compute_strides t dd) (compute_strides t sd)
      = nest_offsets (take k subv @ drop k subv)
          (take k (compute_strides t dd) @ compute_strides t (drop k dd))
          (take k (compute_strides t sd) @ compute_strides t (drop k sd))"
    by (simp add: drop_compute_strides [symmetric])
  also have "\<dots> = concat (map (\<lambda>(x, y). map (\<lambda>(x', y'). (x + x', y + y'))
      (nest_offsets (drop k subv) (compute_strides t (drop k dd)) (compute_strides t (drop k sd))))
      (nest_offsets (take k subv) (take k (compute_strides t dd)) (take k (compute_strides t sd))))"
    using len by (intro nest_offsets_append) simp_all
  finally show ?thesis by (simp add: block o_def case_prod_unfold)
qed

lemma copy_moves_split:
  assumes len: "length subv > 0" "length dd = length subv" "length sd = length subv"
    and k: "k = last_noncovering_dim subv dd doff sd soff"
  shows "nest_offsets subv (compute_strides t dd) (compute_strides t sd)
    = concat (map (\<lambda>(x, y). map (\<lambda>i. (x + of_nat i * t, y + of_nat i * t))
          [0..<prod_list (map unat (drop k subv))])
        (nest_offsets (take k subv) (compute_strides t dd) (compute_strides t sd)))"
proof -
  note kl = last_noncovering_dim [OF len k]
  have "nest_offsets (take k subv) as bs = nest_offsets (take k subv) (take k as) (take k bs)"
    if "length as = length subv" "length bs = length subv" for as bs
    using kl(1) that
  proof (induction k arbitrary: subv as bs)
    case (Suc k)
    then show ?case by (cases subv; cases as; cases bs) auto
  qed simp
  note pre = this [of "compute_strides t dd" "compute_strides t sd", simplified, OF len(2,3)]
  show ?thesis unfolding pre by (rule nest_offsets_split [OF kl len(2,3)])
qed

lemma copy_subvolume_moves:
  assumes len: "length subv > 0" "length subv \<le> 32" "length dd = length subv" "length sd = length subv"
    and type: "sized_type type"
    and small: "list_all (\<lambda>d. unat d < 2 ^ 31) subv"
    and vol: "prod_list (map unat (drop (last_noncovering_dim subv dd doff sd soff) subv))
        * elem_size type < 2 ^ 64"
    and order: "in_order (elem_size type)
        (copy_moves (elem_size type) dst src subv dd doff dr sd soff sr)"
  shows "copy_subvolume_ragged_offset e dst src subv dd doff dr sd soff sr type sw m
    = Some (fold (elem_copy type (sw = adios_flag_yes))
        (copy_moves (elem_size type) dst src subv dd doff dr sd soff sr) m)"
proof -
  let ?z = "elem_size type"
  define t :: u64 where "t = of_nat ?z"
  define k where "k = last_noncovering_dim subv dd doff sd soff"
  define n where "n = prod_list (map unat (drop k subv))"
  define D where "D = dst + (compute_start_offset doff (compute_strides t dd) - dr * t)"
  define S where "S = src + (compute_start_offset soff (compute_strides t sd) - sr * t)"
  define c :: u64 where "c = of_nat n * t"
  let ?outer = "nest_offsets (take k subv) (compute_strides t dd) (compute_strides t sd)"
  have k: "k < length subv" by (rule last_noncovering_dim(1) [OF len(1,3,4) k_def])
  have c: "unat c = n * ?z"
    using vol unfolding c_def t_def n_def k_def
    by (simp only: of_nat_mult [symmetric]) (intro unat_of_nat_small, simp)
  have moves: "copy_moves ?z dst src subv dd doff dr sd soff sr
      = concat (map (\<lambda>(x, y). block_moves ?z (D + x) (S + y) n) ?outer)"
    unfolding copy_moves_def Let_def t_def [symmetric] copy_moves_split [OF len(1,3,4) k_def]
    by (simp add: D_def S_def block_moves_def n_def map_concat o_def case_prod_unfold algebra_simps t_def)
  have block: "copy_block e type swap c (D + fst p) (S + snd p) m
      = fold (elem_copy type swap) (block_moves ?z (D + fst p) (S + snd p) n) m"
    if "p \<in> set ?outer" for p swap m
  proof (rule copy_block_moves)
    show "in_order ?z (block_moves ?z (D + fst p) (S + snd p) n)"
      by (rule sorted_wrt_concat_part [OF order [unfolded moves]])
        (simp add: case_prod_unfold image_iff, rule bexI [OF refl that])
  qed (use type c in simp_all)
  have "take (Suc k) (subv[k := c]) = take k subv @ [c]"
    using k by (simp add: take_Suc_conv_app_nth)
  moreover have "list_all (\<lambda>d. unat d < 2 ^ 31) (take k subv)"
    using small by (auto simp: list_all_iff dest: in_set_takeD)
  moreover have ts: "u64_of_int (int_of_u64 (adios_get_type_size type None)) = t"
    unfolding t_def by (rule type_size_elem_size [OF type])
  have "copy_subvolume_ragged_offset e dst src subv dd doff dr sd soff sr type sw m
      = copy_subvolume_helper e type (sw = adios_flag_yes) (take (Suc k) (subv[k := c]))
          (compute_strides t dd) (compute_strides t sd) D S m"
    unfolding copy_subvolume_ragged_offset_def Let_def ts k_def [symmetric] D_def S_def c_def n_def
    using len by (simp add: fold_times)
  ultimately have "copy_subvolume_ragged_offset e dst src subv dd doff dr sd soff sr type sw m
      = Some (fold (\<lambda>(x, y). copy_block e type (sw = adios_flag_yes) c (D + x) (S + y)) ?outer m)"
    using len k by (simp add: helper_fold)
  also have "\<dots> = Some (fold (elem_copy type (sw = adios_flag_yes))
      (copy_moves ?z dst src subv dd doff dr sd soff sr) m)"
    unfolding moves fold_concat_map
    by (auto intro!: arg_cong [where f = Some] fold_cong block simp: case_prod_unfold)
  finally show ?thesis .
qed

section \<open>What a list of moves leaves in memory\<close>

lemma elem_copy_frame:
  assumes "\<forall>u < elem_size type. x \<noteq> fst mv + of_nat u"
  shows "elem_copy type swap mv m x = m x"
proof -
  have "x = fst mv + of_nat (unat (x - fst mv))" by simp
  with assms have "\<not> unat (x - fst mv) < elem_size type" by blast
  then show ?thesis by (simp add: elem_copy_def store_out)
qed

lemma load_elem_copy_apart:
  assumes "apart (elem_size type) (fst mv) s"
  shows "load s (elem_size type) (elem_copy type swap mv m) = load s (elem_size type) m"
proof (rule nth_equalityI)
  fix v assume "v < length (load s (elem_size type) (elem_copy type swap mv m))"
  then have v: "v < elem_size type" by simp
  have "elem_copy type swap mv m (s + of_nat v) = m (s + of_nat v)"
    by (rule elem_copy_frame) (use apartD [OF assms _ v] in fastforce)
  with v show "load s (elem_size type) (elem_copy type swap mv m) ! v = load s (elem_size type) m ! v"
    by simp
qed simp

lemma load_elem_copy:
  assumes "type \<noteq> adios_unknown"
  shows "load (fst mv) (elem_size type) (elem_copy type swap mv m)
    = elem_fun type swap (load (snd mv) (elem_size type) m)"
  using load_store_same [of "elem_fun type swap (load (snd mv) (elem_size type) m)" "fst mv" m]
    elem_size_small [OF assms]
  by (simp add: elem_copy_def)

lemma fold_elem_copy_frame:
  "\<forall>mv \<in> set mvs. \<forall>u < elem_size type. x \<noteq> fst mv + of_nat u \<Longrightarrow>
   fold (elem_copy type swap) mvs m x = m x"
proof (induction mvs arbitrary: m)
  case (Cons mv mvs)
  then show ?case using elem_copy_frame [of type x mv swap m] by simp
qed simp

lemma fold_elem_copy_load:
  assumes "type \<noteq> adios_unknown" and "in_order (elem_size type) mvs"
    and "sorted_wrt (\<lambda>x y. apart (elem_size type) (fst x) (fst y)) mvs" and "mv \<in> set mvs"
  shows "load (fst mv) (elem_size type) (fold (elem_copy type swap) mvs m)
    = elem_fun type swap (load (snd mv) (elem_size type) m)"
  using assms(2-4)
proof (induction mvs arbitrary: m)
  case (Cons a mvs)
  let ?z = "elem_size type" and ?m = "elem_copy type swap a m"
  show ?case
  proof (cases "mv \<in> set mvs")
    case True
    then have "load (fst mv) ?z (fold (elem_copy type swap) mvs ?m) = elem_fun type swap (load (snd mv) ?z ?m)"
      using Cons.prems by (intro Cons.IH) auto
    moreover have "load (snd mv) ?z ?m = load (snd mv) ?z m"
      using Cons.prems(1) True by (intro load_elem_copy_apart) auto
    ultimately show ?thesis by simp
  next
    case False
    then have a: "mv = a" using Cons.prems(3) by simp
    have "load (fst a) ?z (fold (elem_copy type swap) mvs ?m) = load (fst a) ?z ?m"
    proof (rule nth_equalityI)
      fix v assume "v < length (load (fst a) ?z (fold (elem_copy type swap) mvs ?m))"
      then have v: "v < ?z" by simp
      have "fst a + of_nat v \<noteq> fst mv' + of_nat u" if "mv' \<in> set mvs" "u < ?z" for mv' u
        using Cons.prems(2) that v apartD [of ?z "fst a" "fst mv'" v u] by auto
      then have "fold (elem_copy type swap) mvs ?m (fst a + of_nat v) = ?m (fst a + of_nat v)"
        by (intro fold_elem_copy_frame) blast
      with v show "load (fst a) ?z (fold (elem_copy type swap) mvs ?m) ! v = load (fst a) ?z ?m ! v"
        by simp
    qed simp
    then show ?thesis using a load_elem_copy [OF assms(1)] by simp
  qed
qed simp

section \<open>Addresses of elements\<close>

text \<open>
  The address of the element at index \<open>p\<close> of the subvolume: the linear offset of the element
  in its volume, less the ragged offset of the buffer, times the element size.
\<close>

definition elem_addr :: "nat \<Rightarrow> u64 \<Rightarrow> u64 list \<Rightarrow> u64 list \<Rightarrow> u64 \<Rightarrow> u64 list \<Rightarrow> u64" where
  "elem_addr k base dims off ragged p =
     base + (compute_linear_offset_in_volume (vector_add off p) dims - ragged) * of_nat k"

fun box_points :: "u64 list \<Rightarrow> u64 list list" where
  "box_points [] = [[]]"
| "box_points (d # ds) = concat (map (\<lambda>i. map (Cons (of_nat i)) (box_points ds)) [0..<unat d])"

definition dot :: "u64 list \<Rightarrow> u64 list \<Rightarrow> u64" where
  "dot p as = sum_list (map2 (*) p as)"

lemma dot_simps [simp]: "dot [] as = 0" "dot p [] = 0" "dot (x # p) (a # as) = x * a + dot p as"
  by (simp_all add: dot_def)

lemma dot_row_major: "dot p (compute_strides t dims) = of_nat (rm dims p) * t"
proof (induction p arbitrary: dims)
  case (Cons x p)
  then show ?case by (cases dims) (simp_all add: algebra_simps)
qed simp

lemma set_box_points: "set (box_points ds) = {p. list_all2 (<) p ds}"
proof (induction ds)
  case (Cons d ds)
  show ?case
  proof (intro set_eqI iffI)
    fix p assume "p \<in> {p. list_all2 (<) p (d # ds)}"
    then obtain x xs where p: "p = x # xs" "x < d" "list_all2 (<) xs ds" by (auto simp: list_all2_Cons2)
    then have "p = of_nat (unat x) # xs" "unat x < unat d" by (simp_all add: word_less_nat_alt)
    with p(3) show "p \<in> set (box_points (d # ds))"
      by (auto simp: Cons intro!: bexI [of _ "unat x"])
  next
    fix p assume "p \<in> set (box_points (d # ds))"
    then obtain i xs where i: "i < unat d" "p = of_nat i # xs" "list_all2 (<) xs ds"
      using Cons by auto
    then have "(of_nat i :: u64) < d"
      using unat_u64_less [of d] by (simp add: word_less_nat_alt)
    with i show "p \<in> {p. list_all2 (<) p (d # ds)}" by simp
  qed
qed simp

lemma distinct_box_points: "distinct (box_points ds)"
proof (induction ds)
  case (Cons d ds)
  have "inj_on (of_nat :: nat \<Rightarrow> u64) {0..<unat d}"
    using unat_u64_less [of d] by (auto intro!: inj_onI simp: of_nat_u64_eq)
  moreover from this have "distinct (map (\<lambda>i. map (Cons (of_nat i :: u64)) (box_points ds)) [0..<unat d])"
    if "box_points ds \<noteq> []"
    using that by (cases "box_points ds") (auto simp: distinct_map inj_on_def)
  ultimately show ?case using Cons
    by (cases "box_points ds = []")
      (simp_all add: map_replicate_const,
        auto simp: distinct_map intro!: distinct_concat dest: inj_onD)
qed simp

lemma nest_offsets_points:
  "length as = length ds \<Longrightarrow> length bs = length ds \<Longrightarrow>
   nest_offsets ds as bs = map (\<lambda>p. (dot p as, dot p bs)) (box_points ds)"
proof (induction ds arbitrary: as bs)
  case (Cons d ds)
  then obtain a as' b bs' where "as = a # as'" "bs = b # bs'" by (cases as; cases bs) auto
  with Cons show ?case by (simp add: map_concat o_def)
qed simp

lemma compute_start_offset_dot: "compute_start_offset off as = dot off as"
proof -
  have "fold (\<lambda>(x, a) acc. acc + x * a) (zip off as) acc = acc + dot off as" for acc
  proof (induction off arbitrary: as acc)
    case (Cons x off)
    then show ?case by (cases as) (simp_all add: algebra_simps)
  qed simp
  then show ?thesis by (simp add: compute_start_offset_def)
qed

lemma dot_vector_add:
  "length v = length as \<Longrightarrow> length w = length as \<Longrightarrow> dot (vector_add v w) as = dot v as + dot w as"
proof (induction as arbitrary: v w)
  case (Cons a as)
  then show ?case by (cases v; cases w) (auto simp: algebra_simps)
qed auto

lemma linear_offset_dot:
  "length p = length dims \<Longrightarrow>
   compute_linear_offset_in_volume p dims * t = dot p (compute_strides t dims)"
proof -
  assume "length p = length dims"
  moreover from this have "of_nat (row_major (map unat dims) (map unat p)) * t
      = dot p (compute_strides t dims)"
    by (induction p dims rule: list_induct2) (simp_all add: algebra_simps)
  ultimately show ?thesis by (simp add: compute_linear_offset_row_major)
qed

lemma copy_moves_addr:
  assumes "length dd = length subv" "length sd = length subv" "length doff = length subv"
    "length soff = length subv"
  shows "copy_moves k dst src subv dd doff dr sd soff sr
    = map (\<lambda>p. (elem_addr k dst dd doff dr p, elem_addr k src sd soff sr p)) (box_points subv)"
proof -
  have "elem_addr k base dims off r p = base + (compute_start_offset off (compute_strides (of_nat k) dims)
      - r * of_nat k) + dot p (compute_strides (of_nat k) dims)"
    if "p \<in> set (box_points subv)" "length dims = length subv" "length off = length subv"
    for base dims off r p
  proof -
    have "length p = length subv" using that(1) by (auto simp: set_box_points dest: list_all2_lengthD)
    with that show ?thesis
      by (simp add: elem_addr_def left_diff_distrib linear_offset_dot dot_vector_add
          compute_start_offset_dot)
  qed
  with assms show ?thesis
    by (simp add: copy_moves_def Let_def nest_offsets_points)
qed

text \<open>Distinct elements of a volume that fits in memory have no byte in common.\<close>

lemma fits_in_point_list:
  fixes dims :: "u64 list"
  shows "length off = length subv \<Longrightarrow>
   list_all2 (\<lambda>(r, l) d. unat r + unat l \<le> unat d) (zip off subv) dims \<Longrightarrow> list_all2 (<) p subv \<Longrightarrow>
   list_all2 (<) (map2 (+) (map unat off) (map unat p)) (map unat dims)
   \<and> map unat (vector_add off p) = map2 (+) (map unat off) (map unat p)"
proof (induction off subv arbitrary: dims p rule: list_induct2)
  case (Cons r off l subv)
  then obtain d dims' where dims: "dims = d # dims'" by (cases dims) auto
  obtain x xs where p: "p = x # xs" using Cons.prems(2) by (cases p) auto
  have x: "unat x < unat l" "unat r + unat l \<le> unat d"
    using Cons.prems dims p by (auto simp: word_less_nat_alt)
  then have "unat (r + x) = unat r + unat x"
    using unat_u64_less [of d] by (intro unat_add_no_wrap) simp
  with x Cons.prems Cons.IH [of dims' xs] dims p show ?case by simp
qed simp

lemma fits_in_point:
  assumes "fits_in off subv dims" and "list_all2 (<) p subv"
  shows "list_all2 (<) (map2 (+) (map unat off) (map unat p)) (map unat dims)"
    and "map unat (vector_add off p) = map2 (+) (map unat off) (map unat p)"
  using fits_in_point_list [of off subv dims p] assms unfolding fits_in_def by blast+

lemma elem_addr_row_major:
  assumes "fits_in off subv dims" and "list_all2 (<) p subv"
  shows "elem_addr k base dims off ragged p
    = base - ragged * of_nat k + of_nat (row_major (map unat dims) (map2 (+) (map unat off) (map unat p)) * k)"
    and "row_major (map unat dims) (map2 (+) (map unat off) (map unat p)) < prod_list (map unat dims)"
proof -
  have len: "length off = length subv" "length dims = length subv" "length p = length subv"
    using fits_in_length [OF assms(1)] assms(2) by (auto dest: list_all2_lengthD)
  note * = fits_in_point [OF assms]
  have "compute_linear_offset_in_volume (vector_add off p) dims
      = of_nat (row_major (map unat dims) (map2 (+) (map unat off) (map unat p)))"
    using len * (2) by (simp add: compute_linear_offset_row_major)
  then show "elem_addr k base dims off ragged p
      = base - ragged * of_nat k + of_nat (row_major (map unat dims) (map2 (+) (map unat off) (map unat p)) * k)"
    by (simp add: elem_addr_def left_diff_distrib)
  show "row_major (map unat dims) (map2 (+) (map unat off) (map unat p)) < prod_list (map unat dims)"
    by (rule row_major_less [OF *(1)])
qed

lemma map_unat_inject: "map unat p = map unat q \<longleftrightarrow> p = (q :: 'a::len word list)"
  by (metis inj_map_eq_map inj_onI unsigned_word_eqI)

lemma point_index_inj:
  assumes "fits_in off subv dims" and "list_all2 (<) p subv" and "list_all2 (<) q subv"
    and "row_major (map unat dims) (map2 (+) (map unat off) (map unat p))
      = row_major (map unat dims) (map2 (+) (map unat off) (map unat q))"
  shows "p = q"
proof -
  have len: "length off = length subv" "length p = length off" "length q = length off"
    using fits_in_length [OF assms(1)] assms(2,3) by (auto dest: list_all2_lengthD)
  have "map2 (+) (map unat off) (map unat p) = map2 (+) (map unat off) (map unat q)"
    using fits_in_point(1) [OF assms(1)] assms(2-4) by (intro row_major_inj)
  then have "map unat p = map unat q"
    using len(2,3) by (auto simp: list_eq_iff_nth_eq)
  then show ?thesis by (simp add: map_unat_inject)
qed

lemma elem_addr_apart:
  assumes "fits_in off subv dims" and "prod_list (map unat dims) * k \<le> 2 ^ 64"
    and "list_all2 (<) p subv" and "list_all2 (<) q subv" and "p \<noteq> q"
  shows "apart k (elem_addr k base dims off ragged p) (elem_addr k base dims off ragged q)"
proof -
  let ?r = "\<lambda>p. row_major (map unat dims) (map2 (+) (map unat off) (map unat p))"
  have ne: "?r p \<noteq> ?r q" using point_index_inj [OF assms(1,3,4)] assms(5) by blast
  have less: "?r p < prod_list (map unat dims)" "?r q < prod_list (map unat dims)"
    using elem_addr_row_major(2) [OF assms(1)] assms(3,4) by blast+
  have "(of_nat (?r p * k + u) :: u64) \<noteq> of_nat (?r q * k + v)" if "u < k" "v < k" for u v
  proof
    assume "(of_nat (?r p * k + u) :: u64) = of_nat (?r q * k + v)"
    then have "?r p * k + u = ?r q * k + v"
      using radix_less [OF less(1) that(1)] radix_less [OF less(2) that(2)] assms(2)
      by (subst (asm) of_nat_u64_eq) simp_all
    then have "(?r p * k + u) div k = (?r q * k + v) div k" by simp
    with that ne show False by simp
  qed
  then show ?thesis
    unfolding apart_def elem_addr_row_major(1) [OF assms(1,3)] elem_addr_row_major(1) [OF assms(1,4)]
    by (simp only: add.assoc of_nat_add [symmetric] add_left_cancel) simp
qed

lemma sorted_wrt_distinct:
  "distinct xs \<Longrightarrow> \<forall>x \<in> set xs. \<forall>y \<in> set xs. x \<noteq> y \<longrightarrow> R x y \<Longrightarrow> sorted_wrt R xs"
  by (induction xs) auto

lemma prod_list_drop_le: "prod_list xs > 0 \<Longrightarrow> prod_list (drop k xs) \<le> prod_list xs" for xs :: "nat list"
proof -
  assume "prod_list xs > 0"
  moreover have "prod_list xs = prod_list (take k xs) * prod_list (drop k xs)"
    by (metis append_take_drop_id prod_list.append)
  ultimately show ?thesis by (cases "prod_list (take k xs)") auto
qed

lemma prod_list_mono: "list_all2 (\<le>) xs ys \<Longrightarrow> prod_list xs \<le> prod_list ys" for xs ys :: "nat list"
  by (induction rule: list_all2_induct) (auto intro: mult_le_mono)

lemma contiguous_volume_fits:
  assumes "fits_in off subv dims" and "0 < prod_list (map unat dims) * z"
    and "prod_list (map unat dims) * z < 2 ^ 64"
  shows "prod_list (map unat (drop k subv)) * z < 2 ^ 64"
proof -
  have "list_all2 (\<le>) (map unat (drop k subv)) (map unat (drop k dims))"
    using assms(1) fits_in_length [OF assms(1)]
    by (auto simp: fits_in_def list_all2_conv_all_nth)
      (metis add_leE less_diff_conv add.commute)
  then have "prod_list (map unat (drop k subv)) \<le> prod_list (map unat (drop k dims))"
    by (rule prod_list_mono)
  also have "\<dots> \<le> prod_list (map unat dims)"
    using assms(2) prod_list_drop_le [of "map unat dims" k] by (simp add: drop_map)
  finally show ?thesis using assms(3) by (meson le_less_trans mult_le_mono1)
qed

section \<open>Copying towards the front of a buffer\<close>

lemma row_major_add:
  "length a = length ds \<Longrightarrow> length b = length ds \<Longrightarrow>
   row_major ds (map2 (+) a b) = row_major ds a + row_major ds b"
proof (induction ds arbitrary: a b)
  case (Cons d ds)
  then show ?case by (cases a; cases b) (auto simp: algebra_simps)
qed simp

lemma row_major_zero: "row_major ds (replicate n 0) = 0"
proof (induction ds arbitrary: n)
  case (Cons d ds)
  then show ?case by (cases n) simp_all
qed simp

lemma row_major_mono:
  "list_all2 (\<le>) ds es \<Longrightarrow> length p = length ds \<Longrightarrow> row_major ds p \<le> row_major es p"
proof (induction arbitrary: p rule: list_all2_induct)
  case (Cons d ds e es)
  then show ?case using prod_list_mono [of ds es] by (cases p) (auto intro: add_mono mult_le_mono)
qed simp

lemma box_points_row_major:
  "map (\<lambda>p. row_major (map unat ds) (map unat p)) (box_points ds) = [0..<prod_list (map unat ds)]"
proof (induction ds)
  case (Cons d ds)
  let ?p = "prod_list (map unat ds)"
  have "map (\<lambda>p. row_major (map unat (d # ds)) (map unat p)) (box_points (d # ds))
      = concat (map (\<lambda>i. map (\<lambda>j. i * ?p + j)
          (map (\<lambda>p. row_major (map unat ds) (map unat p)) (box_points ds))) [0..<unat d])"
    using unat_u64_less [of d] by (auto simp: map_concat o_def intro!: arg_cong [where f = concat])
  then show ?case unfolding Cons by (simp add: concat_upt_blocks)
qed simp

lemma box_points_sorted:
  "sorted_wrt (\<lambda>p q. row_major (map unat ds) (map unat p) < row_major (map unat ds) (map unat q))
     (box_points ds)"
  using sorted_wrt_map [of "(<)" "\<lambda>p. row_major (map unat ds) (map unat p)" "box_points ds"]
  unfolding box_points_row_major by simp

lemma fits_in_le:
  assumes "fits_in off subv dims"
  shows "list_all2 (\<le>) (map unat subv) (map unat dims)"
proof -
  have "length off = length subv" "list_all2 (\<lambda>(r, l) d. unat r + unat l \<le> unat d) (zip off subv) dims"
    using assms by (simp_all add: fits_in_def)
  then show ?thesis
  proof (induction off subv arbitrary: dims rule: list_induct2)
    case (Cons r off l subv)
    then show ?case by (cases dims) auto
  qed simp
qed

text \<open>Moving an element to an index not behind its own leaves the later elements alone.\<close>

lemma apart_forward:
  assumes "i < j" and "j * k + k \<le> 2 ^ 64"
  shows "apart k (base + of_nat (i * k)) (base + of_nat (j * k))"
proof -
  have "(of_nat (i * k + u) :: u64) \<noteq> of_nat (j * k + v)" if "u < k" "v < k" for u v
  proof -
    have "i * k + u < j * k" using radix_less [OF assms(1) that(1)] .
    then show ?thesis using that assms(2) by (subst of_nat_u64_eq) simp_all
  qed
  then show ?thesis unfolding apart_def
    by (simp only: add.assoc of_nat_add [symmetric] add_left_cancel) simp
qed

lemma elem_addr_compact:
  assumes "list_all2 (<) p subv"
  shows "elem_addr k buf subv (replicate (length subv) 0) 0 p
    = buf + of_nat (row_major (map unat subv) (map unat p) * k)"
proof -
  have "length p = length subv" using assms by (rule list_all2_lengthD)
  then have "map2 (+) (map unat (replicate (length subv) (0 :: u64))) (map unat p) = map unat p"
    by (simp add: list_eq_iff_nth_eq)
  then show ?thesis using elem_addr_row_major(1) [OF fits_in_zero assms, of k buf 0] by simp
qed

lemma elem_addr_ragged:
  assumes "fits_in off subv dims" and "list_all2 (<) p subv"
    and "unat ragged \<le> row_major (map unat dims) (map unat off)"
  shows "elem_addr k buf dims off ragged p
    = buf + of_nat ((row_major (map unat dims) (map2 (+) (map unat off) (map unat p)) - unat ragged) * k)"
    and "row_major (map unat subv) (map unat p)
      \<le> row_major (map unat dims) (map2 (+) (map unat off) (map unat p)) - unat ragged"
proof -
  let ?d = "map unat dims"
  have len: "length off = length dims" "length p = length dims" "length subv = length dims"
    using fits_in_length [OF assms(1)] assms(2) by (auto dest: list_all2_lengthD)
  have sum: "row_major ?d (map2 (+) (map unat off) (map unat p))
      = row_major ?d (map unat off) + row_major ?d (map unat p)"
    using len by (intro row_major_add) simp_all
  then have le: "unat ragged \<le> row_major ?d (map2 (+) (map unat off) (map unat p))"
    using assms(3) by simp
  then have "(of_nat ((row_major ?d (map2 (+) (map unat off) (map unat p)) - unat ragged) * k) :: u64)
      = of_nat (row_major ?d (map2 (+) (map unat off) (map unat p)) * k) - ragged * of_nat k"
    by (simp add: of_nat_diff left_diff_distrib)
  then show "elem_addr k buf dims off ragged p
    = buf + of_nat ((row_major ?d (map2 (+) (map unat off) (map unat p)) - unat ragged) * k)"
    unfolding elem_addr_row_major(1) [OF assms(1,2)] by simp
  have "row_major (map unat subv) (map unat p) \<le> row_major ?d (map unat p)"
    using fits_in_le [OF assms(1)] len by (intro row_major_mono) simp_all
  with sum assms(3) show "row_major (map unat subv) (map unat p)
      \<le> row_major ?d (map2 (+) (map unat off) (map unat p)) - unat ragged" by simp
qed

lemma compact_in_order:
  assumes "fits_in off subv dims" and "prod_list (map unat dims) * k < 2 ^ 64"
    and "unat ragged \<le> row_major (map unat dims) (map unat off)"
  shows "in_order k (map (\<lambda>p. (elem_addr k buf subv (replicate (length subv) 0) 0 p,
      elem_addr k buf dims off ragged p)) (box_points subv))"
proof -
  let ?r = "\<lambda>p. row_major (map unat subv) (map unat p)"
  let ?s = "\<lambda>p. row_major (map unat dims) (map2 (+) (map unat off) (map unat p)) - unat ragged"
  have "apart k (elem_addr k buf subv (replicate (length subv) 0) 0 p) (elem_addr k buf dims off ragged q)"
    if "p \<in> set (box_points subv)" "q \<in> set (box_points subv)" "?r p < ?r q" for p q
  proof -
    have p: "list_all2 (<) p subv" and q: "list_all2 (<) q subv"
      using that by (simp_all add: set_box_points)
    have "?r p < ?s q" using that(3) elem_addr_ragged(2) [OF assms(1) q assms(3)] by simp
    moreover have "?s q < prod_list (map unat dims)"
      using elem_addr_row_major(2) [OF assms(1) q] by simp
    then have "?s q * k + k \<le> prod_list (map unat dims) * k"
      using mult_le_mono1 [of "Suc (?s q)" "prod_list (map unat dims)" k] by simp
    ultimately show ?thesis
      using assms(2) unfolding elem_addr_compact [OF p] elem_addr_ragged(1) [OF assms(1) q assms(3)]
      by (intro apart_forward) auto
  qed
  then show ?thesis
    unfolding sorted_wrt_map using box_points_sorted [of subv]
    by (auto intro: sorted_wrt_mono_rel [rotated])
qed

section \<open>Properties\<close>

lemma addr_sorted_apart:
  assumes "fits_in off subv dims" and "prod_list (map unat dims) * k < 2 ^ 64"
  shows "sorted_wrt (\<lambda>x y. apart k (fst x) (fst y))
    (map (\<lambda>p. (elem_addr k base dims off ragged p, f p)) (box_points subv))"
  unfolding sorted_wrt_map
  by (rule sorted_wrt_distinct [OF distinct_box_points])
    (use assms in \<open>auto simp: set_box_points intro!: elem_addr_apart\<close>)

text \<open>The copy, as the list of moves over the points of the subvolume.\<close>

lemma copy_subvolume_addr_moves:
  assumes len: "0 < length subv" "length subv \<le> 32" "length sd = length subv" "length soff = length subv"
    and dst: "fits_in doff subv dd" "0 < prod_list (map unat dd) * elem_size type"
      "prod_list (map unat dd) * elem_size type < 2 ^ 64"
    and type: "sized_type type" and small: "list_all (\<lambda>d. unat d < 2 ^ 31) subv"
    and order: "in_order (elem_size type) (map (\<lambda>p. (elem_addr (elem_size type) dst dd doff dr p,
        elem_addr (elem_size type) src sd soff sr p)) (box_points subv))"
  shows "copy_subvolume_ragged_offset e dst src subv dd doff dr sd soff sr type sw m
    = Some (fold (elem_copy type (sw = adios_flag_yes))
        (map (\<lambda>p. (elem_addr (elem_size type) dst dd doff dr p,
           elem_addr (elem_size type) src sd soff sr p)) (box_points subv)) m)"
proof -
  have l: "length dd = length subv" "length doff = length subv"
    using fits_in_length [OF dst(1)] by simp_all
  note addr = copy_moves_addr [OF l(1) len(3) l(2) len(4)]
  show ?thesis
    using copy_subvolume_moves [OF len(1,2) l(1) len(3) type small
        contiguous_volume_fits [OF dst] order [folded addr]] unfolding addr .
qed



lemma copy_subvolume_points:
  assumes "0 < length subv" "length subv \<le> 32" "length sd = length subv" "length soff = length subv"
    and "fits_in doff subv dd" "0 < prod_list (map unat dd) * elem_size type"
      "prod_list (map unat dd) * elem_size type < 2 ^ 64"
    and "sized_type type" and "list_all (\<lambda>d. unat d < 2 ^ 31) subv"
    and disjoint: "\<forall>p q. list_all2 (<) p subv \<and> list_all2 (<) q subv \<longrightarrow>
        apart (elem_size type) (elem_addr (elem_size type) dst dd doff dr p)
          (elem_addr (elem_size type) src sd soff sr q)"
  shows "\<exists>m'. copy_subvolume_ragged_offset e dst src subv dd doff dr sd soff sr type sw m = Some m'
    \<and> (\<forall>p. list_all2 (<) p subv \<longrightarrow>
         load (elem_addr (elem_size type) dst dd doff dr p) (elem_size type) m'
         = elem_fun type (sw = adios_flag_yes)
             (load (elem_addr (elem_size type) src sd soff sr p) (elem_size type) m))
    \<and> (\<forall>x. (\<forall>p. list_all2 (<) p subv \<longrightarrow>
              (\<forall>u < elem_size type. x \<noteq> elem_addr (elem_size type) dst dd doff dr p + of_nat u))
          \<longrightarrow> m' x = m x)"
proof -
  let ?z = "elem_size type" and ?swap = "sw = adios_flag_yes"
  let ?mvs = "map (\<lambda>p. (elem_addr ?z dst dd doff dr p, elem_addr ?z src sd soff sr p)) (box_points subv)"
  have order: "in_order ?z ?mvs" unfolding sorted_wrt_map
    by (rule sorted_wrt_distinct [OF distinct_box_points]) (use disjoint in \<open>auto simp: set_box_points\<close>)
  have "copy_subvolume_ragged_offset e dst src subv dd doff dr sd soff sr type sw m
      = Some (fold (elem_copy type ?swap) ?mvs m)"
    by (rule copy_subvolume_addr_moves [OF assms(1-9) order])
  moreover have "load (elem_addr ?z dst dd doff dr p) ?z (fold (elem_copy type ?swap) ?mvs m)
      = elem_fun type ?swap (load (elem_addr ?z src sd soff sr p) ?z m)" if "list_all2 (<) p subv" for p
    using fold_elem_copy_load [OF _ order addr_sorted_apart [OF assms(5,7)],
        of "(elem_addr ?z dst dd doff dr p, elem_addr ?z src sd soff sr p)"] assms(8) that
    by (simp add: set_box_points)
  moreover have "fold (elem_copy type ?swap) ?mvs m x = m x"
    if "\<forall>p. list_all2 (<) p subv \<longrightarrow> (\<forall>u < ?z. x \<noteq> elem_addr ?z dst dd doff dr p + of_nat u)" for x
    using that by (intro fold_elem_copy_frame) (auto simp: set_box_points)
  ultimately show ?thesis by blast
qed

text \<open>
  The specification of an address: the element at index \<open>p\<close> of a subvolume at the offset \<open>off\<close> of a
  volume, of which the buffer holds the part from the index \<open>ragged\<close> on, if one is given.
\<close>

definition ragged_addr :: "nat \<Rightarrow> u64 \<Rightarrow> u64 list \<Rightarrow> u64 list \<Rightarrow> u64 list option \<Rightarrow> u64 list \<Rightarrow> u64" where
  "ragged_addr k base dims off ragged p =
     base + of_nat (row_major (map unat dims) (map2 (+) (map unat off) (map unat p)) * k)
       - of_nat ((case ragged of None \<Rightarrow> 0 | Some r \<Rightarrow> rm dims r) * k)"

lemma elem_addr_ragged_addr:
  assumes "fits_in off subv dims" and "list_all2 (<) p subv" and "\<forall>r. ragged = Some r \<longrightarrow> length r = length dims"
  shows "elem_addr k base dims off (case ragged of None \<Rightarrow> 0 | Some r \<Rightarrow> compute_linear_offset_in_volume r dims) p
    = ragged_addr k base dims off ragged p"
  using assms(3) unfolding elem_addr_row_major(1) [OF assms(1,2)] ragged_addr_def
  by (cases ragged) (simp_all add: compute_linear_offset_row_major)

text \<open>
  C1. \<open>copy_subvolume_ragged\<close>, and \<open>copy_subvolume\<close> for buffers that hold their volumes from the
  beginning, copy exactly the subvolume: when the destination elements share no byte with the
  source elements, every destination element holds its source element (with its byte order
  converted if asked for), and every byte of memory outside the destination elements is unchanged.
  The elements are at their row-major places in the two volumes.
\<close>

theorem copy_subvolume_correct:
  assumes "0 < length subv" "length subv \<le> 32"
    and dst: "fits_in doff subv dd" "\<forall>r. dr = Some r \<longrightarrow> length r = length dd"
    and src: "fits_in soff subv sd" "\<forall>r. sr = Some r \<longrightarrow> length r = length sd"
    and "0 < prod_list (map unat dd) * elem_size type" "prod_list (map unat dd) * elem_size type < 2 ^ 64"
    and "sized_type type" and "list_all (\<lambda>d. unat d < 2 ^ 31) subv"
    and disjoint: "\<forall>p q. list_all2 (<) p subv \<and> list_all2 (<) q subv \<longrightarrow>
        apart (elem_size type) (ragged_addr (elem_size type) dst dd doff dr p) (ragged_addr (elem_size type) src sd soff sr q)"
  shows "\<exists>m'. copy_subvolume_ragged e dst src subv dd doff dr sd soff sr type sw m = Some m'
    \<and> (dr = None \<and> sr = None \<longrightarrow> copy_subvolume e dst src subv dd doff sd soff type sw m = Some m')
    \<and> (\<forall>p. list_all2 (<) p subv \<longrightarrow> load (ragged_addr (elem_size type) dst dd doff dr p) (elem_size type) m'
         = elem_fun type (sw = adios_flag_yes) (load (ragged_addr (elem_size type) src sd soff sr p) (elem_size type) m))
    \<and> (\<forall>x. (\<forall>p. list_all2 (<) p subv \<longrightarrow> (\<forall>u < elem_size type. x \<noteq> ragged_addr (elem_size type) dst dd doff dr p + of_nat u))
          \<longrightarrow> m' x = m x)"
proof -
  have l: "length soff = length subv" "length sd = length subv" using fits_in_length [OF src(1)] by simp_all
  let ?dr = "case dr of None \<Rightarrow> 0 | Some r \<Rightarrow> compute_linear_offset_in_volume r dd"
    and ?sr = "case sr of None \<Rightarrow> 0 | Some r \<Rightarrow> compute_linear_offset_in_volume r sd"
  note addr = elem_addr_ragged_addr [OF dst(1) _ dst(2)] elem_addr_ragged_addr [OF src(1) _ src(2)]
  have "\<forall>p q. list_all2 (<) p subv \<and> list_all2 (<) q subv \<longrightarrow>
      apart (elem_size type) (elem_addr (elem_size type) dst dd doff ?dr p) (elem_addr (elem_size type) src sd soff ?sr q)"
    using disjoint by (simp add: addr)
  from copy_subvolume_points [OF assms(1,2) l(2,1) dst(1) assms(7-10) this, of e sw m]
  show ?thesis unfolding copy_subvolume_def copy_subvolume_ragged_def Let_def
    by (auto simp: addr cong: conj_cong)
qed

text \<open>Two rows of a 2 by 3 source, held from its index (0, 1) on, go to rows 1 and 2 of a 4 by 2 destination.\<close>

theorem copy_subvolume_correct_witness:
  "\<exists>m'. copy_subvolume_ragged Little 0 1000 [2, 2] [4, 2] [1, 0] None [2, 3] [0, 1] (Some [0, 1]) adios_byte adios_flag_no (\<lambda>a. ucast a) = Some m'
    \<and> load 2 1 m' = load 1000 1 (\<lambda>a. ucast a) \<and> load 5 1 m' = load 1004 1 (\<lambda>a. ucast a)"
proof -
  let ?m = "\<lambda>a :: u64. ucast a :: u8"
  let ?dst = "ragged_addr 1 0 [4, 2] [1, 0] None" and ?src = "ragged_addr 1 1000 [2, 3] [0, 1] (Some [0, 1])"
  have "list_all (\<lambda>p. list_all (\<lambda>q. ?dst p + 0 \<noteq> ?src q + 0) (box_points [2, 2])) (box_points [2, 2])"
    by code_simp
  then have "apart 1 (?dst p) (?src q)" if "list_all2 (<) p [2, 2]" "list_all2 (<) q [2, 2]" for p q
    using that unfolding apart_def list_all_iff set_box_points by simp
  then have "\<exists>m'. copy_subvolume_ragged Little 0 1000 [2, 2] [4, 2] [1, 0] None [2, 3] [0, 1] (Some [0, 1])
      adios_byte adios_flag_no ?m = Some m'
    \<and> (\<forall>p. list_all2 (<) p [2, 2] \<longrightarrow> load (?dst p) 1 m' = load (?src p) 1 ?m)"
    using copy_subvolume_correct [of "[2, 2]" "[1, 0]" "[4, 2]" None "[0, 1]" "[2, 3]" "Some [0, 1]" adios_byte 0 1000 Little adios_flag_no ?m]
    by (auto simp: fits_in_def elem_fun_def)
  moreover have "list_all2 (<) [0, 0] [2, 2 :: u64]" "?dst [0, 0] = 2" "?src [0, 0] = 1000"
    "list_all2 (<) [1, 1] [2, 2 :: u64]" "?dst [1, 1] = 5" "?src [1, 1] = 1004"
    by code_simp+
  ultimately show ?thesis by metis
qed

text \<open>The assertions of the compaction hold, and it does nothing exactly for a covering subvolume.\<close>

lemma compact_unfold:
  assumes "0 < length subv" and "fits_in off subv bd"
  shows "compact_subvolume_ragged_offset e buf subv bd ragged off type m =
    Inr (if off = replicate (length subv) 0 \<and> bd = subv then Some m
      else copy_subvolume_ragged_offset e buf buf subv subv (replicate (length subv) 0) 0 bd off ragged
        type adios_flag_no m)"
proof -
  let ?zero = "replicate (length subv) 0 :: u64 list"
  have len: "length bd = length subv" "length off = length subv"
    using fits_in_length [OF assms(2)] by simp_all
  have "subv ! i + off ! i \<le> bd ! i" if "i < length subv" for i
  proof -
    have le: "unat (off ! i) + unat (subv ! i) \<le> unat (bd ! i)"
      using assms(2) that len by (auto simp: fits_in_def list_all2_conv_all_nth)
    then have "unat (subv ! i + off ! i) = unat (subv ! i) + unat (off ! i)"
      using unat_u64_less [of "bd ! i"] by (intro unat_add_no_wrap) simp
    with le show ?thesis by (simp add: word_le_nat_alt)
  qed
  then have asserts: "list_all (\<lambda>i. subv ! i + off ! i \<le> bd ! i) [0..<length subv]"
    by (simp add: list_all_iff)
  have init: "adios_copyspec_init (length subv) (Some subv) (Some subv) (Some ?zero) (Some bd) (Some off)
      = Inr (mk_copyspec subv subv ?zero bd off)"
    using assms(1) by (simp add: adios_copyspec_init_def mk_copyspec_def)
  have noop: "adios_copyspec_is_noop (mk_copyspec subv subv ?zero bd off) \<longleftrightarrow> off = ?zero \<and> bd = subv"
    using len by (simp add: covering_mk)
  show ?thesis
    unfolding compact_subvolume_ragged_offset_def Let_def
    by (simp add: asserts init noop)
      (simp add: copy_subvolume_ragged_offset_with_spec_def mk_copyspec_def)
qed

text \<open>
  The number of elements that one \<open>memcpy\<close> of the copy moves: the size of the dimensions that are
  collapsed into a block.
\<close>

definition run_length :: "u64 list \<Rightarrow> u64 list \<Rightarrow> u64 list \<Rightarrow> u64 list \<Rightarrow> u64 list \<Rightarrow> nat" where
  "run_length subv dd doff sd soff = prod_list (map unat (drop (last_noncovering_dim subv dd doff sd soff) subv))"

text \<open>Where the compaction moves every run by at least its length, no \<open>memcpy\<close> overlaps.\<close>

lemma compact_runs_apart:
  assumes fits: "fits_in off subv bd" and p: "list_all2 (<) p subv"
    and far: "unat ragged + L \<le> rm bd off" and L: "L \<le> prod_list (map unat bd)"
    and vol: "prod_list (map unat bd) * k < 2 ^ 63"
  shows "apart (L * k) (buf + of_nat (rm subv p * k)) (elem_addr k buf bd off ragged p)"
proof -
  let ?r = "row_major (map unat bd) (map2 (+) (map unat off) (map unat p))"
  define S where "S = ?r - unat ragged"
  have len: "length off = length bd" "length p = length bd"
    using fits_in_length [OF fits] list_all2_lengthD [OF p] by simp_all
  have "?r = rm bd off + rm bd p" using len by (intro row_major_add) simp_all
  moreover have "rm subv p \<le> rm bd p"
    using fits_in_le [OF fits] list_all2_lengthD [OF p] by (intro row_major_mono) simp_all
  ultimately have S: "rm subv p + L \<le> S" using far unfolding S_def by linarith
  have "S < prod_list (map unat bd)" using elem_addr_row_major(2) [OF fits p] by (simp add: S_def)
  then have "(S + L) * k \<le> (2 * prod_list (map unat bd)) * k" using L by (intro mult_le_mono1) simp
  then have fit: "S * k + L * k < 2 ^ 64" using vol by (simp add: algebra_simps)
  have "(of_nat (rm subv p * k + u) :: u64) \<noteq> of_nat (S * k + v)" if "u < L * k" "v < L * k" for u v
  proof -
    have "(rm subv p + L) * k \<le> S * k" using S by (rule mult_le_mono1)
    then have "rm subv p * k + u < S * k" using that(1) by (simp add: algebra_simps)
    then show ?thesis using that(2) fit by (subst of_nat_u64_eq) simp_all
  qed
  then show ?thesis
    using elem_addr_ragged(1) [OF fits p, of ragged k buf] far unfolding apart_def
    by (simp only: add.assoc of_nat_add [symmetric] add_left_cancel) (simp add: S_def)
qed

lemma run_length_le:
  assumes "list_all (\<lambda>d. 0 < unat d) subv" and "fits_in off subv bd"
  shows "run_length subv dd doff sd soff \<le> prod_list (map unat bd)"
proof -
  have "0 < prod_list (map unat subv)" using assms(1) by (induction subv) auto
  then have "run_length subv dd doff sd soff \<le> prod_list (map unat subv)"
    unfolding run_length_def drop_map [symmetric] by (rule prod_list_drop_le)
  also have "\<dots> \<le> prod_list (map unat bd)" by (rule prod_list_mono [OF fits_in_le [OF assms(2)]])
  finally show ?thesis .
qed

text \<open>
  C28. \<open>compact_subvolume_ragged_offset\<close> moves a subvolume to the front of its own buffer: it
  passes its assertions, the elements end up in row-major order at the start of the buffer
  with the values they had, although the range they are moved to overlaps the range they come from,
  and no byte behind the compacted elements changes. The subvolume is the whole buffer, when nothing
  is moved, or it starts at least the length of one run of contiguous elements behind the front:
  then the two blocks of every \<open>memcpy\<close> are disjoint, as C requires. (For other subvolumes the code
  calls \<open>memcpy\<close> on overlapping blocks; \<open>compact_rows_overlap\<close>.)
\<close>

theorem compact_subvolume_correct:
  assumes "0 < length subv" "length subv \<le> 32" and "sized_type type"
    and "fits_in off subv bd" and "list_all (\<lambda>d. 0 < unat d \<and> unat d < 2 ^ 31) subv"
    and "prod_list (map unat bd) * elem_size type < 2 ^ 63"
    and "off = replicate (length subv) 0 \<and> bd = subv \<and> ragged = 0
      \<or> unat ragged + run_length subv subv (replicate (length subv) 0) bd off \<le> rm bd off"
  shows "\<exists>m'. compact_subvolume_ragged_offset e buf subv bd ragged off type m = Inr (Some m')
    \<and> (\<forall>p. list_all2 (<) p subv \<longrightarrow>
         load (buf + of_nat (row_major (map unat subv) (map unat p) * elem_size type)) (elem_size type) m'
         = load (elem_addr (elem_size type) buf bd off ragged p) (elem_size type) m)
    \<and> (\<forall>x. \<not> unat (x - buf) < prod_list (map unat subv) * elem_size type \<longrightarrow> m' x = m x)
    \<and> (off = replicate (length subv) 0 \<and> bd = subv \<or> (\<forall>p. list_all2 (<) p subv \<longrightarrow>
         apart (run_length subv subv (replicate (length subv) 0) bd off * elem_size type)
           (buf + of_nat (rm subv p * elem_size type)) (elem_addr (elem_size type) buf bd off ragged p)))"
proof -
  let ?z = "elem_size type" and ?zero = "replicate (length subv) 0"
  have z: "0 < ?z" using elem_size_small [of type] assms(3) by simp
  have len: "length bd = length subv" "length off = length subv"
    using fits_in_length [OF assms(4)] by simp_all
  have vol64: "prod_list (map unat bd) * ?z < 2 ^ 64" using assms(6) by simp
  have "prod_list (map unat subv) \<le> prod_list (map unat bd)"
    by (rule prod_list_mono [OF fits_in_le [OF assms(4)]])
  then have vol: "prod_list (map unat subv) * ?z < 2 ^ 64"
    using vol64 by (meson le_less_trans mult_le_mono1)
  have pos: "0 < prod_list (map unat subv) * ?z"
    using assms(5) z by (induction subv) auto
  have small: "list_all (\<lambda>d. unat d < 2 ^ 31) subv" using assms(5) by (simp add: list_all_iff)
  note comp = compact_unfold [OF assms(1,4), of e buf ragged type m]
  let ?mvs = "map (\<lambda>p. (elem_addr ?z buf subv ?zero 0 p, elem_addr ?z buf bd off ragged p)) (box_points subv)"
  have ragged: "unat ragged \<le> rm bd off" using assms(7) by auto
  note order = compact_in_order [OF assms(4) vol64 ragged, of buf]
  let ?m = "fold (elem_copy type False) ?mvs m"
  have copy: "copy_subvolume_ragged_offset e buf buf subv subv ?zero 0 bd off ragged type adios_flag_no m = Some ?m"
    using copy_subvolume_addr_moves [OF assms(1,2) len fits_in_zero pos vol assms(3) small order] by simp
  have loads: "load (buf + of_nat (row_major (map unat subv) (map unat p) * ?z)) ?z ?m
      = load (elem_addr ?z buf bd off ragged p) ?z m" if "list_all2 (<) p subv" for p
    using fold_elem_copy_load [OF _ order addr_sorted_apart [OF fits_in_zero vol],
        of "(elem_addr ?z buf subv ?zero 0 p, elem_addr ?z buf bd off ragged p)" False m] assms(3) that
    by (simp add: set_box_points elem_fun_def elem_addr_compact)
  have frame: "?m x = m x" if "\<not> unat (x - buf) < prod_list (map unat subv) * ?z" for x
  proof (rule fold_elem_copy_frame, intro ballI allI impI)
    fix mv u assume "mv \<in> set ?mvs" and u: "u < ?z"
    then obtain p where p: "list_all2 (<) p subv"
      and mv: "fst mv = buf + of_nat (row_major (map unat subv) (map unat p) * ?z)"
      by (auto simp: set_box_points elem_addr_compact)
    have r: "row_major (map unat subv) (map unat p) < prod_list (map unat subv)"
      using p by (intro row_major_less)
        (auto simp: list_all2_map1 list_all2_map2 word_less_nat_alt elim: list_all2_mono)
    have "unat (fst mv + of_nat u - buf) < prod_list (map unat subv) * ?z"
      using radix_less [OF r u] vol unfolding mv by (subst unat_window_byte [OF r u]) simp_all
    with that show "x \<noteq> fst mv + of_nat u" by blast
  qed
  show ?thesis
  proof (cases "off = ?zero \<and> bd = subv")
    case True
    then have "ragged = 0" using ragged row_major_zero by (simp add: unat_eq_0)
    with True comp show ?thesis by (auto simp: elem_addr_compact)
  next
    case False
    have "list_all (\<lambda>d. 0 < unat d) subv" using assms(5) by (simp add: list_all_iff)
    note L = run_length_le [OF this assms(4), of subv ?zero bd off]
    have "apart (run_length subv subv ?zero bd off * ?z) (buf + of_nat (rm subv p * ?z)) (elem_addr ?z buf bd off ragged p)"
      if "list_all2 (<) p subv" for p
      using compact_runs_apart [OF assms(4) that _ L assms(6)] assms(7) False by blast
    with False comp copy loads frame show ?thesis by auto
  qed
qed

text \<open>Rows 1 and 2 of a buffer of rows of two: one \<open>memcpy\<close> of four bytes to a place two bytes in front.\<close>

lemma compact_rows_overlap:
  "run_length [2, 2] [2, 2] [0, 0] [4, 2] [1, 0] = 4" "\<not> apart 4 0 (elem_addr 1 0 [4, 2] [1, 0] 0 [0, 0])"
proof -
  show "run_length [2, 2] [2, 2] [0, 0] [4, 2] [1, 0] = 4" by code_simp
  have "elem_addr 1 0 [4, 2] [1, 0] 0 [0, 0] = 2" by code_simp
  then show "\<not> apart 4 0 (elem_addr 1 0 [4, 2] [1, 0] 0 [0, 0])" unfolding apart_def
    by (intro notI) (drule spec [of _ 2], simp, drule spec [of _ 0], simp)
qed

theorem compact_subvolume_correct_witness:
  "\<exists>m'. compact_subvolume_ragged_offset Little 0 [2, 1] [2, 3] 0 [0, 1] adios_byte (\<lambda>a. ucast a) = Inr (Some m')
    \<and> load 1 1 m' = load 4 1 (\<lambda>a. ucast a)"
proof -
  let ?m = "\<lambda>a :: u64. ucast a :: u8"
  have runs: "run_length [2, 1] [2, 1] [0, 0] [2, 3] [0, 1] \<le> rm [2, 3] [0, 1 :: u64]" by code_simp
  have "\<exists>m'. compact_subvolume_ragged_offset Little 0 [2, 1] [2, 3] 0 [0, 1] adios_byte ?m = Inr (Some m')
    \<and> (\<forall>p. list_all2 (<) p [2, 1] \<longrightarrow>
         load (0 + of_nat (row_major (map unat [2, 1 :: u64]) (map unat p) * 1)) 1 m'
         = load (elem_addr 1 0 [2, 3] [0, 1] 0 p) 1 ?m)"
    using compact_subvolume_correct [of "[2, 1]" adios_byte "[0, 1]" "[2, 3]" 0 Little 0 ?m] runs
    by (auto simp: fits_in_def)
  moreover have "list_all2 (<) [1, 0] [2, 1 :: u64]" "elem_addr 1 0 [2, 3] [0, 1] 0 [1, 0] = 4"
    "row_major (map unat [2, 1 :: u64]) (map unat [1, 0 :: u64]) * 1 = 1"
    by code_simp+
  ultimately show ?thesis by (metis add_0 of_nat_1)
qed

end
