(* ===== verification/Selection.thy ===== *)
theory Selection
  imports Geometry
begin

text \<open>
  Intersection of selections (\<open>core/adios_selection_util.c\<close>), duplication of selections
  (\<open>core/util.c\<close>) and the numbering of write blocks (\<open>core/adios_read_ext.c\<close>). A null result
  without an error report is \<open>Inr None\<close>, an error report or a failed assertion is \<open>Inl\<close>, and
  a write behind an allocated buffer is \<open>Inl err_out_of_bounds\<close>. The parameter \<open>malloc_ok\<close>
  says whether the allocation of the result succeeds.
\<close>

section \<open>Definitions\<close>

record ADIOS_VARINFO =
  vi_nsteps :: int
  vi_nblocks :: "int list"
  vi_blockinfo :: "ADIOS_VARBLOCK list option"

definition common_read_selection_boundingbox :: "nat \<Rightarrow> u64 list \<Rightarrow> u64 list \<Rightarrow> ADIOS_SELECTION" where
  "common_read_selection_boundingbox ndim start count =
     Sel_boundingbox \<lparr>bb_ndim = ndim, bb_start = start, bb_count = count\<rparr>"

definition common_read_selection_points :: "nat \<Rightarrow> u64 \<Rightarrow> u64 list \<Rightarrow> ADIOS_SELECTION" where
  "common_read_selection_points ndim npoints points =
     Sel_points \<lparr>pts_ndim = ndim, pts_npoints = npoints, pts_points = points\<rparr>"

text \<open>The range of a block that is not a sub-block selection is left as \<open>malloc\<close> returns it.\<close>

definition common_read_selection_writeblock :: "u64 \<times> u64 \<Rightarrow> int \<Rightarrow> ADIOS_SELECTION_WRITEBLOCK_STRUCT" where
  "common_read_selection_writeblock uninit index =
     \<lparr>wb_index = index, wb_is_absolute_index = False, wb_is_sub_pg_selection = False,
      wb_element_offset = fst uninit, wb_nelements = snd uninit\<rparr>"

definition adios_selection_writeblock_bounded ::
  "u64 \<times> u64 \<Rightarrow> int \<Rightarrow> u64 \<Rightarrow> u64 \<Rightarrow> bool \<Rightarrow> ADIOS_SELECTION" where
  "adios_selection_writeblock_bounded uninit index start_elem num_elems is_timestep_relative =
     Sel_writeblock ((common_read_selection_writeblock uninit index)
       \<lparr>wb_is_absolute_index := \<not> is_timestep_relative, wb_is_sub_pg_selection := True,
        wb_element_offset := start_elem, wb_nelements := num_elems\<rparr>)"

definition adios_selection_intersect_bb_bb ::
  "bool \<Rightarrow> ADIOS_SELECTION_BOUNDINGBOX_STRUCT \<Rightarrow> ADIOS_SELECTION_BOUNDINGBOX_STRUCT
    \<Rightarrow> adios_errcode + ADIOS_SELECTION option" where
  "adios_selection_intersect_bb_bb malloc_ok bb1 bb2 =
     (if bb_ndim bb1 \<noteq> bb_ndim bb2 then Inl err_assertion
      else if \<not> malloc_ok then Inl err_no_memory
      else case intersect_bb bb1 bb2 of
          Inl err \<Rightarrow> Inl err
        | Inr None \<Rightarrow> Inr None
        | Inr (Some (new_count, new_start, _, _)) \<Rightarrow>
            Inr (Some (common_read_selection_boundingbox (bb_ndim bb1) new_start new_count)))"

text \<open>The points of a selection, in the order the pointer loops visit them.\<close>

definition pts_list :: "ADIOS_SELECTION_POINTS_STRUCT \<Rightarrow> u64 list list" where
  "pts_list pts =
     (if pts_ndim pts = 0 then []
      else map (\<lambda>i. take (pts_ndim pts) (drop (i * pts_ndim pts) (pts_points pts)))
        [0..<unat (pts_npoints pts)])"

text \<open>The loop over the components of a point, which stops at the first one out of the box.\<close>

fun point_in_bb :: "u64 list \<Rightarrow> u64 list \<Rightarrow> u64 list \<Rightarrow> bool" where
  "point_in_bb (s # start) (c # count) (p # ps) =
     (if p < s \<or> p \<ge> s + c then False else point_in_bb start count ps)"
| "point_in_bb _ _ _ = True"

definition adios_selection_intersect_bb_pts ::
  "bool \<Rightarrow> ADIOS_SELECTION_BOUNDINGBOX_STRUCT \<Rightarrow> ADIOS_SELECTION_POINTS_STRUCT
    \<Rightarrow> adios_errcode + ADIOS_SELECTION option" where
  "adios_selection_intersect_bb_pts malloc_ok bb1 pts2 =
     (if bb_ndim bb1 \<noteq> pts_ndim pts2 then Inl err_assertion
      else if \<not> malloc_ok then Inl err_no_memory
      else let new_pts = filter (point_in_bb (bb_start bb1) (bb_count bb1)) (pts_list pts2)
           in if new_pts = [] then Inr None
              else Inr (Some (common_read_selection_points (bb_ndim bb1) (of_nat (length new_pts))
                     (concat new_pts))))"

text \<open>
  \<open>adios_selection_intersect_pts_pts\<close>: the output buffer has room for the longer of the two
  lists, and is cut to \<open>new_npts * sizeof (uint64_t)\<close> bytes at the end.
\<close>

definition adios_selection_intersect_pts_pts ::
  "bool \<Rightarrow> ADIOS_SELECTION_POINTS_STRUCT \<Rightarrow> ADIOS_SELECTION_POINTS_STRUCT
    \<Rightarrow> adios_errcode + ADIOS_SELECTION option" where
  "adios_selection_intersect_pts_pts malloc_ok pts1 pts2 =
     (let max_new_npts = (if pts_npoints pts1 > pts_npoints pts2 then pts_npoints pts1 else pts_npoints pts2)
      in if pts_ndim pts1 \<noteq> pts_ndim pts2 then Inl err_assertion
         else if \<not> malloc_ok then Inl err_no_memory
         else let new_pts = concat (map (\<lambda>p1. map (\<lambda>_. p1) (filter (\<lambda>p2. p1 = p2) (pts_list pts2)))
                    (pts_list pts1))
              in if length new_pts > unat max_new_npts then Inl err_out_of_bounds
                 else if new_pts = [] then Inr None
                 else Inr (Some (common_read_selection_points (pts_ndim pts1) (of_nat (length new_pts))
                        (take (length new_pts) (concat new_pts)))))"

definition adios_selection_intersect_bb ::
  "bool \<Rightarrow> ADIOS_SELECTION_BOUNDINGBOX_STRUCT \<Rightarrow> ADIOS_SELECTION
    \<Rightarrow> adios_errcode + ADIOS_SELECTION option" where
  "adios_selection_intersect_bb malloc_ok bb1 s2 =
     (case s2 of
        Sel_boundingbox bb2 \<Rightarrow> adios_selection_intersect_bb_bb malloc_ok bb1 bb2
      | Sel_points pts2 \<Rightarrow> adios_selection_intersect_bb_pts malloc_ok bb1 pts2
      | _ \<Rightarrow> Inl err_invalid_argument)"

definition adios_selection_intersect_pts ::
  "bool \<Rightarrow> ADIOS_SELECTION_POINTS_STRUCT \<Rightarrow> ADIOS_SELECTION
    \<Rightarrow> adios_errcode + ADIOS_SELECTION option" where
  "adios_selection_intersect_pts malloc_ok pts1 s2 =
     (case s2 of
        Sel_points pts2 \<Rightarrow> adios_selection_intersect_pts_pts malloc_ok pts1 pts2
      | _ \<Rightarrow> Inl err_invalid_argument)"

fun is_global_selection :: "ADIOS_SELECTION \<Rightarrow> bool" where
  "is_global_selection (Sel_boundingbox _) = True"
| "is_global_selection (Sel_points _) = True"
| "is_global_selection _ = False"

text \<open>
  In the case of points the code tests \<open>s1->type\<close> for a bounding box, which is never true
  there, so that the recursive call with exchanged arguments is unreachable.
\<close>

definition adios_selection_intersect_global ::
  "bool \<Rightarrow> ADIOS_SELECTION \<Rightarrow> ADIOS_SELECTION \<Rightarrow> adios_errcode + ADIOS_SELECTION option" where
  "adios_selection_intersect_global malloc_ok s1 s2 =
     (if \<not> is_global_selection s1 \<or> \<not> is_global_selection s2 then Inl err_invalid_argument
      else case s1 of
          Sel_boundingbox bb1 \<Rightarrow> adios_selection_intersect_bb malloc_ok bb1 s2
        | Sel_points pts1 \<Rightarrow> adios_selection_intersect_pts malloc_ok pts1 s2
        | _ \<Rightarrow> Inl err_invalid_argument)"

text \<open>
  The error is only reported: the function then returns -1 as an index. The sum of the numbers of
  blocks, an \<open>int\<close> in the code, is taken to stay below \<open>2 ^ 31\<close>: it is the number of blocks of a variable.
\<close>

definition adios_get_absolute_writeblock_index ::
  "ADIOS_VARINFO \<Rightarrow> int \<Rightarrow> int \<Rightarrow> adios_errcode option \<times> int" where
  "adios_get_absolute_writeblock_index varinfo timestep_relative_idx timestep =
     (if vi_blockinfo varinfo = None then (Some err_assertion, -1)
      else if timestep < 0 \<or> timestep \<ge> vi_nsteps varinfo then (Some err_invalid_timestep, -1)
      else if timestep_relative_idx < 0 \<or> timestep_relative_idx \<ge> vi_nblocks varinfo ! nat timestep
      then (Some err_invalid_argument, -1)
      else (None, fold (\<lambda>i absolute_idx. absolute_idx + vi_nblocks varinfo ! i) [0..<nat timestep]
             timestep_relative_idx))"

text \<open>The output variables stay unset (\<open>None\<close>) if their step is not met.\<close>

fun compute_blockidx_range_loop ::
  "int list \<Rightarrow> int \<Rightarrow> int \<Rightarrow> int \<Rightarrow> int \<Rightarrow> int option \<Rightarrow> int option \<times> int option" where
  "compute_blockidx_range_loop [] blockidx curblocks from_steps to_steps start = (start, None)"
| "compute_blockidx_range_loop (n # nblocks) blockidx curblocks from_steps to_steps start =
     (let start' = (if blockidx = from_steps then Some curblocks else start);
          curblocks' = curblocks + n
      in if blockidx = to_steps - 1 then (start', Some curblocks')
         else compute_blockidx_range_loop nblocks (blockidx + 1) curblocks' from_steps to_steps start')"

definition compute_blockidx_range :: "ADIOS_VARINFO \<Rightarrow> int \<Rightarrow> int \<Rightarrow> int option \<times> int option" where
  "compute_blockidx_range raw_varinfo from_steps to_steps =
     compute_blockidx_range_loop (take (nat (vi_nsteps raw_varinfo)) (vi_nblocks raw_varinfo)) 0 0
       from_steps to_steps None"

definition adios_selection_intersect_wb_wb ::
  "u64 \<times> u64 \<Rightarrow> ADIOS_SELECTION_WRITEBLOCK_STRUCT \<Rightarrow> ADIOS_SELECTION_WRITEBLOCK_STRUCT
    \<Rightarrow> int \<Rightarrow> ADIOS_VARINFO \<Rightarrow> ADIOS_SELECTION option" where
  "adios_selection_intersect_wb_wb uninit wb1 wb2 timestep raw_varinfo =
     (let abs_index = (\<lambda>wb. if wb_is_absolute_index wb then wb_index wb
            else snd (adios_get_absolute_writeblock_index raw_varinfo (wb_index wb) timestep));
          (index1, index2, is_abs_idx) =
            (if wb_is_absolute_index wb1 = wb_is_absolute_index wb2
             then (wb_index wb1, wb_index wb2, wb_is_absolute_index wb1)
             else (abs_index wb1, abs_index wb2, True))
      in if index1 \<noteq> index2 then None
         else if \<not> wb_is_sub_pg_selection wb1 \<and> \<not> wb_is_sub_pg_selection wb2
         then Some (Sel_writeblock ((common_read_selection_writeblock uninit index1)
                \<lparr>wb_is_absolute_index := is_abs_idx\<rparr>))
         else if wb_is_sub_pg_selection wb1 \<and> wb_is_sub_pg_selection wb2
         then (case intersect_segments (wb_element_offset wb1) (wb_nelements wb1)
                      (wb_element_offset wb2) (wb_nelements wb2) of
                 Some (inter_elem_offset, inter_nelems) \<Rightarrow>
                   Some (Sel_writeblock ((common_read_selection_writeblock uninit index1)
                     \<lparr>wb_is_absolute_index := is_abs_idx, wb_is_sub_pg_selection := True,
                      wb_element_offset := inter_elem_offset, wb_nelements := inter_nelems\<rparr>))
               | None \<Rightarrow> None)
         else if wb_is_sub_pg_selection wb1 then Some (Sel_writeblock wb1)
         else Some (Sel_writeblock wb2))"

definition adios_selection_intersect_wb ::
  "u64 \<times> u64 \<Rightarrow> ADIOS_SELECTION_WRITEBLOCK_STRUCT \<Rightarrow> ADIOS_SELECTION \<Rightarrow> int \<Rightarrow> ADIOS_VARINFO
    \<Rightarrow> adios_errcode + ADIOS_SELECTION option" where
  "adios_selection_intersect_wb uninit wb1 s2 timestep raw_varinfo =
     (case s2 of
        Sel_writeblock wb2 \<Rightarrow> Inr (adios_selection_intersect_wb_wb uninit wb1 wb2 timestep raw_varinfo)
      | _ \<Rightarrow> Inl err_invalid_argument)"

definition adios_selection_intersect_local ::
  "u64 \<times> u64 \<Rightarrow> ADIOS_SELECTION \<Rightarrow> ADIOS_SELECTION \<Rightarrow> int \<Rightarrow> ADIOS_VARINFO
    \<Rightarrow> adios_errcode + ADIOS_SELECTION option" where
  "adios_selection_intersect_local uninit s1 s2 timestep raw_varinfo =
     (if is_global_selection s1 \<or> is_global_selection s2 then Inl err_invalid_argument
      else case s1 of
          Sel_writeblock wb1 \<Rightarrow> adios_selection_intersect_wb uninit wb1 s2 timestep raw_varinfo
        | _ \<Rightarrow> Inl err_invalid_argument)"

text \<open>\<open>copy_selection\<close>; the hints of an automatic selection are not copied.\<close>

definition copy_selection :: "cstring option \<Rightarrow> ADIOS_SELECTION \<Rightarrow> ADIOS_SELECTION" where
  "copy_selection uninit sel =
     (case sel of
        Sel_boundingbox bb \<Rightarrow>
          Sel_boundingbox \<lparr>bb_ndim = bb_ndim bb, bb_start = take (bb_ndim bb) (bb_start bb),
            bb_count = take (bb_ndim bb) (bb_count bb)\<rparr>
      | Sel_points pts \<Rightarrow>
          Sel_points \<lparr>pts_ndim = pts_ndim pts, pts_npoints = pts_npoints pts,
            pts_points = take (unat (pts_npoints pts) * pts_ndim pts) (pts_points pts)\<rparr>
      | Sel_writeblock wb \<Rightarrow>
          Sel_writeblock \<lparr>wb_index = wb_index wb, wb_is_absolute_index = wb_is_absolute_index wb,
            wb_is_sub_pg_selection = wb_is_sub_pg_selection wb,
            wb_element_offset = wb_element_offset wb, wb_nelements = wb_nelements wb\<rparr>
      | Sel_auto _ \<Rightarrow> Sel_auto \<lparr>auto_hints = uninit\<rparr>)"

section \<open>Points\<close>

lemma chunks_concat:
  assumes "\<forall>p \<in> set ps. length p = k"
  shows "map (\<lambda>i. take k (drop (i * k) (concat ps))) [0..<length ps] = ps"
  using assms
proof (induction ps)
  case (Cons p ps)
  have "[0..<length (p # ps)] = 0 # map Suc [0..<length ps]"
    by (simp add: upt_conv_Cons map_Suc_upt del: upt_Suc)
  with Cons show ?case by (simp add: o_def del: upt_Suc)
qed simp

lemma pts_list_concat:
  assumes "\<forall>p \<in> set ps. length p = k" and "0 < k" and "length ps < 2 ^ 64"
  shows "pts_list \<lparr>pts_ndim = k, pts_npoints = of_nat (length ps), pts_points = concat ps\<rparr> = ps"
  using assms by (simp add: pts_list_def chunks_concat)

definition pts_wf :: "ADIOS_SELECTION_POINTS_STRUCT \<Rightarrow> bool" where
  "pts_wf pts \<longleftrightarrow> 0 < pts_ndim pts \<and> unat (pts_npoints pts) * pts_ndim pts \<le> length (pts_points pts)"

lemma pts_list_length:
  "pts_wf pts \<Longrightarrow> length (pts_list pts) = unat (pts_npoints pts)"
  by (simp add: pts_list_def pts_wf_def)

lemma pts_list_ndim: "pts_wf pts \<Longrightarrow> p \<in> set (pts_list pts) \<Longrightarrow> length p = pts_ndim pts"
proof -
  assume wf: "pts_wf pts" and "p \<in> set (pts_list pts)"
  then obtain i where i: "i < unat (pts_npoints pts)"
    "p = take (pts_ndim pts) (drop (i * pts_ndim pts) (pts_points pts))"
    by (auto simp: pts_list_def split: if_splits)
  have "Suc i * pts_ndim pts \<le> length (pts_points pts)"
    using wf i(1) mult_le_mono1 [of "Suc i" "unat (pts_npoints pts)" "pts_ndim pts"]
    by (auto simp: pts_wf_def)
  with i(2) show ?thesis by simp
qed

lemma point_in_bb_iff:
  "box_fits start count \<Longrightarrow> length p = length start \<Longrightarrow>
   point_in_bb start count p \<longleftrightarrow> in_box start count (map unat p)"
proof (induction start count arbitrary: p rule: box_fits.induct)
  case (1 s start c count)
  then obtain x xs where p: "p = x # xs" by (cases p) auto
  have "unat (s + c) = unat s + unat c" using 1(2) by (intro unat_add_no_wrap) simp
  then show ?case using 1 p by (auto simp: word_le_nat_alt word_less_nat_alt)
qed auto

text \<open>The points a global selection denotes.\<close>

fun sel_denotes :: "ADIOS_SELECTION \<Rightarrow> nat list \<Rightarrow> bool" where
  "sel_denotes (Sel_boundingbox bb) p = in_box (bb_start bb) (bb_count bb) p"
| "sel_denotes (Sel_points pts) p = (p \<in> map unat ` set (pts_list pts))"
| "sel_denotes _ p = False"

fun sel_wf :: "nat \<Rightarrow> ADIOS_SELECTION \<Rightarrow> bool" where
  "sel_wf n (Sel_boundingbox bb) = (bb_wf bb \<and> bb_ndim bb = n \<and> box_fits (bb_start bb) (bb_count bb))"
| "sel_wf n (Sel_points pts) = (pts_wf pts \<and> pts_ndim pts = n)"
| "sel_wf n _ = False"

lemma intersect_bb_pts_denotes:
  assumes bb: "sel_wf n (Sel_boundingbox bb)" and pts: "sel_wf n (Sel_points pts)"
    and r: "adios_selection_intersect_bb_pts True bb pts = Inr r"
  shows "case r of None \<Rightarrow> \<not> (\<exists>p. in_box (bb_start bb) (bb_count bb) p \<and> sel_denotes (Sel_points pts) p)
    | Some sel \<Rightarrow> (\<forall>p. sel_denotes sel p
        \<longleftrightarrow> in_box (bb_start bb) (bb_count bb) p \<and> sel_denotes (Sel_points pts) p)"
proof -
  define ps where "ps = filter (point_in_bb (bb_start bb) (bb_count bb)) (pts_list pts)"
  have wf: "pts_wf pts" "pts_ndim pts = n" "bb_ndim bb = n" "length (bb_start bb) = n"
      "box_fits (bb_start bb) (bb_count bb)" "0 < n"
    using bb pts by (auto simp: bb_wf_def pts_wf_def)
  have len: "length p = n" if "p \<in> set (pts_list pts)" for p
    using pts_list_ndim [OF wf(1) that] wf(2) by simp
  have "length ps \<le> length (pts_list pts)" by (simp add: ps_def)
  then have short: "length ps < 2 ^ 64"
    using pts_list_length [OF wf(1)] unat_u64_less [of "pts_npoints pts"] by simp
  have mem: "p \<in> map unat ` set ps \<longleftrightarrow> in_box (bb_start bb) (bb_count bb) p \<and> p \<in> map unat ` set (pts_list pts)" for p
    using point_in_bb_iff [OF wf(5)] len wf(4) by (auto simp: ps_def)
  show ?thesis
  proof (cases "ps = []")
    case True
    with r mem wf(2,3) show ?thesis
      by (auto simp: adios_selection_intersect_bb_pts_def simp flip: ps_def)
  next
    case False
    have "pts_list \<lparr>pts_ndim = n, pts_npoints = of_nat (length ps), pts_points = concat ps\<rparr> = ps"
      using len short wf(6) by (intro pts_list_concat) (auto simp: ps_def)
    with False r mem wf(2,3) show ?thesis
      by (auto simp: adios_selection_intersect_bb_pts_def common_read_selection_points_def
          simp flip: ps_def)
  qed
qed

section \<open>Properties\<close>

lemma intersect_global_bb:
  assumes "sel_wf n (Sel_boundingbox bb)" and "sel_wf n s2"
    and "adios_selection_intersect_global True (Sel_boundingbox bb) s2 = Inr r"
  shows "case r of
      None \<Rightarrow> \<not> (\<exists>p. sel_denotes (Sel_boundingbox bb) p \<and> sel_denotes s2 p)
    | Some sel \<Rightarrow> (\<forall>p. sel_denotes sel p \<longleftrightarrow> sel_denotes (Sel_boundingbox bb) p \<and> sel_denotes s2 p)"
proof (cases s2)
  case (Sel_boundingbox bb2)
  have len: "length (bb_count bb) = length (bb_count bb2)"
    and fits: "box_fits (bb_start bb) (bb_count bb)" "box_fits (bb_start bb2) (bb_count bb2)"
    using assms(1,2) Sel_boundingbox by (auto simp: bb_wf_def)
  show ?thesis
  proof (cases "intersect_volumes (bb_count bb) (bb_start bb) (bb_count bb2) (bb_start bb2)")
    case None
    with assms Sel_boundingbox intersect_volumes_None [OF fits len None] show ?thesis
      by (auto simp: adios_selection_intersect_global_def adios_selection_intersect_bb_def
          adios_selection_intersect_bb_bb_def intersect_bb_def)
  next
    case (Some x)
    obtain ds off r1 r2 where x: "x = (ds, off, r1, r2)" by (cases x)
    with assms Sel_boundingbox Some intersect_volumes_Some [OF fits len Some [unfolded x]] show ?thesis
      by (auto simp: adios_selection_intersect_global_def adios_selection_intersect_bb_def
          adios_selection_intersect_bb_bb_def intersect_bb_def common_read_selection_boundingbox_def)
  qed
next
  case (Sel_points pts)
  with assms intersect_bb_pts_denotes [of n bb pts r] show ?thesis
    by (auto simp: adios_selection_intersect_global_def adios_selection_intersect_bb_def
        split: option.splits)
qed (use assms in simp_all)

lemma intersect_global_bb_succeeds:
  assumes "sel_wf n (Sel_boundingbox bb)" and "sel_wf n s2"
  shows "adios_selection_intersect_global True (Sel_boundingbox bb) s2 \<noteq> Inl err"
  using assms
  by (cases s2) (auto simp: adios_selection_intersect_global_def adios_selection_intersect_bb_def bb_wf_def
      adios_selection_intersect_bb_bb_def adios_selection_intersect_bb_pts_def intersect_bb_def Let_def split: option.splits)

text \<open>
  C26. The intersection of a bounding box, as the first selection, with a bounding box or a list of
  points of the same dimensionality succeeds and denotes exactly the points in both: it is null
  only if they have no point in common. The ends of the boxes lie below \<open>2 ^ 31\<close>, since
  \<open>intersect_segments\<close> keeps them in \<open>int\<close> variables. (With the points first the call is rejected,
  \<open>intersect_global_pts_bb_rejected\<close>; two lists of points lose coordinates,
  \<open>intersect_pts_pts_truncates\<close>.)
\<close>

theorem intersect_global_bb_correct:
  assumes "sel_wf n (Sel_boundingbox bb)" and "sel_wf n s2"
  shows "case adios_selection_intersect_global True (Sel_boundingbox bb) s2 of
      Inl _ \<Rightarrow> False
    | Inr None \<Rightarrow> \<not> (\<exists>p. sel_denotes (Sel_boundingbox bb) p \<and> sel_denotes s2 p)
    | Inr (Some sel) \<Rightarrow> (\<forall>p. sel_denotes sel p \<longleftrightarrow> sel_denotes (Sel_boundingbox bb) p \<and> sel_denotes s2 p)"
proof (cases "adios_selection_intersect_global True (Sel_boundingbox bb) s2")
  case (Inl err)
  with assms show ?thesis by (simp add: intersect_global_bb_succeeds)
next
  case (Inr r)
  with intersect_global_bb [OF assms Inr] show ?thesis by (auto split: option.splits)
qed


theorem intersect_global_bb_correct_witness:
  "\<exists>r. adios_selection_intersect_global True
      (Sel_boundingbox \<lparr>bb_ndim = 1, bb_start = [2], bb_count = [3]\<rparr>)
      (Sel_points \<lparr>pts_ndim = 1, pts_npoints = 2, pts_points = [1, 4]\<rparr>) = Inr (Some r)
    \<and> sel_denotes r [4] \<and> \<not> sel_denotes r [1]"
proof -
  let ?bb = "\<lparr>bb_ndim = 1, bb_start = [2], bb_count = [3]\<rparr> :: ADIOS_SELECTION_BOUNDINGBOX_STRUCT"
  let ?s2 = "Sel_points \<lparr>pts_ndim = 1, pts_npoints = 2, pts_points = [1, 4]\<rparr>"
  have r: "adios_selection_intersect_global True (Sel_boundingbox ?bb) ?s2
      = Inr (Some (Sel_points \<lparr>pts_ndim = 1, pts_npoints = 1, pts_points = [4]\<rparr>))" (is "_ = Inr (Some ?r)")
    by code_simp
  have "sel_denotes ?r p \<longleftrightarrow> sel_denotes (Sel_boundingbox ?bb) p \<and> sel_denotes ?s2 p" for p
    using intersect_global_bb_correct [of 1 ?bb ?s2] unfolding r by (simp add: bb_wf_def pts_wf_def)
  with r show ?thesis by (auto simp: pts_list_def upt_rec)
qed

text \<open>
  The intersection is not symmetric in its arguments although it is meant to exchange
  them: with the points first and the bounding box second it reports an invalid argument,
  whatever the selections are, because the test for exchanging looks at the wrong argument.
\<close>

theorem intersect_global_pts_bb_rejected:
  "adios_selection_intersect_global ok (Sel_points pts) (Sel_boundingbox bb) = Inl err_invalid_argument"
  by (simp add: adios_selection_intersect_global_def adios_selection_intersect_pts_def)

text \<open>
  The intersection of two point lists loses coordinates: the result buffer is cut to one
  entry per point instead of \<open>ndim\<close> entries, so in two or more dimensions the returned
  selection claims more coordinates than its buffer holds.
\<close>

theorem intersect_pts_pts_truncates:
  assumes "pts_wf pts1" and "2 \<le> pts_ndim pts1"
    and "adios_selection_intersect_pts_pts True pts1 pts2 = Inr (Some (Sel_points r))"
  shows "0 < pts_npoints r \<and> length (pts_points r) = unat (pts_npoints r)
    \<and> length (pts_points r) < unat (pts_npoints r) * pts_ndim r"
proof -
  define ps where "ps = concat (map (\<lambda>p1. map (\<lambda>_. p1) (filter (\<lambda>p2. p1 = p2) (pts_list pts2)))
    (pts_list pts1))"
  define mx where "mx = (if pts_npoints pts1 > pts_npoints pts2 then pts_npoints pts1 else pts_npoints pts2)"
  have le: "length ps \<le> unat mx" and ne: "ps \<noteq> []"
    and r: "r = \<lparr>pts_ndim = pts_ndim pts1, pts_npoints = of_nat (length ps),
      pts_points = take (length ps) (concat ps)\<rparr>"
    using assms(3)
    by (auto simp: adios_selection_intersect_pts_pts_def common_read_selection_points_def Let_def
        simp flip: ps_def mx_def split: if_splits)
  have "\<forall>p \<in> set ps. length p = pts_ndim pts1"
    using pts_list_ndim [OF assms(1)] by (auto simp: ps_def)
  then have "length (concat ps) = length ps * pts_ndim pts1"
    by (induction ps) auto
  moreover have "length ps \<le> length ps * pts_ndim pts1" using assms(2) by simp
  moreover have "length ps < 2 ^ 64" using le unat_u64_less [of mx] by simp
  moreover have "0 < length ps" using ne by simp
  moreover have "length ps * 1 < length ps * pts_ndim pts1"
    using assms(2) ne by (intro mult_less_mono2) simp_all
  ultimately show ?thesis by (simp add: r word_less_nat_alt min_def)
qed

theorem intersect_pts_pts_truncates_witness:
  "\<exists>r. adios_selection_intersect_pts_pts True
      \<lparr>pts_ndim = 2, pts_npoints = 1, pts_points = [5, 6]\<rparr>
      \<lparr>pts_ndim = 2, pts_npoints = 1, pts_points = [5, 6]\<rparr> = Inr (Some (Sel_points r))
    \<and> length (pts_points r) < unat (pts_npoints r) * pts_ndim r"
proof -
  let ?p = "\<lparr>pts_ndim = 2, pts_npoints = 1, pts_points = [5, 6]\<rparr> :: ADIOS_SELECTION_POINTS_STRUCT"
  have r: "adios_selection_intersect_pts_pts True ?p ?p
      = Inr (Some (Sel_points \<lparr>pts_ndim = 2, pts_npoints = 1, pts_points = [5]\<rparr>))"
    by code_simp
  from intersect_pts_pts_truncates [OF _ _ r] r show ?thesis by (auto simp: pts_wf_def)
qed

section \<open>Write blocks\<close>

lemma fold_add_nth: "fold (\<lambda>i acc. acc + xs ! i) [0..<n] a = a + (\<Sum>i<n. xs ! i)" for xs :: "int list"
  by (induction n) auto

lemma absolute_index:
  "fst (adios_get_absolute_writeblock_index vi i t) = None \<Longrightarrow>
   snd (adios_get_absolute_writeblock_index vi i t) = i + (\<Sum>j < nat t. vi_nblocks vi ! j)
   \<and> 0 \<le> t \<and> t < vi_nsteps vi \<and> 0 \<le> i \<and> i < vi_nblocks vi ! nat t"
  by (auto simp: adios_get_absolute_writeblock_index_def fold_add_nth split: if_splits)

text \<open>The elements of a write-block selection: the absolute block number and an index in it.\<close>

definition wb_abs :: "ADIOS_VARINFO \<Rightarrow> int \<Rightarrow> ADIOS_SELECTION_WRITEBLOCK_STRUCT \<Rightarrow> int" where
  "wb_abs vi t wb = (if wb_is_absolute_index wb then wb_index wb
     else snd (adios_get_absolute_writeblock_index vi (wb_index wb) t))"

definition wb_elems ::
  "ADIOS_VARINFO \<Rightarrow> int \<Rightarrow> nat \<Rightarrow> ADIOS_SELECTION_WRITEBLOCK_STRUCT \<Rightarrow> (int \<times> nat) set" where
  "wb_elems vi t nel wb =
     {wb_abs vi t wb} \<times> (if wb_is_sub_pg_selection wb then seg (wb_element_offset wb) (wb_nelements wb)
        else {..<nel})"

definition wb_valid ::
  "ADIOS_VARINFO \<Rightarrow> int \<Rightarrow> nat \<Rightarrow> ADIOS_SELECTION_WRITEBLOCK_STRUCT \<Rightarrow> bool" where
  "wb_valid vi t nel wb \<longleftrightarrow>
     (wb_is_absolute_index wb \<or> fst (adios_get_absolute_writeblock_index vi (wb_index wb) t) = None)
     \<and> (wb_is_sub_pg_selection wb \<longrightarrow>
          unat (wb_element_offset wb) + unat (wb_nelements wb) \<le> nel) \<and> nel < 2 ^ 31"

lemma wb_index_eq_iff:
  assumes "wb_valid vi t nel wb1" and "wb_valid vi t nel wb2"
    and "wb_is_absolute_index wb1 = wb_is_absolute_index wb2"
  shows "wb_index wb1 = wb_index wb2 \<longleftrightarrow> wb_abs vi t wb1 = wb_abs vi t wb2"
proof (cases "wb_is_absolute_index wb1")
  case True
  with assms(3) show ?thesis by (simp add: wb_abs_def)
next
  case False
  then have "fst (adios_get_absolute_writeblock_index vi (wb_index wb1) t) = None"
    "fst (adios_get_absolute_writeblock_index vi (wb_index wb2) t) = None"
    using assms by (simp_all add: wb_valid_def)
  then have "wb_abs vi t wb1 = wb_index wb1 + (\<Sum>j < nat t. vi_nblocks vi ! j)"
    "wb_abs vi t wb2 = wb_index wb2 + (\<Sum>j < nat t. vi_nblocks vi ! j)"
    using False assms(3) absolute_index [of vi "wb_index wb1" t] absolute_index [of vi "wb_index wb2" t]
    unfolding wb_abs_def by presburger+
  then show ?thesis by simp
qed

text \<open>The result block before an element range is set, and the result in terms of it.\<close>

definition wb_common ::
  "u64 \<times> u64 \<Rightarrow> ADIOS_VARINFO \<Rightarrow> int \<Rightarrow> ADIOS_SELECTION_WRITEBLOCK_STRUCT
    \<Rightarrow> ADIOS_SELECTION_WRITEBLOCK_STRUCT \<Rightarrow> ADIOS_SELECTION_WRITEBLOCK_STRUCT" where
  "wb_common uninit vi t wb1 wb2 =
     (if wb_is_absolute_index wb1 = wb_is_absolute_index wb2
      then (common_read_selection_writeblock uninit (wb_index wb1))
             \<lparr>wb_is_absolute_index := wb_is_absolute_index wb1\<rparr>
      else (common_read_selection_writeblock uninit (wb_abs vi t wb1))\<lparr>wb_is_absolute_index := True\<rparr>)"

lemma wb_common_simps [simp]:
  "wb_abs vi t (wb_common uninit vi t wb1 wb2) = wb_abs vi t wb1"
  "\<not> wb_is_sub_pg_selection (wb_common uninit vi t wb1 wb2)"
  "wb_abs vi t (wb\<lparr>wb_is_sub_pg_selection := x, wb_element_offset := y, wb_nelements := z\<rparr>) = wb_abs vi t wb"
  by (simp_all add: wb_common_def wb_abs_def common_read_selection_writeblock_def)

lemma wb_wb_simp:
  assumes "wb_valid vi t nel wb1" and "wb_valid vi t nel wb2"
  shows "adios_selection_intersect_wb_wb uninit wb1 wb2 t vi =
    (if wb_abs vi t wb1 \<noteq> wb_abs vi t wb2 then None
     else if \<not> wb_is_sub_pg_selection wb1 \<and> \<not> wb_is_sub_pg_selection wb2
     then Some (Sel_writeblock (wb_common uninit vi t wb1 wb2))
     else if wb_is_sub_pg_selection wb1 \<and> wb_is_sub_pg_selection wb2
     then (case intersect_segments (wb_element_offset wb1) (wb_nelements wb1)
                  (wb_element_offset wb2) (wb_nelements wb2) of
             Some (off, n) \<Rightarrow> Some (Sel_writeblock ((wb_common uninit vi t wb1 wb2)
               \<lparr>wb_is_sub_pg_selection := True, wb_element_offset := off, wb_nelements := n\<rparr>))
           | None \<Rightarrow> None)
     else if wb_is_sub_pg_selection wb1 then Some (Sel_writeblock wb1) else Some (Sel_writeblock wb2))"
proof (cases "wb_is_absolute_index wb1 = wb_is_absolute_index wb2")
  case True
  then show ?thesis
    unfolding adios_selection_intersect_wb_wb_def wb_common_def
    by (simp add: wb_index_eq_iff [OF assms True] split: option.split)
next
  case False
  then show ?thesis
    unfolding adios_selection_intersect_wb_wb_def wb_common_def Let_def wb_abs_def [symmetric]
    by (simp split: option.split)
qed

text \<open>
  C27. The intersection of two write-block selections, given by absolute or by step-relative
  block numbers and with or without element ranges inside the block, selects exactly the
  elements both select; null is returned only if they have none in common. The numbers of the
  blocks are valid in the step, the element ranges lie inside the block, and the block has fewer
  than \<open>2 ^ 31\<close> elements: the ends of the ranges are kept in \<open>int\<close> variables.
\<close>

theorem intersect_wb_wb_correct:
  assumes "wb_valid vi t nel wb1" and "wb_valid vi t nel wb2"
  shows "case adios_selection_intersect_local uninit (Sel_writeblock wb1) (Sel_writeblock wb2) t vi of
      Inr None \<Rightarrow> wb_elems vi t nel wb1 \<inter> wb_elems vi t nel wb2 = {}
    | Inr (Some (Sel_writeblock wb)) \<Rightarrow> wb_elems vi t nel wb = wb_elems vi t nel wb1 \<inter> wb_elems vi t nel wb2
    | _ \<Rightarrow> False"
proof -
  let ?s1 = "wb_element_offset wb1" and ?l1 = "wb_nelements wb1"
  let ?s2 = "wb_element_offset wb2" and ?l2 = "wb_nelements wb2"
  have res: "adios_selection_intersect_local uninit (Sel_writeblock wb1) (Sel_writeblock wb2) t vi
      = Inr (adios_selection_intersect_wb_wb uninit wb1 wb2 t vi)"
    by (simp add: adios_selection_intersect_local_def adios_selection_intersect_wb_def)
  show ?thesis
  proof (cases "wb_abs vi t wb1 = wb_abs vi t wb2")
    case False
    then show ?thesis by (auto simp: res wb_wb_simp [OF assms] wb_elems_def)
  next
    case same: True
    have sub: "seg ?s1 ?l1 \<subseteq> {..<nel}" if "wb_is_sub_pg_selection wb1"
      using that assms(1) by (auto simp: wb_valid_def)
    have sub': "seg ?s2 ?l2 \<subseteq> {..<nel}" if "wb_is_sub_pg_selection wb2"
      using that assms(2) by (auto simp: wb_valid_def)
    show ?thesis
    proof (cases "wb_is_sub_pg_selection wb1 \<and> wb_is_sub_pg_selection wb2")
      case True
      then have fits: "seg_fits ?s1 ?l1" "seg_fits ?s2 ?l2" using assms by (auto simp: wb_valid_def)
      show ?thesis
      proof (cases "intersect_segments ?s1 ?l1 ?s2 ?l2")
        case None
        with True same intersect_segments_None [OF fits None] show ?thesis
          by (auto simp: res wb_wb_simp [OF assms] wb_elems_def)
      next
        case (Some a)
        obtain s l where a: "a = (s, l)" by (cases a)
        from True same Some a intersect_segments_Some(1) [OF fits Some [unfolded a]] show ?thesis
          by (simp add: res wb_wb_simp [OF assms] wb_elems_def Times_Int_Times)
      qed
    next
      case False
      with same sub sub' show ?thesis
        by (auto simp: res wb_wb_simp [OF assms] wb_elems_def)
    qed
  qed
qed

theorem intersect_wb_wb_correct_witness:
  "let wb = (\<lambda>s l. \<lparr>wb_index = 0, wb_is_absolute_index = True, wb_is_sub_pg_selection = True,
      wb_element_offset = s, wb_nelements = l\<rparr>);
       vi = \<lparr>vi_nsteps = 1, vi_nblocks = [1], vi_blockinfo = Some []\<rparr>
   in adios_selection_intersect_local (0, 0) (Sel_writeblock (wb 2 3)) (Sel_writeblock (wb 4 6)) 0 vi
        = Inr (Some (Sel_writeblock (wb 4 1)))
      \<and> wb_elems vi 0 10 (wb 4 1) = wb_elems vi 0 10 (wb 2 3) \<inter> wb_elems vi 0 10 (wb 4 6)"
proof -
  let ?wb = "\<lambda>s l. \<lparr>wb_index = 0, wb_is_absolute_index = True, wb_is_sub_pg_selection = True,
      wb_element_offset = s, wb_nelements = l\<rparr> :: ADIOS_SELECTION_WRITEBLOCK_STRUCT"
  let ?vi = "\<lparr>vi_nsteps = 1, vi_nblocks = [1], vi_blockinfo = Some []\<rparr> :: ADIOS_VARINFO"
  have r: "adios_selection_intersect_local (0, 0) (Sel_writeblock (?wb 2 3)) (Sel_writeblock (?wb 4 6)) 0 ?vi
      = Inr (Some (Sel_writeblock (?wb 4 1)))"
    by code_simp
  have "wb_valid ?vi 0 10 (?wb 2 3)" "wb_valid ?vi 0 10 (?wb 4 6)" by (simp_all add: wb_valid_def)
  from intersect_wb_wb_correct [OF this, of "(0, 0)"] r show ?thesis
    unfolding r Let_def by (simp only: sum.case option.case ADIOS_SELECTION.case)
qed

text \<open>The loop of \<open>compute_blockidx_range\<close> over the remaining steps.\<close>

lemma blockidx_range_loop:
  assumes "b \<le> lst" and "lst < b + int (length ns)"
  shows "compute_blockidx_range_loop ns b cur fr (lst + 1) start =
    ((if b \<le> fr \<and> fr \<le> lst then Some (cur + sum_list (take (nat (fr - b)) ns)) else start),
     Some (cur + sum_list (take (nat (lst + 1 - b)) ns)))"
  using assms
proof (induction ns arbitrary: b cur start)
  case (Cons n ns)
  have tk: "take (nat (x - b)) (n # ns) = n # take (nat (x - (b + 1))) ns" if "b < x" for x
  proof -
    have "nat (x - b) = Suc (nat (x - (b + 1)))" using that by simp
    then show ?thesis by simp
  qed
  show ?case
  proof (cases "b = lst")
    case True
    then show ?thesis by auto
  next
    case False
    then have "b + 1 \<le> lst" "lst < b + 1 + int (length ns)" using Cons.prems by auto
    from Cons.IH [OF this, of "cur + n" "if b = fr then Some cur else start"] False
    show ?thesis using tk [of fr] tk [of "lst + 1"] Cons.prems by (auto simp: algebra_simps)
  qed
qed simp

text \<open>
  Block numbering is consistent: for a step and a block of it that exist, the absolute
  block number lies in the range \<open>compute_blockidx_range\<close> gives for that step, at the distance
  of the step-relative number from its start.
\<close>

theorem absolute_index_in_blockidx_range:
  assumes "fst (adios_get_absolute_writeblock_index vi i t) = None"
    and "length (vi_nblocks vi) = nat (vi_nsteps vi)"
  shows "\<exists>first last. compute_blockidx_range vi t (t + 1) = (Some first, Some last)
    \<and> snd (adios_get_absolute_writeblock_index vi i t) = first + i
    \<and> first + i < last"
proof -
  from absolute_index [OF assms(1)]
  have *: "snd (adios_get_absolute_writeblock_index vi i t) = i + (\<Sum>j < nat t. vi_nblocks vi ! j)"
    "0 \<le> t" "t < vi_nsteps vi" "0 \<le> i" "i < vi_nblocks vi ! nat t" by blast+
  have len: "length (vi_nblocks vi) = nat (vi_nsteps vi)" by (rule assms(2))
  have sum: "sum_list (take k (vi_nblocks vi)) = (\<Sum>j < k. vi_nblocks vi ! j)"
    if "k \<le> length (vi_nblocks vi)" for k
    using that by (simp add: sum_list_sum_nth atLeast0LessThan)
  have "nat (t + 1) = Suc (nat t)" using *(2) by (simp add: nat_add_distrib)
  then have "compute_blockidx_range vi t (t + 1) =
      (Some (\<Sum>j < nat t. vi_nblocks vi ! j), Some (\<Sum>j < Suc (nat t). vi_nblocks vi ! j))"
    using * len sum [of "nat t"] sum [of "Suc (nat t)"]
    by (simp add: compute_blockidx_range_def blockidx_range_loop)
  with * show ?thesis by auto
qed

theorem absolute_index_in_blockidx_range_witness:
  "\<exists>first last. compute_blockidx_range \<lparr>vi_nsteps = 3, vi_nblocks = [2, 5, 4], vi_blockinfo = Some []\<rparr> 1 (1 + 1)
       = (Some first, Some last)
    \<and> snd (adios_get_absolute_writeblock_index
        \<lparr>vi_nsteps = 3, vi_nblocks = [2, 5, 4], vi_blockinfo = Some []\<rparr> 3 1) = first + 3
    \<and> first + 3 < last"
  by (rule absolute_index_in_blockidx_range)
    (simp_all add: adios_get_absolute_writeblock_index_def)

end
