(* ===== verification/Buffer_Pool.thy ===== *)
theory Buffer_Pool
  imports Adios_Types
begin

text \<open>
  The buffer budget of \<open>core/buffer.c\<close>: the file-scope variables as a record, the setters,
  \<open>adios_set_buffer_size\<close>, \<open>adios_method_buffer_alloc\<close> and \<open>adios_method_buffer_free\<close>. The
  locale \<open>byte_budget\<close> is the contract the transport methods rely on.
\<close>

section \<open>Definitions\<close>

datatype ADIOS_BUFFER_ALLOC_WHEN =
  ADIOS_BUFFER_ALLOC_UNKNOWN | ADIOS_BUFFER_ALLOC_NOW | ADIOS_BUFFER_ALLOC_LATER

record buffer_pool =
  adios_buffer_size_requested :: u64
  adios_buffer_size_max :: u64
  adios_buffer_size_remaining :: u64
  adios_buffer_alloc_percentage :: int
  adios_buffer_alloc_when :: ADIOS_BUFFER_ALLOC_WHEN

definition pool_init :: buffer_pool where
  "pool_init = \<lparr>adios_buffer_size_requested = 0, adios_buffer_size_max = 0,
     adios_buffer_size_remaining = 0, adios_buffer_alloc_percentage = 0,
     adios_buffer_alloc_when = ADIOS_BUFFER_ALLOC_UNKNOWN\<rparr>"

definition adios_buffer_size_requested_set :: "u64 \<Rightarrow> buffer_pool \<Rightarrow> buffer_pool" where
  "adios_buffer_size_requested_set v s = s\<lparr>adios_buffer_size_requested := v\<rparr>"

definition adios_buffer_size_max_set :: "u64 \<Rightarrow> buffer_pool \<Rightarrow> buffer_pool" where
  "adios_buffer_size_max_set v s = s\<lparr>adios_buffer_size_max := v\<rparr>"

definition adios_buffer_size_remaining_set :: "u64 \<Rightarrow> buffer_pool \<Rightarrow> buffer_pool" where
  "adios_buffer_size_remaining_set v s = s\<lparr>adios_buffer_size_remaining := v\<rparr>"

definition adios_buffer_alloc_percentage_set :: "int \<Rightarrow> buffer_pool \<Rightarrow> buffer_pool" where
  "adios_buffer_alloc_percentage_set v s = s\<lparr>adios_buffer_alloc_percentage := v\<rparr>"

definition adios_buffer_alloc_when_set :: "ADIOS_BUFFER_ALLOC_WHEN \<Rightarrow> buffer_pool \<Rightarrow> buffer_pool" where
  "adios_buffer_alloc_when_set v s = s\<lparr>adios_buffer_alloc_when := v\<rparr>"

text \<open>
  \<open>adios_set_buffer_size\<close>. \<open>pagesize\<close> and \<open>pages\<close> are the answers of \<open>sysconf\<close>, and \<open>pct\<close> is
  the double-precision expression \<open>(pages * pagesize / 100.0) * requested\<close> converted to an
  integer. The result is the error reported, if any, and the new state; the return value of
  the C function is always 1.
\<close>

definition adios_set_buffer_size ::
  "(u64 \<Rightarrow> u64 \<Rightarrow> u64 \<Rightarrow> u64) \<Rightarrow> u64 \<Rightarrow> u64 \<Rightarrow> buffer_pool \<Rightarrow> adios_errcode option \<times> buffer_pool" where
  "adios_set_buffer_size pct pagesize pages s =
     (if adios_buffer_size_max s < adios_buffer_size_requested s then
        let requested = adios_buffer_size_requested s;
            (err, new_max) =
              (if adios_buffer_alloc_percentage s \<noteq> 0 then (None, pct pages pagesize requested)
               else if pagesize * pages \<ge> requested then (None, requested)
               else (Some err_no_memory, pagesize * pages))
        in (err, s\<lparr>adios_buffer_size_max := new_max, adios_buffer_size_remaining := new_max\<rparr>)
      else (None, s))"

definition adios_method_buffer_alloc :: "u64 \<Rightarrow> buffer_pool \<Rightarrow> u64 \<times> buffer_pool" where
  "adios_method_buffer_alloc sz s =
     (if adios_buffer_size_remaining s \<ge> sz
      then (sz, s\<lparr>adios_buffer_size_remaining := adios_buffer_size_remaining s - sz\<rparr>)
      else (adios_buffer_size_remaining s, s\<lparr>adios_buffer_size_remaining := 0\<rparr>))"

definition adios_method_buffer_free ::
  "u64 \<Rightarrow> buffer_pool \<Rightarrow> adios_errcode option \<times> buffer_pool" where
  "adios_method_buffer_free sz s =
     (if sz + adios_buffer_size_remaining s > adios_buffer_size_max s
      then (Some err_invalid_buffer, s\<lparr>adios_buffer_size_remaining := adios_buffer_size_max s\<rparr>)
      else (None, s\<lparr>adios_buffer_size_remaining := adios_buffer_size_remaining s + sz\<rparr>))"

section \<open>The contract of a byte budget\<close>

locale byte_budget =
  fixes alloc :: "u64 \<Rightarrow> 's \<Rightarrow> u64 \<times> 's"
    and release :: "u64 \<Rightarrow> 's \<Rightarrow> adios_errcode option \<times> 's"
    and capacity :: "'s \<Rightarrow> nat"
    and available :: "'s \<Rightarrow> nat"
    and ok :: "'s \<Rightarrow> bool"
  assumes bounded: "ok s \<Longrightarrow> available s \<le> capacity s"
    and alloc_ok: "ok s \<Longrightarrow> ok (snd (alloc n s))"
    and alloc_grant: "ok s \<Longrightarrow> unat (fst (alloc n s)) = min (unat n) (available s)"
    and alloc_available: "ok s \<Longrightarrow> available (snd (alloc n s)) = available s - unat (fst (alloc n s))"
    and alloc_capacity: "ok s \<Longrightarrow> capacity (snd (alloc n s)) = capacity s"
    and release_ok: "ok s \<Longrightarrow> ok (snd (release n s))"
    and release_available: "ok s \<Longrightarrow> available s + unat n \<le> capacity s \<Longrightarrow>
          fst (release n s) = None \<and> available (snd (release n s)) = available s + unat n"
    and release_capacity: "ok s \<Longrightarrow> capacity (snd (release n s)) = capacity s"
begin

text \<open>A run of the budget with the list of grants that have not been returned.\<close>

inductive budget_run :: "'s \<Rightarrow> 's \<Rightarrow> u64 list \<Rightarrow> bool" for s0 where
  start: "budget_run s0 s0 []"
| alloc: "budget_run s0 s gs \<Longrightarrow> budget_run s0 (snd (alloc n s)) (fst (alloc n s) # gs)"
| release: "budget_run s0 s (gs @ g # hs) \<Longrightarrow> budget_run s0 (snd (release g s)) (gs @ hs)"

lemma run_conserves:
  assumes "budget_run s0 s gs" and "ok s0" and "available s0 = capacity s0"
  shows "ok s \<and> capacity s = capacity s0 \<and> available s + sum_list (map unat gs) = capacity s0"
  using assms(1)
proof (induction rule: budget_run.induct)
  case start
  with assms show ?case by simp
next
  case (alloc s gs n)
  then have "available s \<le> capacity s" using bounded by blast
  with alloc.IH show ?case
    by (auto simp: alloc_ok alloc_capacity alloc_available alloc_grant min_def)
next
  case (release s gs g hs)
  then have "available s + unat g \<le> capacity s" by simp
  with release.IH show ?case
    by (auto simp: release_ok release_capacity dest: release_available [of s g])
qed

text \<open>Returning an outstanding grant is never refused.\<close>

lemma release_succeeds:
  assumes "budget_run s0 s gs" "ok s0" "available s0 = capacity s0" "g \<in> set gs"
  shows "fst (release g s) = None"
proof -
  have "unat g \<le> sum_list (map unat gs)"
    using assms(4) by (simp add: member_le_sum_list)
  then show ?thesis
    using run_conserves [OF assms(1-3)] release_available [of s g] by simp
qed

end

section \<open>The pool meets the contract\<close>

definition pool_ok :: "buffer_pool \<Rightarrow> bool" where
  "pool_ok s = (adios_buffer_size_remaining s \<le> adios_buffer_size_max s)"

lemma alloc_pool_ok: "pool_ok s \<Longrightarrow> pool_ok (snd (adios_method_buffer_alloc n s))"
  by (auto simp: pool_ok_def adios_method_buffer_alloc_def word_le_nat_alt unat_sub)

lemma free_pool_ok: "pool_ok s \<Longrightarrow> pool_ok (snd (adios_method_buffer_free n s))"
  by (auto simp: pool_ok_def adios_method_buffer_free_def add.commute not_less)

lemma set_size_pool_ok: "pool_ok s \<Longrightarrow> pool_ok (snd (adios_set_buffer_size pct pagesize pages s))"
  by (auto simp: pool_ok_def adios_set_buffer_size_def Let_def)

interpretation pool: byte_budget adios_method_buffer_alloc adios_method_buffer_free
  "\<lambda>s. unat (adios_buffer_size_max s)" "\<lambda>s. unat (adios_buffer_size_remaining s)" pool_ok
proof (unfold_locales, goal_cases)
  case (1 s)
  then show ?case by (simp add: pool_ok_def word_le_nat_alt)
next
  case (2 s n)
  then show ?case by (rule alloc_pool_ok)
next
  case (3 s n)
  then show ?case by (simp add: adios_method_buffer_alloc_def word_le_nat_alt)
next
  case (4 s n)
  then show ?case by (simp add: adios_method_buffer_alloc_def word_le_nat_alt unat_sub)
next
  case (5 s n)
  then show ?case by (simp add: adios_method_buffer_alloc_def)
next
  case (6 s n)
  then show ?case by (rule free_pool_ok)
next
  case (7 s n)
  then have "unat (n + adios_buffer_size_remaining s) = unat n + unat (adios_buffer_size_remaining s)"
    using unat_u64_less [of "adios_buffer_size_max s"] by (intro unat_add_no_wrap) simp
  with 7 show ?case
    by (simp add: adios_method_buffer_free_def word_less_nat_alt add.commute)
next
  case (8 s n)
  then show ?case by (simp add: adios_method_buffer_free_def)
qed

section \<open>Properties\<close>

text \<open>The operations other components call, as steps of the state.\<close>

inductive pool_reachable :: "buffer_pool \<Rightarrow> bool" where
  init: "pool_reachable pool_init"
| set_requested: "pool_reachable s \<Longrightarrow> pool_reachable (adios_buffer_size_requested_set v s)"
| set_percentage: "pool_reachable s \<Longrightarrow> pool_reachable (adios_buffer_alloc_percentage_set i s)"
| set_when: "pool_reachable s \<Longrightarrow> pool_reachable (adios_buffer_alloc_when_set w s)"
| set_size: "pool_reachable s \<Longrightarrow> pool_reachable (snd (adios_set_buffer_size pct pagesize pages s))"
| alloc: "pool_reachable s \<Longrightarrow> pool_reachable (snd (adios_method_buffer_alloc n s))"
| free: "pool_reachable s \<Longrightarrow> pool_reachable (snd (adios_method_buffer_free n s))"

text \<open>
  C32. In every state reachable from the initial one by requesting a size, setting the size
  and allocating and freeing any amounts in any order, the bytes remaining never exceed the
  maximum, although the additions are modulo \<open>2 ^ 64\<close>.
\<close>

theorem pool_remaining_bounded:
  "pool_reachable s \<Longrightarrow> adios_buffer_size_remaining s \<le> adios_buffer_size_max s"
proof (unfold pool_ok_def [symmetric], induction rule: pool_reachable.induct)
  case init
  then show ?case by (simp add: pool_ok_def pool_init_def)
qed (simp_all add: alloc_pool_ok free_pool_ok set_size_pool_ok,
     simp_all add: pool_ok_def adios_buffer_size_requested_set_def
       adios_buffer_alloc_percentage_set_def adios_buffer_alloc_when_set_def)

theorem pool_remaining_bounded_witness:
  "adios_buffer_size_remaining (snd (adios_method_buffer_alloc 7 pool_init))
     \<le> adios_buffer_size_max (snd (adios_method_buffer_alloc 7 pool_init))"
  by (rule pool_remaining_bounded) (intro pool_reachable.intros)

text \<open>
  C31. Bytes are conserved: starting from a full pool, after any sequence of allocations and
  of frees that return outstanding grants, the remaining bytes and the outstanding grants
  add up to the maximum, and returning any outstanding grant reports no error.
\<close>

theorem pool_conserves_bytes:
  assumes "pool.budget_run s0 s gs" and "adios_buffer_size_remaining s0 = adios_buffer_size_max s0"
  shows "unat (adios_buffer_size_remaining s) + sum_list (map unat gs)
      = unat (adios_buffer_size_max s0)
    \<and> (\<forall>g. g \<in> set gs \<longrightarrow> fst (adios_method_buffer_free g s) = None)"
proof -
  have "pool_ok s0" using assms(2) by (simp add: pool_ok_def)
  then show ?thesis
    using pool.run_conserves [OF assms(1)] pool.release_succeeds [OF assms(1)] assms(2) by simp
qed

theorem pool_conserves_bytes_witness:
  "let s0 = pool_init\<lparr>adios_buffer_size_max := 100, adios_buffer_size_remaining := 100\<rparr>;
       s1 = snd (adios_method_buffer_alloc 30 s0)
   in unat (adios_buffer_size_remaining s1) + sum_list (map unat [fst (adios_method_buffer_alloc 30 s0)])
      = unat (adios_buffer_size_max s0)"
proof -
  let ?s0 = "pool_init\<lparr>adios_buffer_size_max := 100, adios_buffer_size_remaining := 100\<rparr>"
  have "pool.budget_run ?s0 (snd (adios_method_buffer_alloc 30 ?s0))
      [fst (adios_method_buffer_alloc 30 ?s0)]"
    by (intro pool.budget_run.intros)
  from pool_conserves_bytes [OF this] show ?thesis by (simp add: Let_def)
qed

text \<open>
  \<open>adios_set_buffer_size\<close> is meant to do nothing once it has been called, but when the
  machine has less memory than requested it runs again on every call: the maximum stays
  below the request, so the second call resets the remaining bytes to the maximum and
  forgets the bytes allocated in between.
\<close>

theorem set_buffer_size_forgets_allocations:
  assumes "adios_buffer_alloc_percentage s = 0"
    and "pagesize * pages < adios_buffer_size_requested s"
    and "adios_buffer_size_max s < adios_buffer_size_requested s"
    and "s1 = snd (adios_set_buffer_size pct pagesize pages s)"
    and "s2 = snd (adios_method_buffer_alloc n s1)"
  shows "adios_set_buffer_size pct pagesize pages s2 = (Some err_no_memory, s1)"
  using assms
  by (auto simp: adios_set_buffer_size_def adios_method_buffer_alloc_def Let_def not_le [symmetric])

theorem set_buffer_size_forgets_allocations_witness:
  "let s = pool_init\<lparr>adios_buffer_size_requested := 1000\<rparr>;
       s1 = snd (adios_set_buffer_size (\<lambda>_ _ _. 0) 10 4 s);
       s2 = snd (adios_method_buffer_alloc 25 s1)
   in adios_set_buffer_size (\<lambda>_ _ _. 0) 10 4 s2 = (Some err_no_memory, s1)
     \<and> adios_buffer_size_remaining s1 = 40"
proof -
  let ?s = "pool_init\<lparr>adios_buffer_size_requested := 1000\<rparr>"
  have "adios_set_buffer_size (\<lambda>_ _ _. 0) 10 4
      (snd (adios_method_buffer_alloc 25 (snd (adios_set_buffer_size (\<lambda>_ _ _. 0) 10 4 ?s))))
    = (Some err_no_memory, snd (adios_set_buffer_size (\<lambda>_ _ _. 0) 10 4 ?s))"
    by (rule set_buffer_size_forgets_allocations [OF _ _ _ refl refl]) (simp_all add: pool_init_def)
  then show ?thesis by (simp add: Let_def) (simp add: adios_set_buffer_size_def pool_init_def)
qed

end
