(* ===== verification/BP_Buffer.thy ===== *)
theory BP_Buffer
  imports Endianness
begin

text \<open>
  The buffers of the BP format: the growing buffer that metadata is written to
  (\<open>buffer_write\<close> of \<open>core/adios_internals.c\<close>) and the buffer that metadata is parsed from
  (\<open>struct adios_bp_buffer_struct_v1\<close> of \<open>core/adios_bp_v1.h\<close>), with the version word and the
  table of index offsets at the end of a file. The lemmas relate a writer to the bytes it
  emits and a parser to the bytes it accepts, for any byte orders of the two machines.
\<close>

section \<open>Writing\<close>

text \<open>
  The buffer, its allocated size and the offset, together with the sizes that
  \<open>adios_write_index_v1\<close> accumulates while it writes: \<open>index_size\<close>, the size of the current
  entry (\<open>group_size\<close>, \<open>var_size\<close> or \<open>attr_size\<close>), and the length and the number of items of
  the current set of characteristics. Offsets into the buffer and its size, 64-bit
  numbers in the code, are unbounded here: they do not overflow, as the buffer lies in memory.
\<close>

record wst =
  w_mem :: "nat \<Rightarrow> u8"
  w_size :: nat
  w_null :: bool
  w_errno :: "adios_errcode option"
  w_off :: nat
  w_index_size :: u64
  w_entry_size :: u32
  w_set_len :: u32
  w_set_count :: u8

definition put_bytes :: "nat \<Rightarrow> u8 list \<Rightarrow> (nat \<Rightarrow> u8) \<Rightarrow> nat \<Rightarrow> u8" where
  "put_bytes o' bs m x = (if o' \<le> x \<and> x < o' + length bs then bs ! (x - o') else m x)"

text \<open>
  \<open>buffer_write\<close> at the offset \<open>off\<close>; \<open>realloc_ok\<close> says which sizes \<open>realloc\<close> can provide. The
  result is the advanced offset and the new state.
\<close>

definition buffer_write :: "(nat \<Rightarrow> bool) \<Rightarrow> u8 list \<Rightarrow> nat \<Rightarrow> wst \<Rightarrow> nat \<times> wst" where
  "buffer_write realloc_ok data off s =
     (if off + length data > w_size s \<or> w_null s then
        if realloc_ok (off + length data + 1000000)
        then (off + length data,
              s\<lparr>w_null := False, w_size := off + length data + 1000000,
                w_mem := put_bytes off data (w_mem s)\<rparr>)
        else (off, s\<lparr>w_errno := Some err_no_memory\<rparr>)
      else (off + length data, s\<lparr>w_mem := put_bytes off data (w_mem s)\<rparr>))"

text \<open>A write at the current offset, and such a write with the sizes that grow with it.\<close>

definition bw :: "(nat \<Rightarrow> bool) \<Rightarrow> u8 list \<Rightarrow> wst \<Rightarrow> wst" where
  "bw realloc_ok data s =
     (let (off, s') = buffer_write realloc_ok data (w_off s) s in s'\<lparr>w_off := off\<rparr>)"

definition add_sizes :: "nat \<Rightarrow> wst \<Rightarrow> wst" where
  "add_sizes n s = s\<lparr>w_index_size := w_index_size s + of_nat n, w_entry_size := w_entry_size s + of_nat n\<rparr>"

definition bwi :: "(nat \<Rightarrow> bool) \<Rightarrow> u8 list \<Rightarrow> wst \<Rightarrow> wst" where
  "bwi realloc_ok data s = add_sizes (length data) (bw realloc_ok data s)"

definition bws :: "(nat \<Rightarrow> bool) \<Rightarrow> u8 list \<Rightarrow> wst \<Rightarrow> wst" where
  "bws realloc_ok data s =
     (let s' = bwi realloc_ok data s in s'\<lparr>w_set_len := w_set_len s' + of_nat (length data)\<rparr>)"

text \<open>
  \<open>len = strlen (str)\<close> into 16 bits, the write of \<open>len\<close>, and the write of that many bytes.
\<close>

definition bwi_string :: "endian \<Rightarrow> (nat \<Rightarrow> bool) \<Rightarrow> cstring \<Rightarrow> wst \<Rightarrow> wst" where
  "bwi_string e realloc_ok str s =
     (let len = of_nat (length str) :: u16
      in bwi realloc_ok (take (unat len) (bytes_of_string str)) (bwi realloc_ok (enc e 2 len) s))"

definition reserve :: "nat \<Rightarrow> wst \<Rightarrow> wst" where
  "reserve n s = s\<lparr>w_off := w_off s + n\<rparr>"

text \<open>The writes that fill reserved space, one after the other, from a saved offset.\<close>

fun patch :: "(nat \<Rightarrow> bool) \<Rightarrow> nat \<Rightarrow> u8 list list \<Rightarrow> wst \<Rightarrow> wst" where
  "patch realloc_ok start [] s = s"
| "patch realloc_ok start (d # ds) s =
     (let (start', s') = buffer_write realloc_ok d start s in patch realloc_ok start' ds s')"

definition pipe :: "('s \<Rightarrow> 's) list \<Rightarrow> 's \<Rightarrow> 's" where
  "pipe fs s = fold (\<lambda>f. f) fs s"

text \<open>\<open>htonl\<close> and \<open>ntohl\<close> of the C library.\<close>

definition htonl :: "endian \<Rightarrow> u32 \<Rightarrow> u32" where
  "htonl e x = (case e of Little \<Rightarrow> swap_32 x | Big \<Rightarrow> x)"

text \<open>
  \<open>adios_write_version_flag_v1\<close>, and \<open>adios_write_version_v1\<close>, which is the same without user
  flags. The test whether the first byte of a 1 is zero finds a big-endian machine.
\<close>

definition ADIOS_VERSION_BP_FORMAT :: u32 where "ADIOS_VERSION_BP_FORMAT = 2"

definition ADIOS_VERSION_HAVE_TIME_INDEX_CHARACTERISTIC :: u32 where
  "ADIOS_VERSION_HAVE_TIME_INDEX_CHARACTERISTIC = 0x200"

definition adios_write_version_flag_v1 :: "endian \<Rightarrow> (nat \<Rightarrow> bool) \<Rightarrow> u32 \<Rightarrow> wst \<Rightarrow> wst" where
  "adios_write_version_flag_v1 e realloc_ok flag s =
     (let test = (1 :: u32);
          test = (if hd (enc e 4 test) = 0 then 0x80000000 else 0);
          test = test + ADIOS_VERSION_BP_FORMAT;
          test = test OR (ADIOS_VERSION_HAVE_TIME_INDEX_CHARACTERISTIC OR flag)
      in bw realloc_ok (enc e 4 (htonl e test)) s)"

definition adios_write_version_v1 :: "endian \<Rightarrow> (nat \<Rightarrow> bool) \<Rightarrow> wst \<Rightarrow> wst" where
  "adios_write_version_v1 e realloc_ok s =
     (let test = (1 :: u32);
          test = (if hd (enc e 4 test) = 0 then 0x80000000 else 0);
          test = test + ADIOS_VERSION_BP_FORMAT;
          test = test OR ADIOS_VERSION_HAVE_TIME_INDEX_CHARACTERISTIC
      in bw realloc_ok (enc e 4 (htonl e test)) s)"

section \<open>Parsing\<close>

record bp_buffer =
  bp_f :: int
  bp_file_size :: u64
  bp_version :: u32
  bp_buff :: "u8 list" \<comment> \<open>the \<open>length\<close> bytes at \<open>buff\<close>\<close>
  bp_length :: u64
  bp_offset :: u64
  bp_change_endianness :: ADIOS_FLAG
  bp_end_of_pgs :: u64
  bp_pg_index_offset :: u64
  bp_pg_size :: u64
  bp_vars_index_offset :: u64
  bp_vars_size :: u64
  bp_attrs_index_offset :: u64
  bp_attrs_size :: u64
  bp_read_pg_offset :: u64
  bp_read_pg_size :: u64

definition adios_buffer_struct_init :: "bp_buffer \<Rightarrow> bp_buffer" where
  "adios_buffer_struct_init b =
     b\<lparr>bp_f := -1, bp_buff := [], bp_length := 0, bp_change_endianness := adios_flag_unknown,
       bp_version := 0, bp_offset := 0, bp_end_of_pgs := 0, bp_pg_index_offset := 0,
       bp_pg_size := 0, bp_vars_index_offset := 0, bp_vars_size := 0, bp_file_size := 0,
       bp_read_pg_offset := 0, bp_read_pg_size := 0\<rparr>"

definition adios_shared_buffer_free :: "bp_buffer \<Rightarrow> bp_buffer" where
  "adios_shared_buffer_free b = b\<lparr>bp_buff := [], bp_offset := 0, bp_length := 0\<rparr>"

definition adios_buffer_struct_clear :: "bp_buffer \<Rightarrow> bp_buffer" where
  "adios_buffer_struct_clear b = adios_buffer_struct_init b"

text \<open>
  A parser reads at the current offset and advances it. A read behind the buffer is an error
  of its own; the C code has no such check.
\<close>

type_synonym 'a parser = "bp_buffer \<Rightarrow> adios_errcode + 'a \<times> bp_buffer"

definition preturn :: "'a \<Rightarrow> 'a parser" where
  "preturn x b = Inr (x, b)"

definition pfail :: "adios_errcode \<Rightarrow> 'a parser" where
  "pfail err b = Inl err"

definition pbind :: "'a parser \<Rightarrow> ('a \<Rightarrow> 'b parser) \<Rightarrow> 'b parser" where
  "pbind p f b = (case p b of Inl err \<Rightarrow> Inl err | Inr (x, b') \<Rightarrow> f x b')"

definition get_bytes :: "nat \<Rightarrow> u8 list parser" where
  "get_bytes n b =
     (if unat (bp_offset b) + n \<le> length (bp_buff b)
      then Inr (take n (drop (unat (bp_offset b)) (bp_buff b)), b\<lparr>bp_offset := bp_offset b + of_nat n\<rparr>)
      else Inl err_out_of_bounds)"

definition get_u8 :: "u8 parser" where
  "get_u8 = pbind (get_bytes 1) (\<lambda>bs. preturn (hd bs))"

text \<open>An integer is loaded in the machine's byte order and swapped if the file's differs.\<close>

definition get_u16 :: "endian \<Rightarrow> u16 parser" where
  "get_u16 e = pbind (get_bytes 2) (\<lambda>bs b.
     preturn (if bp_change_endianness b = adios_flag_yes then swap_16 (dec e bs) else dec e bs) b)"

definition get_u32 :: "endian \<Rightarrow> u32 parser" where
  "get_u32 e = pbind (get_bytes 4) (\<lambda>bs b.
     preturn (if bp_change_endianness b = adios_flag_yes then swap_32 (dec e bs) else dec e bs) b)"

definition get_u64 :: "endian \<Rightarrow> u64 parser" where
  "get_u64 e = pbind (get_bytes 8) (\<lambda>bs b.
     preturn (if bp_change_endianness b = adios_flag_yes then swap_64 (dec e bs) else dec e bs) b)"

text \<open>A string: its 16-bit length, then its bytes, copied and terminated by a zero byte.\<close>

definition get_string :: "endian \<Rightarrow> cstring parser" where
  "get_string e = pbind (get_u16 e) (\<lambda>len. pbind (get_bytes (unat len)) (\<lambda>bs. preturn (string_of_bytes bs)))"

fun parse_times :: "nat \<Rightarrow> 'a parser \<Rightarrow> 'a list parser" where
  "parse_times 0 p = preturn []"
| "parse_times (Suc n) p = pbind p (\<lambda>x. pbind (parse_times n p) (\<lambda>xs. preturn (x # xs)))"

text \<open>
  \<open>adios_parse_version\<close>: the most significant byte of the word in network order is the first
  byte of the variable on a big-endian machine and the last one on a little-endian machine.
\<close>

definition adios_parse_version :: "endian \<Rightarrow> bp_buffer \<Rightarrow> adios_errcode + u32 \<times> bp_buffer" where
  "adios_parse_version e b =
     (if bp_length b < 4 then Inl err_invalid_buffer_version
      else if unat (bp_offset b) + 4 > length (bp_buff b) then Inl err_out_of_bounds
      else
        let version = htonl e (dec e (take 4 (drop (unat (bp_offset b)) (bp_buff b))));
            v = enc e 4 version;
            test0 = hd (enc e 4 (1 :: u32));
            flag = (if (v ! 0 \<noteq> 0 \<and> test0 = 0) \<or> (v ! 3 = 0 \<and> test0 \<noteq> 0)
                    then adios_flag_no else adios_flag_yes)
        in Inr (version AND 0x7fffffff, b\<lparr>bp_change_endianness := flag\<rparr>))"

definition adios_parse_index_offsets_v1 :: "endian \<Rightarrow> unit parser" where
  "adios_parse_index_offsets_v1 e b =
     (if bp_length b - bp_offset b < 24 then Inl err_invalid_buffer_index
      else
        pbind (get_u64 e) (\<lambda>pg. pbind (get_u64 e) (\<lambda>vars. pbind (get_u64 e) (\<lambda>attrs b'.
          preturn () (b'\<lparr>bp_pg_index_offset := pg, bp_vars_index_offset := vars,
            bp_attrs_index_offset := attrs, bp_end_of_pgs := pg, bp_pg_size := vars - pg,
            bp_vars_size := attrs - vars, bp_attrs_size := bp_file_size b - 28 - attrs\<rparr>)))) b)"

section \<open>What writers emit\<close>

definition emits :: "(wst \<Rightarrow> wst) \<Rightarrow> u8 list \<Rightarrow> bool" where
  "emits W bs \<longleftrightarrow>
     (\<forall>s. w_mem (W s) = put_bytes (w_off s) bs (w_mem s) \<and> w_off (W s) = w_off s + length bs)"

lemma put_bytes_append:
  "put_bytes (n + length a) b (put_bytes n a m) = put_bytes n (a @ b) m"
  "put_bytes n a (put_bytes (n + length a) b m) = put_bytes n (a @ b) m"
proof -
  have "put_bytes (n + length a) b (put_bytes n a m) x = put_bytes n (a @ b) m x
      \<and> put_bytes n a (put_bytes (n + length a) b m) x = put_bytes n (a @ b) m x" for x
  proof (cases "n + length a \<le> x")
    case True
    then have "\<not> x - n < length a" by linarith
    with True show ?thesis by (simp add: put_bytes_def nth_append)
  next
    case False
    then show ?thesis by (auto simp: put_bytes_def nth_append)
  qed
  then show "put_bytes (n + length a) b (put_bytes n a m) = put_bytes n (a @ b) m"
    "put_bytes n a (put_bytes (n + length a) b m) = put_bytes n (a @ b) m" by auto
qed

lemma put_bytes_Nil [simp]: "put_bytes n [] m = m"
  by (rule ext) (auto simp: put_bytes_def)

lemma put_bytes_read: "map (put_bytes n bs m) [n..<n + length bs] = bs"
  by (rule nth_equalityI) (auto simp: put_bytes_def)

lemma buffer_write_ok:
  "(\<And>n. ok n) \<Longrightarrow> fst (buffer_write ok d off s) = off + length d
    \<and> w_mem (snd (buffer_write ok d off s)) = put_bytes off d (w_mem s)
    \<and> w_off (snd (buffer_write ok d off s)) = w_off s
    \<and> w_index_size (snd (buffer_write ok d off s)) = w_index_size s
    \<and> w_entry_size (snd (buffer_write ok d off s)) = w_entry_size s
    \<and> w_set_len (snd (buffer_write ok d off s)) = w_set_len s
    \<and> w_set_count (snd (buffer_write ok d off s)) = w_set_count s"
  by (simp add: buffer_write_def)

lemma emits_bw: "(\<And>n. ok n) \<Longrightarrow> emits (bw ok d) d"
  using buffer_write_ok [of ok d] by (auto simp: emits_def bw_def split_beta Let_def)

lemma emits_bwi: "(\<And>n. ok n) \<Longrightarrow> emits (bwi ok d) d"
  using emits_bw [of ok d] by (auto simp: emits_def bwi_def add_sizes_def)

lemma emits_bws: "(\<And>n. ok n) \<Longrightarrow> emits (bws ok d) d"
  using emits_bwi [of ok d] by (auto simp: emits_def bws_def Let_def)

lemma emits_id: "emits (\<lambda>s. s) []"
  by (simp add: emits_def)

lemma emits_comp: "emits W a \<Longrightarrow> emits V b \<Longrightarrow> emits (\<lambda>s. V (W s)) (a @ b)"
  by (auto simp: emits_def put_bytes_append(1))

lemma pipe_Nil [simp]: "pipe [] = (\<lambda>s. s)"
  by (simp add: pipe_def fun_eq_iff)

lemma pipe_Cons [simp]: "pipe (f # fs) = (\<lambda>s. pipe fs (f s))"
  by (simp add: pipe_def fun_eq_iff)

lemma pipe_append: "pipe (fs @ gs) = (\<lambda>s. pipe gs (pipe fs s))"
  by (simp add: pipe_def fun_eq_iff)

lemma emits_pipe: "list_all2 emits fs bss \<Longrightarrow> emits (pipe fs) (concat bss)"
  by (induction rule: list_all2_induct) (auto intro: emits_comp emits_id)

lemma emits_fold:
  "(\<And>x. x \<in> set xs \<Longrightarrow> emits (W x) (f x)) \<Longrightarrow> emits (fold W xs) (concat (map f xs))"
  by (induction xs) (auto intro: emits_comp [of "W x" "f x" for x] simp: emits_id id_def comp_def)

text \<open>Filling reserved space in front of what was written.\<close>

lemma patch_ok:
  "(\<And>n. ok n) \<Longrightarrow> w_mem (patch ok start ds s) = put_bytes start (concat ds) (w_mem s)
    \<and> w_off (patch ok start ds s) = w_off s \<and> w_index_size (patch ok start ds s) = w_index_size s
    \<and> w_entry_size (patch ok start ds s) = w_entry_size s"
proof (induction ds arbitrary: start s)
  case (Cons d ds)
  note w = buffer_write_ok [of ok d start s, OF Cons.prems]
  show ?case
    using w Cons.IH [OF Cons.prems] by (simp add: split_beta Let_def put_bytes_append)
qed simp

lemma emits_reserve_patch:
  assumes "\<And>n. ok n" and body: "emits body bs"
    and "\<And>s. concat (ds (body (reserve k (init s)))) = hdr"
    and "length hdr = k" and init: "\<And>s. w_mem (init s) = w_mem s \<and> w_off (init s) = w_off s"
  shows "emits (\<lambda>s. let s' = body (reserve k (init s)) in patch ok (w_off s) (ds s') s') (hdr @ bs)"
proof -
  have "w_mem (body (reserve k (init s))) = put_bytes (w_off s + k) bs (w_mem s)
      \<and> w_off (body (reserve k (init s))) = w_off s + k + length bs" for s
    using body init by (simp add: emits_def reserve_def)
  then show ?thesis
    using patch_ok [of ok, OF assms(1)] assms(3,4)
    by (auto simp: emits_def Let_def put_bytes_append)
qed

subsection \<open>Writers that keep account of their sizes\<close>

text \<open>
  The writers of a set of characteristics, of an entry and of an index: the sizes grow by
  what is emitted, modulo the width of the counters.
\<close>

definition inset :: "(wst \<Rightarrow> wst) \<Rightarrow> u8 list \<Rightarrow> nat \<Rightarrow> bool" where
  "inset W bs c \<longleftrightarrow> emits W bs \<and>
     (\<forall>s. w_index_size (W s) = w_index_size s + of_nat (length bs)
        \<and> w_entry_size (W s) = w_entry_size s + of_nat (length bs)
        \<and> w_set_len (W s) = w_set_len s + of_nat (length bs)
        \<and> w_set_count (W s) = w_set_count s + of_nat c)"

definition inentry :: "(wst \<Rightarrow> wst) \<Rightarrow> u8 list \<Rightarrow> bool" where
  "inentry W bs \<longleftrightarrow> emits W bs \<and>
     (\<forall>s. w_index_size (W s) = w_index_size s + of_nat (length bs)
        \<and> w_entry_size (W s) = w_entry_size s + of_nat (length bs))"

definition inindex :: "(wst \<Rightarrow> wst) \<Rightarrow> u8 list \<Rightarrow> nat \<Rightarrow> bool" where
  "inindex W bs n \<longleftrightarrow> emits W bs \<and> (\<forall>s. w_index_size (W s) = w_index_size s + of_nat n)"

text \<open>Writers that leave the sizes to their caller.\<close>

definition plain :: "(wst \<Rightarrow> wst) \<Rightarrow> u8 list \<Rightarrow> bool" where
  "plain W bs \<longleftrightarrow> emits W bs \<and>
     (\<forall>s. w_index_size (W s) = w_index_size s \<and> w_entry_size (W s) = w_entry_size s
        \<and> w_set_len (W s) = w_set_len s \<and> w_set_count (W s) = w_set_count s)"

lemma plain_bw:
  assumes "\<And>n. ok n"
  shows "plain (bw ok d) d"
  using buffer_write_ok [of ok d, OF assms] emits_bw [OF assms]
  by (auto simp: plain_def bw_def split_beta Let_def)

lemma plain_id: "plain (\<lambda>s. s) []"
  by (simp add: plain_def emits_id)

lemma plain_comp: "plain W a \<Longrightarrow> plain V b \<Longrightarrow> plain (\<lambda>s. V (W s)) (a @ b)"
  by (simp add: plain_def emits_comp)

lemma plain_pipe: "list_all2 plain fs bss \<Longrightarrow> plain (pipe fs) (concat bss)"
  by (induction rule: list_all2_induct) (auto intro: plain_comp plain_id)

lemma inset_bws:
  assumes "\<And>n. ok n"
  shows "inset (bws ok d) d 0"
  using buffer_write_ok [of ok d, OF assms] emits_bws [OF assms]
  by (auto simp: inset_def bws_def bwi_def bw_def add_sizes_def split_beta Let_def)

lemma inset_id: "inset (\<lambda>s. s) [] 0"
  by (simp add: inset_def emits_id)

lemma inset_comp: "inset W a c \<Longrightarrow> inset V b d \<Longrightarrow> inset (\<lambda>s. V (W s)) (a @ b) (c + d)"
  by (simp add: inset_def emits_comp add.assoc)

lemma inentry_bwi:
  assumes "\<And>n. ok n"
  shows "inentry (bwi ok d) d"
  using buffer_write_ok [of ok d, OF assms] emits_bwi [OF assms]
  by (auto simp: inentry_def bwi_def bw_def add_sizes_def split_beta Let_def)

lemma inentry_id: "inentry (\<lambda>s. s) []"
  by (simp add: inentry_def emits_id)

lemma inentry_comp: "inentry W a \<Longrightarrow> inentry V b \<Longrightarrow> inentry (\<lambda>s. V (W s)) (a @ b)"
  by (simp add: inentry_def emits_comp add.assoc)

lemma inentry_pipe: "list_all2 inentry fs bss \<Longrightarrow> inentry (pipe fs) (concat bss)"
  by (induction rule: list_all2_induct) (auto intro: inentry_comp inentry_id)

lemma inentry_fold:
  "(\<And>x. x \<in> set xs \<Longrightarrow> inentry (W x) (f x)) \<Longrightarrow> inentry (fold W xs) (concat (map f xs))"
  by (induction xs) (auto intro: inentry_comp [of "W x" "f x" for x] simp: inentry_id id_def comp_def)

lemma inindex_id: "inindex (\<lambda>s. s) [] 0"
  by (simp add: inindex_def emits_id)

lemma inindex_comp:
  "inindex W a m \<Longrightarrow> inindex V b n \<Longrightarrow> inindex (\<lambda>s. V (W s)) (a @ b) (m + n)"
  by (simp add: inindex_def emits_comp add.assoc)

lemma inindex_fold:
  "(\<And>x. x \<in> set xs \<Longrightarrow> inindex (W x) (f x) (g x)) \<Longrightarrow>
   inindex (fold W xs) (concat (map f xs)) (sum_list (map g xs))"
  by (induction xs) (auto intro: inindex_comp [of "W x" "f x" "g x" for x] simp: inindex_id id_def comp_def)

text \<open>A set with its count and length in front, an entry and an index with its size in front.\<close>

lemma inentry_set:
  assumes "\<And>n. ok n" and "inset body bs c"
  shows "inentry (\<lambda>s. let s' = body (reserve 5 (add_sizes 5 (s\<lparr>w_set_len := 0, w_set_count := 0\<rparr>)))
      in patch ok (w_off s) [[w_set_count s'], enc e 4 (w_set_len s')] s')
    ([of_nat c] @ enc e 4 (of_nat (length bs) :: u32) @ bs)"
proof -
  have "emits (\<lambda>s. let s' = body (reserve 5 (add_sizes 5 (s\<lparr>w_set_len := 0, w_set_count := 0\<rparr>)))
      in patch ok (w_off s) [[w_set_count s'], enc e 4 (w_set_len s')] s')
      (([of_nat c] @ enc e 4 (of_nat (length bs) :: u32)) @ bs)"
    by (rule emits_reserve_patch [OF assms(1)])
      (use assms(2) in \<open>simp_all add: inset_def reserve_def add_sizes_def\<close>)
  then show ?thesis
    using assms(2) patch_ok [OF assms(1)]
    by (simp add: inentry_def inset_def reserve_def add_sizes_def Let_def del: patch.simps)
qed

lemma inindex_entry:
  assumes "\<And>n. ok n" and "inentry body bs" and "length (hdr (of_nat (length bs))) = k"
  shows "inindex (\<lambda>s. let s' = body (reserve k (s\<lparr>w_entry_size := 0\<rparr>))
      in patch ok (w_off s) [hdr (w_entry_size s')] s') (hdr (of_nat (length bs)) @ bs) (length bs)"
proof -
  have "emits (\<lambda>s. let s' = body (reserve k (s\<lparr>w_entry_size := 0\<rparr>))
      in patch ok (w_off s) [hdr (w_entry_size s')] s') (hdr (of_nat (length bs)) @ bs)"
    by (rule emits_reserve_patch [OF assms(1)])
      (use assms(2,3) in \<open>simp_all add: inentry_def reserve_def\<close>)
  then show ?thesis
    using assms(2) patch_ok [OF assms(1)]
    by (simp add: inindex_def inentry_def reserve_def Let_def del: patch.simps)
qed

lemma emits_index:
  assumes "\<And>n. ok n" and "inindex body bs n" and "length hdr = k"
  shows "emits (\<lambda>s. let s' = body (reserve (k + 8) (s\<lparr>w_index_size := 0\<rparr>))
      in patch ok (w_off s) [hdr, enc e 8 (w_index_size s')] s')
    (hdr @ enc e 8 (of_nat n :: u64) @ bs)"
proof -
  have "emits (\<lambda>s. let s' = body (reserve (k + 8) (s\<lparr>w_index_size := 0\<rparr>))
      in patch ok (w_off s) [hdr, enc e 8 (w_index_size s')] s')
      ((hdr @ enc e 8 (of_nat n :: u64)) @ bs)"
    by (rule emits_reserve_patch [OF assms(1)])
      (use assms(2,3) in \<open>simp_all add: inindex_def reserve_def\<close>)
  then show ?thesis by simp
qed

section \<open>What parsers accept\<close>

text \<open>
  \<open>parses fl p bs x\<close>: in any buffer whose byte order flag is \<open>fl\<close>, the parser \<open>p\<close> placed at the
  bytes \<open>bs\<close> reads exactly them and returns \<open>x\<close>.
\<close>

definition parses :: "ADIOS_FLAG \<Rightarrow> 'a parser \<Rightarrow> u8 list \<Rightarrow> 'a \<Rightarrow> bool" where
  "parses fl p bs x \<longleftrightarrow>
     (\<forall>b pre post. bp_change_endianness b = fl \<longrightarrow> length (bp_buff b) < 2 ^ 64 \<longrightarrow>
        bp_buff b = pre @ bs @ post \<longrightarrow> unat (bp_offset b) = length pre \<longrightarrow>
        p b = Inr (x, b\<lparr>bp_offset := bp_offset b + of_nat (length bs)\<rparr>))"

lemma parses_bind:
  assumes "parses fl p as x" and "parses fl (f x) bs y"
  shows "parses fl (pbind p f) (as @ bs) y"
  unfolding parses_def
proof (intro allI impI)
  fix b :: bp_buffer and pre post
  assume *: "bp_change_endianness b = fl" "length (bp_buff b) < 2 ^ 64"
    "bp_buff b = pre @ (as @ bs) @ post" "unat (bp_offset b) = length pre"
  let ?b = "b\<lparr>bp_offset := bp_offset b + of_nat (length as)\<rparr>"
  have p: "p b = Inr (x, ?b)"
    using assms(1) * unfolding parses_def by (metis append.assoc)
  have "bp_buff ?b = (pre @ as) @ bs @ post" using *(3) by simp
  moreover have "unat (bp_offset b + of_nat (length as)) = length (pre @ as)"
    using *(2-4) by (subst unat_add_no_wrap) simp_all
  ultimately have "f x ?b = Inr (y, ?b\<lparr>bp_offset := bp_offset ?b + of_nat (length bs)\<rparr>)"
    using assms(2) [unfolded parses_def, rule_format, of ?b "pre @ as" post] *(1,2) by simp
  then show "pbind p f b = Inr (y, b\<lparr>bp_offset := bp_offset b + of_nat (length (as @ bs))\<rparr>)"
    by (simp add: pbind_def p add.assoc)
qed

lemma parses_return: "parses fl (preturn x) [] x"
  by (simp add: parses_def preturn_def)

lemma parses_last: "parses fl p bs x \<Longrightarrow> parses fl (pbind p (\<lambda>x. preturn (f x))) bs (f x)"
  using parses_bind [of fl p bs x "\<lambda>x. preturn (f x)" "[]" "f x"] parses_return by fastforce

lemma parses_bytes: "length bs = n \<Longrightarrow> parses fl (get_bytes n) bs bs"
  by (auto simp: parses_def get_bytes_def)

lemma parses_bind_bytes:
  "length bs = n \<Longrightarrow> parses fl (f bs) cs y \<Longrightarrow> parses fl (pbind (get_bytes n) f) (bs @ cs) y"
  by (rule parses_bind [OF parses_bytes])

lemma parses_u8: "parses fl get_u8 [w] w"
  using parses_bind_bytes [of "[w]" 1 fl "\<lambda>bs. preturn (hd bs)" "[]" w] parses_return [of fl w]
  by (simp add: get_u8_def)

text \<open>The flag that is right for a file of one byte order on a machine of another.\<close>

definition flag_for :: "endian \<Rightarrow> endian \<Rightarrow> ADIOS_FLAG" where
  "flag_for e1 e2 = (if e1 = e2 then adios_flag_no else adios_flag_yes)"

lemma dec_enc_foreign:
  assumes "LENGTH('a) = 8 * n" and "e1 \<noteq> e2"
  shows "word_le (rev (bytes_le n (dec e2 (enc e1 n w) :: 'a word))) = (w :: 'a::len word)"
proof -
  have "dec e2 (enc e1 n w) = (word_le (rev (bytes_le n w)) :: 'a word)"
    using assms(2) by (cases e1; cases e2) (simp_all add: enc_def dec_def)
  moreover have "bytes_le n (word_le (rev (bytes_le n w)) :: 'a word) = rev (bytes_le n w)"
    using bytes_le_word_le [of "rev (bytes_le n w)", where 'a = 'a] assms(1) by simp
  ultimately show ?thesis using word_le_bytes_le [OF assms(1), of w] by simp
qed

lemma parses_loaded:
  assumes "length bs = n" and "\<And>b. bp_change_endianness b = fl \<Longrightarrow> g bs b = v"
  shows "parses fl (pbind (get_bytes n) (\<lambda>bs b. preturn (g bs b) b)) bs v"
proof -
  have "parses fl (\<lambda>b. preturn (g bs b) b) [] v"
    using assms(2) by (simp add: parses_def preturn_def)
  from parses_bind_bytes [of bs n fl "\<lambda>bs b. preturn (g bs b) b", OF assms(1) this] show ?thesis by simp
qed

lemma parses_u16: "parses (flag_for e1 e2) (get_u16 e2) (enc e1 2 w) w"
  unfolding get_u16_def
  by (rule parses_loaded)
    (auto simp: flag_for_def swap_16_bytes dec_enc dec_enc_foreign split: if_splits)

lemma parses_u32: "parses (flag_for e1 e2) (get_u32 e2) (enc e1 4 w) w"
  unfolding get_u32_def
  by (rule parses_loaded)
    (auto simp: flag_for_def swap_32_bytes dec_enc dec_enc_foreign split: if_splits)

lemma parses_u64: "parses (flag_for e1 e2) (get_u64 e2) (enc e1 8 w) w"
  unfolding get_u64_def
  by (rule parses_loaded)
    (auto simp: flag_for_def swap_64_bytes dec_enc dec_enc_foreign split: if_splits)

text \<open>A string as the writers emit it.\<close>

definition str_ok :: "cstring \<Rightarrow> bool" where
  "str_ok s \<longleftrightarrow> nul_free s \<and> length s < 2 ^ 16"

definition enc_string :: "endian \<Rightarrow> cstring \<Rightarrow> u8 list" where
  "enc_string e s = enc e 2 (of_nat (length s) :: u16) @ bytes_of_string s"

lemma inentry_string:
  assumes "\<And>n. ok n" and "str_ok str"
  shows "inentry (bwi_string e ok str) (enc_string e str)"
proof -
  have "inentry (bwi ok (take (unat (of_nat (length str) :: u16)) (bytes_of_string str))) (bytes_of_string str)"
    using inentry_bwi [OF assms(1)] assms(2) by (simp add: str_ok_def)
  note inentry_comp [OF inentry_bwi [of ok, OF assms(1)] this]
  moreover have "bwi_string e ok str = (\<lambda>s.
      bwi ok (take (unat (of_nat (length str) :: u16)) (bytes_of_string str))
        (bwi ok (enc e 2 (of_nat (length str) :: u16)) s))"
    by (simp add: fun_eq_iff bwi_string_def Let_def)
  ultimately show ?thesis by (simp add: enc_string_def)
qed

lemma parses_string: "str_ok s \<Longrightarrow> parses (flag_for e1 e2) (get_string e2) (enc_string e1 s) s"
  unfolding get_string_def enc_string_def
  by (rule parses_bind [OF parses_u16], rule parses_bind_bytes [where cs = "[]", simplified])
    (auto simp: str_ok_def parses_return)

lemma parses_times:
  "list_all2 (parses fl p) bss xs \<Longrightarrow> parses fl (parse_times (length xs) p) (concat bss) xs"
proof (induction rule: list_all2_induct)
  case (Cons bs bss x xs)
  have "parses fl (pbind (parse_times (length xs) p) (\<lambda>ys. preturn (x # ys))) (concat bss @ []) (x # xs)"
    by (rule parses_bind [OF Cons.IH parses_return])
  from parses_bind [OF Cons.hyps(1), of "\<lambda>x. pbind (parse_times (length xs) p) (\<lambda>ys. preturn (x # ys))",
      OF this]
  show ?case by simp
qed (simp add: parses_return)

text \<open>The bytes that a writer adds to the buffer.\<close>

definition emitted :: "(wst \<Rightarrow> wst) \<Rightarrow> wst \<Rightarrow> u8 list" where
  "emitted W s = map (w_mem (W s)) [w_off s..<w_off (W s)]"

lemma emits_emitted: "emits W bs \<Longrightarrow> emitted W s = bs"
  by (simp add: emits_def emitted_def put_bytes_read)

text \<open>
  C33. \<open>buffer_write\<close>: when \<open>realloc\<close> can provide the memory, the bytes in front of the offset
  are kept, the data lie at the offset, the offset moves behind them and stays within the
  allocated size; otherwise the error is recorded and neither the bytes nor the offset change.
\<close>

theorem buffer_write_result:
  "let (off', s') = buffer_write ok data off s in
     if (off + length data \<le> w_size s \<and> \<not> w_null s) \<or> ok (off + length data + 1000000)
     then off' = off + length data \<and> off' \<le> w_size s' \<and> \<not> w_null s'
          \<and> map (w_mem s') [0..<off'] = map (w_mem s) [0..<off] @ data
     else off' = off \<and> s' = s\<lparr>w_errno := Some err_no_memory\<rparr>"
proof -
  have "map (put_bytes off data m) [0..<off] = map m [0..<off]" for m
    by (simp add: put_bytes_def)
  then have "map (put_bytes off data m) [0..<off + length data] = map m [0..<off] @ data" for m
    using upt_add_eq_append [of 0 off "length data"] put_bytes_read [of off data m] by simp
  then show ?thesis by (simp add: buffer_write_def split_beta Let_def)
qed

text \<open>The version word, in network order whatever the machine.\<close>

lemma enc_htonl: "enc e 4 (htonl e w) = rev (bytes_le 4 w)"
proof -
  have "bytes_le 4 (word_le (rev (bytes_le 4 w)) :: u32) = rev (bytes_le 4 w)"
    using bytes_le_word_le [of "rev (bytes_le 4 w)", where 'a = 32] by simp
  then show ?thesis by (cases e) (simp_all add: enc_def htonl_def swap_32_bytes)
qed

lemma htonl_dec: "length bs = 4 \<Longrightarrow> htonl e (dec e bs) = word_le (rev bs)"
  using bytes_le_word_le [of bs, where 'a = 32]
  by (cases e) (simp_all add: dec_def htonl_def swap_32_bytes)

definition version_word :: "endian \<Rightarrow> u32 \<Rightarrow> u32" where
  "version_word e flag = (case e of Little \<Rightarrow> 0x202 | Big \<Rightarrow> 0x80000202) OR flag"

lemma emits_version:
  assumes "\<And>n. ok n"
  shows "emits (adios_write_version_flag_v1 e ok flag) (rev (bytes_le 4 (version_word e flag)))"
proof -
  have "hd (enc e 4 (1::u32)) = (case e of Little \<Rightarrow> 1 | Big \<Rightarrow> 0)"
    by (cases e) (simp_all add: enc_def bytes_le_def upt_conv_Cons)
  then have "adios_write_version_flag_v1 e ok flag = bw ok (enc e 4 (htonl e (version_word e flag)))"
    by (cases e) (simp_all add: adios_write_version_flag_v1_def version_word_def fun_eq_iff
        ADIOS_VERSION_BP_FORMAT_def ADIOS_VERSION_HAVE_TIME_INDEX_CHARACTERISTIC_def or.assoc [symmetric])
  then show ?thesis using emits_bw [OF assms] by (simp add: enc_htonl)
qed

lemma version_word_top:
  assumes "unat flag < 2 ^ 24"
  shows "(ucast (drop_bit 24 (version_word e flag)) :: u8) = (case e of Little \<Rightarrow> 0 | Big \<Rightarrow> 0x80)"
    and "version_word e flag AND 0x7fffffff = 0x202 OR flag"
proof -
  note high = not_bit_unat_less [OF assms]
  have "drop_bit 24 flag = 0" by (rule bit_word_eqI) (simp add: bit_drop_bit_eq high)
  then show "(ucast (drop_bit 24 (version_word e flag)) :: u8) = (case e of Little \<Rightarrow> 0 | Big \<Rightarrow> 0x80)"
    by (cases e) (simp_all add: version_word_def)
  have "(0x7fffffff :: u32) = mask 31" by (simp add: mask_eq_exp_minus_1)
  moreover have "flag AND mask 31 = flag"
  proof (rule bit_word_eqI)
    show "bit (flag AND mask 31) n = bit flag n" for n
      using high [of n] by (cases "n < 24") (simp_all add: bit_and_iff bit_mask_iff del: mask_numeral)
  qed
  ultimately have "flag AND 0x7fffffff = flag" by simp
  then show "version_word e flag AND 0x7fffffff = 0x202 OR flag"
    by (cases e) (simp_all add: version_word_def bit.conj_disj_distrib2)
qed

lemma read_version:
  assumes "unat flag < 2 ^ 24"
    and "take 4 (drop (unat (bp_offset b)) (bp_buff b)) = rev (bytes_le 4 (version_word e1 flag))"
    and "unat (bp_offset b) + 4 \<le> length (bp_buff b)" and "4 \<le> bp_length b"
  shows "adios_parse_version e2 b =
    Inr (0x202 OR flag, b\<lparr>bp_change_endianness := flag_for e1 e2\<rparr>)"
proof -
  let ?v = "version_word e1 flag"
  have v: "htonl e2 (dec e2 (rev (bytes_le 4 ?v))) = ?v"
    using word_le_bytes_le [of 4 ?v] by (simp add: htonl_dec)
  have len: "\<not> bp_length b < 4" using assms(4) by simp
  have top: "(case e2 of Little \<Rightarrow> enc e2 4 ?v ! 3 | Big \<Rightarrow> enc e2 4 ?v ! 0)
      = (case e1 of Little \<Rightarrow> 0 | Big \<Rightarrow> 0x80)"
    using version_word_top(1) [OF assms(1), of e1]
    by (cases e2) (simp_all add: enc_def bytes_le_def upt_conv_Cons)
  have test: "hd (enc e2 4 (1::u32)) = (case e2 of Little \<Rightarrow> 1 | Big \<Rightarrow> 0)"
    by (cases e2) (simp_all add: enc_def bytes_le_def upt_conv_Cons)
  have "adios_parse_version e2 b = Inr (?v AND 0x7fffffff, b\<lparr>bp_change_endianness :=
      (if (enc e2 4 ?v ! 0 \<noteq> 0 \<and> hd (enc e2 4 (1::u32)) = 0)
          \<or> (enc e2 4 ?v ! 3 = 0 \<and> hd (enc e2 4 (1::u32)) \<noteq> 0)
       then adios_flag_no else adios_flag_yes)\<rparr>)"
    using assms(3) len by (simp add: adios_parse_version_def assms(2) v Let_def)
  with top show ?thesis
    unfolding test version_word_top(2) [OF assms(1), of e1]
    by (cases e1; cases e2) (simp_all add: flag_for_def)
qed

text \<open>
  C19. The version word: a file written with user flags in the low 24 bits is recognised on a
  machine of any byte order. The version number and the flags are read back, and the buffer's
  \<open>change_endianness\<close> says whether the writer's byte order differs from the reader's.
\<close>

theorem version_roundtrip:
  assumes "\<And>n. ok n" and "unat flag < 2 ^ 24"
    and "bp_buff b = pre @ emitted (adios_write_version_flag_v1 e1 ok flag) s @ post"
    and "unat (bp_offset b) = length pre" and "4 \<le> bp_length b"
  shows "adios_parse_version e2 b =
    Inr (0x202 OR flag, b\<lparr>bp_change_endianness := flag_for e1 e2\<rparr>)"
  using assms(3-5) emits_emitted [OF emits_version [of ok, OF assms(1)]]
  by (intro read_version [OF assms(2)]) simp_all

definition empty_wst :: wst where
  "empty_wst = \<lparr>w_mem = (\<lambda>_. 0), w_size = 0, w_null = True, w_errno = None, w_off = 0,
     w_index_size = 0, w_entry_size = 0, w_set_len = 0, w_set_count = 0\<rparr>"

definition bp_buffer_of :: "ADIOS_FLAG \<Rightarrow> u8 list \<Rightarrow> bp_buffer" where
  "bp_buffer_of fl bs =
     \<lparr>bp_f = -1, bp_file_size = of_nat (length bs), bp_version = 0, bp_buff = bs,
      bp_length = of_nat (length bs), bp_offset = 0, bp_change_endianness = fl, bp_end_of_pgs = 0,
      bp_pg_index_offset = 0, bp_pg_size = 0, bp_vars_index_offset = 0, bp_vars_size = 0,
      bp_attrs_index_offset = 0, bp_attrs_size = 0, bp_read_pg_offset = 0, bp_read_pg_size = 0\<rparr>"

lemma version_roundtrip_witness:
  "adios_parse_version Big (bp_buffer_of adios_flag_unknown
       (emitted (adios_write_version_flag_v1 Little (\<lambda>_. True) 0x100) empty_wst)) =
     Inr (0x302, bp_buffer_of adios_flag_yes
       (emitted (adios_write_version_flag_v1 Little (\<lambda>_. True) 0x100) empty_wst))"
proof -
  have "length (emitted (adios_write_version_flag_v1 Little (\<lambda>_. True) 0x100) empty_wst) = 4"
    by (simp add: emits_emitted [OF emits_version])
  then show ?thesis
    using version_roundtrip [of "\<lambda>_. True" "0x100" "bp_buffer_of adios_flag_unknown
       (emitted (adios_write_version_flag_v1 Little (\<lambda>_. True) 0x100) empty_wst)" "[]" Little empty_wst "[]" Big]
    by (simp add: bp_buffer_of_def flag_for_def)
qed

text \<open>A buffer whose offset stands in front of given bytes, and whose length is its length.\<close>

definition placed :: "bp_buffer \<Rightarrow> u8 list \<Rightarrow> bool" where
  "placed b bs \<longleftrightarrow>
     unat (bp_offset b) + length bs \<le> length (bp_buff b)
     \<and> take (length bs) (drop (unat (bp_offset b)) (bp_buff b)) = bs
     \<and> length (bp_buff b) < 2 ^ 64 \<and> bp_length b = of_nat (length (bp_buff b))"

lemma placed_parses:
  assumes "placed b bs" and "parses (bp_change_endianness b) p bs x"
  shows "p b = Inr (x, b\<lparr>bp_offset := bp_offset b + of_nat (length bs)\<rparr>)"
proof -
  have "bp_buff b = take (unat (bp_offset b)) (bp_buff b) @ bs
      @ drop (unat (bp_offset b) + length bs) (bp_buff b)"
    using assms(1) unfolding placed_def
    by (metis append_take_drop_id drop_drop add.commute)
  from assms(2) [unfolded parses_def, rule_format, OF refl _ this] assms(1) show ?thesis
    by (simp add: placed_def)
qed

lemma placed_remaining:
  assumes "placed b bs"
  shows "length bs \<le> unat (bp_length b - bp_offset b)"
proof -
  have fits: "unat (bp_offset b) + length bs \<le> length (bp_buff b)" using assms by (simp add: placed_def)
  have "unat (bp_length b) = length (bp_buff b)" using assms by (simp add: placed_def)
  moreover from this have "unat (bp_offset b) \<le> unat (bp_length b)"
    using assms by (simp add: placed_def)
  ultimately have "unat (bp_length b - bp_offset b) = length (bp_buff b) - unat (bp_offset b)"
    by (simp add: unat_diff_no_wrap)
  with fits show ?thesis by linarith
qed

lemma placed_guard:
  assumes "placed b bs" and "unat n \<le> length bs"
  shows "\<not> bp_length b - bp_offset b < n"
  using placed_remaining [OF assms(1)] assms(2) by (simp add: word_less_nat_alt)

lemma placed_whole: "length bs < 2 ^ 64 \<Longrightarrow> placed (bp_buffer_of fl bs) bs"
  by (simp add: placed_def bp_buffer_of_def)

lemma placedI:
  assumes "bp_buff b = pre @ bs @ post" and "bp_offset b = of_nat (length pre)"
    and "length (bp_buff b) < 2 ^ 64" and "bp_length b = of_nat (length (bp_buff b))"
  shows "placed b bs"
proof -
  have "unat (bp_offset b) = length pre" using assms(1-3) by simp
  with assms show ?thesis by (simp add: placed_def)
qed

text \<open>The table of index offsets.\<close>

lemma read_index_offsets:
  assumes "placed b (enc e1 8 pg @ enc e1 8 vars @ enc e1 8 attrs)"
    and "bp_change_endianness b = flag_for e1 e2"
  shows "adios_parse_index_offsets_v1 e2 b = Inr ((), b\<lparr>bp_offset := bp_offset b + 24,
    bp_pg_index_offset := pg, bp_vars_index_offset := vars, bp_attrs_index_offset := attrs,
    bp_end_of_pgs := pg, bp_pg_size := vars - pg, bp_vars_size := attrs - vars,
    bp_attrs_size := bp_file_size b - 28 - attrs\<rparr>)"
proof -
  let ?p = "pbind (get_u64 e2) (\<lambda>pg. pbind (get_u64 e2) (\<lambda>vars. pbind (get_u64 e2) (\<lambda>attrs. preturn (pg, vars, attrs))))"
  have "parses (flag_for e1 e2) ?p (enc e1 8 pg @ enc e1 8 vars @ enc e1 8 attrs) (pg, vars, attrs)"
    by (intro parses_bind [OF parses_u64] parses_last parses_u64)
  from placed_parses [OF assms(1) this [folded assms(2)]]
  have "?p b = Inr ((pg, vars, attrs), b\<lparr>bp_offset := bp_offset b + 24\<rparr>)" by simp
  then show ?thesis
    using placed_guard [OF assms(1), of 24]
    by (auto simp: adios_parse_index_offsets_v1_def pbind_def preturn_def split: sum.splits)
qed

section \<open>The entries of an index\<close>

text \<open>
  A loop that parses entries and does something with each before the next one, such as adding it
  to a hash table; an action that gets stuck ends the parse.
\<close>

fun parse_fold ::
  "('a \<Rightarrow> 's \<Rightarrow> 's option) \<Rightarrow> 'a parser \<Rightarrow> nat \<Rightarrow> 's \<Rightarrow> ('a list \<times> 's) parser" where
  "parse_fold f p 0 s = preturn ([], s)"
| "parse_fold f p (Suc n) s =
     pbind p (\<lambda>x. case f x s of
       None \<Rightarrow> pfail err_out_of_bounds
     | Some s' \<Rightarrow> pbind (parse_fold f p n s') (\<lambda>xss. preturn (x # fst xss, snd xss)))"

fun fold_opt :: "('a \<Rightarrow> 's \<Rightarrow> 's option) \<Rightarrow> 'a list \<Rightarrow> 's \<Rightarrow> 's option" where
  "fold_opt f [] s = Some s"
| "fold_opt f (x # xs) s = (case f x s of None \<Rightarrow> None | Some s' \<Rightarrow> fold_opt f xs s')"

text \<open>
  The contract between the writer and the parser of one kind of entry: the writer emits the
  bytes of a good entry and accounts for their size, and the parser reads them back, up to what
  the format does not keep. Indexes, which are counted lists of entries, follow.
\<close>

locale index_codec =
  fixes emit :: "endian \<Rightarrow> (nat \<Rightarrow> bool) \<Rightarrow> 'a \<Rightarrow> wst \<Rightarrow> wst"
    and bytes :: "endian \<Rightarrow> 'a \<Rightarrow> u8 list"
    and body_size :: "endian \<Rightarrow> 'a \<Rightarrow> nat"
    and read :: "endian \<Rightarrow> 'a parser"
    and as_read :: "endian \<Rightarrow> endian \<Rightarrow> 'a \<Rightarrow> 'a"
    and good :: "endian \<Rightarrow> 'a \<Rightarrow> bool"
  assumes writes: "(\<And>n. ok n) \<Longrightarrow> good e x \<Longrightarrow> inindex (emit e ok x) (bytes e x) (body_size e x)"
    and reads: "good e1 x \<Longrightarrow> parses (flag_for e1 e2) (read e2) (bytes e1 x) (as_read e1 e2 x)"
begin

lemma emits_entries:
  assumes "\<And>n. ok n" and "list_all (good e) xs" and "length hdr = k"
  shows "emits (\<lambda>s. let s' = fold (emit e ok) xs (reserve (k + 8) (s\<lparr>w_index_size := 0\<rparr>))
      in patch ok (w_off s) [hdr, enc e 8 (w_index_size s')] s')
    (hdr @ enc e 8 (of_nat (sum_list (map (body_size e) xs)) :: u64) @ concat (map (bytes e) xs))"
proof (rule emits_index [of ok, OF assms(1) _ assms(3)])
  show "inindex (fold (emit e ok) xs) (concat (map (bytes e) xs)) (sum_list (map (body_size e) xs))"
    using assms(2) by (intro inindex_fold writes [of ok, OF assms(1)]) (simp_all add: list_all_iff)
qed

lemma parses_fold:
  assumes "list_all (good e1) xs" and "fold_opt f (map (as_read e1 e2) xs) s = Some s'"
  shows "parses (flag_for e1 e2) (parse_fold f (read e2) (length xs) s) (concat (map (bytes e1) xs))
    (map (as_read e1 e2) xs, s')"
  using assms
proof (induction xs arbitrary: s)
  case Nil
  then show ?case by (simp add: parses_return)
next
  case (Cons x xs)
  then obtain s1 where s1: "f (as_read e1 e2 x) s = Some s1" "fold_opt f (map (as_read e1 e2) xs) s1 = Some s'"
    by (auto split: option.splits)
  have x: "good e1 x" and "list_all (good e1) xs" using Cons.prems(1) by simp_all
  note rest = Cons.IH [OF this(2) s1(2)]
  have "parses (flag_for e1 e2) (pbind (parse_fold f (read e2) (length xs) s1)
      (\<lambda>xss. preturn (as_read e1 e2 x # fst xss, snd xss))) (concat (map (bytes e1) xs) @ [])
      (map (as_read e1 e2) (x # xs), s')"
    by (rule parses_bind [OF rest]) (simp add: parses_return)
  then have "parses (flag_for e1 e2) (case f (as_read e1 e2 x) s of None \<Rightarrow> pfail err_out_of_bounds
      | Some s' \<Rightarrow> pbind (parse_fold f (read e2) (length xs) s') (\<lambda>xss. preturn (as_read e1 e2 x # fst xss, snd xss)))
      (concat (map (bytes e1) xs)) (map (as_read e1 e2) (x # xs), s')"
    by (simp add: s1(1))
  from parses_bind [OF reads [OF x, of e2], of "\<lambda>x. case f x s of None \<Rightarrow> pfail err_out_of_bounds
      | Some s' \<Rightarrow> pbind (parse_fold f (read e2) (length xs) s') (\<lambda>xss. preturn (x # fst xss, snd xss))", OF this]
  show ?case by simp
qed

lemma parses_entries:
  assumes "list_all (good e1) xs" and "length xs = n"
  shows "parses (flag_for e1 e2) (parse_times n (read e2)) (concat (map (bytes e1) xs)) (map (as_read e1 e2) xs)"
proof -
  have "list_all2 (parses (flag_for e1 e2) (read e2)) (map (bytes e1) xs) (map (as_read e1 e2) xs)"
    using assms(1) reads by (simp add: list_all2_map1 list_all2_map2 list_all2_same list_all_iff)
  from parses_times [OF this] assms(2) show ?thesis by simp
qed

end

end
