(* ===== verification/BP_Transform.thy ===== *)
theory BP_Transform
  imports BP_Buffer
begin

text \<open>
  The transform characteristic of a variable: the record of \<open>core/adios_bp_v1.h\<close>, the lookups
  in the plugin table of \<open>core/transforms/adios_transforms_hooks.c\<close>, the serializer of
  \<open>core/transforms/adios_transforms_write.c\<close> and the deserializer and the inspection functions
  of \<open>core/transforms/adios_transforms_common.c\<close>. The plugin table itself is generated when
  ADIOS is configured; it is an argument of the functions that search it.
\<close>

section \<open>Definitions\<close>

record adios_index_characteristic_dims_struct_v1 =
  d_count :: u8
  d_dims :: "u64 list" \<comment> \<open>three numbers for each dimension\<close>

record adios_index_characteristic_transform_struct =
  tr_transform_type :: u8
  tr_pre_transform_type :: ADIOS_DATATYPES
  tr_pre_transform_dimensions :: adios_index_characteristic_dims_struct_v1
  tr_transform_metadata_len :: u16
  tr_transform_metadata :: "u8 list option"

type_synonym plugin_infos = "(int \<times> cstring) list" \<comment> \<open>type and uid\<close>

definition find_plugin_info :: "plugin_infos \<Rightarrow> int \<Rightarrow> (int \<times> cstring) option" where
  "find_plugin_info infos transform_type = find (\<lambda>info. fst info = transform_type) infos"

definition adios_transform_plugin_uid :: "plugin_infos \<Rightarrow> int \<Rightarrow> cstring option" where
  "adios_transform_plugin_uid infos transform_type =
     (case find_plugin_info infos transform_type of Some info \<Rightarrow> Some (snd info) | None \<Rightarrow> None)"

definition adios_transform_find_type_by_uid :: "plugin_infos \<Rightarrow> cstring \<Rightarrow> int" where
  "adios_transform_find_type_by_uid infos uid =
     (case find (\<lambda>info. snd info = uid) infos of Some info \<Rightarrow> fst info | None \<Rightarrow> -1)"

text \<open>The enumeration value with a given 8-bit code; every other code acts as unknown.\<close>

definition type_of_code :: "u8 \<Rightarrow> ADIOS_DATATYPES" where
  "type_of_code w =
     (case find (\<lambda>t. type_code t = uint w)
        [adios_byte, adios_short, adios_integer, adios_long, adios_unsigned_byte,
         adios_unsigned_short, adios_unsigned_integer, adios_unsigned_long, adios_real,
         adios_double, adios_long_double, adios_string, adios_complex, adios_double_complex]
      of Some t \<Rightarrow> t | None \<Rightarrow> adios_unknown)"

definition adios_characteristic_transform_type :: u8 where
  "adios_characteristic_transform_type = 11"

text \<open>The bytes of \<open>len = 3 * 8 * count\<close> and of the array of dimensions.\<close>

definition dims_len :: "adios_index_characteristic_dims_struct_v1 \<Rightarrow> u16" where
  "dims_len d = of_nat (3 * 8 * unat (d_count d))"

definition dims_data :: "endian \<Rightarrow> adios_index_characteristic_dims_struct_v1 \<Rightarrow> u8 list" where
  "dims_data e d = take (unat (dims_len d)) (concat (map (enc e 8) (d_dims d)))"

text \<open>
  \<open>serialize_transform_type\<close> adds to \<open>write_length\<close>. The length of the uid of a type that is
  not in the table is taken of a null pointer.
\<close>

definition serialize_transform_type ::
  "(nat \<Rightarrow> bool) \<Rightarrow> plugin_infos \<Rightarrow> u8 \<Rightarrow> u64 \<times> wst \<Rightarrow> u64 \<times> wst" where
  "serialize_transform_type realloc_ok infos transform_type = (\<lambda>(write_length, s).
     case adios_transform_plugin_uid infos (uint transform_type) of
       None \<Rightarrow> (write_length, s\<lparr>w_errno := Some err_out_of_bounds\<rparr>)
     | Some uid \<Rightarrow>
         let uid_len = of_nat (length uid) :: u8 in
         (write_length + 1 + ucast uid_len,
          bw realloc_ok (take (unat uid_len) (bytes_of_string uid)) (bw realloc_ok [uid_len] s)))"

text \<open>
  \<open>adios_transform_serialize_transform\<close>: the number of characteristics written, their length and
  the buffer. The write of \<open>pre_transform_type\<close> copies one byte of a four-byte enumeration.
\<close>

definition adios_transform_serialize_transform ::
  "endian \<Rightarrow> (nat \<Rightarrow> bool) \<Rightarrow> plugin_infos \<Rightarrow> u8 \<Rightarrow> ADIOS_DATATYPES
    \<Rightarrow> adios_index_characteristic_dims_struct_v1 \<Rightarrow> u16 \<Rightarrow> u8 list option \<Rightarrow> wst \<Rightarrow> u8 \<times> u64 \<times> wst" where
  "adios_transform_serialize_transform e realloc_ok infos transform_type pre_transform_type
     pre_transform_dimensions transform_metadata_len transform_metadata s =
     (if transform_metadata_len \<noteq> 0 \<and> transform_metadata = None
      then (0, 0, s\<lparr>w_errno := Some err_assertion\<rparr>)
      else if transform_type = 0 then (0, 0, s)
      else
        let (write_length, s) = serialize_transform_type realloc_ok infos transform_type
              (1, bw realloc_ok [adios_characteristic_transform_type] s);
            len = dims_len pre_transform_dimensions;
            s = pipe [bw realloc_ok [hd (enc e 4 (word_of_int (type_code pre_transform_type) :: u32))],
                      bw realloc_ok [d_count pre_transform_dimensions],
                      bw realloc_ok (enc e 2 len),
                      bw realloc_ok (dims_data e pre_transform_dimensions),
                      bw realloc_ok (enc e 2 transform_metadata_len)] s;
            write_length = write_length + 1 + 1 + 2 + ucast len + 2
        in if transform_metadata_len \<noteq> 0
           then (1, write_length + ucast transform_metadata_len,
                 bw realloc_ok (take (unat transform_metadata_len) (the transform_metadata)) s)
           else (1, write_length, s))"

definition adios_transform_serialize_transform_characteristic ::
  "endian \<Rightarrow> (nat \<Rightarrow> bool) \<Rightarrow> plugin_infos \<Rightarrow> adios_index_characteristic_transform_struct \<Rightarrow> wst
    \<Rightarrow> u8 \<times> u64 \<times> wst" where
  "adios_transform_serialize_transform_characteristic e realloc_ok infos transform s =
     adios_transform_serialize_transform e realloc_ok infos (tr_transform_type transform)
       (tr_pre_transform_type transform) (tr_pre_transform_dimensions transform)
       (tr_transform_metadata_len transform) (tr_transform_metadata transform) s"

definition deserialize_transform_type :: "plugin_infos \<Rightarrow> u8 parser" where
  "deserialize_transform_type infos =
     pbind get_u8 (\<lambda>transform_uid_len.
     pbind (get_bytes (unat transform_uid_len)) (\<lambda>transform_uid.
     preturn (word_of_int (adios_transform_find_type_by_uid infos (string_of_bytes transform_uid)))))"

text \<open>
  \<open>adios_transform_deserialize_transform_characteristic\<close>. The counter of the loop that reads the
  dimensions has 8 bits: with more than 85 dimensions it never reaches its bound and the reads
  leave the buffer.
\<close>

definition adios_transform_deserialize_transform_characteristic ::
  "endian \<Rightarrow> plugin_infos \<Rightarrow> adios_index_characteristic_transform_struct
    \<Rightarrow> adios_index_characteristic_transform_struct parser" where
  "adios_transform_deserialize_transform_characteristic e infos transform =
     pbind (deserialize_transform_type infos) (\<lambda>transform_type.
     pbind get_u8 (\<lambda>pre_transform_type.
     pbind get_u8 (\<lambda>count.
     pbind (get_u16 e) (\<lambda>len.
     if unat len \<noteq> 3 * 8 * unat count then pfail err_assertion
     else if 3 * unat count > 255 then pfail err_out_of_bounds
     else
       pbind (parse_times (3 * unat count) (get_u64 e)) (\<lambda>dims.
       pbind (get_u16 e) (\<lambda>meta_len.
       let transform = transform\<lparr>tr_transform_type := transform_type,
             tr_pre_transform_type := type_of_code pre_transform_type,
             tr_pre_transform_dimensions := \<lparr>d_count = count, d_dims = dims\<rparr>\<rparr> in
       if meta_len \<noteq> 0 then
         pbind (get_bytes (unat meta_len)) (\<lambda>metadata.
         preturn (transform\<lparr>tr_transform_metadata_len := meta_len,
                            tr_transform_metadata := Some metadata\<rparr>))
       else preturn (transform\<lparr>tr_transform_metadata := None\<rparr>)))))))"

definition adios_transform_init_transform_characteristic ::
  "adios_index_characteristic_transform_struct" where
  "adios_transform_init_transform_characteristic =
     \<lparr>tr_transform_type = 0, tr_pre_transform_type = adios_unknown,
      tr_pre_transform_dimensions = \<lparr>d_count = 0, d_dims = []\<rparr>,
      tr_transform_metadata_len = 0, tr_transform_metadata = None\<rparr>"

text \<open>\<open>adios_transform_clear_transform_characteristic\<close> keeps the number of dimensions.\<close>

definition adios_transform_clear_transform_characteristic ::
  "adios_index_characteristic_transform_struct \<Rightarrow> adios_index_characteristic_transform_struct" where
  "adios_transform_clear_transform_characteristic transform =
     transform\<lparr>tr_transform_type := 0, tr_pre_transform_type := adios_byte,
       tr_pre_transform_dimensions := (tr_pre_transform_dimensions transform)\<lparr>d_dims := []\<rparr>,
       tr_transform_metadata_len := 0, tr_transform_metadata := None\<rparr>"

definition adios_transform_swap_transform_characteristics ::
  "adios_index_characteristic_transform_struct \<times> adios_index_characteristic_transform_struct
    \<Rightarrow> adios_index_characteristic_transform_struct \<times> adios_index_characteristic_transform_struct" where
  "adios_transform_swap_transform_characteristics = (\<lambda>(trans1, trans2).
     let tmp = trans1; trans1 = trans2; trans2 = tmp in (trans1, trans2))"

section \<open>Serialization\<close>

definition plugins_ok :: "plugin_infos \<Rightarrow> bool" where
  "plugins_ok infos \<longleftrightarrow> distinct (map snd infos) \<and> distinct (map fst infos)
     \<and> list_all (\<lambda>(t, uid). 0 \<le> t \<and> t < 256 \<and> nul_free uid \<and> length uid < 256) infos"

definition transform_ok :: "plugin_infos \<Rightarrow> adios_index_characteristic_transform_struct \<Rightarrow> bool" where
  "transform_ok infos tr \<longleftrightarrow>
     uint (tr_transform_type tr) \<in> set (map fst infos) \<and> tr_transform_type tr \<noteq> 0
     \<and> tr_pre_transform_type tr \<noteq> adios_unknown
     \<and> length (d_dims (tr_pre_transform_dimensions tr)) = 3 * unat (d_count (tr_pre_transform_dimensions tr))
     \<and> unat (d_count (tr_pre_transform_dimensions tr)) < 86
     \<and> (case tr_transform_metadata tr of None \<Rightarrow> tr_transform_metadata_len tr = 0
        | Some md \<Rightarrow> tr_transform_metadata_len tr \<noteq> 0 \<and> length md = unat (tr_transform_metadata_len tr))"

definition transform_uid :: "plugin_infos \<Rightarrow> adios_index_characteristic_transform_struct \<Rightarrow> cstring" where
  "transform_uid infos tr = the (adios_transform_plugin_uid infos (uint (tr_transform_type tr)))"

definition transform_bytes ::
  "endian \<Rightarrow> plugin_infos \<Rightarrow> adios_index_characteristic_transform_struct \<Rightarrow> u8 list" where
  "transform_bytes e infos tr =
     ([of_nat (length (transform_uid infos tr))] @ bytes_of_string (transform_uid infos tr))
     @ [hd (enc e 4 (word_of_int (type_code (tr_pre_transform_type tr)) :: u32))]
     @ [d_count (tr_pre_transform_dimensions tr)]
     @ enc e 2 (dims_len (tr_pre_transform_dimensions tr))
     @ concat (map (enc e 8) (d_dims (tr_pre_transform_dimensions tr)))
     @ enc e 2 (tr_transform_metadata_len tr)
     @ (case tr_transform_metadata tr of None \<Rightarrow> [] | Some md \<Rightarrow> md)"

lemma find_distinct:
  "x \<in> set xs \<Longrightarrow> distinct (map f xs) \<Longrightarrow> find (\<lambda>y. f y = f x) xs = Some x"
  by (induction xs) (auto simp: image_iff)

lemma plugin_uid:
  assumes "plugins_ok infos" and "uint t \<in> set (map fst infos)"
  obtains uid where "adios_transform_plugin_uid infos (uint t) = Some uid"
    "adios_transform_find_type_by_uid infos uid = uint t" "nul_free uid" "length uid < 256"
proof -
  from assms(2) obtain uid where u: "(uint t, uid) \<in> set infos" by auto
  have d: "distinct (map fst infos)" "distinct (map snd infos)"
    using assms(1) by (auto simp: plugins_ok_def)
  have "find_plugin_info infos (uint t) = Some (uint t, uid)"
    using find_distinct [OF u d(1)] by (simp add: find_plugin_info_def)
  moreover have "find (\<lambda>info. snd info = uid) infos = Some (uint t, uid)"
    using find_distinct [OF u d(2)] by simp
  ultimately show thesis
    using u assms(1) that [of uid]
    by (auto simp: adios_transform_plugin_uid_def adios_transform_find_type_by_uid_def plugins_ok_def
        list_all_iff)
qed

lemma length_concat_enc [simp]: "length (concat (map (enc e n) xs)) = n * length xs"
  by (induction xs) simp_all

lemma unat_dims_len: "unat (dims_len d) = 24 * unat (d_count d)"
proof -
  have "unat (d_count d) < 256" using unsigned_less [of "d_count d", where 'a = nat] by simp
  then show ?thesis
    using unat_of_nat_small [of "3 * 8 * unat (d_count d)", where 'a = 16] by (simp add: dims_len_def)
qed

lemma dims_data_full:
  "length (d_dims d) = 3 * unat (d_count d) \<Longrightarrow> dims_data e d = concat (map (enc e 8) (d_dims d))"
  by (simp add: dims_data_def unat_dims_len)

lemma serialize_emits:
  assumes "\<And>n. ok n" and "plugins_ok infos" and "transform_ok infos tr"
  shows "\<exists>W. plain W (adios_characteristic_transform_type # transform_bytes e infos tr)
    \<and> adios_transform_serialize_transform_characteristic e ok infos tr =
      (\<lambda>s. (1, of_nat (Suc (length (transform_bytes e infos tr))), W s))"
proof -
  let ?d = "tr_pre_transform_dimensions tr" and ?ml = "tr_transform_metadata_len tr"
  have t: "uint (tr_transform_type tr) \<in> set (map fst infos)" "tr_transform_type tr \<noteq> 0"
    "length (d_dims ?d) = 3 * unat (d_count ?d)"
    using assms(3) by (auto simp: transform_ok_def)
  obtain uid where uid: "adios_transform_plugin_uid infos (uint (tr_transform_type tr)) = Some uid"
      "length uid < 256" using plugin_uid [OF assms(2) t(1)] by metis
  define md where "md = (case tr_transform_metadata tr of None \<Rightarrow> [] | Some md \<Rightarrow> md)"
  have md: "length md = unat ?ml" "?ml \<noteq> 0 \<Longrightarrow> tr_transform_metadata tr = Some md"
    using assms(3) by (auto simp: transform_ok_def md_def split: option.splits)
  define W where "W = pipe ([bw ok [adios_characteristic_transform_type],
      bw ok [of_nat (length uid) :: u8], bw ok (bytes_of_string uid),
      bw ok [hd (enc e 4 (word_of_int (type_code (tr_pre_transform_type tr)) :: u32))],
      bw ok [d_count ?d], bw ok (enc e 2 (dims_len ?d)), bw ok (concat (map (enc e 8) (d_dims ?d))),
      bw ok (enc e 2 ?ml)] @ (if ?ml \<noteq> 0 then [bw ok md] else []))"
  have "plain W (concat ([[adios_characteristic_transform_type], [of_nat (length uid)], bytes_of_string uid,
      [hd (enc e 4 (word_of_int (type_code (tr_pre_transform_type tr)) :: u32))], [d_count ?d],
      enc e 2 (dims_len ?d), concat (map (enc e 8) (d_dims ?d)), enc e 2 ?ml] @ (if ?ml \<noteq> 0 then [md] else [])))"
    unfolding W_def by (rule plain_pipe, rule list_all2_appendI) (auto intro: plain_bw [of ok, OF assms(1)])
  moreover have "(if ?ml \<noteq> 0 then md else []) = md" using md(1) by auto
  ultimately have "plain W (adios_characteristic_transform_type # transform_bytes e infos tr)"
    by (auto simp: transform_bytes_def transform_uid_def uid(1) md_def [symmetric] if_distrib [of concat] cong: if_cong)
  moreover have "adios_transform_serialize_transform_characteristic e ok infos tr s =
      (1, of_nat (Suc (length (transform_bytes e infos tr))), W s)" for s
  proof -
    have u: "ucast (dims_len ?d) = (of_nat (24 * unat (d_count ?d)) :: u64)"
        "ucast (of_nat (length uid) :: u8) = (of_nat (length uid) :: u64)" "ucast ?ml = (of_nat (length md) :: u64)"
      using ucast_eq_of_nat [OF unat_dims_len [of ?d]] ucast_eq_of_nat [OF md(1) [symmetric]]
        ucast_eq_of_nat [OF unat_of_nat_small [of "length uid", where 'a = 8]] uid(2) by simp_all
    have "length (transform_bytes e infos tr) = 7 + length uid + 24 * unat (d_count ?d) + length md"
      by (simp add: transform_bytes_def transform_uid_def uid(1) md_def [symmetric] t(3))
    moreover have "?ml = 0 \<Longrightarrow> md = []" "?ml \<noteq> 0 \<Longrightarrow> take (unat ?ml) md = md" using md(1) by auto
    ultimately show ?thesis
      using uid t(2) md(2)
      by (cases "?ml = 0")
        (simp_all add: adios_transform_serialize_transform_characteristic_def W_def pipe_append
          adios_transform_serialize_transform_def serialize_transform_type_def dims_data_full [OF t(3)]
          Let_def split_beta u algebra_simps)
  qed
  ultimately show ?thesis by blast
qed

text \<open>What the single byte of the enumeration is read back as.\<close>

definition pre_type_as_read :: "endian \<Rightarrow> ADIOS_DATATYPES \<Rightarrow> ADIOS_DATATYPES" where
  "pre_type_as_read e t = (case e of Little \<Rightarrow> t | Big \<Rightarrow> adios_byte)"

lemma type_of_code_hd:
  "t \<noteq> adios_unknown \<Longrightarrow>
   type_of_code (hd (enc e 4 (word_of_int (type_code t) :: u32))) = pre_type_as_read e t"
  by (cases t; cases e)
    (simp_all add: pre_type_as_read_def enc_def bytes_le_def upt_conv_Cons type_of_code_def)

definition transform_as_read ::
  "endian \<Rightarrow> adios_index_characteristic_transform_struct
    \<Rightarrow> adios_index_characteristic_transform_struct" where
  "transform_as_read e tr =
     tr\<lparr>tr_pre_transform_type := pre_type_as_read e (tr_pre_transform_type tr)\<rparr>"

lemma parses_u64s:
  assumes "length xs = n"
  shows "parses (flag_for e1 e2) (parse_times n (get_u64 e2)) (concat (map (enc e1 8) xs)) xs"
proof -
  have "list_all2 (parses (flag_for e1 e2) (get_u64 e2)) (map (enc e1 8) xs) xs"
    by (simp add: list_all2_map1 list_all2_same parses_u64)
  from parses_times [OF this] assms show ?thesis by simp
qed

lemma parses_transform_type:
  assumes "plugins_ok infos" and "transform_ok infos tr"
  shows "parses fl (deserialize_transform_type infos)
    ([of_nat (length (transform_uid infos tr))] @ bytes_of_string (transform_uid infos tr)) (tr_transform_type tr)"
proof -
  have "uint (tr_transform_type tr) \<in> set (map fst infos)" using assms(2) by (simp add: transform_ok_def)
  then obtain uid where u: "adios_transform_plugin_uid infos (uint (tr_transform_type tr)) = Some uid"
      "adios_transform_find_type_by_uid infos uid = uint (tr_transform_type tr)" "nul_free uid" "length uid < 256"
    by (rule plugin_uid [OF assms(1)])
  then have uid: "transform_uid infos tr = uid" by (simp add: transform_uid_def)
  have "parses fl (preturn (word_of_int (adios_transform_find_type_by_uid infos
      (string_of_bytes (bytes_of_string uid))))) [] (tr_transform_type tr)"
    using parses_return [of fl "tr_transform_type tr"] u by simp
  with u show ?thesis
    unfolding deserialize_transform_type_def uid
    by (intro parses_bind [OF parses_u8] parses_bind_bytes [where cs = "[]", simplified]) simp_all
qed

lemma parses_transform:
  assumes "plugins_ok infos" and "transform_ok infos tr" and "tr_transform_metadata_len tr0 = 0"
  shows "parses (flag_for e1 e2) (adios_transform_deserialize_transform_characteristic e2 infos tr0)
    (transform_bytes e1 infos tr) (transform_as_read e1 tr)"
proof -
  let ?d = "tr_pre_transform_dimensions tr" and ?ml = "tr_transform_metadata_len tr"
    and ?fl = "flag_for e1 e2"
  have ok: "tr_pre_transform_type tr \<noteq> adios_unknown" "length (d_dims ?d) = 3 * unat (d_count ?d)"
    "unat (d_count ?d) < 86" using assms(2) by (auto simp: transform_ok_def)
  let ?tr = "tr0\<lparr>tr_transform_type := tr_transform_type tr,
      tr_pre_transform_type := pre_type_as_read e1 (tr_pre_transform_type tr),
      tr_pre_transform_dimensions := \<lparr>d_count = d_count ?d, d_dims = d_dims ?d\<rparr>\<rparr>"
  have meta: "parses ?fl (if ?ml \<noteq> 0 then pbind (get_bytes (unat ?ml)) (\<lambda>metadata.
         preturn (?tr\<lparr>tr_transform_metadata_len := ?ml, tr_transform_metadata := Some metadata\<rparr>))
       else preturn (?tr\<lparr>tr_transform_metadata := None\<rparr>))
      (case tr_transform_metadata tr of None \<Rightarrow> [] | Some md \<Rightarrow> md) (transform_as_read e1 tr)"
  proof (cases "tr_transform_metadata tr")
    case None
    then have "?ml = 0" using assms(2) by (simp add: transform_ok_def)
    with None assms(3) have "?tr\<lparr>tr_transform_metadata := None\<rparr> = transform_as_read e1 tr"
      by (simp add: transform_as_read_def)
    with None \<open>?ml = 0\<close> show ?thesis using parses_return by simp
  next
    case (Some md)
    then have md: "?ml \<noteq> 0" "length md = unat ?ml" using assms(2) by (auto simp: transform_ok_def)
    from Some have "?tr\<lparr>tr_transform_metadata_len := ?ml, tr_transform_metadata := Some md\<rparr> = transform_as_read e1 tr"
      by (simp add: transform_as_read_def)
    then have "parses ?fl (preturn (?tr\<lparr>tr_transform_metadata_len := ?ml, tr_transform_metadata := Some md\<rparr>)) []
        (transform_as_read e1 tr)" using parses_return by metis
    from parses_bind_bytes [where cs = "[]" and f = "\<lambda>metadata. preturn (?tr\<lparr>tr_transform_metadata_len := ?ml,
        tr_transform_metadata := Some metadata\<rparr>)", OF md(2) this] Some md(1)
    show ?thesis by simp
  qed
  have len: "unat (dims_len ?d) = 3 * 8 * unat (d_count ?d)" by (simp add: unat_dims_len)
  show ?thesis
    unfolding transform_bytes_def adios_transform_deserialize_transform_characteristic_def
    using ok(2,3) len meta
    by (intro parses_bind [OF parses_transform_type [OF assms(1,2)]] parses_bind [OF parses_u8] parses_bind [OF parses_u16])
      (simp add: type_of_code_hd [OF ok(1)] Let_def, intro parses_bind [OF parses_u64s] parses_bind [OF parses_u16]; simp)
qed

text \<open>
  C22. The transform characteristic written on one machine and read on another: behind the flag
  byte, the reader gets back the transform type, found again by its uid, the original
  dimensions and the transform's metadata, and the writer reports one characteristic and its
  length. The original data type survives when the writer is little-endian; a big-endian
  writer stores the first byte of the enumeration, a zero, which reads as \<open>adios_byte\<close>.
\<close>

theorem transform_roundtrip:
  assumes "\<And>n. ok n" and "plugins_ok infos" and "transform_ok infos tr"
    and "adios_transform_serialize_transform_characteristic e1 ok infos tr s = (c, len, s')"
    and "placed b (tl (map (w_mem s') [w_off s..<w_off s']))"
    and "bp_change_endianness b = flag_for e1 e2"
  shows "\<exists>b'. adios_transform_deserialize_transform_characteristic e2 infos
        adios_transform_init_transform_characteristic b =
      Inr (tr\<lparr>tr_pre_transform_type := (case e1 of Little \<Rightarrow> tr_pre_transform_type tr | Big \<Rightarrow> adios_byte)\<rparr>, b')
    \<and> c = 1 \<and> len = of_nat (w_off s' - w_off s)"
proof -
  obtain W where W: "plain W (adios_characteristic_transform_type # transform_bytes e1 infos tr)"
      "adios_transform_serialize_transform_characteristic e1 ok infos tr =
        (\<lambda>s. (1, of_nat (Suc (length (transform_bytes e1 infos tr))), W s))"
    using serialize_emits [of ok, OF assms(1-3)] by blast
  then have s': "c = 1" "len = of_nat (Suc (length (transform_bytes e1 infos tr)))" "s' = W s"
    using assms(4) by auto
  have em: "emits W (adios_characteristic_transform_type # transform_bytes e1 infos tr)"
    using W(1) by (simp add: plain_def)
  then have "w_off s' - w_off s = Suc (length (transform_bytes e1 infos tr))"
    by (simp add: s'(3) emits_def)
  moreover have "tl (map (w_mem s') [w_off s..<w_off s']) = transform_bytes e1 infos tr"
    using emits_emitted [OF em, of s] s'(3) by (simp add: emitted_def)
  then have pl: "placed b (transform_bytes e1 infos tr)" using assms(5) by simp
  have "parses (bp_change_endianness b) (adios_transform_deserialize_transform_characteristic e2 infos
      adios_transform_init_transform_characteristic) (transform_bytes e1 infos tr) (transform_as_read e1 tr)"
    unfolding assms(6)
    by (rule parses_transform [OF assms(2,3)]) (simp add: adios_transform_init_transform_characteristic_def)
  from placed_parses [OF pl this] s'(1,2) calculation show ?thesis
    by (simp add: transform_as_read_def pre_type_as_read_def)
qed

definition transform_example :: adios_index_characteristic_transform_struct where
  "transform_example = \<lparr>tr_transform_type = 2, tr_pre_transform_type = adios_double,
     tr_pre_transform_dimensions = \<lparr>d_count = 1, d_dims = [10, 100, 20]\<rparr>,
     tr_transform_metadata_len = 2, tr_transform_metadata = Some [7, 9]\<rparr>"

lemma transform_roundtrip_witness:
  "\<exists>len s' b'. adios_transform_serialize_transform_characteristic Little (\<lambda>_. True)
       [(0, ''none''), (2, ''zlib'')] transform_example empty_wst = (1, len, s')
     \<and> adios_transform_deserialize_transform_characteristic Big [(0, ''none''), (2, ''zlib'')]
         adios_transform_init_transform_characteristic
         (bp_buffer_of adios_flag_yes (tl (map (w_mem s') [0..<w_off s']))) = Inr (transform_example, b')"
proof -
  let ?infos = "[(0, ''none''), (2, ''zlib'')] :: plugin_infos"
  have ok: "plugins_ok ?infos" "transform_ok ?infos transform_example"
    by (simp_all add: plugins_ok_def transform_ok_def transform_example_def nul_free_def)
  obtain W where W: "plain W (adios_characteristic_transform_type # transform_bytes Little ?infos transform_example)"
      "adios_transform_serialize_transform_characteristic Little (\<lambda>_. True) ?infos transform_example empty_wst =
        (1, of_nat (Suc (length (transform_bytes Little ?infos transform_example))), W empty_wst)"
    using serialize_emits [of "\<lambda>_. True", OF TrueI ok, of Little] by auto
  let ?bs = "tl (map (w_mem (W empty_wst)) [0..<w_off (W empty_wst)])"
  have "emits W (adios_characteristic_transform_type # transform_bytes Little ?infos transform_example)"
    using W(1) by (simp add: plain_def)
  then have bs: "?bs = transform_bytes Little ?infos transform_example"
    using emits_emitted [of W _ empty_wst] by (simp add: emitted_def empty_wst_def)
  have "length ?bs < 2 ^ 64"
    unfolding bs by (simp add: transform_bytes_def transform_example_def transform_uid_def
        adios_transform_plugin_uid_def find_plugin_info_def)
  then have "placed (bp_buffer_of adios_flag_yes ?bs) (tl (map (w_mem (W empty_wst)) [w_off empty_wst..<w_off (W empty_wst)]))"
    using placed_whole [of ?bs adios_flag_yes] by (simp add: empty_wst_def)
  from transform_roundtrip [of "\<lambda>_. True", OF TrueI ok W(2) this, of Big] W(2) show ?thesis
    by (auto simp: bp_buffer_of_def flag_for_def)
qed

end
