(* ===== verification/BP_Chars.thy ===== *)
theory BP_Chars
  imports BP_Transform
begin

text \<open>
  The characteristics of the variables and attributes of a BP index: the records of
  \<open>core/adios_bp_v1.h\<close>, the writes of the single characteristics in \<open>adios_write_index_v1\<close>
  (\<open>core/adios_internals.c\<close>) and their parsing in \<open>adios_parse_vars_index_v1\<close>
  (\<open>core/adios_bp_v1.c\<close>). Values, statistics and histogram limits are kept as the bytes they
  have in the memory of the machine.
\<close>

section \<open>Data\<close>

abbreviation (input) adios_characteristic_value :: u8 where "adios_characteristic_value \<equiv> 0"
abbreviation (input) adios_characteristic_min :: u8 where "adios_characteristic_min \<equiv> 1"
abbreviation (input) adios_characteristic_max :: u8 where "adios_characteristic_max \<equiv> 2"
abbreviation (input) adios_characteristic_offset :: u8 where "adios_characteristic_offset \<equiv> 3"
abbreviation (input) adios_characteristic_dimensions :: u8 where "adios_characteristic_dimensions \<equiv> 4"
abbreviation (input) adios_characteristic_var_id :: u8 where "adios_characteristic_var_id \<equiv> 5"
abbreviation (input) adios_characteristic_payload_offset :: u8 where "adios_characteristic_payload_offset \<equiv> 6"
abbreviation (input) adios_characteristic_file_index :: u8 where "adios_characteristic_file_index \<equiv> 7"
abbreviation (input) adios_characteristic_time_index :: u8 where "adios_characteristic_time_index \<equiv> 8"
abbreviation (input) adios_characteristic_bitmap :: u8 where "adios_characteristic_bitmap \<equiv> 9"
abbreviation (input) adios_characteristic_stat :: u8 where "adios_characteristic_stat \<equiv> 10"

record adios_hist_struct =
  h_min :: u64 \<comment> \<open>the bits of a \<open>double\<close>\<close>
  h_max :: u64
  h_num_breaks :: u32
  h_frequencies :: "u32 list"
  h_breaks :: "u64 list"

datatype stat_data = Stat_Hist adios_hist_struct | Stat_Bytes "u8 list"

text \<open>A null pointer is \<open>None\<close>, for the value, for the statistics and for one statistic.\<close>

record adios_index_characteristic_struct_v1 =
  ch_offset :: u64
  ch_dims :: adios_index_characteristic_dims_struct_v1
  ch_var_id :: u32
  ch_value :: "u8 list option"
  ch_payload_offset :: u64
  ch_file_index :: u32
  ch_time_index :: u32
  ch_bitmap :: u32
  ch_stats :: "stat_data option list list option"
  ch_transform :: adios_index_characteristic_transform_struct

text \<open>The characteristic after \<open>memset\<close> with zeros; the type with the code 0 is \<open>adios_byte\<close>.\<close>

definition zero_dims :: adios_index_characteristic_dims_struct_v1 where
  "zero_dims = \<lparr>d_count = 0, d_dims = []\<rparr>"

definition zero_transform :: adios_index_characteristic_transform_struct where
  "zero_transform = \<lparr>tr_transform_type = 0, tr_pre_transform_type = adios_byte,
     tr_pre_transform_dimensions = zero_dims, tr_transform_metadata_len = 0,
     tr_transform_metadata = None\<rparr>"

definition zero_characteristic :: adios_index_characteristic_struct_v1 where
  "zero_characteristic = \<lparr>ch_offset = 0, ch_dims = zero_dims, ch_var_id = 0, ch_value = None,
     ch_payload_offset = 0, ch_file_index = 0, ch_time_index = 0, ch_bitmap = 0, ch_stats = None,
     ch_transform = zero_transform\<rparr>"

text \<open>\<open>adios_get_stat_size\<close> with the number of a statistic; other numbers have the size 0.\<close>

definition stat_size :: "ADIOS_DATATYPES \<Rightarrow> nat \<Rightarrow> u64" where
  "stat_size type k =
     (if k < 7 then
        adios_get_stat_size 0 type
          ([adios_statistic_min, adios_statistic_max, adios_statistic_cnt, adios_statistic_sum,
            adios_statistic_sum_square, adios_statistic_hist, adios_statistic_finite] ! k)
      else 0)"

section \<open>Writing\<close>

text \<open>\<open>characteristic_set_count++\<close> and the write of the flag.\<close>

definition set_item :: "(nat \<Rightarrow> bool) \<Rightarrow> u8 \<Rightarrow> wst \<Rightarrow> wst" where
  "set_item realloc_ok flag s = bws realloc_ok [flag] (s\<lparr>w_set_count := w_set_count s + 1\<rparr>)"

text \<open>The characteristics that every variable and every attribute has.\<close>

definition write_common_items ::
  "endian \<Rightarrow> (nat \<Rightarrow> bool) \<Rightarrow> adios_index_characteristic_struct_v1 \<Rightarrow> wst \<Rightarrow> wst" where
  "write_common_items e realloc_ok ch =
     pipe [set_item realloc_ok adios_characteristic_offset,
           bws realloc_ok (enc e 8 (ch_offset ch)),
           set_item realloc_ok adios_characteristic_payload_offset,
           bws realloc_ok (enc e 8 (ch_payload_offset ch)),
           set_item realloc_ok adios_characteristic_file_index,
           bws realloc_ok (enc e 4 (ch_file_index ch)),
           set_item realloc_ok adios_characteristic_time_index,
           bws realloc_ok (enc e 4 (ch_time_index ch))]"

definition write_hist :: "endian \<Rightarrow> (nat \<Rightarrow> bool) \<Rightarrow> adios_hist_struct \<Rightarrow> wst \<Rightarrow> wst" where
  "write_hist e realloc_ok hist =
     pipe [bws realloc_ok (enc e 4 (h_num_breaks hist)),
           bws realloc_ok (enc e 8 (h_min hist)),
           bws realloc_ok (enc e 8 (h_max hist)),
           bws realloc_ok (take (unat ((h_num_breaks hist + 1) * 4)) (concat (map (enc e 4) (h_frequencies hist)))),
           bws realloc_ok (take (unat (h_num_breaks hist * 8)) (concat (map (enc e 8) (h_breaks hist))))]"

text \<open>
  The loop \<open>while (bitmap >> j)\<close> over the statistics of one set; \<open>idx\<close> counts the statistics
  written. A statistic that is not there is a null pointer or lies behind the array. The loop ends at
  bit 32, where the shift of the code would be undefined; bitmaps in use have seven bits (\<open>array_ok\<close>).
\<close>

fun write_stats_row ::
  "endian \<Rightarrow> (nat \<Rightarrow> bool) \<Rightarrow> ADIOS_DATATYPES \<Rightarrow> u32 \<Rightarrow> stat_data option list \<Rightarrow> nat \<Rightarrow> nat list
    \<Rightarrow> wst \<Rightarrow> wst" where
  "write_stats_row e realloc_ok type bitmap row idx [] s = s"
| "write_stats_row e realloc_ok type bitmap row idx (j # js) s =
     (if drop_bit j bitmap = 0 then s
      else if bit bitmap j then
        (case if idx < length row then row ! idx else None of
           Some (Stat_Hist hist) \<Rightarrow>
             if j = 5 then write_stats_row e realloc_ok type bitmap row (idx + 1) js (write_hist e realloc_ok hist s)
             else s\<lparr>w_errno := Some err_out_of_bounds\<rparr>
         | Some (Stat_Bytes data) \<Rightarrow>
             if j = 5 then s\<lparr>w_errno := Some err_out_of_bounds\<rparr>
             else write_stats_row e realloc_ok type bitmap row (idx + 1) js
                    (bws realloc_ok (take (unat (stat_size type j)) data) s)
         | None \<Rightarrow> s\<lparr>w_errno := Some err_out_of_bounds\<rparr>)
      else write_stats_row e realloc_ok type bitmap row idx js s)"

definition write_stats ::
  "endian \<Rightarrow> (nat \<Rightarrow> bool) \<Rightarrow> ADIOS_DATATYPES \<Rightarrow> adios_index_characteristic_struct_v1 \<Rightarrow> wst \<Rightarrow> wst" where
  "write_stats e realloc_ok original_var_type ch =
     (let rows = (case ch_stats ch of Some rows \<Rightarrow> rows | None \<Rightarrow> []) in
      fold (\<lambda>c. write_stats_row e realloc_ok original_var_type (ch_bitmap ch)
                 (if c < length rows then rows ! c else []) 0 [0..<32])
        [0..<unat (adios_get_stat_set_count original_var_type)])"

text \<open>The transform characteristic, whose count and length the caller adds to its own.\<close>

definition write_transform_item ::
  "endian \<Rightarrow> (nat \<Rightarrow> bool) \<Rightarrow> plugin_infos \<Rightarrow> adios_index_characteristic_transform_struct \<Rightarrow> wst \<Rightarrow> wst" where
  "write_transform_item e realloc_ok infos transform s =
     (let (count, len, s') = adios_transform_serialize_transform_characteristic e realloc_ok infos transform s
      in s'\<lparr>w_set_count := w_set_count s' + count, w_index_size := w_index_size s' + len,
            w_entry_size := w_entry_size s' + ucast len, w_set_len := w_set_len s' + ucast len\<rparr>)"

definition write_dims_items ::
  "endian \<Rightarrow> (nat \<Rightarrow> bool) \<Rightarrow> plugin_infos \<Rightarrow> ADIOS_DATATYPES \<Rightarrow> adios_index_characteristic_struct_v1
    \<Rightarrow> wst \<Rightarrow> wst" where
  "write_dims_items e realloc_ok infos original_var_type ch =
     (if d_count (ch_dims ch) \<noteq> 0 then
        pipe [set_item realloc_ok adios_characteristic_dimensions,
              bws realloc_ok [d_count (ch_dims ch)],
              bws realloc_ok (enc e 2 (dims_len (ch_dims ch))),
              bws realloc_ok (dims_data e (ch_dims ch)),
              write_transform_item e realloc_ok infos (ch_transform ch),
              set_item realloc_ok adios_characteristic_bitmap,
              bws realloc_ok (enc e 4 (ch_bitmap ch)),
              set_item realloc_ok adios_characteristic_stat,
              write_stats e realloc_ok original_var_type ch]
      else (\<lambda>s. s))"

definition value_size :: "ADIOS_DATATYPES \<Rightarrow> u8 list option \<Rightarrow> u64" where
  "value_size type v = adios_get_type_size type (map_option string_of_bytes v)"

text \<open>The value of a variable that is not a string, and the value with a length in front.\<close>

definition write_value_item ::
  "(nat \<Rightarrow> bool) \<Rightarrow> ADIOS_DATATYPES \<Rightarrow> u8 list \<Rightarrow> wst \<Rightarrow> wst" where
  "write_value_item realloc_ok type v =
     pipe [set_item realloc_ok adios_characteristic_value,
           bws realloc_ok (take (unat (value_size type (Some v))) v)]"

definition write_string_item ::
  "endian \<Rightarrow> (nat \<Rightarrow> bool) \<Rightarrow> u8 list option \<Rightarrow> wst \<Rightarrow> wst" where
  "write_string_item e realloc_ok v =
     (let size = value_size adios_string v in
      pipe [set_item realloc_ok adios_characteristic_value,
            bws realloc_ok (enc e 2 (ucast size :: u16)),
            bws realloc_ok (take (unat size) (case v of Some bs \<Rightarrow> bs | None \<Rightarrow> []))])"

text \<open>One round of the loop over the sets of characteristics of a variable.\<close>

definition write_var_set ::
  "endian \<Rightarrow> (nat \<Rightarrow> bool) \<Rightarrow> plugin_infos \<Rightarrow> ADIOS_DATATYPES \<Rightarrow> ADIOS_DATATYPES
    \<Rightarrow> adios_index_characteristic_struct_v1 \<Rightarrow> wst \<Rightarrow> wst" where
  "write_var_set e realloc_ok infos original_var_type type ch s =
     (let characteristic_set_start = w_off s;
          s1 = reserve (1 + 4) (add_sizes (1 + 4) (s\<lparr>w_set_len := 0, w_set_count := 0\<rparr>));
          s2 = write_common_items e realloc_ok ch s1;
          s' = (if type = adios_string then write_string_item e realloc_ok (ch_value ch) s2
                else if type = adios_unknown then s2\<lparr>w_errno := Some err_unspecified\<rparr>
                else
                  (case ch_value ch of Some v \<Rightarrow> write_value_item realloc_ok type v | None \<Rightarrow> (\<lambda>s. s))
                    (write_dims_items e realloc_ok infos original_var_type ch s2))
      in patch realloc_ok characteristic_set_start [[w_set_count s'], enc e 4 (w_set_len s')] s')"

section \<open>Parsing\<close>

text \<open>
  Data of a given size copied to fresh memory and swapped there: \<open>swap\<close> gets the byte order of
  the machine, the address and the memory.
\<close>

definition get_data ::
  "endian \<Rightarrow> nat \<Rightarrow> (endian \<Rightarrow> u64 \<Rightarrow> mem \<Rightarrow> mem) \<Rightarrow> u8 list parser" where
  "get_data e n swap = pbind (get_bytes n) (\<lambda>bs b.
     preturn (if bp_change_endianness b = adios_flag_yes
              then load 0 n (swap e 0 (store 0 bs (\<lambda>_. 0))) else bs) b)"

text \<open>
  \<open>adios_characteristic_value\<close> (and the old minimum and maximum): the data for the type. The
  values of the complex types are not swapped.
\<close>

definition parse_value ::
  "endian \<Rightarrow> (nat \<Rightarrow> bool) \<Rightarrow> ADIOS_DATATYPES \<Rightarrow> u8 list option parser" where
  "parse_value e malloc_ok type =
     (if type = adios_string then
        pbind (get_u16 e) (\<lambda>data_size.
          if \<not> malloc_ok (unat data_size + 1) then pfail err_no_memory
          else pbind (get_bytes (unat data_size)) (\<lambda>data. preturn (Some data)))
      else if type = adios_unknown then preturn None
      else
        let data_size = unat (ucast (adios_get_type_size type (Some '''')) :: u16) in
        if \<not> malloc_ok data_size then pfail err_no_memory
        else
          pbind (get_data e data_size (\<lambda>e p.
            if type = adios_complex \<or> type = adios_double_complex then id
            else if data_size = 2 then swap_16_ptr e p
            else if data_size = 4 then swap_32_ptr e p
            else if data_size = 8 then swap_64_ptr e p
            else if data_size = 16 then swap_128_ptr e p
            else id)) (\<lambda>data. preturn (Some data)))"

text \<open>A parser after which the offset is set by the code, not by what was read.\<close>

definition advance :: "u64 \<Rightarrow> 'a parser \<Rightarrow> 'a parser" where
  "advance n p b =
     (case p b of Inl err \<Rightarrow> Inl err | Inr (x, b') \<Rightarrow> Inr (x, b'\<lparr>bp_offset := bp_offset b + n\<rparr>))"

text \<open>
  A histogram. The number in the place of the minimum is read into \<open>max\<close> and overwritten by the
  next one; \<open>min\<close> keeps what \<open>malloc\<close> left there, \<open>junk\<close>, possibly swapped.
\<close>

definition parse_hist :: "endian \<Rightarrow> u64 \<Rightarrow> adios_hist_struct parser" where
  "parse_hist e junk =
     pbind (get_u32 e) (\<lambda>num_breaks.
     pbind (get_bytes 8) (\<lambda>_ b.
     pbind (get_u64 e) (\<lambda>max'.
     pbind (advance (ucast (4 * (num_breaks + 1))) (parse_times (unat (num_breaks + 1)) (get_u32 e))) (\<lambda>frequencies.
     pbind (advance (ucast (8 * num_breaks)) (parse_times (unat num_breaks) (get_u64 e))) (\<lambda>breaks.
     preturn \<lparr>h_min = (if bp_change_endianness b = adios_flag_yes then swap_64 junk else junk),
       h_max = max', h_num_breaks = num_breaks, h_frequencies = frequencies,
       h_breaks = breaks\<rparr>))) b))"

definition parse_stat :: "endian \<Rightarrow> u64 \<Rightarrow> ADIOS_DATATYPES \<Rightarrow> nat \<Rightarrow> stat_data parser" where
  "parse_stat e junk type k =
     (if k = 5 then pbind (parse_hist e junk) (\<lambda>h. preturn (Stat_Hist h))
      else
        let characteristic_size = unat (ucast (stat_size type k) :: u16) in
        pbind (get_data e characteristic_size (\<lambda>e p. swap_ptr e p (int characteristic_size * 8)))
          (\<lambda>data. preturn (Stat_Bytes data)))"

text \<open>The loop \<open>while (bitmap >> k)\<close> that fills one row of \<open>ADIOS_STAT_LENGTH\<close> statistics.\<close>

fun parse_stats_row ::
  "endian \<Rightarrow> u64 \<Rightarrow> ADIOS_DATATYPES \<Rightarrow> u32 \<Rightarrow> nat list \<Rightarrow> nat \<Rightarrow> stat_data option list
    \<Rightarrow> stat_data option list parser" where
  "parse_stats_row e junk type bitmap [] idx row = preturn row"
| "parse_stats_row e junk type bitmap (k # ks) idx row =
     (if drop_bit k bitmap = 0 then preturn row
      else if k \<ge> 7 then pfail err_out_of_bounds
      else if bit bitmap k then
        pbind (parse_stat e junk type k) (\<lambda>data.
          parse_stats_row e junk type bitmap ks (idx + 1) (row[k := None, idx := Some data]))
      else parse_stats_row e junk type bitmap ks idx (row[k := None]))"

definition parse_stats ::
  "endian \<Rightarrow> u64 \<Rightarrow> ADIOS_DATATYPES \<Rightarrow> u32 \<Rightarrow> stat_data option list list parser" where
  "parse_stats e junk type bitmap =
     parse_times (unat (adios_get_stat_set_count type))
       (parse_stats_row e junk type bitmap [0..<32] 0 (replicate 7 None))"

definition parse_dims :: "endian \<Rightarrow> adios_index_characteristic_dims_struct_v1 parser" where
  "parse_dims e =
     pbind get_u8 (\<lambda>count.
     pbind (get_u16 e) (\<lambda>dims_length.
     pbind (parse_times (unat dims_length div 8) (get_u64 e)) (\<lambda>dims.
     pbind (get_bytes (unat dims_length mod 8)) (\<lambda>_.
     preturn \<lparr>d_count = count, d_dims = dims\<rparr>))))"

text \<open>Setting the minimum or the maximum of an old file.\<close>

definition set_old_stat ::
  "nat \<Rightarrow> u8 list option \<Rightarrow> adios_index_characteristic_struct_v1 \<Rightarrow> adios_index_characteristic_struct_v1" where
  "set_old_stat k data ch =
     (let ch = (case ch_stats ch of
                  None \<Rightarrow> ch\<lparr>ch_stats := Some [[None, None]], ch_bitmap := 0\<rparr>
                | Some _ \<Rightarrow> ch)
      in ch\<lparr>ch_stats := map_option (\<lambda>rows. rows[0 := (rows ! 0)[k := map_option Stat_Bytes data]]) (ch_stats ch),
            ch_bitmap := ch_bitmap ch OR push_bit k 1\<rparr>)"

text \<open>\<open>adios_transform_get_var_original_type_index\<close>, given the first characteristic.\<close>

definition adios_transform_get_var_original_type_index ::
  "ADIOS_DATATYPES \<Rightarrow> adios_index_characteristic_struct_v1 \<Rightarrow> ADIOS_DATATYPES" where
  "adios_transform_get_var_original_type_index type ch0 =
     (if tr_transform_type (ch_transform ch0) \<noteq> 0 then tr_pre_transform_type (ch_transform ch0) else type)"

text \<open>
  One item of a set of characteristics of a variable. \<open>chs\<close> are the characteristics that were
  parsed before the current one; the first of all tells the original type.
\<close>

definition parse_var_item ::
  "endian \<Rightarrow> plugin_infos \<Rightarrow> u64 \<Rightarrow> (nat \<Rightarrow> bool) \<Rightarrow> ADIOS_DATATYPES
    \<Rightarrow> adios_index_characteristic_struct_v1 list \<Rightarrow> u8 \<Rightarrow> adios_index_characteristic_struct_v1
    \<Rightarrow> adios_index_characteristic_struct_v1 parser" where
  "parse_var_item e infos junk malloc_ok type chs flag ch =
     (if flag = adios_characteristic_value then
        pbind (parse_value e malloc_ok type) (\<lambda>data. preturn (ch\<lparr>ch_value := data\<rparr>))
      else if flag = adios_characteristic_min then
        pbind (parse_value e malloc_ok type) (\<lambda>data. preturn (set_old_stat 0 data ch))
      else if flag = adios_characteristic_max then
        pbind (parse_value e malloc_ok type) (\<lambda>data. preturn (set_old_stat 1 data ch))
      else if flag = adios_characteristic_stat then
        pbind (parse_stats e junk
            (adios_transform_get_var_original_type_index type (case chs of [] \<Rightarrow> ch | ch0 # _ \<Rightarrow> ch0)) (ch_bitmap ch))
          (\<lambda>rows. preturn (ch\<lparr>ch_stats := Some rows\<rparr>))
      else if flag = adios_characteristic_bitmap then
        pbind (get_u32 e) (\<lambda>x. preturn (ch\<lparr>ch_bitmap := x\<rparr>))
      else if flag = adios_characteristic_offset then
        pbind (get_u64 e) (\<lambda>x. preturn (ch\<lparr>ch_offset := x\<rparr>))
      else if flag = adios_characteristic_payload_offset then
        pbind (get_u64 e) (\<lambda>x. preturn (ch\<lparr>ch_payload_offset := x\<rparr>))
      else if flag = adios_characteristic_file_index then
        pbind (get_u32 e) (\<lambda>x. preturn (ch\<lparr>ch_file_index := x\<rparr>))
      else if flag = adios_characteristic_time_index then
        pbind (get_u32 e) (\<lambda>x. preturn (ch\<lparr>ch_time_index := x\<rparr>))
      else if flag = adios_characteristic_dimensions then
        pbind (parse_dims e) (\<lambda>d. preturn (ch\<lparr>ch_dims := d\<rparr>))
      else if flag = adios_characteristic_transform_type then
        pbind (adios_transform_deserialize_transform_characteristic e infos (ch_transform ch))
          (\<lambda>tr. preturn (ch\<lparr>ch_transform := tr\<rparr>))
      else preturn ch)"

text \<open>The loop over the items of one set.\<close>

fun parse_set ::
  "(u8 \<Rightarrow> adios_index_characteristic_struct_v1 \<Rightarrow> adios_index_characteristic_struct_v1 parser) \<Rightarrow> nat
    \<Rightarrow> adios_index_characteristic_struct_v1 \<Rightarrow> adios_index_characteristic_struct_v1 parser" where
  "parse_set item 0 ch = preturn ch"
| "parse_set item (Suc n) ch = pbind get_u8 (\<lambda>flag. pbind (item flag ch) (\<lambda>ch. parse_set item n ch))"

text \<open>The loop over the sets, for a way of parsing items that sees the characteristics before.\<close>

fun parse_sets ::
  "endian \<Rightarrow> (adios_index_characteristic_struct_v1 list \<Rightarrow> u8
      \<Rightarrow> adios_index_characteristic_struct_v1 \<Rightarrow> adios_index_characteristic_struct_v1 parser) \<Rightarrow> nat
    \<Rightarrow> adios_index_characteristic_struct_v1 list \<Rightarrow> adios_index_characteristic_struct_v1 list parser" where
  "parse_sets e item 0 chs = preturn chs"
| "parse_sets e item (Suc n) chs =
     pbind get_u8 (\<lambda>characteristic_set_count.
     pbind (get_u32 e) (\<lambda>characteristic_set_length.
     pbind (parse_set (item chs) (unat characteristic_set_count) zero_characteristic) (\<lambda>ch.
     parse_sets e item n (chs @ [ch]))))"

section \<open>What is written\<close>

lemma inset_item:
  assumes "\<And>n. ok n"
  shows "inset (set_item ok flag) [flag] 1"
proof -
  have "set_item ok flag = (\<lambda>s. bws ok [flag] (s\<lparr>w_set_count := w_set_count s + 1\<rparr>))"
    by (simp add: fun_eq_iff set_item_def)
  moreover have "inset (\<lambda>s. s\<lparr>w_set_count := w_set_count s + 1\<rparr>) [] 1"
    by (simp add: inset_def emits_def)
  ultimately show ?thesis using inset_comp [OF _ inset_bws [of ok, OF assms]] by fastforce
qed

lemma inset_pipe:
  "list_all2 (\<lambda>f (bs, c). inset f bs c) fs bcs \<Longrightarrow>
   inset (pipe fs) (concat (map fst bcs)) (sum_list (map snd bcs))"
  by (induction rule: list_all2_induct) (auto intro: inset_comp inset_id)

definition common_bytes :: "endian \<Rightarrow> adios_index_characteristic_struct_v1 \<Rightarrow> u8 list" where
  "common_bytes e ch =
     [adios_characteristic_offset] @ enc e 8 (ch_offset ch)
     @ [adios_characteristic_payload_offset] @ enc e 8 (ch_payload_offset ch)
     @ [adios_characteristic_file_index] @ enc e 4 (ch_file_index ch)
     @ [adios_characteristic_time_index] @ enc e 4 (ch_time_index ch)"

lemma inset_common:
  assumes "\<And>n. ok n"
  shows "inset (write_common_items e ok ch) (common_bytes e ch) 4"
proof -
  note w = inset_item [of ok, OF assms] inset_bws [of ok, OF assms]
  have "inset (write_common_items e ok ch) (common_bytes e ch) (1 + 1 + 1 + 1)"
    using inset_pipe [of "[set_item ok 3, bws ok (enc e 8 (ch_offset ch)), set_item ok 6,
        bws ok (enc e 8 (ch_payload_offset ch)), set_item ok 7, bws ok (enc e 4 (ch_file_index ch)),
        set_item ok 8, bws ok (enc e 4 (ch_time_index ch))]"
      "[([3], 1), (enc e 8 (ch_offset ch), 0), ([6], 1), (enc e 8 (ch_payload_offset ch), 0), ([7], 1),
        (enc e 4 (ch_file_index ch), 0), ([8], 1), (enc e 4 (ch_time_index ch), 0)]"] w
    by (simp add: write_common_items_def common_bytes_def del: pipe_Cons)
  moreover have "1 + 1 + 1 + 1 = (4 :: nat)" by simp
  ultimately show ?thesis by (simp only:)
qed

text \<open>Statistics that fit their places.\<close>

definition hist_ok :: "adios_hist_struct \<Rightarrow> bool" where
  "hist_ok h \<longleftrightarrow> unat (h_num_breaks h) < 2 ^ 28
     \<and> length (h_frequencies h) = unat (h_num_breaks h) + 1 \<and> length (h_breaks h) = unat (h_num_breaks h)"

fun stat_ok :: "ADIOS_DATATYPES \<Rightarrow> nat \<Rightarrow> stat_data \<Rightarrow> bool" where
  "stat_ok type k (Stat_Hist h) = (k = 5 \<and> hist_ok h)"
| "stat_ok type k (Stat_Bytes bs) = (k < 7 \<and> k \<noteq> 5 \<and> length bs = unat (stat_size type k))"

definition hist_bytes :: "endian \<Rightarrow> adios_hist_struct \<Rightarrow> u8 list" where
  "hist_bytes e h =
     enc e 4 (h_num_breaks h) @ enc e 8 (h_min h) @ enc e 8 (h_max h)
     @ concat (map (enc e 4) (h_frequencies h)) @ concat (map (enc e 8) (h_breaks h))"

fun stat_bytes :: "endian \<Rightarrow> stat_data \<Rightarrow> u8 list" where
  "stat_bytes e (Stat_Hist h) = hist_bytes e h"
| "stat_bytes e (Stat_Bytes bs) = bs"

text \<open>The positions of the statistics a bitmap announces.\<close>

definition stat_bits :: "u32 \<Rightarrow> nat \<Rightarrow> nat list" where
  "stat_bits bitmap k = filter (bit bitmap) [k..<32]"

lemma stat_bits_rec:
  "k < 32 \<Longrightarrow> stat_bits bitmap k = (if bit bitmap k then k # stat_bits bitmap (Suc k) else stat_bits bitmap (Suc k))"
  by (simp add: stat_bits_def upt_conv_Cons)

lemma stat_bits_stop: "drop_bit k bitmap = 0 \<Longrightarrow> stat_bits bitmap k = []"
proof -
  assume "drop_bit k bitmap = 0"
  then have *: "\<not> bit bitmap (k + i)" for i
    using bit_drop_bit_eq [of k bitmap] by (metis bit_0_eq bot_apply comp_apply bot_bool_def)
  have "\<not> bit bitmap x" if "x \<in> set [k..<32]" for x
    using * [of "x - k"] that by simp
  then show ?thesis unfolding stat_bits_def filter_empty_conv by blast
qed

lemma hist_counts:
  assumes "hist_ok h"
  shows "unat ((h_num_breaks h + 1) * 4) = 4 * length (h_frequencies h)"
    and "unat (h_num_breaks h * 8) = 8 * length (h_breaks h)"
    and "unat (h_num_breaks h + 1) = length (h_frequencies h)"
proof -
  let ?n = "h_num_breaks h"
  have n: "unat ?n < 2 ^ 28" using assms by (simp add: hist_ok_def)
  have s: "unat (?n + 1) = unat ?n + 1" using n by (subst unat_add_no_wrap) simp_all
  moreover have "unat ((?n + 1) * 4) = unat (?n + 1) * unat (4 :: u32)"
    using n s by (intro unat_mult_no_wrap) simp
  moreover have "unat (?n * 8) = unat ?n * unat (8 :: u32)"
    using n by (intro unat_mult_no_wrap) simp
  ultimately show "unat ((?n + 1) * 4) = 4 * length (h_frequencies h)"
    "unat (?n * 8) = 8 * length (h_breaks h)" "unat (?n + 1) = length (h_frequencies h)"
    using assms by (simp_all add: hist_ok_def)
qed

lemma inset_hist:
  assumes "\<And>n. ok n" and "hist_ok h"
  shows "inset (write_hist e ok h) (hist_bytes e h) 0"
proof -
  note w = inset_bws [of ok, OF assms(1)]
  let ?bs = "[enc e 4 (h_num_breaks h), enc e 8 (h_min h), enc e 8 (h_max h),
      concat (map (enc e 4) (h_frequencies h)), concat (map (enc e 8) (h_breaks h))]"
  have "write_hist e ok h = pipe (map (bws ok) ?bs)"
    unfolding write_hist_def hist_counts [OF assms(2)] by (simp del: pipe_Cons)
  moreover have "list_all2 (\<lambda>f (bs, c). inset f bs c) (map (bws ok) ?bs) (map (\<lambda>bs. (bs, 0)) ?bs)"
    by (simp add: w)
  from inset_pipe [OF this] have "inset (pipe (map (bws ok) ?bs)) (hist_bytes e h) 0"
    by (simp add: hist_bytes_def del: pipe_Cons)
  ultimately show ?thesis by simp
qed

lemma inset_stats_row:
  assumes "\<And>n. ok n" and "k \<le> 32" and "list_all2 (stat_ok type) (stat_bits bitmap k) ds"
    and "take (length ds) (drop idx row) = map Some ds"
  shows "inset (write_stats_row e ok type bitmap row idx [k..<32]) (concat (map (stat_bytes e) ds)) 0"
  using assms(2-)
proof (induction "32 - k" arbitrary: k ds idx)
  case 0
  then have "ds = []" by (simp add: stat_bits_def)
  moreover have "write_stats_row e ok type bitmap row idx [k..<32] = (\<lambda>s. s)"
    using 0 by (simp add: fun_eq_iff)
  ultimately show ?case using inset_id by simp
next
  case (Suc n)
  then have k: "k < 32" "n = 32 - Suc k" by simp_all
  have l: "[k..<32] = k # [Suc k..<32]" using k(1) by (rule upt_conv_Cons)
  show ?case
  proof (cases "drop_bit k bitmap = 0")
    case True
    then have "ds = []" using Suc.prems(2) by (simp add: stat_bits_stop)
    moreover have "write_stats_row e ok type bitmap row idx [k..<32] = (\<lambda>s. s)"
      using True by (simp add: l fun_eq_iff)
    ultimately show ?thesis using inset_id by simp
  next
    case False
    show ?thesis
    proof (cases "bit bitmap k")
      case True
      then obtain d ds' where ds: "ds = d # ds'" "stat_ok type k d"
          "list_all2 (stat_ok type) (stat_bits bitmap (Suc k)) ds'"
        using Suc.prems(2) k(1) by (auto simp: stat_bits_rec list_all2_Cons1)
      have idx: "idx < length row"
        using Suc.prems(3) ds(1) by (cases "idx < length row") simp_all
      have row: "row ! idx = Some d" "take (length ds') (drop (idx + 1) row) = map Some ds'"
        using Suc.prems(3) unfolding ds(1) Cons_nth_drop_Suc [OF idx, symmetric] by simp_all
      have rest: "inset (write_stats_row e ok type bitmap row (idx + 1) [Suc k..<32])
          (concat (map (stat_bytes e) ds')) 0"
        using Suc.hyps(1) [OF k(2), of ds' "idx + 1"] k(1) ds(3) row(2) by simp
      define W where "W = (case d of Stat_Hist h \<Rightarrow> write_hist e ok h
          | Stat_Bytes bs \<Rightarrow> bws ok (take (unat (stat_size type k)) bs))"
      have "inset W (stat_bytes e d) 0"
        using ds(2) inset_hist [of ok, OF assms(1)] inset_bws [of ok, OF assms(1)] by (cases d) (simp_all add: W_def)
      from inset_comp [OF this rest] have "inset (\<lambda>s. write_stats_row e ok type bitmap row (idx + 1) [Suc k..<32] (W s))
          (concat (map (stat_bytes e) ds)) 0" by (simp add: ds(1))
      moreover have "write_stats_row e ok type bitmap row idx [k..<32] =
          (\<lambda>s. write_stats_row e ok type bitmap row (idx + 1) [Suc k..<32] (W s))"
        using ds(2) idx row(1) True False by (cases d) (auto simp: l W_def fun_eq_iff)
      ultimately show ?thesis by simp
    next
      case F: False
      then have "write_stats_row e ok type bitmap row idx [k..<32] =
          write_stats_row e ok type bitmap row idx [Suc k..<32]"
        using False by (simp add: l fun_eq_iff)
      with Suc.hyps(1) [OF k(2), of ds idx] Suc.prems k(1) F show ?thesis
        by (simp add: stat_bits_rec)
    qed
  qed
qed

text \<open>A row of statistics: those the bitmap announces, in front of null pointers.\<close>

definition row_data :: "stat_data option list \<Rightarrow> stat_data list" where
  "row_data row = map the (takeWhile (\<lambda>d. d \<noteq> None) row)"

definition row_ok :: "ADIOS_DATATYPES \<Rightarrow> u32 \<Rightarrow> stat_data option list \<Rightarrow> bool" where
  "row_ok type bitmap row \<longleftrightarrow>
     row = map Some (row_data row) @ replicate (7 - length (row_data row)) None
     \<and> length (row_data row) \<le> 7 \<and> list_all2 (stat_ok type) (stat_bits bitmap 0) (row_data row)"

definition row_bytes :: "endian \<Rightarrow> stat_data option list \<Rightarrow> u8 list" where
  "row_bytes e row = concat (map (stat_bytes e) (row_data row))"

lemma inset_fold:
  "(\<And>x. x \<in> set xs \<Longrightarrow> inset (W x) (f x) (g x)) \<Longrightarrow>
   inset (fold W xs) (concat (map f xs)) (sum_list (map g xs))"
  by (induction xs) (auto intro: inset_comp [of "W x" "f x" "g x" for x] simp: inset_id id_def comp_def)

lemma inset_stats:
  assumes "\<And>n. ok n" and "ch_stats ch = Some rows"
    and "length rows = unat (adios_get_stat_set_count type)" and "list_all (row_ok type (ch_bitmap ch)) rows"
  shows "inset (write_stats e ok type ch) (concat (map (row_bytes e) rows)) 0"
proof -
  let ?W = "\<lambda>c. write_stats_row e ok type (ch_bitmap ch) (if c < length rows then rows ! c else []) 0 [0..<32]"
  have "inset (?W c) (row_bytes e (rows ! c)) 0" if "c \<in> set [0..<length rows]" for c
  proof -
    let ?row = "rows ! c"
    have row: "row_ok type (ch_bitmap ch) ?row" using assms(4) that by (simp add: list_all_length)
    then have eq: "?row = map Some (row_data ?row) @ replicate (7 - length (row_data ?row)) None"
      and all: "list_all2 (stat_ok type) (stat_bits (ch_bitmap ch) 0) (row_data ?row)"
      unfolding row_ok_def by blast+
    have "take (length (row_data ?row)) (drop 0 ?row) = map Some (row_data ?row)"
      by (subst eq) simp
    from inset_stats_row [of ok, OF assms(1) _ all this] that show ?thesis
      by (simp add: row_bytes_def)
  qed
  from inset_fold [of "[0..<length rows]" ?W, OF this]
  have "inset (fold ?W [0..<length rows]) (concat (map (\<lambda>c. row_bytes e (rows ! c)) [0..<length rows])) 0"
    by (simp add: sum_list_triv)
  moreover have "map (\<lambda>c. row_bytes e (rows ! c)) [0..<length rows] = map (row_bytes e) rows"
    by (rule nth_equalityI) simp_all
  ultimately show ?thesis by (simp add: write_stats_def assms(2) assms(3) [symmetric])
qed

definition transform_item_bytes ::
  "endian \<Rightarrow> plugin_infos \<Rightarrow> adios_index_characteristic_transform_struct \<Rightarrow> u8 list" where
  "transform_item_bytes e infos tr =
     (if tr = zero_transform then [] else adios_characteristic_transform_type # transform_bytes e infos tr)"

definition transform_items :: "adios_index_characteristic_transform_struct \<Rightarrow> nat" where
  "transform_items tr = (if tr = zero_transform then 0 else 1)"

lemma inset_transform_item:
  assumes "\<And>n. ok n" and "plugins_ok infos" and "tr = zero_transform \<or> transform_ok infos tr"
  shows "inset (write_transform_item e ok infos tr) (transform_item_bytes e infos tr) (transform_items tr)"
proof (cases "tr = zero_transform")
  case True
  then have "write_transform_item e ok infos tr = (\<lambda>s. s)"
    by (simp add: fun_eq_iff write_transform_item_def adios_transform_serialize_transform_characteristic_def
        adios_transform_serialize_transform_def zero_transform_def)
  with True show ?thesis using inset_id by (simp add: transform_item_bytes_def transform_items_def)
next
  case False
  with assms(3) have "transform_ok infos tr" by simp
  from serialize_emits [of ok, OF assms(1,2) this, of e] obtain W
    where W: "plain W (adios_characteristic_transform_type # transform_bytes e infos tr)"
      "adios_transform_serialize_transform_characteristic e ok infos tr =
        (\<lambda>s. (1, of_nat (Suc (length (transform_bytes e infos tr))), W s))" by blast
  let ?n = "Suc (length (transform_bytes e infos tr))"
  have "(ucast (of_nat ?n :: u64) :: u32) = of_nat ?n" by (rule ucast_of_nat_down) simp
  then show ?thesis
    using W(1) False
    by (simp add: inset_def plain_def write_transform_item_def W(2) transform_item_bytes_def transform_items_def
        emits_def)
qed

text \<open>
  A characteristic as the writer of a variable of a type keeps it: a scalar or a string has
  only a value, an array has dimensions, possibly a transform, and statistics.
\<close>

definition scalar_only :: "adios_index_characteristic_struct_v1 \<Rightarrow> bool" where
  "scalar_only ch \<longleftrightarrow> ch_dims ch = zero_dims \<and> ch_transform ch = zero_transform
     \<and> ch_bitmap ch = 0 \<and> ch_stats ch = None"

definition array_ok ::
  "plugin_infos \<Rightarrow> ADIOS_DATATYPES \<Rightarrow> adios_index_characteristic_struct_v1 \<Rightarrow> bool" where
  "array_ok infos original_type ch \<longleftrightarrow>
     d_count (ch_dims ch) \<noteq> 0 \<and> length (d_dims (ch_dims ch)) = 3 * unat (d_count (ch_dims ch))
     \<and> (ch_transform ch = zero_transform \<or> transform_ok infos (ch_transform ch))
     \<and> unat (ch_bitmap ch) < 2 ^ 7
     \<and> (case ch_stats ch of None \<Rightarrow> False
        | Some rows \<Rightarrow> length rows = unat (adios_get_stat_set_count original_type)
            \<and> list_all (row_ok original_type (ch_bitmap ch)) rows)"

definition value_ok :: "ADIOS_DATATYPES \<Rightarrow> u8 list \<Rightarrow> bool" where
  "value_ok type v \<longleftrightarrow>
     (if type = adios_string then 0 \<notin> set v \<and> length v < 2 ^ 16
      else length v = unat (adios_get_type_size type (Some '''')))"

definition var_ch_ok ::
  "plugin_infos \<Rightarrow> ADIOS_DATATYPES \<Rightarrow> ADIOS_DATATYPES \<Rightarrow> adios_index_characteristic_struct_v1 \<Rightarrow> bool" where
  "var_ch_ok infos original_type type ch \<longleftrightarrow>
     type \<noteq> adios_unknown \<and> ch_var_id ch = 0
     \<and> (scalar_only ch \<or> type \<noteq> adios_string \<and> array_ok infos original_type ch)
     \<and> (case ch_value ch of Some v \<Rightarrow> value_ok type v | None \<Rightarrow> type \<noteq> adios_string)"

definition array_bytes ::
  "endian \<Rightarrow> plugin_infos \<Rightarrow> adios_index_characteristic_struct_v1 \<Rightarrow> u8 list" where
  "array_bytes e infos ch =
     (if d_count (ch_dims ch) = 0 then []
      else [adios_characteristic_dimensions] @ [d_count (ch_dims ch)] @ enc e 2 (dims_len (ch_dims ch))
        @ concat (map (enc e 8) (d_dims (ch_dims ch)))
        @ transform_item_bytes e infos (ch_transform ch)
        @ [adios_characteristic_bitmap] @ enc e 4 (ch_bitmap ch)
        @ [adios_characteristic_stat]
        @ concat (map (row_bytes e) (case ch_stats ch of Some rows \<Rightarrow> rows | None \<Rightarrow> [])))"

definition array_items :: "adios_index_characteristic_struct_v1 \<Rightarrow> nat" where
  "array_items ch = (if d_count (ch_dims ch) = 0 then 0 else 3 + transform_items (ch_transform ch))"

definition value_bytes :: "endian \<Rightarrow> ADIOS_DATATYPES \<Rightarrow> u8 list option \<Rightarrow> u8 list" where
  "value_bytes e type v =
     (case v of None \<Rightarrow> []
      | Some bs \<Rightarrow> [adios_characteristic_value]
          @ (if type = adios_string then enc e 2 (of_nat (length bs) :: u16) else []) @ bs)"

definition value_items :: "u8 list option \<Rightarrow> nat" where
  "value_items v = (if v = None then 0 else 1)"

definition set_bytes :: "endian \<Rightarrow> u8 list \<Rightarrow> nat \<Rightarrow> u8 list" where
  "set_bytes e bs c = [of_nat c] @ enc e 4 (of_nat (length bs) :: u32) @ bs"

definition var_set_bytes ::
  "endian \<Rightarrow> plugin_infos \<Rightarrow> ADIOS_DATATYPES \<Rightarrow> adios_index_characteristic_struct_v1 \<Rightarrow> u8 list" where
  "var_set_bytes e infos type ch =
     set_bytes e (common_bytes e ch @ array_bytes e infos ch @ value_bytes e type (ch_value ch))
       (4 + (array_items ch + value_items (ch_value ch)))"

lemma inset_array:
  assumes "\<And>n. ok n" and "plugins_ok infos" and "scalar_only ch \<or> array_ok infos type ch"
  shows "inset (write_dims_items e ok infos type ch) (array_bytes e infos ch) (array_items ch)"
proof (cases "scalar_only ch")
  case True
  then show ?thesis
    using inset_id by (simp add: write_dims_items_def array_bytes_def array_items_def scalar_only_def zero_dims_def)
next
  case False
  with assms(3) have a: "array_ok infos type ch" by simp
  then obtain rows where rows: "ch_stats ch = Some rows" "length rows = unat (adios_get_stat_set_count type)"
      "list_all (row_ok type (ch_bitmap ch)) rows" by (auto simp: array_ok_def split: option.splits)
  have tr: "ch_transform ch = zero_transform \<or> transform_ok infos (ch_transform ch)"
    and d: "d_count (ch_dims ch) \<noteq> 0" "length (d_dims (ch_dims ch)) = 3 * unat (d_count (ch_dims ch))"
    using a by (auto simp: array_ok_def)
  note w = inset_item [of ok, OF assms(1)] inset_bws [of ok, OF assms(1)]
    inset_stats [of ok, OF assms(1) rows] inset_transform_item [of ok, OF assms(1,2) tr]
  let ?fs = "[set_item ok 4, bws ok [d_count (ch_dims ch)], bws ok (enc e 2 (dims_len (ch_dims ch))),
      bws ok (dims_data e (ch_dims ch)), write_transform_item e ok infos (ch_transform ch),
      set_item ok 9, bws ok (enc e 4 (ch_bitmap ch)), set_item ok 10, write_stats e ok type ch]"
    and ?bs = "[([4], 1), ([d_count (ch_dims ch)], 0), (enc e 2 (dims_len (ch_dims ch)), 0),
      (dims_data e (ch_dims ch), 0),
      (transform_item_bytes e infos (ch_transform ch), transform_items (ch_transform ch)),
      ([9], 1), (enc e 4 (ch_bitmap ch), 0), ([10], 1), (concat (map (row_bytes e) rows), 0)]"
  have "list_all2 (\<lambda>f (bs, c). inset f bs c) ?fs ?bs" by (simp add: w del: One_nat_def)
  note inset_pipe [OF this]
  moreover have "sum_list (map snd ?bs) = array_items ch" using d(1) by (simp add: array_items_def)
  moreover have "concat (map fst ?bs) = array_bytes e infos ch"
    using d rows(1) by (simp add: array_bytes_def dims_data_full)
  moreover have "write_dims_items e ok infos type ch = pipe ?fs" using d(1) by (simp add: write_dims_items_def del: pipe_Cons)
  ultimately show ?thesis by simp
qed

lemma string_value_size: "0 \<notin> set v \<Longrightarrow> length (string_of_bytes v) = length v"
  by (induction v) (simp_all add: string_of_bytes_def)

lemma inset_value:
  assumes "\<And>n. ok n" and "type \<noteq> adios_unknown" and "type \<noteq> adios_string" and "value_ok type v"
  shows "inset (write_value_item ok type v) (value_bytes e type (Some v)) 1"
proof -
  have "value_size type (Some v) = adios_get_type_size type (Some '''')"
    using assms(2,3) by (cases type) (simp_all add: value_size_def)
  then have "take (unat (value_size type (Some v))) v = v" using assms(3,4) by (simp add: value_ok_def)
  then show ?thesis
    using inset_pipe [of "[set_item ok 0, bws ok v]" "[([0], 1), (v, 0)]"] assms(3)
      inset_item [of ok 0, OF assms(1)] inset_bws [of ok v, OF assms(1)]
    by (simp add: write_value_item_def value_bytes_def del: pipe_Cons)
qed

lemma inset_string:
  assumes "\<And>n. ok n" and "value_ok adios_string v"
  shows "inset (write_string_item e ok (Some v)) (value_bytes e adios_string (Some v)) 1"
proof -
  have v: "length (string_of_bytes v) = length v" "length v < 2 ^ 16"
    using assms(2) by (auto simp: value_ok_def string_value_size)
  then have "unat (value_size adios_string (Some v)) = length v" by (simp add: value_size_def)
  moreover have "(ucast (of_nat (length v) :: u64) :: u16) = of_nat (length v)"
    by (rule ucast_of_nat_down) simp
  ultimately show ?thesis
    using inset_pipe [of "[set_item ok 0, bws ok (enc e 2 (of_nat (length v) :: u16)), bws ok v]"
        "[([0], 1), (enc e 2 (of_nat (length v) :: u16), 0), (v, 0)]"] v(1)
      inset_item [of ok 0, OF assms(1)] inset_bws [of ok, OF assms(1)]
    by (simp add: write_string_item_def value_bytes_def value_size_def Let_def del: pipe_Cons)
qed

lemma inentry_var_set:
  assumes "\<And>n. ok n" and "plugins_ok infos" and "var_ch_ok infos original_type type ch"
  shows "inentry (write_var_set e ok infos original_type type ch) (var_set_bytes e infos type ch)"
proof -
  define W where "W = (if type = adios_string then write_string_item e ok (ch_value ch)
      else (\<lambda>s. (case ch_value ch of Some v \<Rightarrow> write_value_item ok type v | None \<Rightarrow> (\<lambda>s. s))
        (write_dims_items e ok infos original_type ch s)))"
  have ty: "type \<noteq> adios_unknown" using assms(3) by (simp add: var_ch_ok_def)
  have "inset W (array_bytes e infos ch @ value_bytes e type (ch_value ch))
      (array_items ch + value_items (ch_value ch))"
  proof (cases "type = adios_string")
    case True
    with assms(3) obtain v where v: "scalar_only ch" "ch_value ch = Some v" "value_ok adios_string v"
      by (auto simp: var_ch_ok_def split: option.splits)
    then have "array_bytes e infos ch = []" "array_items ch = 0"
      by (simp_all add: scalar_only_def array_bytes_def array_items_def zero_dims_def)
    with True v(2) inset_string [of ok, OF assms(1) v(3), of e] show ?thesis
      by (simp add: W_def value_items_def)
  next
    case False
    with assms(3) have a: "scalar_only ch \<or> array_ok infos original_type ch" by (auto simp: var_ch_ok_def)
    have "inset (case ch_value ch of Some v \<Rightarrow> write_value_item ok type v | None \<Rightarrow> (\<lambda>s. s))
        (value_bytes e type (ch_value ch)) (value_items (ch_value ch))"
      using inset_value [of ok, OF assms(1) ty False, where e = e] assms(3) inset_id
      by (auto simp: var_ch_ok_def value_items_def value_bytes_def split: option.splits)
    from inset_comp [OF inset_array [of ok, OF assms(1,2) a] this] False show ?thesis
      by (simp add: W_def)
  qed
  from inentry_set [of ok, OF assms(1) inset_comp [OF inset_common [of ok, OF assms(1)] this], where e = e]
  have "inentry (\<lambda>s. let s' = W (write_common_items e ok ch (reserve 5 (add_sizes 5 (s\<lparr>w_set_len := 0, w_set_count := 0\<rparr>))))
      in patch ok (w_off s) [[w_set_count s'], enc e 4 (w_set_len s')] s') (var_set_bytes e infos type ch)"
    by (simp only: var_set_bytes_def set_bytes_def)
  moreover have "write_var_set e ok infos original_type type ch =
      (\<lambda>s. let s' = W (write_common_items e ok ch (reserve 5 (add_sizes 5 (s\<lparr>w_set_len := 0, w_set_count := 0\<rparr>))))
      in patch ok (w_off s) [[w_set_count s'], enc e 4 (w_set_len s')] s')"
    using ty by (simp add: fun_eq_iff write_var_set_def W_def Let_def del: patch.simps)
  ultimately show ?thesis by simp
qed

section \<open>What is read back\<close>

lemma parses_cong:
  "(\<And>b. bp_change_endianness b = fl \<Longrightarrow> p b = q b) \<Longrightarrow> parses fl q bs x \<Longrightarrow> parses fl p bs x"
  unfolding parses_def by metis

lemma parses_each:
  assumes "\<And>x. x \<in> set xs \<Longrightarrow> parses fl p (f x) (g x)" and "length xs = n"
  shows "parses fl (parse_times n p) (concat (map f xs)) (map g xs)"
proof -
  have "list_all2 (parses fl p) (map f xs) (map g xs)"
    using assms(1) by (simp add: list_all2_map1 list_all2_map2 list_all2_same)
  from parses_times [OF this] assms(2) show ?thesis by simp
qed

lemma parses_advance:
  "parses fl p bs x \<Longrightarrow> n = of_nat (length bs) \<Longrightarrow> parses fl (advance n p) bs x"
  unfolding parses_def advance_def by (auto split: sum.splits)

definition conv :: "endian \<Rightarrow> endian \<Rightarrow> u8 list \<Rightarrow> u8 list" where
  "conv e1 e2 bs = (if e1 = e2 then bs else rev bs)"

lemma parses_data:
  assumes "length bs = n" and "n \<le> 16"
    and "\<And>m. load 0 n (swap e2 0 m) = sw (load 0 n m)"
  shows "parses (flag_for e1 e2) (get_data e2 n swap) bs (if e1 = e2 then bs else sw bs)"
proof -
  have "load 0 n (store 0 bs (\<lambda>_. 0)) = bs" using load_store_same [of bs 0] assms(1,2) by simp
  then show ?thesis
    unfolding get_data_def
    by (intro parses_loaded) (simp_all add: assms flag_for_def)
qed

lemma load_swap_ptr:
  "n \<in> {0, 1, 2, 4, 8, 16} \<Longrightarrow> load 0 n (swap_ptr e 0 (int n * 8) m) = rev (load 0 n m)"
  using load_store_same [of "rev (load 0 n m)" 0 m]
  by (auto simp: swap_ptr_def swap_ptr_rev load_def)

definition value_as_read :: "endian \<Rightarrow> endian \<Rightarrow> ADIOS_DATATYPES \<Rightarrow> u8 list \<Rightarrow> u8 list" where
  "value_as_read e1 e2 type v =
     (if type \<in> {adios_string, adios_complex, adios_double_complex} then v else conv e1 e2 v)"

lemma known_type_size:
  "type \<noteq> adios_unknown \<Longrightarrow> type \<noteq> adios_string \<Longrightarrow> adios_get_type_size type (Some '''') \<in> {1, 2, 4, 8, 16}"
  by (cases type) simp_all

lemma parses_value:
  assumes "\<And>n. malloc_ok n" and "type \<noteq> adios_unknown" and "value_ok type v"
  shows "parses (flag_for e1 e2) (parse_value e2 malloc_ok type)
    ((if type = adios_string then enc e1 2 (of_nat (length v) :: u16) else []) @ v)
    (Some (value_as_read e1 e2 type v))"
proof (cases "type = adios_string")
  case True
  then have "unat (of_nat (length v) :: u16) = length v" using assms(3) by (simp add: value_ok_def)
  with True show ?thesis
    unfolding parse_value_def
    by (simp add: assms(1) value_as_read_def)
      (intro parses_bind [OF parses_u16] parses_last parses_bytes, simp)
next
  case False
  let ?n = "unat (ucast (adios_get_type_size type (Some '''')) :: u16)"
  have n: "?n = length v" using known_type_size [OF assms(2) False] assms(3) False by (auto simp: value_ok_def)
  have len: "length v \<in> {1, 2, 4, 8, 16}"
    using known_type_size [OF assms(2) False] assms(3) False by (auto simp: value_ok_def)
  define swap where "swap = (\<lambda>e p. if type = adios_complex \<or> type = adios_double_complex then id
            else if ?n = 2 then swap_16_ptr e p else if ?n = 4 then swap_32_ptr e p
            else if ?n = 8 then swap_64_ptr e p else if ?n = 16 then swap_128_ptr e p else id)"
  have "load 0 ?n (swap e2 0 m) =
      (if type = adios_complex \<or> type = adios_double_complex then load 0 ?n m else rev (load 0 ?n m))" for m
    using len load_swap_ptr [of ?n e2 m] unfolding n swap_def by (auto simp: swap_ptr_def)
  from parses_data [where swap = swap, OF n [symmetric] _ this, of e1] len
  have "parses (flag_for e1 e2) (get_data e2 ?n swap) v (if e1 = e2 then v
      else if type = adios_complex \<or> type = adios_double_complex then v else rev v)"
    unfolding n by auto
  moreover have "(if e1 = e2 then v else if type = adios_complex \<or> type = adios_double_complex then v else rev v)
      = value_as_read e1 e2 type v"
    using False by (simp add: value_as_read_def conv_def)
  ultimately have "parses (flag_for e1 e2) (get_data e2 ?n swap) v (value_as_read e1 e2 type v)" by simp
  from parses_last [OF this, of Some] False assms(2) show ?thesis
    by (simp add: parse_value_def assms(1) swap_def Let_def)
qed

fun stat_as_read :: "u64 \<Rightarrow> endian \<Rightarrow> endian \<Rightarrow> stat_data \<Rightarrow> stat_data" where
  "stat_as_read junk e1 e2 (Stat_Hist h) =
     Stat_Hist (h\<lparr>h_min := (if e1 = e2 then junk else swap_64 junk)\<rparr>)"
| "stat_as_read junk e1 e2 (Stat_Bytes bs) = Stat_Bytes (conv e1 e2 bs)"

lemma parses_hist_arrays:
  assumes "hist_ok h"
  shows "parses (flag_for e1 e2) (advance (ucast (4 * (h_num_breaks h + 1))) (parse_times (unat (h_num_breaks h + 1)) (get_u32 e2)))
      (concat (map (enc e1 4) (h_frequencies h))) (h_frequencies h)"
    and "parses (flag_for e1 e2) (advance (ucast (8 * h_num_breaks h)) (parse_times (unat (h_num_breaks h)) (get_u64 e2)))
      (concat (map (enc e1 8) (h_breaks h))) (h_breaks h)"
proof -
  let ?fl = "flag_for e1 e2" and ?n = "h_num_breaks h"
  have n: "unat ?n = length (h_breaks h)" using assms by (simp add: hist_ok_def)
  show "parses ?fl (advance (ucast (4 * (?n + 1))) (parse_times (unat (?n + 1)) (get_u32 e2)))
      (concat (map (enc e1 4) (h_frequencies h))) (h_frequencies h)"
    using parses_each [of "h_frequencies h" ?fl "get_u32 e2" "enc e1 4" id] parses_u32
      hist_counts [OF assms] ucast_eq_of_nat [OF hist_counts(1) [OF assms]]
    by (intro parses_advance) (simp_all add: mult.commute)
  show "parses ?fl (advance (ucast (8 * ?n)) (parse_times (unat ?n) (get_u64 e2)))
      (concat (map (enc e1 8) (h_breaks h))) (h_breaks h)"
    using parses_each [of "h_breaks h" ?fl "get_u64 e2" "enc e1 8" id] parses_u64 n
      ucast_eq_of_nat [OF hist_counts(2) [OF assms]]
    by (intro parses_advance) (simp_all add: mult.commute)
qed

lemma parses_hist:
  assumes "hist_ok h"
  shows "parses (flag_for e1 e2) (parse_hist e2 junk) (hist_bytes e1 h)
    (h\<lparr>h_min := (if e1 = e2 then junk else swap_64 junk)\<rparr>)"
proof -
  let ?fl = "flag_for e1 e2" and ?n = "h_num_breaks h"
  note fr = parses_hist_arrays(1) [OF assms] and br = parses_hist_arrays(2) [OF assms]
  show ?thesis
    unfolding parse_hist_def hist_bytes_def
  proof (intro parses_bind [OF parses_u32] parses_bind_bytes, simp)
    let ?h = "h\<lparr>h_min := (if e1 = e2 then junk else swap_64 junk)\<rparr>"
    have h: "\<lparr>h_min = x, h_max = h_max h, h_num_breaks = ?n, h_frequencies = h_frequencies h,
        h_breaks = h_breaks h\<rparr> = h\<lparr>h_min := x\<rparr>" for x by (cases h) simp
    have flag: "(if ?fl = adios_flag_yes then swap_64 junk else junk)
        = (if e1 = e2 then junk else swap_64 junk)" by (simp add: flag_for_def)
    have q: "parses ?fl (pbind (get_u64 e2) (\<lambda>max'.
        pbind (advance (ucast (4 * (?n + 1))) (parse_times (unat (?n + 1)) (get_u32 e2))) (\<lambda>frequencies.
        pbind (advance (ucast (8 * ?n)) (parse_times (unat ?n) (get_u64 e2))) (\<lambda>breaks.
        preturn \<lparr>h_min = (if e1 = e2 then junk else swap_64 junk), h_max = max', h_num_breaks = ?n,
          h_frequencies = frequencies, h_breaks = breaks\<rparr>))))
      (enc e1 8 (h_max h) @ concat (map (enc e1 4) (h_frequencies h)) @ concat (map (enc e1 8) (h_breaks h)) @ []) ?h"
      by (intro parses_bind [OF parses_u64] parses_bind [OF fr] parses_bind [OF br])
        (simp only: h parses_return)
    show "parses ?fl (\<lambda>b. pbind (get_u64 e2) (\<lambda>max'.
        pbind (advance (ucast (4 * (?n + 1))) (parse_times (unat (?n + 1)) (get_u32 e2))) (\<lambda>frequencies.
        pbind (advance (ucast (8 * ?n)) (parse_times (unat ?n) (get_u64 e2))) (\<lambda>breaks.
        preturn \<lparr>h_min = (if bp_change_endianness b = adios_flag_yes then swap_64 junk else junk),
          h_max = max', h_num_breaks = ?n, h_frequencies = frequencies, h_breaks = breaks\<rparr>))) b)
      (enc e1 8 (h_max h) @ concat (map (enc e1 4) (h_frequencies h)) @ concat (map (enc e1 8) (h_breaks h))) ?h"
      by (rule parses_cong [OF _ q [unfolded append_Nil2]]) (simp only: flag)
  qed
qed

lemma stat_size_cases:
  assumes "type \<noteq> adios_unknown" and "k < 7" and "k \<noteq> 5"
  shows "stat_size type k \<in> {0, 1, 2, 4, 8, 16}"
proof -
  have ty: "adios_get_type_size type (Some '''') \<in> {0, 1, 2, 4, 8, 16}"
    using known_type_size [OF assms(1)] by (cases "type = adios_string") auto
  have "k = 0 \<or> k = 1 \<or> k = 2 \<or> k = 3 \<or> k = 4 \<or> k = 6" using assms(2,3) by linarith
  then show ?thesis
    using ty by (elim disjE) (simp_all add: stat_size_def)
qed

lemma parses_stat:
  assumes "type \<noteq> adios_unknown" and "stat_ok type k d"
  shows "parses (flag_for e1 e2) (parse_stat e2 junk type k) (stat_bytes e1 d) (stat_as_read junk e1 e2 d)"
proof (cases d)
  case (Stat_Hist h)
  then have h: "k = 5" "hist_ok h" using assms(2) by simp_all
  from parses_last [OF parses_hist [OF h(2)], of e1 e2 junk Stat_Hist] h(1) Stat_Hist show ?thesis
    by (simp add: parse_stat_def)
next
  case (Stat_Bytes bs)
  with assms(2) have k: "k < 7" "k \<noteq> 5" "length bs = unat (stat_size type k)" by simp_all
  from stat_size_cases [OF assms(1) k(1,2)] k(3)
  have n: "unat (ucast (stat_size type k) :: u16) = length bs" "length bs \<in> {0, 1, 2, 4, 8, 16}" by auto
  have "parses (flag_for e1 e2) (get_data e2 (length bs) (\<lambda>e p. swap_ptr e p (int (length bs) * 8))) bs
      (if e1 = e2 then bs else rev bs)"
    by (rule parses_data) (use n(2) load_swap_ptr in auto)
  from parses_last [OF this, of Stat_Bytes] k(2) Stat_Bytes n(1) show ?thesis
    by (simp add: parse_stat_def Let_def conv_def)
qed

definition row_of :: "stat_data list \<Rightarrow> stat_data option list" where
  "row_of ds = map Some ds @ replicate (7 - length ds) None"

lemma row_of_None: "length ds \<le> k \<Longrightarrow> (row_of ds)[k := None] = row_of ds"
proof -
  have "(replicate n None)[i := None] = replicate n (None :: stat_data option)" for n i
    by (cases "i < n") (simp_all add: list_update_same_conv list_update_beyond)
  then show "length ds \<le> k \<Longrightarrow> (row_of ds)[k := None] = row_of ds"
    by (simp add: row_of_def list_update_append)
qed

lemma row_of_Some: "length ds < 7 \<Longrightarrow> (row_of ds)[length ds := Some d] = row_of (ds @ [d])"
  by (simp add: row_of_def list_update_append) (cases "7 - length ds"; simp)

lemma parses_stats_row:
  assumes "type \<noteq> adios_unknown" and "unat bitmap < 2 ^ 7" and "k \<le> 32"
    and "list_all2 (stat_ok type) (stat_bits bitmap k) ds" and "length done' \<le> k"
  shows "parses (flag_for e1 e2) (parse_stats_row e2 junk type bitmap [k..<32] (length done') (row_of done'))
    (concat (map (stat_bytes e1) ds)) (row_of (done' @ map (stat_as_read junk e1 e2) ds))"
  using assms(3-)
proof (induction "32 - k" arbitrary: k ds done')
  case 0
  then show ?case by (simp add: stat_bits_def parses_return)
next
  case (Suc n)
  then have k: "k < 32" "n = 32 - Suc k" by simp_all
  have l: "[k..<32] = k # [Suc k..<32]" using k(1) by (rule upt_conv_Cons)
  show ?case
  proof (cases "drop_bit k bitmap = 0")
    case True
    then show ?thesis using Suc.prems(2) by (simp add: l stat_bits_stop parses_return)
  next
    case False
    have k7: "k < 7"
    proof (rule ccontr)
      assume "\<not> k < 7"
      then have "\<not> bit bitmap (k + i)" for i using not_bit_unat_less [OF assms(2), of "k + i"] by simp
      then have "drop_bit k bitmap = 0" by (intro bit_word_eqI) (simp add: bit_drop_bit_eq)
      with False show False by simp
    qed
    show ?thesis
    proof (cases "bit bitmap k")
      case True
      then obtain d ds' where ds: "ds = d # ds'" "stat_ok type k d"
          "list_all2 (stat_ok type) (stat_bits bitmap (Suc k)) ds'"
        using Suc.prems(2) k(1) by (auto simp: stat_bits_rec list_all2_Cons1)
      have "parses (flag_for e1 e2) (parse_stats_row e2 junk type bitmap [Suc k..<32]
          (length (done' @ [stat_as_read junk e1 e2 d])) (row_of (done' @ [stat_as_read junk e1 e2 d])))
          (concat (map (stat_bytes e1) ds'))
          (row_of ((done' @ [stat_as_read junk e1 e2 d]) @ map (stat_as_read junk e1 e2) ds'))"
        using Suc.prems(3) k(1) by (intro Suc.hyps(1) [OF k(2)] ds(3)) simp_all
      from parses_bind [OF parses_stat [OF assms(1) ds(2), of e1 e2 junk], of
          "\<lambda>data. parse_stats_row e2 junk type bitmap [Suc k..<32] (length done' + 1)
              ((row_of done')[k := None, length done' := Some data])"]
        this True False k7 Suc.prems(3)
      show ?thesis by (simp add: l ds(1) row_of_None row_of_Some)
    next
      case F: False
      from Suc.hyps(1) [OF k(2), of ds done'] Suc.prems k(1) F False k7 show ?thesis
        by (simp add: l stat_bits_rec row_of_None)
    qed
  qed
qed

definition row_as_read :: "u64 \<Rightarrow> endian \<Rightarrow> endian \<Rightarrow> stat_data option list \<Rightarrow> stat_data option list" where
  "row_as_read junk e1 e2 row = map (map_option (stat_as_read junk e1 e2)) row"

lemma parses_stats:
  assumes "type \<noteq> adios_unknown" and "unat bitmap < 2 ^ 7"
    and "length rows = unat (adios_get_stat_set_count type)" and "list_all (row_ok type bitmap) rows"
  shows "parses (flag_for e1 e2) (parse_stats e2 junk type bitmap) (concat (map (row_bytes e1) rows))
    (map (row_as_read junk e1 e2) rows)"
  unfolding parse_stats_def
proof (rule parses_each [OF _ assms(3)])
  fix row assume "row \<in> set rows"
  then have row: "row_ok type bitmap row" using assms(4) by (simp add: list_all_iff)
  then have eq: "row = row_of (row_data row)" unfolding row_ok_def row_of_def by blast
  have all: "list_all2 (stat_ok type) (stat_bits bitmap 0) (row_data row)" using row unfolding row_ok_def by blast
  have "row_of (map f ds) = map (map_option f) (row_of ds)" for f ds by (simp add: row_of_def comp_def)
  then have "row_as_read junk e1 e2 row = row_of (map (stat_as_read junk e1 e2) (row_data row))"
    unfolding row_as_read_def by (subst eq) simp
  with parses_stats_row [OF assms(1,2) _ all, of "[]" e1 e2 junk]
  show "parses (flag_for e1 e2) (parse_stats_row e2 junk type bitmap [0..<32] 0 (replicate 7 None))
      (row_bytes e1 row) (row_as_read junk e1 e2 row)"
    by (simp add: row_bytes_def row_of_def)
qed

lemma parses_dims:
  assumes "length (d_dims d) = 3 * unat (d_count d)"
  shows "parses (flag_for e1 e2) (parse_dims e2)
    ([d_count d] @ enc e1 2 (dims_len d) @ concat (map (enc e1 8) (d_dims d))) d"
proof -
  have n: "length (d_dims d) = unat (dims_len d) div 8" "unat (dims_len d) mod 8 = 0"
    using assms by (simp_all add: unat_dims_len mult.commute [of 24])
  have d: "\<lparr>d_count = d_count d, d_dims = d_dims d\<rparr> = d" by simp
  have "parses (flag_for e1 e2) (parse_dims e2)
      ([d_count d] @ enc e1 2 (dims_len d) @ concat (map (enc e1 8) (d_dims d)) @ [] @ []) d"
    unfolding parse_dims_def
    by (intro parses_bind [OF parses_u8] parses_bind [OF parses_u16] parses_bind [OF parses_u64s [OF n(1)]]
        parses_bind_bytes) (simp_all add: n(2) parses_return del: adios_index_characteristic_dims_struct_v1.surjective
        add: d)
  then show ?thesis by simp
qed

text \<open>Parsing a set in two parts, and one item.\<close>

lemma pbind_assoc: "pbind (pbind p f) g = pbind p (\<lambda>x. pbind (f x) g)"
  by (rule ext) (simp add: pbind_def split: sum.splits prod.splits)

lemma pbind_return [simp]: "pbind (preturn x) f = f x"
  by (rule ext) (simp add: pbind_def preturn_def)

lemma parse_set_add: "parse_set item (m + n) ch = pbind (parse_set item m ch) (parse_set item n)"
proof (induction m arbitrary: ch)
  case (Suc m)
  then have "parse_set item (m + n) = (\<lambda>ch. pbind (parse_set item m ch) (parse_set item n))" by (rule ext)
  then show ?case by (simp add: pbind_assoc)
qed simp

lemma parses_set_add:
  "parses fl (parse_set item m ch) as ch' \<Longrightarrow> parses fl (parse_set item n ch') bs ch'' \<Longrightarrow>
   parses fl (parse_set item (m + n) ch) (as @ bs) ch''"
  unfolding parse_set_add by (rule parses_bind)

lemma parses_set_one:
  assumes "parses fl (item flag ch) bs ch'"
  shows "parses fl (parse_set item 1 ch) (flag # bs) ch'"
proof -
  have "parses fl (parse_set item 1 ch) ([flag] @ bs @ []) ch'"
    unfolding One_nat_def parse_set.simps
    by (intro parses_bind [OF parses_u8] parses_bind [OF assms] parses_return)
  then show ?thesis by simp
qed

text \<open>The four common items, for any way of parsing items that treats them as the code does.\<close>

definition common_parser ::
  "endian \<Rightarrow> (u8 \<Rightarrow> adios_index_characteristic_struct_v1 \<Rightarrow> adios_index_characteristic_struct_v1 parser) \<Rightarrow> bool" where
  "common_parser e item \<longleftrightarrow> (\<forall>ch.
     item adios_characteristic_offset ch = pbind (get_u64 e) (\<lambda>x. preturn (ch\<lparr>ch_offset := x\<rparr>))
     \<and> item adios_characteristic_payload_offset ch = pbind (get_u64 e) (\<lambda>x. preturn (ch\<lparr>ch_payload_offset := x\<rparr>))
     \<and> item adios_characteristic_file_index ch = pbind (get_u32 e) (\<lambda>x. preturn (ch\<lparr>ch_file_index := x\<rparr>))
     \<and> item adios_characteristic_time_index ch = pbind (get_u32 e) (\<lambda>x. preturn (ch\<lparr>ch_time_index := x\<rparr>)))"

lemma parses_common:
  assumes "common_parser e2 item"
  shows "parses (flag_for e1 e2) (parse_set item 4 zero_characteristic) (common_bytes e1 ch)
    (zero_characteristic\<lparr>ch_offset := ch_offset ch, ch_payload_offset := ch_payload_offset ch,
       ch_file_index := ch_file_index ch, ch_time_index := ch_time_index ch\<rparr>)"
proof -
  note one = parses_set_one [of "flag_for e1 e2" item]
  have "parses (flag_for e1 e2) (parse_set item (1 + (1 + (1 + 1))) zero_characteristic)
      ((3 # enc e1 8 (ch_offset ch)) @ (6 # enc e1 8 (ch_payload_offset ch))
        @ (7 # enc e1 4 (ch_file_index ch)) @ (8 # enc e1 4 (ch_time_index ch)))
    (zero_characteristic\<lparr>ch_offset := ch_offset ch, ch_payload_offset := ch_payload_offset ch,
       ch_file_index := ch_file_index ch, ch_time_index := ch_time_index ch\<rparr>)"
    using assms unfolding common_parser_def
    by (intro parses_set_add one) (auto intro: parses_last parses_u64 parses_u32)
  moreover have "1 + (1 + (1 + 1)) = (4 :: nat)" by simp
  ultimately show ?thesis by (simp only: common_bytes_def append.simps)
qed

lemma var_item_simps:
  "parse_var_item e infos junk mok type chs adios_characteristic_value ch =
     pbind (parse_value e mok type) (\<lambda>data. preturn (ch\<lparr>ch_value := data\<rparr>))"
  "parse_var_item e infos junk mok type chs adios_characteristic_stat ch =
     pbind (parse_stats e junk (adios_transform_get_var_original_type_index type
         (case chs of [] \<Rightarrow> ch | ch0 # _ \<Rightarrow> ch0)) (ch_bitmap ch)) (\<lambda>rows. preturn (ch\<lparr>ch_stats := Some rows\<rparr>))"
  "parse_var_item e infos junk mok type chs adios_characteristic_bitmap ch =
     pbind (get_u32 e) (\<lambda>x. preturn (ch\<lparr>ch_bitmap := x\<rparr>))"
  "parse_var_item e infos junk mok type chs adios_characteristic_dimensions ch =
     pbind (parse_dims e) (\<lambda>d. preturn (ch\<lparr>ch_dims := d\<rparr>))"
  "parse_var_item e infos junk mok type chs adios_characteristic_transform_type ch =
     pbind (adios_transform_deserialize_transform_characteristic e infos (ch_transform ch))
       (\<lambda>tr. preturn (ch\<lparr>ch_transform := tr\<rparr>))"
  by (simp_all add: parse_var_item_def adios_characteristic_transform_type_def)

lemma var_item_common: "common_parser e (parse_var_item e infos junk mok type chs)"
  by (simp add: common_parser_def parse_var_item_def)

text \<open>
  What is read back: values and statistics in the byte order of the reader, but for the values
  of complex types and the minimum of a histogram.
\<close>

definition ch_as_read ::
  "u64 \<Rightarrow> endian \<Rightarrow> endian \<Rightarrow> ADIOS_DATATYPES \<Rightarrow> adios_index_characteristic_struct_v1
    \<Rightarrow> adios_index_characteristic_struct_v1" where
  "ch_as_read junk e1 e2 type ch =
     ch\<lparr>ch_value := map_option (value_as_read e1 e2 type) (ch_value ch),
        ch_stats := map_option (map (row_as_read junk e1 e2)) (ch_stats ch)\<rparr>"

lemma parses_transform_item:
  assumes "plugins_ok infos" and "tr = zero_transform \<or> e1 = Little \<and> transform_ok infos tr"
    and "ch_transform ch = zero_transform"
  shows "parses (flag_for e1 e2) (parse_set (parse_var_item e2 infos junk mok type chs) (transform_items tr) ch)
    (transform_item_bytes e1 infos tr) (ch\<lparr>ch_transform := tr\<rparr>)"
proof (cases "tr = zero_transform")
  case True
  with assms(3) have "ch\<lparr>ch_transform := tr\<rparr> = ch" by simp
  with True show ?thesis by (simp add: transform_items_def transform_item_bytes_def parses_return)
next
  case False
  with assms(2) have tr: "e1 = Little" "transform_ok infos tr" by simp_all
  then have "transform_as_read e1 tr = tr" by (simp add: transform_as_read_def pre_type_as_read_def)
  moreover have "tr_transform_metadata_len (ch_transform ch) = 0" by (simp add: assms(3) zero_transform_def)
  ultimately have "parses (flag_for e1 e2) (parse_var_item e2 infos junk mok type chs adios_characteristic_transform_type ch)
      (transform_bytes e1 infos tr) (ch\<lparr>ch_transform := tr\<rparr>)"
    unfolding var_item_simps using parses_transform [OF assms(1) tr(2), of "ch_transform ch" e1 e2]
    by (auto intro: parses_last)
  then have "parses (flag_for e1 e2) (parse_set (parse_var_item e2 infos junk mok type chs) 1 ch)
      (adios_characteristic_transform_type # transform_bytes e1 infos tr) (ch\<lparr>ch_transform := tr\<rparr>)"
    by (rule parses_set_one)
  with False show ?thesis
    by (simp add: transform_items_def transform_item_bytes_def del: parse_set.simps)
qed

lemma parses_array:
  assumes "plugins_ok infos" and "array_ok infos ot ch" and "ot \<noteq> adios_unknown"
    and "ch_transform ch = zero_transform \<or> e1 = Little"
    and "ot = adios_transform_get_var_original_type_index type (case chs of [] \<Rightarrow> ch | ch0 # _ \<Rightarrow> ch0)"
    and "ch_transform ch1 = zero_transform"
  shows "parses (flag_for e1 e2) (parse_set (parse_var_item e2 infos junk mok type chs) (array_items ch) ch1)
    (array_bytes e1 infos ch) (ch1\<lparr>ch_dims := ch_dims ch, ch_transform := ch_transform ch,
      ch_bitmap := ch_bitmap ch, ch_stats := map_option (map (row_as_read junk e1 e2)) (ch_stats ch)\<rparr>)"
proof -
  let ?item = "parse_var_item e2 infos junk mok type chs" and ?fl = "flag_for e1 e2"
  obtain rows where rows: "ch_stats ch = Some rows" "length rows = unat (adios_get_stat_set_count ot)"
      "list_all (row_ok ot (ch_bitmap ch)) rows"
    using assms(2) by (auto simp: array_ok_def split: option.splits)
  have d: "d_count (ch_dims ch) \<noteq> 0" "length (d_dims (ch_dims ch)) = 3 * unat (d_count (ch_dims ch))"
    "unat (ch_bitmap ch) < 2 ^ 7" and tr: "ch_transform ch = zero_transform \<or> e1 = Little \<and> transform_ok infos (ch_transform ch)"
    using assms(2,4) by (auto simp: array_ok_def)
  let ?ch2 = "ch1\<lparr>ch_dims := ch_dims ch\<rparr>"
  let ?ch3 = "?ch2\<lparr>ch_transform := ch_transform ch\<rparr>"
  let ?ch4 = "?ch3\<lparr>ch_bitmap := ch_bitmap ch\<rparr>"
  let ?ch5 = "?ch4\<lparr>ch_stats := Some (map (row_as_read junk e1 e2) rows)\<rparr>"
  have p1: "parses ?fl (parse_set ?item 1 ch1)
      (adios_characteristic_dimensions # ([d_count (ch_dims ch)] @ enc e1 2 (dims_len (ch_dims ch))
        @ concat (map (enc e1 8) (d_dims (ch_dims ch))))) ?ch2"
    by (rule parses_set_one) (simp only: var_item_simps, rule parses_last [OF parses_dims [OF d(2)]])
  have p2: "parses ?fl (parse_set ?item (transform_items (ch_transform ch)) ?ch2)
      (transform_item_bytes e1 infos (ch_transform ch)) ?ch3"
    using assms(6) by (intro parses_transform_item [OF assms(1) tr]) simp
  have p3: "parses ?fl (parse_set ?item 1 ?ch3) (adios_characteristic_bitmap # enc e1 4 (ch_bitmap ch)) ?ch4"
    by (rule parses_set_one) (simp only: var_item_simps, rule parses_last [OF parses_u32])
  have ot: "adios_transform_get_var_original_type_index type (case chs of [] \<Rightarrow> ?ch4 | ch0 # _ \<Rightarrow> ch0) = ot"
    by (simp add: assms(5) adios_transform_get_var_original_type_index_def split: list.splits)
  have "parses ?fl (pbind (parse_stats e2 junk ot (ch_bitmap ch)) (\<lambda>rows. preturn (?ch4\<lparr>ch_stats := Some rows\<rparr>)))
      (concat (map (row_bytes e1) rows)) ?ch5"
    by (rule parses_last [OF parses_stats [OF assms(3) d(3) rows(2,3)]])
  then have p4: "parses ?fl (parse_set ?item 1 ?ch4) (adios_characteristic_stat # concat (map (row_bytes e1) rows)) ?ch5"
    by (intro parses_set_one) (simp add: var_item_simps ot)
  have "array_items ch = 1 + (transform_items (ch_transform ch) + (1 + 1))"
    using d(1) by (simp add: array_items_def)
  with parses_set_add [OF p1 parses_set_add [OF p2 parses_set_add [OF p3 p4]]]
  show ?thesis using d(1) rows(1)
    by (simp add: array_bytes_def del: parse_set.simps One_nat_def add_Suc add_Suc_right)
qed

text \<open>A whole set of characteristics of a variable.\<close>

lemma parses_value_item:
  assumes "\<And>n. mok n" and "type \<noteq> adios_unknown" and "case ch_value ch of Some v \<Rightarrow> value_ok type v | None \<Rightarrow> True"
    and "item = (\<lambda>ch. pbind (parse_value e2 mok type) (\<lambda>data. preturn (ch\<lparr>ch_value := data\<rparr>)))"
    and "\<And>ch. items adios_characteristic_value ch = item ch" and "ch_value ch1 = None"
  shows "parses (flag_for e1 e2) (parse_set items (value_items (ch_value ch)) ch1)
    (value_bytes e1 type (ch_value ch)) (ch1\<lparr>ch_value := map_option (value_as_read e1 e2 type) (ch_value ch)\<rparr>)"
proof (cases "ch_value ch")
  case None
  then have "ch1\<lparr>ch_value := map_option (value_as_read e1 e2 type) (ch_value ch)\<rparr> = ch1" using assms(6) by simp
  with None show ?thesis by (simp add: value_items_def value_bytes_def parses_return)
next
  case (Some v)
  then have "value_ok type v" using assms(3) by simp
  from parses_last [OF parses_value [of mok, OF assms(1,2) this], of e1 e2 "\<lambda>data. ch1\<lparr>ch_value := data\<rparr>"]
  have "parses (flag_for e1 e2) (items adios_characteristic_value ch1)
      ((if type = adios_string then enc e1 2 (of_nat (length v) :: u16) else []) @ v)
      (ch1\<lparr>ch_value := Some (value_as_read e1 e2 type v)\<rparr>)"
    by (simp only: assms(4,5))
  then have "parses (flag_for e1 e2) (parse_set items 1 ch1)
      (adios_characteristic_value # (if type = adios_string then enc e1 2 (of_nat (length v) :: u16) else []) @ v)
      (ch1\<lparr>ch_value := Some (value_as_read e1 e2 type v)\<rparr>)"
    by (rule parses_set_one)
  with Some show ?thesis by (simp add: value_items_def value_bytes_def del: parse_set.simps)
qed

lemma parses_var_items:
  assumes "plugins_ok infos" and "\<And>n. mok n" and "var_ch_ok infos ot type ch" and "ot \<noteq> adios_unknown"
    and "ch_transform ch = zero_transform \<or> e1 = Little"
    and "ot = adios_transform_get_var_original_type_index type (case chs of [] \<Rightarrow> ch | ch0 # _ \<Rightarrow> ch0)"
  shows "parses (flag_for e1 e2)
    (parse_set (parse_var_item e2 infos junk mok type chs) (4 + (array_items ch + value_items (ch_value ch)))
      zero_characteristic)
    (common_bytes e1 ch @ array_bytes e1 infos ch @ value_bytes e1 type (ch_value ch)) (ch_as_read junk e1 e2 type ch)"
proof -
  let ?item = "parse_var_item e2 infos junk mok type chs" and ?fl = "flag_for e1 e2"
  let ?ch1 = "zero_characteristic\<lparr>ch_offset := ch_offset ch, ch_payload_offset := ch_payload_offset ch,
       ch_file_index := ch_file_index ch, ch_time_index := ch_time_index ch\<rparr>"
  let ?ch2 = "?ch1\<lparr>ch_dims := ch_dims ch, ch_transform := ch_transform ch, ch_bitmap := ch_bitmap ch,
      ch_stats := map_option (map (row_as_read junk e1 e2)) (ch_stats ch)\<rparr>"
  let ?ch3 = "?ch2\<lparr>ch_value := map_option (value_as_read e1 e2 type) (ch_value ch)\<rparr>"
  have ty: "type \<noteq> adios_unknown" and v: "case ch_value ch of Some v \<Rightarrow> value_ok type v | None \<Rightarrow> True"
    and a: "scalar_only ch \<or> array_ok infos ot ch" and vid: "ch_var_id ch = 0"
    using assms(3) by (auto simp: var_ch_ok_def split: option.splits)
  have p1: "parses ?fl (parse_set ?item 4 zero_characteristic) (common_bytes e1 ch) ?ch1"
    by (rule parses_common [OF var_item_common])
  have p2: "parses ?fl (parse_set ?item (array_items ch) ?ch1) (array_bytes e1 infos ch) ?ch2"
  proof (cases "scalar_only ch")
    case True
    then have "?ch2 = ?ch1" by (simp add: scalar_only_def zero_characteristic_def)
    with True show ?thesis
      by (simp add: array_items_def array_bytes_def parses_return scalar_only_def zero_dims_def)
  next
    case False
    with a have "array_ok infos ot ch" by simp
    from parses_array [OF assms(1) this assms(4-6), of ?ch1] show ?thesis
      by (simp add: zero_characteristic_def)
  qed
  have p3: "parses ?fl (parse_set ?item (value_items (ch_value ch)) ?ch2) (value_bytes e1 type (ch_value ch)) ?ch3"
    by (rule parses_value_item [of mok, OF assms(2) ty v refl]) (simp_all add: var_item_simps zero_characteristic_def)
  have "?ch3 = ch_as_read junk e1 e2 type ch"
    using vid by (simp add: ch_as_read_def zero_characteristic_def)
  with parses_set_add [OF p1 parses_set_add [OF p2 p3]] show ?thesis by simp
qed

text \<open>The loop over the sets, one after the other.\<close>

lemma parses_sets_from:
  assumes "\<And>i. length done' \<le> i \<Longrightarrow> i < length (done' @ chs) \<Longrightarrow>
      cnt ((done' @ chs) ! i) < 256
      \<and> parses (flag_for e1 e2) (parse_set (item (map rd (take i (done' @ chs)))) (cnt ((done' @ chs) ! i)) zero_characteristic)
          (body ((done' @ chs) ! i)) (rd ((done' @ chs) ! i))"
  shows "parses (flag_for e1 e2) (parse_sets e2 item (length chs) (map rd done'))
    (concat (map (\<lambda>ch. set_bytes e1 (body ch) (cnt ch)) chs)) (map rd (done' @ chs))"
  using assms
proof (induction chs arbitrary: done')
  case Nil
  then show ?case by (simp add: parses_return)
next
  case (Cons ch chs)
  have hd: "cnt ch < 256" "parses (flag_for e1 e2) (parse_set (item (map rd done')) (cnt ch) zero_characteristic)
      (body ch) (rd ch)"
    using Cons.prems [of "length done'"] by simp_all
  have "parses (flag_for e1 e2) (parse_sets e2 item (length chs) (map rd (done' @ [ch])))
      (concat (map (\<lambda>ch. set_bytes e1 (body ch) (cnt ch)) chs)) (map rd ((done' @ [ch]) @ chs))"
  proof (rule Cons.IH)
    fix i assume "length (done' @ [ch]) \<le> i" "i < length ((done' @ [ch]) @ chs)"
    then show "cnt (((done' @ [ch]) @ chs) ! i) < 256
      \<and> parses (flag_for e1 e2) (parse_set (item (map rd (take i ((done' @ [ch]) @ chs)))) (cnt (((done' @ [ch]) @ chs) ! i)) zero_characteristic)
          (body (((done' @ [ch]) @ chs) ! i)) (rd (((done' @ [ch]) @ chs) ! i))"
      using Cons.prems [of i] by simp
  qed
  then have rest: "parses (flag_for e1 e2) (parse_sets e2 item (length chs) (map rd done' @ [rd ch]))
      (concat (map (\<lambda>ch. set_bytes e1 (body ch) (cnt ch)) chs)) (map rd (done' @ ch # chs))" by simp
  have "unat (of_nat (cnt ch) :: u8) = cnt ch" using hd(1) by simp
  then have set: "parses (flag_for e1 e2) (parse_set (item (map rd done')) (unat (of_nat (cnt ch) :: u8)) zero_characteristic)
      (body ch) (rd ch)" using hd(2) by simp
  have "parses (flag_for e1 e2) (parse_sets e2 item (length (ch # chs)) (map rd done'))
      ([of_nat (cnt ch)] @ enc e1 4 (of_nat (length (body ch)) :: u32) @ body ch
        @ concat (map (\<lambda>ch. set_bytes e1 (body ch) (cnt ch)) chs)) (map rd (done' @ ch # chs))"
    unfolding list.size add_Suc_right add_0_right parse_sets.simps
    by (intro parses_bind [OF parses_u8] parses_bind [OF parses_u32] parses_bind [OF set] rest)
  then show ?case by (simp add: set_bytes_def)
qed

lemmas parses_sets = parses_sets_from [where done' = "[]", simplified]

text \<open>The bytes of an entry: id, names, type and count in front of its sets.\<close>

lemma type_of_code_of: "t \<noteq> adios_unknown \<Longrightarrow> type_of_code (word_of_int (type_code t)) = t"
  by (cases t) (simp_all add: type_of_code_def)

definition entry_body ::
  "endian \<Rightarrow> u32 \<Rightarrow> cstring \<Rightarrow> cstring \<Rightarrow> cstring \<Rightarrow> ADIOS_DATATYPES \<Rightarrow> u64 \<Rightarrow> u8 list \<Rightarrow> u8 list" where
  "entry_body e ident grp name path type count sets =
     enc e 4 ident @ enc_string e grp @ enc_string e name @ enc_string e path
     @ [word_of_int (type_code type)] @ enc e 8 count @ sets"

lemma inindex_named_entry:
  assumes "\<And>n. ok n" and "str_ok grp" and "str_ok name" and "str_ok path" and "inentry W sets"
  shows "inindex (\<lambda>s. let s' = pipe [bwi ok (enc e 4 (ident :: u32)), bwi_string e ok grp, bwi_string e ok name,
        bwi_string e ok path, bwi ok [word_of_int (type_code type)], bwi ok (enc e 8 (count :: u64)), W]
        (reserve 4 (s\<lparr>w_entry_size := 0\<rparr>))
      in patch ok (w_off s) [enc e 4 (w_entry_size s')] s')
    (enc e 4 (of_nat (length (entry_body e ident grp name path type count sets)) :: u32)
      @ entry_body e ident grp name path type count sets)
    (length (entry_body e ident grp name path type count sets))"
proof (rule inindex_entry [of ok, OF assms(1)])
  note w = inentry_string [of ok, OF assms(1)] inentry_bwi [of ok, OF assms(1)] assms(2-5)
  have "inentry (pipe [bwi ok (enc e 4 ident), bwi_string e ok grp, bwi_string e ok name, bwi_string e ok path,
      bwi ok [word_of_int (type_code type)], bwi ok (enc e 8 count), W])
      (concat [enc e 4 ident, enc_string e grp, enc_string e name, enc_string e path,
        [word_of_int (type_code type)], enc e 8 count, sets])"
    by (rule inentry_pipe) (auto intro: w)
  then show "inentry (pipe [bwi ok (enc e 4 ident), bwi_string e ok grp, bwi_string e ok name, bwi_string e ok path,
      bwi ok [word_of_int (type_code type)], bwi ok (enc e 8 count), W]) (entry_body e ident grp name path type count sets)"
    by (simp add: entry_body_def del: pipe_Cons)
qed simp


section \<open>What is lost\<close>

text \<open>
  A histogram written and read back keeps its largest value, its frequencies and its breaks,
  but not its smallest value: the parser stores that number into \<open>max\<close> and then overwrites it,
  so \<open>min\<close> is whatever the fresh memory held, swapped when the byte orders differ.
\<close>

theorem hist_min_not_read:
  assumes "\<And>n. ok n" and "hist_ok h" and "placed b (emitted (write_hist e1 ok h) s)"
    and "bp_change_endianness b = flag_for e1 e2"
  shows "parse_hist e2 junk b = Inr (h\<lparr>h_min := (if e1 = e2 then junk else swap_64 junk)\<rparr>,
    b\<lparr>bp_offset := bp_offset b + of_nat (length (emitted (write_hist e1 ok h) s))\<rparr>)"
proof -
  have "emits (write_hist e1 ok h) (hist_bytes e1 h)"
    using inset_hist [of ok, OF assms(1,2)] by (simp add: inset_def)
  note bs = emits_emitted [OF this, of s]
  show ?thesis
    using placed_parses [OF assms(3) [unfolded bs] parses_hist [OF assms(2), of e1 e2, folded assms(4)]]
    by (simp add: bs)
qed

lemma hist_min_not_read_witness:
  "\<exists>b'. parse_hist Little 7 (bp_buffer_of adios_flag_no (emitted (write_hist Little (\<lambda>_. True)
       \<lparr>h_min = 1, h_max = 9, h_num_breaks = 1, h_frequencies = [4, 5], h_breaks = [3]\<rparr>) empty_wst)) =
     Inr (\<lparr>h_min = 7, h_max = 9, h_num_breaks = 1, h_frequencies = [4, 5], h_breaks = [3]\<rparr>, b')"
proof -
  let ?h = "\<lparr>h_min = 1, h_max = 9, h_num_breaks = 1, h_frequencies = [4, 5], h_breaks = [3]\<rparr>"
  let ?bs = "emitted (write_hist Little (\<lambda>_. True) ?h) empty_wst"
  have ok: "hist_ok ?h" by (simp add: hist_ok_def)
  have "emits (write_hist Little (\<lambda>_. True) ?h) (hist_bytes Little ?h)"
    using inset_hist [of "\<lambda>_. True", OF TrueI ok] by (simp add: inset_def)
  from emits_emitted [OF this, of empty_wst] have "length ?bs < 2 ^ 64" by (simp add: hist_bytes_def)
  from placed_whole [OF this, of adios_flag_no] show ?thesis
    using hist_min_not_read [of "\<lambda>_. True" ?h "bp_buffer_of adios_flag_no ?bs" Little empty_wst Little 7] ok
    by (simp add: bp_buffer_of_def flag_for_def)
qed

text \<open>
  The value of a complex variable from a machine of the other byte order is taken over byte
  by byte, although its real and imaginary parts would have to be reversed.
\<close>

theorem complex_value_not_converted:
  assumes "\<And>n. malloc_ok n" and "type = adios_complex \<or> type = adios_double_complex"
    and "placed b v" and "length v = unat (adios_get_type_size type (Some ''''))"
    and "bp_change_endianness b = adios_flag_yes"
  shows "parse_value e malloc_ok type b = Inr (Some v, b\<lparr>bp_offset := bp_offset b + of_nat (length v)\<rparr>)"
proof -
  have "value_ok type v" "type \<noteq> adios_unknown" "type \<noteq> adios_string"
    using assms(2,4) by (auto simp: value_ok_def)
  moreover obtain e1 where "flag_for e1 e = bp_change_endianness b"
    using assms(5) by (cases e) (metis endian.distinct(1) flag_for_def)+
  ultimately show ?thesis
    using parses_value [of malloc_ok, OF assms(1), of type v e1 e] placed_parses [OF assms(3)] assms(2)
    by (auto simp: value_as_read_def)
qed

lemma complex_value_not_converted_witness:
  "\<exists>b'. parse_value Little (\<lambda>_. True) adios_complex (bp_buffer_of adios_flag_yes [64, 0, 0, 0, 65, 0, 0, 0]) =
     Inr (Some [64, 0, 0, 0, 65, 0, 0, 0], b')"
  using complex_value_not_converted [of "\<lambda>_. True" adios_complex
      "bp_buffer_of adios_flag_yes [64, 0, 0, 0, 65, 0, 0, 0]" "[64, 0, 0, 0, 65, 0, 0, 0]" Little]
    placed_whole [of "[64, 0, 0, 0, 65, 0, 0, 0]" adios_flag_yes] by (simp add: bp_buffer_of_def)

end
