(* ===== verification/BP_Dims.thy ===== *)
theory BP_Dims
  imports BP_Chars
begin

text \<open>
  Dimensions of variables: their values, the size of the array they span
  (\<open>adios_get_dim_value\<close>, \<open>adios_get_dimension_space_size\<close> and their helpers in
  \<open>core/adios_internals.c\<close>), and how they are written into the header of a variable and parsed
  from it (\<open>adios_write_dimensions_v1\<close>, \<open>adios_parse_var_data_header_v1\<close> of \<open>core/adios_bp_v1.c\<close>).
\<close>

section \<open>Data\<close>

text \<open>
  A dimension is a number, a scalar variable, an attribute or the time index. A reference to a
  variable or an attribute is a copy of the fields that are used through it.
\<close>

record adios_var_ref =
  vr_id :: u32
  vr_type :: ADIOS_DATATYPES
  vr_data :: "u8 list option"

record adios_attribute_ref =
  ar_id :: u32
  ar_type :: ADIOS_DATATYPES
  ar_value :: "u8 list option"
  ar_var :: "adios_var_ref option"

record adios_dimension_item_struct =
  di_rank :: u64
  di_var :: "adios_var_ref option"
  di_attr :: "adios_attribute_ref option"
  di_time_index :: ADIOS_FLAG

record adios_dimension_struct =
  dm_dimension :: adios_dimension_item_struct
  dm_global_dimension :: adios_dimension_item_struct
  dm_local_offset :: adios_dimension_item_struct

text \<open>Dimensions as they are read from a file.\<close>

record adios_dimension_item_struct_v1 =
  d1_rank :: u64
  d1_var_id :: u32
  d1_time_index :: ADIOS_FLAG

record adios_dimension_struct_v1 =
  d1_dimension :: adios_dimension_item_struct_v1
  d1_global_dimension :: adios_dimension_item_struct_v1
  d1_local_offset :: adios_dimension_item_struct_v1

section \<open>Values\<close>

definition count_dimensions :: "adios_dimension_struct list \<Rightarrow> u8" where
  "count_dimensions dims = of_nat (length dims)"

text \<open>
  An integer of the given type read through a pointer and converted to \<open>uint64_t\<close>; \<open>None\<close> for
  the types that are no integers.
\<close>

definition int_value :: "endian \<Rightarrow> ADIOS_DATATYPES \<Rightarrow> u8 list \<Rightarrow> u64 option" where
  "int_value e type data =
     (case type of
        adios_byte \<Rightarrow> Some (scast (dec e (take 1 data) :: u8))
      | adios_short \<Rightarrow> Some (scast (dec e (take 2 data) :: u16))
      | adios_integer \<Rightarrow> Some (scast (dec e (take 4 data) :: u32))
      | adios_long \<Rightarrow> Some (dec e (take 8 data))
      | adios_unsigned_byte \<Rightarrow> Some (ucast (dec e (take 1 data) :: u8))
      | adios_unsigned_short \<Rightarrow> Some (ucast (dec e (take 2 data) :: u16))
      | adios_unsigned_integer \<Rightarrow> Some (ucast (dec e (take 4 data) :: u32))
      | adios_unsigned_long \<Rightarrow> Some (dec e (take 8 data))
      | _ \<Rightarrow> None)"

text \<open>
  Values come with the error that is reported, if any. \<open>float_value\<close> is the conversion of a
  floating-point number by the machine.
\<close>

definition cast_var_data_as_uint64 ::
  "endian \<Rightarrow> (ADIOS_DATATYPES \<Rightarrow> u8 list \<Rightarrow> u64) \<Rightarrow> ADIOS_DATATYPES \<Rightarrow> u8 list option
    \<Rightarrow> adios_errcode option \<times> u64" where
  "cast_var_data_as_uint64 e float_value type data =
     (case data of
        None \<Rightarrow> (Some err_unspecified, 0)
      | Some bs \<Rightarrow>
          if int_value e type bs = None \<and> type \<notin> {adios_real, adios_double, adios_long_double}
          then (Some err_unspecified, 0)
          else if unat (adios_get_type_size type (Some '''')) > length bs then (Some err_out_of_bounds, 0)
          else (None, case int_value e type bs of Some v \<Rightarrow> v | None \<Rightarrow> float_value type bs))"

definition adios_get_dim_value ::
  "endian \<Rightarrow> (ADIOS_DATATYPES \<Rightarrow> u8 list \<Rightarrow> u64) \<Rightarrow> adios_dimension_item_struct
    \<Rightarrow> adios_errcode option \<times> u64" where
  "adios_get_dim_value e float_value dimension =
     (case di_var dimension of
        Some var \<Rightarrow>
          if vr_data var \<noteq> None then cast_var_data_as_uint64 e float_value (vr_type var) (vr_data var)
          else (Some err_dimension_required, 0)
      | None \<Rightarrow>
          (case di_attr dimension of
             Some attr \<Rightarrow>
               (case ar_var attr of
                  Some var \<Rightarrow>
                    if vr_data var \<noteq> None
                    then cast_var_data_as_uint64 e float_value (vr_type var) (vr_data var)
                    else (Some err_dimension_required, 0)
                | None \<Rightarrow> cast_var_data_as_uint64 e float_value (ar_type attr) (ar_value attr))
           | None \<Rightarrow> (None, if di_time_index dimension = adios_flag_yes then 1 else di_rank dimension)))"

text \<open>\<open>adios_multiply_dimensions\<close>: the new size, or the error after which the size is given up.\<close>

definition adios_multiply_dimensions ::
  "endian \<Rightarrow> u64 \<Rightarrow> ADIOS_DATATYPES \<Rightarrow> u8 list option \<Rightarrow> adios_errcode + u64" where
  "adios_multiply_dimensions e sz type data =
     (case data of
        None \<Rightarrow>
          Inl (if int_value e type [] = None then err_invalid_var_as_dimension else err_out_of_bounds)
      | Some bs \<Rightarrow>
          (case int_value e type bs of
             None \<Rightarrow> Inl err_invalid_var_as_dimension
           | Some v \<Rightarrow>
               if unat (adios_get_type_size type (Some '''')) > length bs then Inl err_out_of_bounds
               else Inr (sz * v)))"

fun space_loop :: "endian \<Rightarrow> u64 \<Rightarrow> adios_dimension_struct list \<Rightarrow> adios_errcode + u64" where
  "space_loop e sz [] = Inr sz"
| "space_loop e sz (d # ds) =
     (case di_var (dm_dimension d) of
        Some dim_var \<Rightarrow>
          if vr_data dim_var = None then Inl err_invalid_var_as_dimension
          else (case adios_multiply_dimensions e sz (vr_type dim_var) (vr_data dim_var) of
                  Inl err \<Rightarrow> Inl err
                | Inr sz' \<Rightarrow> space_loop e sz' ds)
      | None \<Rightarrow>
          (case di_attr (dm_dimension d) of
             Some attr \<Rightarrow>
               (case ar_var attr of
                  Some var \<Rightarrow>
                    if vr_data var = None then Inl err_invalid_var_as_dimension
                    else (case adios_multiply_dimensions e sz (vr_type var) (vr_data var) of
                            Inl err \<Rightarrow> Inl err
                          | Inr sz' \<Rightarrow> space_loop e sz' ds)
                | None \<Rightarrow>
                    (case adios_multiply_dimensions e sz (ar_type attr) (ar_value attr) of
                       Inl err \<Rightarrow> Inl err
                     | Inr sz' \<Rightarrow> space_loop e sz' ds))
           | None \<Rightarrow>
               space_loop e
                 (if di_time_index (dm_dimension d) = adios_flag_no then sz * di_rank (dm_dimension d) else sz) ds))"

definition adios_get_dimension_space_size ::
  "endian \<Rightarrow> adios_dimension_struct list \<Rightarrow> adios_errcode option \<times> u64" where
  "adios_get_dimension_space_size e d =
     (case space_loop e 1 d of Inl err \<Rightarrow> (Some err, 0) | Inr sz \<Rightarrow> (None, sz))"

definition adios_get_var_size ::
  "endian \<Rightarrow> ADIOS_DATATYPES \<Rightarrow> adios_dimension_struct list \<Rightarrow> u8 list option
    \<Rightarrow> adios_errcode option \<times> u64" where
  "adios_get_var_size e type dimensions data =
     (let sz = adios_get_type_size type (map_option string_of_bytes data)
      in if dimensions \<noteq> [] then
           let (err, n) = adios_get_dimension_space_size e dimensions in (err, sz * n)
         else (None, sz))"

section \<open>Writing\<close>

text \<open>\<open>is_number\<close> is the test in front of each part of a dimension.\<close>

definition is_number :: "adios_dimension_item_struct \<Rightarrow> bool" where
  "is_number item \<longleftrightarrow> di_var item = None \<and> di_attr item = None \<and> di_time_index item = adios_flag_no"

definition calc_dimension_size :: "adios_dimension_struct \<Rightarrow> u16" where
  "calc_dimension_size d =
     1 + (if is_number (dm_dimension d) then 8 else 4)
     + 1 + (if is_number (dm_global_dimension d) then 8 else 4)
     + 1 + (if di_var (dm_local_offset d) = None \<and> di_time_index (dm_local_offset d) = adios_flag_no then 8 else 4)"

definition calc_dimensions_size :: "adios_dimension_struct list \<Rightarrow> u16" where
  "calc_dimensions_size dims = fold (\<lambda>d sz. sz + calc_dimension_size d) dims 0"

definition item_id :: "adios_dimension_item_struct \<Rightarrow> u32" where
  "item_id item =
     (case di_var item of
        Some var \<Rightarrow> vr_id var
      | None \<Rightarrow> (case di_attr item of Some attr \<Rightarrow> ar_id attr | None \<Rightarrow> 0))"

text \<open>The three parts are written in the same way; the size counts the bytes.\<close>

definition write_dimension_item ::
  "endian \<Rightarrow> (nat \<Rightarrow> bool) \<Rightarrow> adios_dimension_item_struct \<Rightarrow> u64 \<times> wst \<Rightarrow> u64 \<times> wst" where
  "write_dimension_item e realloc_ok item = (\<lambda>(sz, s).
     if is_number item then
       (sz + 1 + 8, bw realloc_ok (enc e 8 (di_rank item)) (bw realloc_ok [byte_of_char CHR ''n''] s))
     else
       (sz + 1 + 4, bw realloc_ok (enc e 4 (item_id item)) (bw realloc_ok [byte_of_char CHR ''y''] s)))"

definition adios_write_dimension_v1 ::
  "endian \<Rightarrow> (nat \<Rightarrow> bool) \<Rightarrow> adios_dimension_struct \<Rightarrow> wst \<Rightarrow> u64 \<times> wst" where
  "adios_write_dimension_v1 e realloc_ok d s =
     write_dimension_item e realloc_ok (dm_local_offset d)
       (write_dimension_item e realloc_ok (dm_global_dimension d)
         (write_dimension_item e realloc_ok (dm_dimension d) (0, s)))"

definition adios_write_dimensions_v1 ::
  "endian \<Rightarrow> (nat \<Rightarrow> bool) \<Rightarrow> adios_dimension_struct list \<Rightarrow> wst \<Rightarrow> u16 \<times> wst" where
  "adios_write_dimensions_v1 e realloc_ok dims s =
     fold (\<lambda>d (sz, s). let (n, s') = adios_write_dimension_v1 e realloc_ok d s in (ucast (ucast sz + n), s'))
       dims (1 + 2, bw realloc_ok (enc e 2 (calc_dimensions_size dims))
                      (bw realloc_ok [count_dimensions dims] s))"

section \<open>Parsing\<close>

definition parse_dimension_item :: "endian \<Rightarrow> adios_dimension_item_struct_v1 parser" where
  "parse_dimension_item e =
     pbind get_u8 (\<lambda>flag.
       if flag = byte_of_char CHR ''y'' then
         pbind (get_u32 e) (\<lambda>var_id.
           preturn \<lparr>d1_rank = 0, d1_var_id = var_id,
                    d1_time_index = (if var_id = 0 then adios_flag_yes else adios_flag_no)\<rparr>)
       else
         pbind (get_u64 e) (\<lambda>rank.
           preturn \<lparr>d1_rank = rank, d1_var_id = 0, d1_time_index = adios_flag_no\<rparr>))"

definition parse_dimension :: "endian \<Rightarrow> adios_dimension_struct_v1 parser" where
  "parse_dimension e =
     pbind (parse_dimension_item e) (\<lambda>dimension.
     pbind (parse_dimension_item e) (\<lambda>global_dimension.
     pbind (parse_dimension_item e) (\<lambda>local_offset.
     preturn \<lparr>d1_dimension = dimension, d1_global_dimension = global_dimension,
              d1_local_offset = local_offset\<rparr>)))"

definition parse_dimensions :: "endian \<Rightarrow> adios_dimension_struct_v1 list parser" where
  "parse_dimensions e =
     pbind get_u8 (\<lambda>dims_count.
     pbind (get_u16 e) (\<lambda>dims_length.
     parse_times (unat dims_count) (parse_dimension e)))"


section \<open>What is written and read\<close>

definition item_bytes :: "endian \<Rightarrow> adios_dimension_item_struct \<Rightarrow> u8 list" where
  "item_bytes e item =
     (if is_number item then byte_of_char CHR ''n'' # enc e 8 (di_rank item)
      else byte_of_char CHR ''y'' # enc e 4 (item_id item))"

definition dim_bytes :: "endian \<Rightarrow> adios_dimension_struct \<Rightarrow> u8 list" where
  "dim_bytes e d = item_bytes e (dm_dimension d) @ item_bytes e (dm_global_dimension d) @ item_bytes e (dm_local_offset d)"

definition dims_bytes :: "endian \<Rightarrow> adios_dimension_struct list \<Rightarrow> u8 list" where
  "dims_bytes e dims = [count_dimensions dims] @ enc e 2 (calc_dimensions_size dims) @ concat (map (dim_bytes e) dims)"

text \<open>A writer that also counts what it writes.\<close>

definition counted :: "('n::len word \<times> wst \<Rightarrow> 'n word \<times> wst) \<Rightarrow> u8 list \<Rightarrow> bool" where
  "counted W bs \<longleftrightarrow> (\<exists>V. plain V bs \<and> (\<forall>n s. W (n, s) = (n + of_nat (length bs), V s)))"

lemma counted_comp: "counted W bs \<Longrightarrow> counted W' bs' \<Longrightarrow> counted (\<lambda>p. W' (W p)) (bs @ bs')"
proof -
  assume "counted W bs" and "counted W' bs'"
  then obtain V V' where "plain V bs" "\<And>n s. W (n, s) = (n + of_nat (length bs), V s)"
    and "plain V' bs'" "\<And>n s. W' (n, s) = (n + of_nat (length bs'), V' s)" unfolding counted_def by auto
  then show ?thesis
    unfolding counted_def by (intro exI [of _ "\<lambda>s. V' (V s)"]) (simp add: plain_comp algebra_simps)
qed

lemma counted_item:
  assumes "\<And>n. ok n"
  shows "counted (write_dimension_item e ok item) (item_bytes e item)"
proof -
  note w = plain_bw [of ok, OF assms]
  show ?thesis
  proof (cases "is_number item")
    case True
    then show ?thesis
      using plain_comp [OF w [of "[byte_of_char CHR ''n'']"] w [of "enc e 8 (di_rank item)"]]
      unfolding counted_def write_dimension_item_def item_bytes_def by fastforce
  next
    case False
    then show ?thesis
      using plain_comp [OF w [of "[byte_of_char CHR ''y'']"] w [of "enc e 4 (item_id item)"]]
      unfolding counted_def write_dimension_item_def item_bytes_def by fastforce
  qed
qed


lemma counted_dimension:
  assumes "\<And>n. ok n"
  obtains V where "plain V (dim_bytes e d)"
    and "\<And>s. adios_write_dimension_v1 e ok d s = (of_nat (length (dim_bytes e d)), V s)"
proof -
  note c = counted_item [of ok, OF assms, of e]
  have "counted (\<lambda>p. write_dimension_item e ok (dm_local_offset d)
      (write_dimension_item e ok (dm_global_dimension d) (write_dimension_item e ok (dm_dimension d) p))) (dim_bytes e d)"
    unfolding dim_bytes_def using counted_comp [OF counted_comp [OF c c] c] by simp
  then show thesis using that by (force simp: counted_def adios_write_dimension_v1_def)
qed

lemma counted_fold:
  "(\<And>x. x \<in> set xs \<Longrightarrow> counted (W x) (bs x)) \<Longrightarrow> counted (fold W xs) (concat (map bs xs))"
proof (induction xs)
  case Nil
  then show ?case by (auto simp: counted_def intro: exI [of _ "\<lambda>s. s"] plain_id)
next
  case (Cons x xs)
  then show ?case using counted_comp [of "W x" "bs x" "fold W xs"] by (simp add: comp_def)
qed

lemma dimensions_written:
  assumes "\<And>n. ok n"
  obtains V where "plain V (dims_bytes e dims)"
    and "\<And>s. adios_write_dimensions_v1 e ok dims s = (of_nat (length (dims_bytes e dims)), V s)"
proof -
  let ?W = "\<lambda>d (sz :: u16, s). let (n, s') = adios_write_dimension_v1 e ok d s in (ucast (ucast sz + n), s')"
  have "counted (?W d) (dim_bytes e d)" for d
  proof -
    obtain V where V: "plain V (dim_bytes e d)"
      "\<And>s. adios_write_dimension_v1 e ok d s = (of_nat (length (dim_bytes e d)), V s)"
      using counted_dimension [of ok, OF assms] by blast
    have "ucast (ucast (sz :: u16) + of_nat n :: u64) = sz + (of_nat n :: u16)" for sz n
    proof -
      have "ucast sz + of_nat n = (of_nat (unat sz + n) :: u64)" by simp
      then show ?thesis using ucast_of_nat_down [of "unat sz + n", where 'a = 64 and 'b = 16] by simp
    qed
    with V show ?thesis by (auto simp: counted_def)
  qed
  then obtain V where V: "plain V (concat (map (dim_bytes e) dims))"
    "\<And>n s. fold ?W dims (n, s) = (n + of_nat (length (concat (map (dim_bytes e) dims))), V s)"
    using counted_fold [of dims ?W "dim_bytes e"] by (auto simp: counted_def)
  note w = plain_bw [of ok, OF assms]
  let ?h = "\<lambda>s. bw ok (enc e 2 (calc_dimensions_size dims)) (bw ok [count_dimensions dims] s)"
  have "plain (\<lambda>s. V (?h s)) (dims_bytes e dims)"
    unfolding dims_bytes_def
    using plain_comp [OF plain_comp [OF w [of "[count_dimensions dims]"] w] V(1)] by simp
  moreover have "adios_write_dimensions_v1 e ok dims s = (of_nat (length (dims_bytes e dims)), V (?h s))" for s
    unfolding adios_write_dimensions_v1_def V(2) by (simp add: dims_bytes_def)
  ultimately show thesis by (rule that)
qed


definition item_as_read :: "adios_dimension_item_struct \<Rightarrow> adios_dimension_item_struct_v1" where
  "item_as_read item =
     (if is_number item then \<lparr>d1_rank = di_rank item, d1_var_id = 0, d1_time_index = adios_flag_no\<rparr>
      else \<lparr>d1_rank = 0, d1_var_id = item_id item,
             d1_time_index = (if item_id item = 0 then adios_flag_yes else adios_flag_no)\<rparr>)"

definition dim_as_read :: "adios_dimension_struct \<Rightarrow> adios_dimension_struct_v1" where
  "dim_as_read d = \<lparr>d1_dimension = item_as_read (dm_dimension d),
     d1_global_dimension = item_as_read (dm_global_dimension d), d1_local_offset = item_as_read (dm_local_offset d)\<rparr>"

lemma parses_dimension_item: "parses (flag_for e1 e2) (parse_dimension_item e2) (item_bytes e1 item) (item_as_read item)"
proof (cases "is_number item")
  case True
  have "parses (flag_for e1 e2) (parse_dimension_item e2) ([byte_of_char CHR ''n''] @ enc e1 8 (di_rank item))
      \<lparr>d1_rank = di_rank item, d1_var_id = 0, d1_time_index = adios_flag_no\<rparr>"
    unfolding parse_dimension_item_def
    using parses_last [OF parses_u64, of e1 e2
        "\<lambda>rank. \<lparr>d1_rank = rank, d1_var_id = 0, d1_time_index = adios_flag_no\<rparr>" "di_rank item"]
    by (intro parses_bind [OF parses_u8]) (simp add: byte_of_char_inject)
  with True show ?thesis by (simp add: item_bytes_def item_as_read_def)
next
  case False
  have "parses (flag_for e1 e2) (parse_dimension_item e2) ([byte_of_char CHR ''y''] @ enc e1 4 (item_id item))
      \<lparr>d1_rank = 0, d1_var_id = item_id item,
        d1_time_index = (if item_id item = 0 then adios_flag_yes else adios_flag_no)\<rparr>"
    unfolding parse_dimension_item_def
    using parses_last [OF parses_u32, of e1 e2 "\<lambda>var_id. \<lparr>d1_rank = 0, d1_var_id = var_id,
        d1_time_index = (if var_id = 0 then adios_flag_yes else adios_flag_no)\<rparr>" "item_id item"]
    by (intro parses_bind [OF parses_u8]) simp
  with False show ?thesis by (simp add: item_bytes_def item_as_read_def)
qed

lemma parses_dimension: "parses (flag_for e1 e2) (parse_dimension e2) (dim_bytes e1 d) (dim_as_read d)"
  unfolding parse_dimension_def dim_bytes_def dim_as_read_def
  by (intro parses_bind [OF parses_dimension_item] parses_last parses_dimension_item)

lemma parses_dimensions:
  assumes "length dims < 2 ^ 8"
  shows "parses (flag_for e1 e2) (parse_dimensions e2) (dims_bytes e1 dims) (map dim_as_read dims)"
proof -
  have n: "unat (count_dimensions dims) = length dims" using assms by (simp add: count_dimensions_def unat_of_nat_small)
  show ?thesis
    unfolding parse_dimensions_def dims_bytes_def
    by (intro parses_bind [OF parses_u8] parses_bind [OF parses_u16])
      (use n parses_each [of dims "flag_for e1 e2" "parse_dimension e2" "dim_bytes e1" dim_as_read] parses_dimension in simp)
qed


section \<open>Sizes\<close>

text \<open>
  The recorded length of the dimensions. For the local offset, the test of the attribute is
  missing.
\<close>

definition offset_ok :: "adios_dimension_struct \<Rightarrow> bool" where
  "offset_ok d \<longleftrightarrow> di_attr (dm_local_offset d) = None \<or> di_var (dm_local_offset d) \<noteq> None
     \<or> di_time_index (dm_local_offset d) \<noteq> adios_flag_no"

lemma calc_dimension_size:
  "calc_dimension_size d = (of_nat (length (dim_bytes e d)) :: u16) + (if offset_ok d then 0 else 4)"
  by (auto simp: calc_dimension_size_def dim_bytes_def item_bytes_def is_number_def offset_ok_def)

lemma calc_dimensions_size:
  "calc_dimensions_size dims = of_nat (length (concat (map (dim_bytes e) dims)) + 4 * length (filter (\<lambda>d. \<not> offset_ok d) dims))"
proof -
  have "fold (\<lambda>d sz. sz + calc_dimension_size d) dims sz =
      sz + of_nat (length (concat (map (dim_bytes e) dims)) + 4 * length (filter (\<lambda>d. \<not> offset_ok d) dims))" for sz
    by (induction dims arbitrary: sz) (simp_all add: calc_dimension_size [where e = e] algebra_simps)
  from this [of 0] show ?thesis by (simp add: calc_dimensions_size_def)
qed

text \<open>
  C36. What \<open>adios_write_dimensions_v1\<close> writes into the header of a variable: the number of dimensions,
  a recorded length and the dimensions. The recorded length, which \<open>adios_calc_dimensions_size\<close>
  computes, is the number of bytes that the dimensions take, unless a local offset is given by an
  attribute only: then it counts as a number of 8 bytes but is written as an id of 4 bytes, and the
  length is too large by 4 for each of them. The size returned is that of all that is written.
\<close>

theorem calc_dimensions_size_exact:
  assumes "\<And>n. ok n"
  shows "\<exists>body. emitted (\<lambda>s. snd (adios_write_dimensions_v1 e ok dims s)) s
      = count_dimensions dims # enc e 2 (calc_dimensions_size dims) @ body
    \<and> calc_dimensions_size dims = of_nat (length body + 4 * length (filter (\<lambda>d. \<not> offset_ok d) dims))
    \<and> fst (adios_write_dimensions_v1 e ok dims s) = of_nat (3 + length body)"
proof -
  obtain V where V: "plain V (dims_bytes e dims)"
    and w: "\<And>s. adios_write_dimensions_v1 e ok dims s = (of_nat (length (dims_bytes e dims)), V s)"
    using dimensions_written [of ok, OF assms] by blast
  have "emitted V s = dims_bytes e dims" using V by (simp add: plain_def emits_emitted)
  then show ?thesis
    by (intro exI [of _ "concat (map (dim_bytes e) dims)"]) (simp add: w calc_dimensions_size [where e = e] dims_bytes_def)
qed

text \<open>A variable of one dimension whose local offset is given by an attribute: 23 bytes are recorded as 27.\<close>

lemma calc_dimensions_size_exact_witness:
  "let number = \<lambda>k. \<lparr>di_rank = k, di_var = None, di_attr = None, di_time_index = adios_flag_no\<rparr>;
       attr = \<lparr>di_rank = 0, di_var = None, di_attr = Some \<lparr>ar_id = 7, ar_type = adios_integer, ar_value = None, ar_var = None\<rparr>,
               di_time_index = adios_flag_no\<rparr>;
       out = emitted (\<lambda>s. snd (adios_write_dimensions_v1 Little (\<lambda>_. True)
               [\<lparr>dm_dimension = number 4, dm_global_dimension = number 8, dm_local_offset = attr\<rparr>] s)) empty_wst
   in \<exists>body. out = [1, 27, 0] @ body \<and> (of_nat (length body) :: u16) = 23"
proof -
  define d where "d = \<lparr>dm_dimension = \<lparr>di_rank = 4, di_var = None, di_attr = None, di_time_index = adios_flag_no\<rparr>,
    dm_global_dimension = \<lparr>di_rank = 8, di_var = None, di_attr = None, di_time_index = adios_flag_no\<rparr>,
    dm_local_offset = \<lparr>di_rank = 0, di_var = None, di_attr = Some \<lparr>ar_id = 7, ar_type = adios_integer, ar_value = None, ar_var = None\<rparr>,
      di_time_index = adios_flag_no\<rparr>\<rparr>"
  have size: "calc_dimensions_size [d] = 27"
    by (simp add: d_def calc_dimensions_size_def calc_dimension_size_def is_number_def)
  have wrong: "\<not> offset_ok d" by (simp add: d_def offset_ok_def)
  have length_bytes: "enc Little 2 (27 :: u16) = [27, 0]" by code_simp
  from calc_dimensions_size_exact [of "\<lambda>_. True" Little "[d]" empty_wst] wrong obtain body where
    "emitted (\<lambda>s. snd (adios_write_dimensions_v1 Little (\<lambda>_. True) [d] s)) empty_wst = [1, 27, 0] @ body"
      and "(of_nat (length body) :: u16) = 23"
    by (auto simp: count_dimensions_def size length_bytes)
  then show ?thesis unfolding Let_def d_def [symmetric] by blast
qed

text \<open>Integer dimensions that can be read: what a reference leads to is there, with all its bytes.\<close>

definition int_data :: "ADIOS_DATATYPES \<Rightarrow> u8 list option \<Rightarrow> bool" where
  "int_data type data \<longleftrightarrow>
     (case data of None \<Rightarrow> False
      | Some bs \<Rightarrow> int_value Little type bs \<noteq> None \<and> unat (adios_get_type_size type (Some '''')) \<le> length bs)"

definition item_given :: "adios_dimension_item_struct \<Rightarrow> bool" where
  "item_given item \<longleftrightarrow>
     (case di_var item of
        Some var \<Rightarrow> int_data (vr_type var) (vr_data var)
      | None \<Rightarrow>
          (case di_attr item of
             Some attr \<Rightarrow> (case ar_var attr of Some var \<Rightarrow> int_data (vr_type var) (vr_data var)
                           | None \<Rightarrow> int_data (ar_type attr) (ar_value attr))
           | None \<Rightarrow> di_time_index item \<noteq> adios_flag_unknown))"

lemma int_value_known: "int_value e type bs = None \<longleftrightarrow> int_value Little type bs' = None"
  by (cases type) (simp_all add: int_value_def)

lemma int_data_read:
  assumes "int_data type data"
  obtains v where "cast_var_data_as_uint64 e fv type data = (None, v)"
    and "\<And>sz. adios_multiply_dimensions e sz type data = Inr (sz * v)" and "data \<noteq> None"
proof -
  obtain bs where bs: "data = Some bs" "int_value Little type bs \<noteq> None"
      "unat (adios_get_type_size type (Some '''')) \<le> length bs"
    using assms by (auto simp: int_data_def split: option.splits)
  obtain v where "int_value e type bs = Some v" using bs(2) int_value_known [of e type bs bs] by auto
  with bs show thesis
    by (intro that [of v]) (simp_all add: cast_var_data_as_uint64_def adios_multiply_dimensions_def)
qed

lemma space_step:
  assumes "item_given (dm_dimension d)"
  obtains v where "adios_get_dim_value e fv (dm_dimension d) = (None, v)"
    and "\<And>sz ds. space_loop e sz (d # ds) = space_loop e (sz * v) ds"
proof -
  let ?i = "dm_dimension d"
  consider (var) var where "di_var ?i = Some var" "int_data (vr_type var) (vr_data var)"
    | (attr_var) attr var where "di_var ?i = None" "di_attr ?i = Some attr" "ar_var attr = Some var"
        "int_data (vr_type var) (vr_data var)"
    | (attr) attr where "di_var ?i = None" "di_attr ?i = Some attr" "ar_var attr = None" "int_data (ar_type attr) (ar_value attr)"
    | (number) "di_var ?i = None" "di_attr ?i = None" "di_time_index ?i \<noteq> adios_flag_unknown"
    using assms by (auto simp: item_given_def split: option.splits)
  then show thesis
  proof cases
    case var
    obtain v where "cast_var_data_as_uint64 e fv (vr_type var) (vr_data var) = (None, v)"
      and "\<And>sz. adios_multiply_dimensions e sz (vr_type var) (vr_data var) = Inr (sz * v)" and "vr_data var \<noteq> None"
      using int_data_read [OF var(2)] by metis
    with var(1) show thesis by (intro that [of v]) (auto simp: adios_get_dim_value_def)
  next
    case attr_var
    obtain v where "cast_var_data_as_uint64 e fv (vr_type var) (vr_data var) = (None, v)"
      and "\<And>sz. adios_multiply_dimensions e sz (vr_type var) (vr_data var) = Inr (sz * v)" and "vr_data var \<noteq> None"
      using int_data_read [OF attr_var(4)] by metis
    with attr_var(1-3) show thesis by (intro that [of v]) (auto simp: adios_get_dim_value_def)
  next
    case attr
    obtain v where "cast_var_data_as_uint64 e fv (ar_type attr) (ar_value attr) = (None, v)"
      and "\<And>sz. adios_multiply_dimensions e sz (ar_type attr) (ar_value attr) = Inr (sz * v)"
      using int_data_read [OF attr(4)] by metis
    with attr(1-3) show thesis by (intro that [of v]) (simp_all add: adios_get_dim_value_def)
  next
    case number
    then show thesis
      by (intro that [of "if di_time_index ?i = adios_flag_no then di_rank ?i else 1"])
        (cases "di_time_index ?i"; simp add: adios_get_dim_value_def)+
  qed
qed

text \<open>
  C35. The size of an array of integer dimensions is the product of the values of its dimensions,
  modulo \<open>2 ^ 64\<close>; the time index counts as 1.
\<close>

theorem space_size_is_product:
  assumes "list_all (\<lambda>d. item_given (dm_dimension d)) dims"
  shows "adios_get_dimension_space_size e dims =
    (None, prod_list (map (\<lambda>d. snd (adios_get_dim_value e float_value (dm_dimension d))) dims))"
proof -
  have "space_loop e sz dims =
      Inr (sz * prod_list (map (\<lambda>d. snd (adios_get_dim_value e float_value (dm_dimension d))) dims))" for sz
    using assms
  proof (induction dims arbitrary: sz)
    case (Cons d dims)
    from Cons.prems have "item_given (dm_dimension d)" by simp
    then obtain v where "adios_get_dim_value e float_value (dm_dimension d) = (None, v)"
      and "\<And>sz ds. space_loop e sz (d # ds) = space_loop e (sz * v) ds"
      by (rule space_step [of d e float_value]) blast
    with Cons show ?case by (simp add: mult.assoc del: space_loop.simps)
  qed simp
  from this [of 1] show ?thesis by (simp add: adios_get_dimension_space_size_def)
qed

definition dims_example :: "adios_dimension_struct list" where
  "dims_example =
     (let n = \<lparr>vr_id = 3, vr_type = adios_integer, vr_data = Some [5, 0, 0, 0]\<rparr>;
          number = \<lambda>k. \<lparr>di_rank = k, di_var = None, di_attr = None, di_time_index = adios_flag_no\<rparr>;
          ref = \<lparr>di_rank = 0, di_var = Some n, di_attr = None, di_time_index = adios_flag_no\<rparr>
      in [\<lparr>dm_dimension = ref, dm_global_dimension = number 10, dm_local_offset = number 0\<rparr>,
          \<lparr>dm_dimension = number 4, dm_global_dimension = number 4, dm_local_offset = number 0\<rparr>])"

lemma space_size_is_product_witness: "adios_get_dimension_space_size Little dims_example = (None, 20)"
proof -
  have "list_all (\<lambda>d. item_given (dm_dimension d)) dims_example"
    by (simp add: dims_example_def Let_def item_given_def int_data_def int_value_def)
  moreover have "prod_list (map (\<lambda>d. snd (adios_get_dim_value Little (\<lambda>_ _. 0) (dm_dimension d))) dims_example) = 20"
    by (simp add: dims_example_def Let_def adios_get_dim_value_def cast_var_data_as_uint64_def int_value_def
        dec_def)
  ultimately show ?thesis using space_size_is_product [of dims_example Little "\<lambda>_ _. 0"] by simp
qed

end
