(* ===== verification/BP_Data.thy ===== *)
theory BP_Data
  imports BP_Dims
begin

text \<open>
  The data of a process group: variables with their headers and payloads, and attributes, as
  \<open>core/adios_internals.c\<close> writes them into the buffer of an open file
  (\<open>adios_write_open_vars_v1\<close> to \<open>adios_write_close_attributes_v1\<close>) and \<open>core/adios_bp_v1.c\<close>
  parses them.
\<close>

section \<open>Data\<close>

record adios_var_struct =
  av_id :: u32
  av_name :: cstring
  av_path :: cstring
  av_type :: ADIOS_DATATYPES
  av_dimensions :: "adios_dimension_struct list"
  av_is_dim :: ADIOS_FLAG
  av_write_offset :: u64
  av_data :: "u8 list option"
  av_data_size :: u64
  av_stats :: "stat_data option list list option"
  av_bitmap :: u32
  av_transform_type :: u8
  av_pre_transform_type :: ADIOS_DATATYPES
  av_pre_transform_dimensions :: "adios_dimension_struct list"
  av_transform_metadata_len :: u16
  av_transform_metadata :: "u8 list option"

record adios_attribute_struct =
  aa_id :: u32
  aa_name :: cstring
  aa_path :: cstring
  aa_type :: ADIOS_DATATYPES
  aa_value :: "u8 list option"
  aa_var :: "adios_var_ref option"
  aa_write_offset :: u64

text \<open>The open file: \<open>buffer\<close>, \<open>buffer_size\<close> and \<open>offset\<close> are those of the writer state.\<close>

record adios_file_struct =
  fd_w :: wst
  fd_base_offset :: u64
  fd_bytes_written :: nat
  fd_vars_start :: nat
  fd_vars_written :: u32

record adios_vars_header_struct_v1 =
  vh_count :: u32
  vh_length :: u64

record adios_var_header_struct_v1 =
  hv_id :: u32
  hv_name :: cstring
  hv_path :: cstring
  hv_type :: ADIOS_DATATYPES
  hv_is_dim :: ADIOS_FLAG
  hv_dims :: "adios_dimension_struct_v1 list"
  hv_characteristics :: adios_index_characteristic_struct_v1
  hv_payload_size :: u64

record adios_attribute_struct_v1 =
  at_id :: u32
  at_name :: cstring
  at_path :: cstring
  at_is_var :: ADIOS_FLAG
  at_var_id :: u32
  at_type :: ADIOS_DATATYPES
  at_length :: u32
  at_value :: "u8 list option"

section \<open>Writing variables\<close>

text \<open>\<open>adios_error\<close> records the error; the caller goes on.\<close>

definition report :: "adios_errcode option \<Rightarrow> wst \<Rightarrow> wst" where
  "report err s = (case err of None \<Rightarrow> s | Some c \<Rightarrow> s\<lparr>w_errno := Some c\<rparr>)"

definition write_dim_value ::
  "endian \<Rightarrow> (ADIOS_DATATYPES \<Rightarrow> u8 list \<Rightarrow> u64) \<Rightarrow> (nat \<Rightarrow> bool) \<Rightarrow> adios_dimension_item_struct \<Rightarrow> wst \<Rightarrow> wst" where
  "write_dim_value e float_value realloc_ok item s =
     (let (err, dim) = adios_get_dim_value e float_value item in bw realloc_ok (enc e 8 dim) (report err s))"

definition adios_write_var_characteristics_dims_v1 ::
  "endian \<Rightarrow> (ADIOS_DATATYPES \<Rightarrow> u8 list \<Rightarrow> u64) \<Rightarrow> (nat \<Rightarrow> bool) \<Rightarrow> adios_dimension_struct list \<Rightarrow> wst
    \<Rightarrow> u16 \<times> wst" where
  "adios_write_var_characteristics_dims_v1 e float_value realloc_ok dims s =
     (let count_offset = w_off s;
          s' = fold (\<lambda>d. pipe [write_dim_value e float_value realloc_ok (dm_dimension d),
                               write_dim_value e float_value realloc_ok (dm_global_dimension d),
                               write_dim_value e float_value realloc_ok (dm_local_offset d)])
                 dims (reserve (1 + 2) s);
          dims_count = of_nat (length dims) :: u8;
          dims_length = of_nat (length dims * (8 + 8 + 8)) :: u16;
          total_size = of_nat (1 + 2 + length dims * (8 + 8 + 8)) :: u16
      in (total_size, patch realloc_ok count_offset [[dims_count], enc e 2 dims_length] s'))"

definition adios_transform_dereference_dimensions_characteristic ::
  "endian \<Rightarrow> (ADIOS_DATATYPES \<Rightarrow> u8 list \<Rightarrow> u64) \<Rightarrow> adios_dimension_struct list
    \<Rightarrow> adios_errcode option \<times> adios_index_characteristic_dims_struct_v1" where
  "adios_transform_dereference_dimensions_characteristic e float_value src_var_dims =
     (let c = count_dimensions src_var_dims;
          items = concat (map (\<lambda>d. [dm_dimension d, dm_global_dimension d, dm_local_offset d])
                    (take (unat c) src_var_dims));
          vals = map (adios_get_dim_value e float_value) items
      in (fold (\<lambda>(err, _) old. case err of None \<Rightarrow> old | Some x \<Rightarrow> Some x) vals None,
          \<lparr>d_count = c, d_dims = map snd vals\<rparr>))"

definition adios_transform_serialize_transform_var ::
  "endian \<Rightarrow> (ADIOS_DATATYPES \<Rightarrow> u8 list \<Rightarrow> u64) \<Rightarrow> (nat \<Rightarrow> bool) \<Rightarrow> plugin_infos \<Rightarrow> adios_var_struct \<Rightarrow> wst
    \<Rightarrow> u8 \<times> u64 \<times> wst" where
  "adios_transform_serialize_transform_var e float_value realloc_ok infos var s =
     (let (err, tmp_dims) = adios_transform_dereference_dimensions_characteristic e float_value
            (av_pre_transform_dimensions var)
      in adios_transform_serialize_transform e realloc_ok infos (av_transform_type var)
           (av_pre_transform_type var) tmp_dims (av_transform_metadata_len var)
           (av_transform_metadata var) (report err s))"

definition adios_transform_get_var_original_type_var :: "adios_var_struct \<Rightarrow> ADIOS_DATATYPES" where
  "adios_transform_get_var_original_type_var var =
     (if av_transform_type var \<noteq> 0 then av_pre_transform_type var else av_type var)"

text \<open>
  The characteristics of an array. The statistics are written as in the index; the sizes of a
  histogram are \<open>int\<close> here, which makes no difference below \<open>2 ^ 28\<close> breaks.
\<close>

definition write_array_items ::
  "endian \<Rightarrow> (ADIOS_DATATYPES \<Rightarrow> u8 list \<Rightarrow> u64) \<Rightarrow> (nat \<Rightarrow> bool) \<Rightarrow> plugin_infos \<Rightarrow> adios_var_struct \<Rightarrow> wst \<Rightarrow> wst" where
  "write_array_items e float_value realloc_ok infos v =
     pipe [set_item realloc_ok adios_characteristic_dimensions,
           (\<lambda>s. let (len, s) = adios_write_var_characteristics_dims_v1 e float_value realloc_ok (av_dimensions v) s
                in s\<lparr>w_index_size := w_index_size s + ucast len, w_set_len := w_set_len s + ucast len\<rparr>),
           (\<lambda>s. let (count, len, s) = adios_transform_serialize_transform_var e float_value realloc_ok infos v s
                in s\<lparr>w_set_count := w_set_count s + count, w_index_size := w_index_size s + len,
                     w_set_len := w_set_len s + ucast len\<rparr>),
           set_item realloc_ok adios_characteristic_bitmap,
           bws realloc_ok (enc e 4 (av_bitmap v)),
           set_item realloc_ok adios_characteristic_stat,
           write_stats e realloc_ok (adios_transform_get_var_original_type_var v)
             (zero_characteristic\<lparr>ch_bitmap := av_bitmap v, ch_stats := av_stats v\<rparr>)]"

text \<open>The result is \<open>index_size\<close>, cut to 16 bits.\<close>

definition adios_write_var_characteristics_v1 ::
  "endian \<Rightarrow> (ADIOS_DATATYPES \<Rightarrow> u8 list \<Rightarrow> u64) \<Rightarrow> (nat \<Rightarrow> bool) \<Rightarrow> plugin_infos \<Rightarrow> adios_var_struct \<Rightarrow> wst
    \<Rightarrow> u16 \<times> wst" where
  "adios_write_var_characteristics_v1 e float_value realloc_ok infos v s =
     (let characteristic_set_start = w_off s;
          s1 = reserve (1 + 4) (s\<lparr>w_index_size := 1 + 4, w_set_len := 0, w_set_count := 0\<rparr>);
          s' = (if av_type v \<noteq> adios_string \<and> av_type v \<noteq> adios_unknown \<and> av_dimensions v \<noteq> []
                then write_array_items e float_value realloc_ok infos v s1 else s1)
      in (ucast (w_index_size s'),
          patch realloc_ok characteristic_set_start [[w_set_count s'], enc e 4 (w_set_len s')] s'))"

definition bw_str :: "endian \<Rightarrow> (nat \<Rightarrow> bool) \<Rightarrow> cstring \<Rightarrow> u64 \<times> wst \<Rightarrow> u64 \<times> wst" where
  "bw_str e realloc_ok str = (\<lambda>(n, s).
     let len = of_nat (length str) :: u16
     in (n + 2 + ucast len,
         bw realloc_ok (take (unat len) (bytes_of_string str)) (bw realloc_ok (enc e 2 len) s)))"

definition bytes_written :: "adios_file_struct \<Rightarrow> adios_file_struct" where
  "bytes_written fd =
     (if fd_bytes_written fd < w_off (fd_w fd) then fd\<lparr>fd_bytes_written := w_off (fd_w fd)\<rparr> else fd)"

text \<open>
  \<open>adios_write_var_header_v1\<close>: the total size, the variable with its offset in the file, and the
  file.
\<close>

definition adios_write_var_header_v1 ::
  "endian \<Rightarrow> (ADIOS_DATATYPES \<Rightarrow> u8 list \<Rightarrow> u64) \<Rightarrow> (nat \<Rightarrow> bool) \<Rightarrow> plugin_infos \<Rightarrow> adios_var_struct
    \<Rightarrow> adios_file_struct \<Rightarrow> u64 \<times> adios_var_struct \<times> adios_file_struct" where
  "adios_write_var_header_v1 e float_value realloc_ok infos v fd =
     (let s0 = fd_w fd;
          start = w_off s0;
          v = v\<lparr>av_write_offset := of_nat start + fd_base_offset fd\<rparr>;
          (total_size, s1) = bw_str e realloc_ok (av_path v) (bw_str e realloc_ok (av_name v)
             (8 + 4, bw realloc_ok (enc e 4 (av_id v)) (reserve 8 s0)));
          s2 = bw realloc_ok [byte_of_char (if av_is_dim v = adios_flag_yes then CHR ''y'' else CHR ''n'')]
                 (bw realloc_ok [word_of_int (type_code (av_type v))] s1);
          (dims_size, s3) = adios_write_dimensions_v1 e realloc_ok (av_dimensions v) s2;
          (chars_size, s4) = adios_write_var_characteristics_v1 e float_value realloc_ok infos v s3;
          (err, payload) = adios_get_var_size e (av_type v) (av_dimensions v) (av_data v);
          total_size = total_size + 1 + 1 + ucast dims_size + ucast chars_size + payload;
          s5 = patch realloc_ok start [enc e 8 total_size] (report err s4)
      in (total_size, v, bytes_written (fd\<lparr>fd_w := s5, fd_vars_written := fd_vars_written fd + 1\<rparr>)))"

text \<open>The payload; a null pointer with a size is an access out of bounds.\<close>

definition adios_write_var_payload_v1 ::
  "endian \<Rightarrow> (nat \<Rightarrow> bool) \<Rightarrow> adios_var_struct \<Rightarrow> adios_file_struct \<Rightarrow> adios_file_struct" where
  "adios_write_var_payload_v1 e realloc_ok var fd =
     (let (err, sz) = adios_get_var_size e (av_type var) (av_dimensions var) (av_data var);
          data = (case av_data var of Some bs \<Rightarrow> bs | None \<Rightarrow> []);
          err = (if length data < unat sz then Some err_out_of_bounds else err)
      in bytes_written (fd\<lparr>fd_w := bw realloc_ok (take (unat sz) data) (report err (fd_w fd))\<rparr>))"

definition adios_write_open_vars_v1 :: "adios_file_struct \<Rightarrow> adios_file_struct" where
  "adios_write_open_vars_v1 fd =
     bytes_written (fd\<lparr>fd_vars_written := 0, fd_vars_start := w_off (fd_w fd), fd_w := reserve (4 + 8) (fd_w fd)\<rparr>)"

text \<open>Closing moves \<open>vars_start\<close> behind the count and the size.\<close>

definition adios_write_close_vars_v1 :: "endian \<Rightarrow> (nat \<Rightarrow> bool) \<Rightarrow> adios_file_struct \<Rightarrow> adios_file_struct" where
  "adios_write_close_vars_v1 e realloc_ok fd =
     (let sz = of_nat (w_off (fd_w fd) - fd_vars_start fd) :: u64;
          (start, s) = buffer_write realloc_ok (enc e 4 (fd_vars_written fd)) (fd_vars_start fd) (fd_w fd);
          (start, s) = buffer_write realloc_ok (enc e 8 sz) start s
      in fd\<lparr>fd_vars_start := start, fd_w := s\<rparr>)"

section \<open>Writing attributes\<close>

text \<open>The value of an attribute, or the id of its variable, with the size of the attribute.\<close>

definition write_attribute_value ::
  "endian \<Rightarrow> (nat \<Rightarrow> bool) \<Rightarrow> adios_attribute_struct \<Rightarrow> u64 \<Rightarrow> wst \<Rightarrow> u32 \<times> wst" where
  "write_attribute_value e realloc_ok a size1 s2 =
     (case aa_var a of
        Some var \<Rightarrow> (ucast size1 + 1 + 4, bw realloc_ok (enc e 4 (vr_id var)) s2)
      | None \<Rightarrow>
          let t = ucast (adios_get_type_size (aa_type a) (map_option string_of_bytes (aa_value a))) :: u32;
              data = (case aa_value a of Some bs \<Rightarrow> bs | None \<Rightarrow> []);
              err = (if length data < unat t then Some err_out_of_bounds else None)
          in (ucast size1 + 1 + 1 + 4 + t,
              bw realloc_ok (take (unat t) data)
                (bw realloc_ok (enc e 4 t)
                  (bw realloc_ok [word_of_int (type_code (aa_type a))] (report err s2)))))"

definition adios_write_attribute_v1 ::
  "endian \<Rightarrow> (nat \<Rightarrow> bool) \<Rightarrow> adios_attribute_struct \<Rightarrow> adios_file_struct
    \<Rightarrow> adios_attribute_struct \<times> adios_file_struct" where
  "adios_write_attribute_v1 e realloc_ok a fd =
     (let s0 = fd_w fd;
          start = w_off s0;
          a = a\<lparr>aa_write_offset := of_nat start + fd_base_offset fd\<rparr>;
          (size1, s1) = bw_str e realloc_ok (aa_path a) (bw_str e realloc_ok (aa_name a)
             (4, bw realloc_ok (enc e 4 (aa_id a)) (reserve 4 s0)));
          s2 = bw realloc_ok [byte_of_char (if aa_var a \<noteq> None then CHR ''y'' else CHR ''n'')] s1;
          (size2, s3) = write_attribute_value e realloc_ok a size1 s2;
          s4 = patch realloc_ok start [enc e 4 (size2 :: u32)] s3
      in (a, bytes_written (fd\<lparr>fd_w := s4, fd_vars_written := fd_vars_written fd + 1\<rparr>)))"

definition adios_write_open_attributes_v1 :: "adios_file_struct \<Rightarrow> adios_file_struct" where
  "adios_write_open_attributes_v1 fd =
     bytes_written (fd\<lparr>fd_vars_start := w_off (fd_w fd), fd_w := reserve (4 + 8) (fd_w fd), fd_vars_written := 0\<rparr>)"

definition adios_write_close_attributes_v1 :: "endian \<Rightarrow> (nat \<Rightarrow> bool) \<Rightarrow> adios_file_struct \<Rightarrow> adios_file_struct" where
  "adios_write_close_attributes_v1 e realloc_ok fd =
     (let sz = of_nat (w_off (fd_w fd) - fd_vars_start fd) :: u64;
          (start, s) = buffer_write realloc_ok (enc e 4 (fd_vars_written fd)) (fd_vars_start fd) (fd_w fd);
          (start, s) = buffer_write realloc_ok (enc e 8 sz) start s
      in fd\<lparr>fd_vars_start := start, fd_w := s\<rparr>)"

section \<open>Writing a group\<close>

text \<open>
  What \<open>common_adios_write\<close> does with the buffer of a file for a variable without a transform,
  and what \<open>common_adios_close\<close> does with it before the transports write it. Attributes are only
  written by rank 0 or into subfiles.
\<close>

definition buffer_var ::
  "endian \<Rightarrow> (ADIOS_DATATYPES \<Rightarrow> u8 list \<Rightarrow> u64) \<Rightarrow> (nat \<Rightarrow> bool) \<Rightarrow> plugin_infos \<Rightarrow> adios_var_struct
    \<Rightarrow> adios_file_struct \<Rightarrow> adios_file_struct" where
  "buffer_var e float_value realloc_ok infos v fd =
     (let (_, v, fd) = adios_write_var_header_v1 e float_value realloc_ok infos v fd
      in adios_write_var_payload_v1 e realloc_ok v fd)"

definition close_buffer ::
  "endian \<Rightarrow> (nat \<Rightarrow> bool) \<Rightarrow> u32 \<Rightarrow> int \<Rightarrow> adios_attribute_struct list \<Rightarrow> adios_file_struct \<Rightarrow> adios_file_struct" where
  "close_buffer e realloc_ok process_id subfile_index attrs fd =
     (let fd = adios_write_open_attributes_v1 (adios_write_close_vars_v1 e realloc_ok fd);
          fd = (if process_id = 0 \<or> subfile_index \<noteq> -1
                then fold (\<lambda>a fd. snd (adios_write_attribute_v1 e realloc_ok a fd)) attrs fd else fd)
      in adios_write_close_attributes_v1 e realloc_ok fd)"


section \<open>Parsing variables\<close>

definition adios_parse_vars_header_v1 :: "endian \<Rightarrow> adios_vars_header_struct_v1 parser" where
  "adios_parse_vars_header_v1 e b =
     (if bp_length b - bp_offset b < 12 then Inl err_invalid_buffer_vars
      else
        pbind (get_u32 e) (\<lambda>count.
        pbind (get_u64 e) (\<lambda>len.
        preturn \<lparr>vh_count = count, vh_length = len\<rparr>)) b)"

definition parse_data_hist :: "endian \<Rightarrow> adios_hist_struct parser" where
  "parse_data_hist e =
     pbind (get_u32 e) (\<lambda>num_breaks.
     pbind (get_u64 e) (\<lambda>min'.
     pbind (get_u64 e) (\<lambda>max'.
     pbind (advance (ucast (4 * (num_breaks + 1))) (parse_times (unat (num_breaks + 1)) (get_u32 e))) (\<lambda>frequencies.
     pbind (advance (ucast (8 * num_breaks)) (parse_times (unat num_breaks) (get_u64 e))) (\<lambda>breaks.
     preturn \<lparr>h_min = min', h_max = max', h_num_breaks = num_breaks, h_frequencies = frequencies,
       h_breaks = breaks\<rparr>)))))"

text \<open>
  A statistic is converted as a number of the type of the variable, whatever its own size; the
  block that holds it has just its size.
\<close>

definition parse_data_stat :: "endian \<Rightarrow> ADIOS_DATATYPES \<Rightarrow> nat \<Rightarrow> stat_data parser" where
  "parse_data_stat e type j =
     (if j = 5 then pbind (parse_data_hist e) (\<lambda>h. preturn (Stat_Hist h))
      else
        let characteristic_size = unat (stat_size type j) in
        pbind (get_bytes characteristic_size) (\<lambda>bs b.
          if bp_change_endianness b \<noteq> adios_flag_yes then preturn (Stat_Bytes bs) b
          else if type \<noteq> adios_string \<and> unat (adios_get_type_size type (Some '''')) \<in> {2, 4, 8, 16}
                  \<and> unat (adios_get_type_size type (Some '''')) > characteristic_size
          then Inl err_out_of_bounds
          else preturn (Stat_Bytes (load 0 characteristic_size (swap_adios_type e 0 type (store 0 bs (\<lambda>_. 0))))) b))"

fun parse_data_stats_row ::
  "endian \<Rightarrow> ADIOS_DATATYPES \<Rightarrow> u32 \<Rightarrow> nat list \<Rightarrow> nat \<Rightarrow> stat_data option list \<Rightarrow> stat_data option list parser" where
  "parse_data_stats_row e type bitmap [] idx row = preturn row"
| "parse_data_stats_row e type bitmap (j # js) idx row =
     (if drop_bit j bitmap = 0 then preturn row
      else if bit bitmap j then
        if idx \<ge> 7 then pfail err_out_of_bounds
        else pbind (parse_data_stat e type j) (\<lambda>data.
               parse_data_stats_row e type bitmap js (idx + 1) (row[idx := Some data]))
      else parse_data_stats_row e type bitmap js idx row)"

definition parse_data_stats ::
  "endian \<Rightarrow> ADIOS_DATATYPES \<Rightarrow> u32 \<Rightarrow> stat_data option list list parser" where
  "parse_data_stats e type bitmap =
     parse_times (unat (adios_get_stat_set_count type))
       (parse_data_stats_row e type bitmap [0..<32] 0 (replicate 7 None))"

text \<open>\<open>adios_transform_get_var_original_type_var_header\<close>\<close>

definition adios_transform_get_var_original_type_var_header ::
  "ADIOS_DATATYPES \<Rightarrow> adios_index_characteristic_struct_v1 \<Rightarrow> ADIOS_DATATYPES" where
  "adios_transform_get_var_original_type_var_header type ch =
     (if tr_transform_type (ch_transform ch) \<noteq> 0 then tr_pre_transform_type (ch_transform ch) else type)"

text \<open>A value of the type of the variable in an old file.\<close>

definition parse_old_value :: "endian \<Rightarrow> ADIOS_DATATYPES \<Rightarrow> u8 list parser" where
  "parse_old_value e type =
     get_data e (unat (adios_get_type_size type (Some ''''))) (\<lambda>e p. swap_adios_type e p type)"

text \<open>
  One characteristic in the header of a variable. The number of dimensions is skipped, and
  \<open>dims.count\<close> stays 0.
\<close>

definition parse_header_item ::
  "endian \<Rightarrow> plugin_infos \<Rightarrow> ADIOS_DATATYPES \<Rightarrow> u8 \<Rightarrow> adios_index_characteristic_struct_v1
    \<Rightarrow> adios_index_characteristic_struct_v1 parser" where
  "parse_header_item e infos type flag ch =
     (if flag = adios_characteristic_offset then
        pbind (get_u64 e) (\<lambda>x. preturn (ch\<lparr>ch_offset := x\<rparr>))
      else if flag = adios_characteristic_payload_offset then
        pbind (get_u64 e) (\<lambda>x. preturn (ch\<lparr>ch_payload_offset := x\<rparr>))
      else if flag = adios_characteristic_transform_type then
        pbind (adios_transform_deserialize_transform_characteristic e infos (ch_transform ch))
          (\<lambda>tr. preturn (ch\<lparr>ch_transform := tr\<rparr>))
      else if flag = adios_characteristic_bitmap then
        pbind (get_u32 e) (\<lambda>x. preturn (ch\<lparr>ch_bitmap := x\<rparr>))
      else if flag = adios_characteristic_stat then
        pbind (parse_data_stats e (adios_transform_get_var_original_type_var_header type ch) (ch_bitmap ch))
          (\<lambda>rows. preturn (ch\<lparr>ch_stats := Some rows\<rparr>))
      else if flag = adios_characteristic_dimensions then
        pbind (parse_dims e) (\<lambda>d. preturn (ch\<lparr>ch_dims := d\<lparr>d_count := d_count (ch_dims ch)\<rparr>\<rparr>))
      else if flag = adios_characteristic_min then
        pbind (parse_old_value e type) (\<lambda>data. preturn (set_old_stat 0 (Some data) ch))
      else if flag = adios_characteristic_max then
        pbind (parse_old_value e type) (\<lambda>data. preturn (set_old_stat 1 (Some data) ch))
      else if flag = adios_characteristic_value then
        pbind (get_u16 e) (\<lambda>val_size.
        pbind (get_bytes (unat val_size)) (\<lambda>data. preturn (ch\<lparr>ch_value := Some data\<rparr>)))
      else preturn ch)"

text \<open>
  The structure that is filled keeps the ids and indexes of its characteristics, which are not in
  the header.
\<close>

definition init_characteristics ::
  "adios_index_characteristic_struct_v1 \<Rightarrow> adios_index_characteristic_struct_v1" where
  "init_characteristics ch =
     ch\<lparr>ch_offset := 0, ch_payload_offset := 0, ch_stats := None, ch_value := None, ch_dims := zero_dims,
        ch_bitmap := 0, ch_transform := adios_transform_init_transform_characteristic\<rparr>"

definition adios_parse_var_data_header_v1 ::
  "endian \<Rightarrow> plugin_infos \<Rightarrow> adios_index_characteristic_struct_v1 \<Rightarrow> adios_var_header_struct_v1 parser" where
  "adios_parse_var_data_header_v1 e infos old b =
     (if bp_length b - bp_offset b < 23 then Inl err_invalid_buffer_vars
      else
        let initial_offset = bp_offset b in
        pbind (get_u64 e) (\<lambda>length_of_var.
        pbind (get_u32 e) (\<lambda>ident.
        pbind (get_string e) (\<lambda>name.
        pbind (get_string e) (\<lambda>path.
        pbind get_u8 (\<lambda>type.
        pbind get_u8 (\<lambda>is_dim.
        pbind (parse_dimensions e) (\<lambda>dims.
        pbind get_u8 (\<lambda>characteristics_count.
        pbind (get_u32 e) (\<lambda>characteristics_length.
        pbind (parse_set (parse_header_item e infos (type_of_code type)) (unat characteristics_count)
            (init_characteristics old)) (\<lambda>ch b.
        preturn \<lparr>hv_id = ident, hv_name = name, hv_path = path, hv_type = type_of_code type,
          hv_is_dim = (if is_dim = byte_of_char CHR ''y'' then adios_flag_yes else adios_flag_no),
          hv_dims = dims, hv_characteristics = ch,
          hv_payload_size = length_of_var - (bp_offset b - initial_offset)\<rparr> b)))))))))) b)"

text \<open>
  The payload, read into a buffer of the caller or skipped when there is none. The result tells
  whether the payload was refused, after which it is skipped. A string is terminated behind its
  last byte, and its conversion divides by 0.
\<close>

definition adios_parse_var_data_payload_v1 ::
  "endian \<Rightarrow> adios_var_header_struct_v1 \<Rightarrow> u8 list option \<Rightarrow> u64
    \<Rightarrow> (adios_errcode option \<times> u8 list option) parser" where
  "adios_parse_var_data_payload_v1 e var_header payload payload_buffer_size b =
     (let n = hv_payload_size var_header; type = hv_type var_header;
          b' = b\<lparr>bp_offset := bp_offset b + n\<rparr> in
      if bp_length b - bp_offset b < n then Inr ((Some err_invalid_buffer_vars, payload), b')
      else if payload_buffer_size < n \<and> payload \<noteq> None then Inr ((Some err_invalid_buffer_vars, payload), b')
      else
        (case payload of
           None \<Rightarrow> Inr ((None, None), b')
         | Some buf \<Rightarrow>
             if unat (bp_offset b) + unat n > length (bp_buff b) \<or> unat n > length buf then Inl err_out_of_bounds
             else
               let data = take (unat n) (drop (unat (bp_offset b)) (bp_buff b));
                   data = (if bp_change_endianness b = adios_flag_yes
                           then map_option (load 0 (unat n)) (swap_adios_type_array e 0 type n (store 0 data (\<lambda>_. 0)))
                           else Some data)
               in (case data of
                     None \<Rightarrow> Inl err_out_of_bounds
                   | Some data \<Rightarrow>
                       if type = adios_string then
                         if unat n < length buf then Inr ((None, Some (data @ [0] @ drop (unat n + 1) buf)), b')
                         else Inl err_out_of_bounds
                       else Inr ((None, Some (data @ drop (unat n) buf)), b'))))"

section \<open>Parsing attributes\<close>

definition adios_parse_attributes_header_v1 :: "endian \<Rightarrow> adios_vars_header_struct_v1 parser" where
  "adios_parse_attributes_header_v1 e b =
     (if bp_length b - bp_offset b < 10 then Inl err_invalid_buffer_attrs
      else
        pbind (get_u32 e) (\<lambda>count.
        pbind (get_u64 e) (\<lambda>len.
        preturn \<lparr>vh_count = count, vh_length = len\<rparr>)) b)"

text \<open>
  The block of a value has one byte more than its length, and the conversion works on the size of
  the type.
\<close>

definition parse_attribute_value :: "endian \<Rightarrow> ADIOS_DATATYPES \<Rightarrow> nat \<Rightarrow> u8 list parser" where
  "parse_attribute_value e type n =
     pbind (get_bytes n) (\<lambda>bs b.
       if bp_change_endianness b \<noteq> adios_flag_yes then preturn bs b
       else if type \<noteq> adios_string \<and> unat (adios_get_type_size type (Some '''')) \<in> {2, 4, 8, 16}
               \<and> unat (adios_get_type_size type (Some '''')) > n + 1
       then Inl err_out_of_bounds
       else preturn (load 0 n (swap_adios_type e 0 type (store 0 bs (\<lambda>_. 0)))) b)"

definition adios_parse_attribute_v1 :: "endian \<Rightarrow> adios_attribute_struct_v1 parser" where
  "adios_parse_attribute_v1 e b =
     (if bp_length b - bp_offset b < 15 then Inl err_invalid_buffer_attrs
      else
        pbind (get_u32 e) (\<lambda>attribute_length.
        pbind (get_u32 e) (\<lambda>ident.
        pbind (get_string e) (\<lambda>name.
        pbind (get_string e) (\<lambda>path.
        pbind get_u8 (\<lambda>is_var.
        if is_var = byte_of_char CHR ''y'' then
          pbind (get_u32 e) (\<lambda>var_id.
          preturn \<lparr>at_id = ident, at_name = name, at_path = path, at_is_var = adios_flag_yes, at_var_id = var_id,
                   at_type = adios_unknown, at_length = 0, at_value = None\<rparr>)
        else
          pbind get_u8 (\<lambda>type.
          pbind (get_u32 e) (\<lambda>len.
          pbind (parse_attribute_value e (type_of_code type) (unat len)) (\<lambda>v.
          preturn \<lparr>at_id = ident, at_name = name, at_path = path, at_is_var = adios_flag_no, at_var_id = 0,
                   at_type = type_of_code type, at_length = len, at_value = Some v\<rparr>)))))))) b)"


section \<open>What is written\<close>

lemma patch_sets:
  "(\<And>n. ok n) \<Longrightarrow> w_set_len (patch ok start ds s) = w_set_len s \<and> w_set_count (patch ok start ds s) = w_set_count s"
proof (induction ds arbitrary: start s)
  case (Cons d ds)
  note w = buffer_write_ok [of ok d start s, OF Cons.prems]
  show ?case using w Cons.IH [OF Cons.prems] by (simp add: split_beta Let_def)
qed simp

lemma plain_report: "plain (report err) []"
  by (simp add: plain_def emits_def report_def split: option.splits)

lemma plain_dim_value:
  assumes "\<And>n. ok n"
  shows "plain (write_dim_value e fv ok item) (enc e 8 (snd (adios_get_dim_value e fv item)))"
proof -
  obtain err v where "adios_get_dim_value e fv item = (err, v)" by (rule prod.exhaust)
  with plain_comp [OF plain_report plain_bw [of ok "enc e 8 v", OF assms], of err] show ?thesis
    by (simp add: write_dim_value_def [abs_def])
qed

lemma plain_fold:
  "(\<And>x. x \<in> set xs \<Longrightarrow> plain (W x) (f x)) \<Longrightarrow> plain (fold W xs) (concat (map f xs))"
  by (induction xs) (auto intro: plain_comp [of "W x" "f x" for x] simp: plain_id id_def comp_def)

text \<open>The values of the dimensions, three for each.\<close>

definition dim_values ::
  "endian \<Rightarrow> (ADIOS_DATATYPES \<Rightarrow> u8 list \<Rightarrow> u64) \<Rightarrow> adios_dimension_struct list \<Rightarrow> adios_index_characteristic_dims_struct_v1" where
  "dim_values e fv dims =
     \<lparr>d_count = of_nat (length dims), d_dims = concat (map (\<lambda>d. map (\<lambda>i. snd (adios_get_dim_value e fv i))
        [dm_dimension d, dm_global_dimension d, dm_local_offset d]) dims)\<rparr>"

lemma length_dim_values: "length (d_dims (dim_values e fv dims)) = 3 * length dims"
  by (induction dims) (simp_all add: dim_values_def)

lemma dereference_values:
  assumes "length dims < 2 ^ 8"
  shows "snd (adios_transform_dereference_dimensions_characteristic e fv dims) = dim_values e fv dims"
proof -
  have "unat (count_dimensions dims) = length dims" using assms by (simp add: count_dimensions_def unat_of_nat_small)
  then show ?thesis
    by (simp add: adios_transform_dereference_dimensions_characteristic_def dim_values_def count_dimensions_def
        Let_def map_concat comp_def)
qed

definition dims_chars :: "endian \<Rightarrow> adios_index_characteristic_dims_struct_v1 \<Rightarrow> u8 list" where
  "dims_chars e d = [d_count d] @ enc e 2 (dims_len d) @ concat (map (enc e 8) (d_dims d))"

lemma characteristics_dims_written:
  assumes "\<And>n. ok n" and "length dims < 2 ^ 8"
  obtains V where "plain V (dims_chars e (dim_values e fv dims))"
    and "\<And>s. adios_write_var_characteristics_dims_v1 e fv ok dims s =
      (of_nat (length (dims_chars e (dim_values e fv dims))), V s)"
proof -
  let ?d = "dim_values e fv dims"
  let ?W = "\<lambda>d. pipe [write_dim_value e fv ok (dm_dimension d), write_dim_value e fv ok (dm_global_dimension d),
      write_dim_value e fv ok (dm_local_offset d)]"
  let ?f = "\<lambda>d. concat (map (\<lambda>i. enc e 8 (snd (adios_get_dim_value e fv i)))
      [dm_dimension d, dm_global_dimension d, dm_local_offset d])"
  note w = plain_dim_value [of ok, OF assms(1)]
  have "plain (?W d) (?f d)" for d by (rule plain_pipe) (simp add: w)
  note plain_fold [of dims ?W ?f, OF this]
  moreover have "concat (map ?f dims) = concat (map (enc e 8) (d_dims ?d))"
    by (induction dims) (simp_all add: dim_values_def)
  ultimately have body: "plain (fold ?W dims) (concat (map (enc e 8) (d_dims ?d)))" by simp
  define V where "V s = (let s' = fold ?W dims (reserve (1 + 2) s)
      in patch ok (w_off s) [[of_nat (length dims)], enc e 2 (of_nat (length dims * 24) :: u16)] s')" for s
  have len: "dims_len ?d = of_nat (length dims * 24)"
    using assms(2) by (simp add: dims_len_def dim_values_def unat_of_nat_small mult.commute)
  have "emits V (([of_nat (length dims)] @ enc e 2 (of_nat (length dims * 24) :: u16)) @ concat (map (enc e 8) (d_dims ?d)))"
    unfolding V_def
    by (rule emits_reserve_patch [where init = "\<lambda>s. s" and body = "fold ?W dims", OF assms(1)])
      (use body in \<open>simp_all add: plain_def\<close>)
  then have "emits V (dims_chars e ?d)" by (simp add: dims_chars_def len) (simp add: dim_values_def)
  then have "plain V (dims_chars e ?d)"
    using body patch_ok [of ok, OF assms(1)] patch_sets [of ok, OF assms(1)]
    by (simp add: plain_def V_def Let_def reserve_def del: patch.simps)
  moreover have "adios_write_var_characteristics_dims_v1 e fv ok dims s = (of_nat (length (dims_chars e ?d)), V s)" for s
    by (simp add: adios_write_var_characteristics_dims_v1_def V_def Let_def dims_chars_def length_concat_enc
        length_dim_values algebra_simps del: patch.simps)
  ultimately show thesis by (rule that)
qed


text \<open>Writers of characteristics in a header: the size of the entry is not counted by them.\<close>

definition inchars :: "(wst \<Rightarrow> wst) \<Rightarrow> u8 list \<Rightarrow> nat \<Rightarrow> bool" where
  "inchars W bs c \<longleftrightarrow> emits W bs \<and>
     (\<forall>s. w_index_size (W s) = w_index_size s + of_nat (length bs)
        \<and> w_set_len (W s) = w_set_len s + of_nat (length bs)
        \<and> w_set_count (W s) = w_set_count s + of_nat c)"

lemma inset_inchars: "inset W bs c \<Longrightarrow> inchars W bs c"
  by (simp add: inset_def inchars_def)

lemma inchars_comp: "inchars W a c \<Longrightarrow> inchars V b d \<Longrightarrow> inchars (\<lambda>s. V (W s)) (a @ b) (c + d)"
  by (simp add: inchars_def emits_comp add.assoc)

lemma inchars_pipe:
  "list_all2 (\<lambda>f (bs, c). inchars f bs c) fs bcs \<Longrightarrow>
   inchars (pipe fs) (concat (map fst bcs)) (sum_list (map snd bcs))"
proof (induction rule: list_all2_induct)
  case Nil
  then show ?case by (simp add: inchars_def emits_id)
next
  case (Cons f fs bc bcs)
  then show ?case by (auto intro: inchars_comp)
qed

text \<open>The characteristic that a variable has in its header.\<close>

definition var_transform ::
  "endian \<Rightarrow> (ADIOS_DATATYPES \<Rightarrow> u8 list \<Rightarrow> u64) \<Rightarrow> adios_var_struct \<Rightarrow> adios_index_characteristic_transform_struct" where
  "var_transform e fv v =
     (if av_transform_type v = 0 then zero_transform
      else \<lparr>tr_transform_type = av_transform_type v, tr_pre_transform_type = av_pre_transform_type v,
             tr_pre_transform_dimensions = dim_values e fv (av_pre_transform_dimensions v),
             tr_transform_metadata_len = av_transform_metadata_len v,
             tr_transform_metadata = av_transform_metadata v\<rparr>)"

definition var_ch ::
  "endian \<Rightarrow> (ADIOS_DATATYPES \<Rightarrow> u8 list \<Rightarrow> u64) \<Rightarrow> adios_var_struct \<Rightarrow> adios_index_characteristic_struct_v1" where
  "var_ch e fv v = zero_characteristic\<lparr>ch_dims := dim_values e fv (av_dimensions v), ch_bitmap := av_bitmap v,
     ch_stats := av_stats v, ch_transform := var_transform e fv v\<rparr>"

definition is_array :: "adios_var_struct \<Rightarrow> bool" where
  "is_array v \<longleftrightarrow> av_type v \<noteq> adios_string \<and> av_type v \<noteq> adios_unknown \<and> av_dimensions v \<noteq> []"

definition chars_bytes ::
  "endian \<Rightarrow> (ADIOS_DATATYPES \<Rightarrow> u8 list \<Rightarrow> u64) \<Rightarrow> plugin_infos \<Rightarrow> adios_var_struct \<Rightarrow> u8 list" where
  "chars_bytes e fv infos v =
     (if is_array v then set_bytes e (array_bytes e infos (var_ch e fv v)) (array_items (var_ch e fv v))
      else set_bytes e [] 0)"

definition var_array_ok ::
  "endian \<Rightarrow> (ADIOS_DATATYPES \<Rightarrow> u8 list \<Rightarrow> u64) \<Rightarrow> plugin_infos \<Rightarrow> adios_var_struct \<Rightarrow> bool" where
  "var_array_ok e fv infos v \<longleftrightarrow>
     array_ok infos (adios_transform_get_var_original_type_var v) (var_ch e fv v)
     \<and> (av_transform_type v \<noteq> 0 \<longrightarrow> length (av_pre_transform_dimensions v) < 2 ^ 8)
     \<and> (av_transform_type v = 0 \<longrightarrow> av_transform_metadata_len v = 0)"

lemma inchars_transform:
  assumes "\<And>n. ok n" and "plugins_ok infos" and "var_array_ok e fv infos v"
  shows "inchars (\<lambda>s. let (count, len, s) = adios_transform_serialize_transform_var e fv ok infos v s
      in s\<lparr>w_set_count := w_set_count s + count, w_index_size := w_index_size s + len,
           w_set_len := w_set_len s + ucast len\<rparr>)
    (transform_item_bytes e infos (var_transform e fv v)) (transform_items (var_transform e fv v))"
proof -
  let ?tr = "var_transform e fv v"
  obtain err d where d: "adios_transform_dereference_dimensions_characteristic e fv (av_pre_transform_dimensions v) = (err, d)"
    by (rule prod.exhaust)
  have rep: "w_mem (report err s) = w_mem s" "w_off (report err s) = w_off s"
    "w_index_size (report err s) = w_index_size s" "w_set_len (report err s) = w_set_len s"
    "w_set_count (report err s) = w_set_count s" for s by (simp_all add: report_def split: option.splits)
  show ?thesis
  proof (cases "av_transform_type v = 0")
    case True
    then show ?thesis
      using assms(3) rep
      by (simp add: inchars_def emits_def adios_transform_serialize_transform_var_def d adios_transform_serialize_transform_def
          var_array_ok_def var_transform_def transform_item_bytes_def transform_items_def)
  next
    case False
    with assms(3) have "d = dim_values e fv (av_pre_transform_dimensions v)"
      using dereference_values [of "av_pre_transform_dimensions v" e fv] d by (simp add: var_array_ok_def)
    then have ser: "adios_transform_serialize_transform_var e fv ok infos v s =
        adios_transform_serialize_transform_characteristic e ok infos ?tr (report err s)" for s
      using False
      by (simp add: adios_transform_serialize_transform_var_def d adios_transform_serialize_transform_characteristic_def var_transform_def)
    have tr: "?tr = zero_transform \<or> transform_ok infos ?tr"
      using assms(3) by (auto simp: var_array_ok_def array_ok_def var_ch_def)
    from inset_inchars [OF inset_transform_item [of ok, OF assms(1,2) tr, of e]] rep show ?thesis
      by (auto simp: inchars_def emits_def ser write_transform_item_def split_beta Let_def)
  qed
qed


lemma inchars_dims:
  assumes "\<And>n. ok n" and "length dims < 2 ^ 8"
  shows "inchars (\<lambda>s. let (len, s) = adios_write_var_characteristics_dims_v1 e fv ok dims s
      in s\<lparr>w_index_size := w_index_size s + ucast len, w_set_len := w_set_len s + ucast len\<rparr>)
    (dims_chars e (dim_values e fv dims)) 0"
proof -
  obtain V where V: "plain V (dims_chars e (dim_values e fv dims))"
    "\<And>s. adios_write_var_characteristics_dims_v1 e fv ok dims s =
      (of_nat (length (dims_chars e (dim_values e fv dims))), V s)"
    using characteristics_dims_written [of ok, OF assms] by blast
  let ?n = "length (dims_chars e (dim_values e fv dims))"
  have "?n = 3 + 24 * length dims" by (simp add: dims_chars_def length_dim_values)
  then have "unat (of_nat ?n :: u16) = ?n" using assms(2) by (intro unat_of_nat_small) simp
  from ucast_eq_of_nat [OF this] have "ucast (of_nat ?n :: u16) = (of_nat ?n :: u64)" "ucast (of_nat ?n :: u16) = (of_nat ?n :: u32)"
    by blast+
  with V show ?thesis by (simp add: inchars_def plain_def emits_def)
qed

lemma inchars_array:
  assumes "\<And>n. ok n" and "plugins_ok infos" and "var_array_ok e fv infos v"
    and "length (av_dimensions v) < 2 ^ 8"
  shows "inchars (write_array_items e fv ok infos v) (array_bytes e infos (var_ch e fv v)) (array_items (var_ch e fv v))"
proof -
  let ?type = "adios_transform_get_var_original_type_var v" and ?ch = "var_ch e fv v"
  let ?st = "zero_characteristic\<lparr>ch_bitmap := av_bitmap v, ch_stats := av_stats v\<rparr>"
  from assms(3) have a: "array_ok infos ?type ?ch" by (simp add: var_array_ok_def)
  then obtain rows where rows: "av_stats v = Some rows" "length rows = unat (adios_get_stat_set_count ?type)"
      "list_all (row_ok ?type (av_bitmap v)) rows" by (auto simp: array_ok_def var_ch_def split: option.splits)
  have d: "d_count (ch_dims ?ch) \<noteq> 0" using a by (simp add: array_ok_def)
  note w = inset_inchars [OF inset_item [of ok, OF assms(1)]] inset_inchars [OF inset_bws [of ok, OF assms(1)]]
    inset_inchars [OF inset_stats [of ok ?st, OF assms(1)]]
    inchars_dims [of ok, OF assms(1,4)] inchars_transform [of ok, OF assms(1-3)]
  let ?dims = "\<lambda>s. let (len, s) = adios_write_var_characteristics_dims_v1 e fv ok (av_dimensions v) s
      in s\<lparr>w_index_size := w_index_size s + ucast len, w_set_len := w_set_len s + ucast len\<rparr>"
  let ?tr = "\<lambda>s. let (count, len, s) = adios_transform_serialize_transform_var e fv ok infos v s
      in s\<lparr>w_set_count := w_set_count s + count, w_index_size := w_index_size s + len, w_set_len := w_set_len s + ucast len\<rparr>"
  let ?fs = "[set_item ok 4, ?dims, ?tr, set_item ok 9, bws ok (enc e 4 (av_bitmap v)), set_item ok 10,
      write_stats e ok ?type ?st]"
    and ?bs = "[([4], 1), (dims_chars e (ch_dims ?ch), 0),
      (transform_item_bytes e infos (ch_transform ?ch), transform_items (ch_transform ?ch)),
      ([9], 1), (enc e 4 (av_bitmap v), 0), ([10], 1), (concat (map (row_bytes e) rows), 0)]"
  have "list_all2 (\<lambda>f (bs, c). inchars f bs c) ?fs ?bs"
    using w rows by (simp add: var_ch_def del: One_nat_def)
  note inchars_pipe [OF this]
  moreover have "sum_list (map snd ?bs) = array_items ?ch" using d by (simp add: array_items_def)
  moreover have "concat (map fst ?bs) = array_bytes e infos ?ch"
    using d rows(1) by (simp add: array_bytes_def dims_chars_def) (simp add: var_ch_def)
  moreover have "write_array_items e fv ok infos v = pipe ?fs" by (simp add: write_array_items_def del: pipe_Cons)
  ultimately show ?thesis by simp
qed

lemma characteristics_written:
  assumes "\<And>n. ok n" and "plugins_ok infos" and "is_array v \<Longrightarrow> var_array_ok e fv infos v"
    and "length (av_dimensions v) < 2 ^ 8"
  obtains V where "emits V (chars_bytes e fv infos v)"
    and "\<And>s. adios_write_var_characteristics_v1 e fv ok infos v s = (of_nat (length (chars_bytes e fv infos v)), V s)"
proof -
  define W where "W = (if is_array v then write_array_items e fv ok infos v else (\<lambda>s. s))"
  obtain bs c where bs: "inchars W bs c" "chars_bytes e fv infos v = set_bytes e bs c"
  proof (cases "is_array v")
    case True
    with inchars_array [of ok, OF assms(1,2,3,4)] that show thesis by (simp add: W_def chars_bytes_def)
  next
    case False
    with that [of "[]" 0] show thesis by (simp add: W_def chars_bytes_def inchars_def emits_id)
  qed
  define V where "V s = (let s' = W (reserve (1 + 4) (s\<lparr>w_index_size := 1 + 4, w_set_len := 0, w_set_count := 0\<rparr>))
      in patch ok (w_off s) [[w_set_count s'], enc e 4 (w_set_len s')] s')" for s
  have "emits V (([of_nat c] @ enc e 4 (of_nat (length bs) :: u32)) @ bs)"
    unfolding V_def
    by (rule emits_reserve_patch [OF assms(1)]) (use bs(1) in \<open>simp_all add: inchars_def reserve_def\<close>)
  then have "emits V (chars_bytes e fv infos v)" by (simp add: bs(2) set_bytes_def)
  moreover have "adios_write_var_characteristics_v1 e fv ok infos v s = (of_nat (length (chars_bytes e fv infos v)), V s)" for s
  proof -
    have "w_index_size (W (reserve (1 + 4) (s\<lparr>w_index_size := 1 + 4, w_set_len := 0, w_set_count := 0\<rparr>))) =
        of_nat (length (chars_bytes e fv infos v))"
      using bs by (simp add: inchars_def reserve_def set_bytes_def)
    moreover have "(if av_type v \<noteq> adios_string \<and> av_type v \<noteq> adios_unknown \<and> av_dimensions v \<noteq> []
        then write_array_items e fv ok infos v s1 else s1) = W s1" for s1 by (simp add: W_def is_array_def)
    ultimately show ?thesis
      using ucast_of_nat_down [of "length (chars_bytes e fv infos v)", where 'a = 64 and 'b = 16]
      by (simp add: adios_write_var_characteristics_v1_def V_def Let_def del: patch.simps)
  qed
  ultimately show thesis by (rule that)
qed


lemma counted_str:
  assumes "\<And>n. ok n" and "str_ok str"
  shows "counted (bw_str e ok str) (enc_string e str)"
proof -
  have len: "length str < 2 ^ 16" using assms(2) by (simp add: str_ok_def)
  then have n: "unat (of_nat (length str) :: u16) = length str" by (simp add: unat_of_nat_small)
  from ucast_eq_of_nat [OF n] have "ucast (of_nat (length str) :: u16) = (of_nat (length str) :: u64)" by blast
  with n plain_comp [OF plain_bw [of ok "enc e 2 (of_nat (length str) :: u16)", OF assms(1)]
      plain_bw [of ok "bytes_of_string str", OF assms(1)]]
  show ?thesis
    unfolding counted_def bw_str_def enc_string_def by (intro exI) (auto simp: Let_def)
qed

definition header_body ::
  "endian \<Rightarrow> (ADIOS_DATATYPES \<Rightarrow> u8 list \<Rightarrow> u64) \<Rightarrow> plugin_infos \<Rightarrow> adios_var_struct \<Rightarrow> u8 list" where
  "header_body e fv infos v =
     enc e 4 (av_id v) @ enc_string e (av_name v) @ enc_string e (av_path v)
     @ [word_of_int (type_code (av_type v))]
     @ [byte_of_char (if av_is_dim v = adios_flag_yes then CHR ''y'' else CHR ''n'')]
     @ dims_bytes e (av_dimensions v) @ chars_bytes e fv infos v"

definition payload_size :: "endian \<Rightarrow> adios_var_struct \<Rightarrow> u64" where
  "payload_size e v = snd (adios_get_var_size e (av_type v) (av_dimensions v) (av_data v))"

definition header_bytes ::
  "endian \<Rightarrow> (ADIOS_DATATYPES \<Rightarrow> u8 list \<Rightarrow> u64) \<Rightarrow> plugin_infos \<Rightarrow> adios_var_struct \<Rightarrow> u8 list" where
  "header_bytes e fv infos v =
     enc e 8 (of_nat (8 + length (header_body e fv infos v)) + payload_size e v) @ header_body e fv infos v"

text \<open>
  Variables that are written as they should: the names and the characteristics fit their 16-bit
  sizes, and the data are there.
\<close>

definition var_data_ok ::
  "endian \<Rightarrow> (ADIOS_DATATYPES \<Rightarrow> u8 list \<Rightarrow> u64) \<Rightarrow> plugin_infos \<Rightarrow> adios_var_struct \<Rightarrow> bool" where
  "var_data_ok e fv infos v \<longleftrightarrow>
     plugins_ok infos \<and> str_ok (av_name v) \<and> str_ok (av_path v) \<and> av_type v \<noteq> adios_unknown
     \<and> length (av_dimensions v) < 2 ^ 8 \<and> (is_array v \<longrightarrow> var_array_ok e fv infos v)
     \<and> length (chars_bytes e fv infos v) < 2 ^ 16
     \<and> (case av_data v of None \<Rightarrow> False | Some data \<Rightarrow> length data = unat (payload_size e v))"

lemma length_dims_bytes: "length dims < 2 ^ 8 \<Longrightarrow> length (dims_bytes e dims) < 2 ^ 16"
proof -
  assume n: "length dims < 2 ^ 8"
  have "length (dim_bytes e d) \<le> 27" for d by (simp add: dim_bytes_def item_bytes_def)
  then have "length (concat (map (dim_bytes e) dims)) \<le> 27 * length dims"
    by (induction dims) (simp_all add: add_mono)
  with n show ?thesis by (simp add: dims_bytes_def)
qed


lemma characteristics_write_offset [simp]:
  "adios_write_var_characteristics_v1 e fv ok infos (v\<lparr>av_write_offset := x\<rparr>) =
   adios_write_var_characteristics_v1 e fv ok infos v"
proof -
  have "write_array_items e fv ok infos (v\<lparr>av_write_offset := x\<rparr>) = write_array_items e fv ok infos v"
    by (simp add: write_array_items_def adios_transform_serialize_transform_var_def
        adios_transform_get_var_original_type_var_def del: pipe_Cons)
  then show ?thesis
    by (intro ext) (simp add: adios_write_var_characteristics_v1_def Let_def del: patch.simps)
qed

lemma var_header_written:
  assumes "\<And>n. ok n" and "var_data_ok e fv infos v"
  obtains V where "emits V (header_bytes e fv infos v)"
    and "\<And>fd. adios_write_var_header_v1 e fv ok infos v fd =
      (of_nat (8 + length (header_body e fv infos v)) + payload_size e v,
       v\<lparr>av_write_offset := of_nat (w_off (fd_w fd)) + fd_base_offset fd\<rparr>,
       bytes_written (fd\<lparr>fd_w := V (fd_w fd), fd_vars_written := fd_vars_written fd + 1\<rparr>))"
proof -
  have ok: "plugins_ok infos" "str_ok (av_name v)" "str_ok (av_path v)" "length (av_dimensions v) < 2 ^ 8"
    "is_array v \<Longrightarrow> var_array_ok e fv infos v" "length (chars_bytes e fv infos v) < 2 ^ 16"
    using assms(2) by (simp_all add: var_data_ok_def)
  obtain err n where size: "adios_get_var_size e (av_type v) (av_dimensions v) (av_data v) = (err, n)" by (rule prod.exhaust)
  note w = plain_bw [of ok, OF assms(1)]
  from counted_comp [OF counted_str [of ok, OF assms(1) ok(2)] counted_str [of ok, OF assms(1) ok(3)], of e e]
  obtain S where S: "plain S (enc_string e (av_name v) @ enc_string e (av_path v))"
    "\<And>n s. bw_str e ok (av_path v) (bw_str e ok (av_name v) (n, s)) =
      (n + of_nat (length (enc_string e (av_name v) @ enc_string e (av_path v))), S s)" by (auto simp: counted_def)
  obtain D where D: "plain D (dims_bytes e (av_dimensions v))"
    "\<And>s. adios_write_dimensions_v1 e ok (av_dimensions v) s = (of_nat (length (dims_bytes e (av_dimensions v))), D s)"
    using dimensions_written [of ok, OF assms(1)] by blast
  obtain C where C: "emits C (chars_bytes e fv infos v)"
    "\<And>s. adios_write_var_characteristics_v1 e fv ok infos v s = (of_nat (length (chars_bytes e fv infos v)), C s)"
    using characteristics_written [of ok infos v e fv, OF assms(1) ok(1,5,4)] by blast
  define total :: u64 where "total = 8 + 4 + of_nat (length (enc_string e (av_name v) @ enc_string e (av_path v))) + 1 + 1
      + ucast (of_nat (length (dims_bytes e (av_dimensions v))) :: u16)
      + ucast (of_nat (length (chars_bytes e fv infos v)) :: u16) + n"
  have "ucast (of_nat k :: u16) = (of_nat k :: u64)" if "k < 2 ^ 16" for k
    using that by (intro ucast_eq_of_nat unat_of_nat_small) simp
  then have total: "total = of_nat (8 + length (header_body e fv infos v)) + n"
    using ok(4,6) length_dims_bytes [OF ok(4), of e] by (simp add: header_body_def total_def)
  let ?type = "[word_of_int (type_code (av_type v))]"
    and ?dim = "[byte_of_char (if av_is_dim v = adios_flag_yes then CHR ''y'' else CHR ''n'')]"
  define B where "B s = report err (C (D (bw ok ?dim (bw ok ?type (S (bw ok (enc e 4 (av_id v)) s))))))" for s
  define V where "V s = (let s' = B (reserve 8 s) in patch ok (w_off s) [enc e 8 total] s')" for s
  have em: "emits W bs" if "plain W bs" for W bs using that by (simp add: plain_def)
  have "emits (pipe [bw ok (enc e 4 (av_id v)), S, bw ok ?type, bw ok ?dim, D, C, report err])
      (concat [enc e 4 (av_id v), enc_string e (av_name v) @ enc_string e (av_path v), ?type, ?dim,
        dims_bytes e (av_dimensions v), chars_bytes e fv infos v, []])"
    by (rule emits_pipe) (use em [OF S(1)] em [OF w] em [OF D(1)] C(1) em [OF plain_report] in simp)
  then have "emits B (header_body e fv infos v)" by (simp add: B_def [abs_def] header_body_def)
  then have "emits V (enc e 8 total @ header_body e fv infos v)"
    unfolding V_def by (intro emits_reserve_patch [where init = "\<lambda>s. s", OF assms(1)]) simp_all
  then have "emits V (header_bytes e fv infos v)" by (simp add: header_bytes_def payload_size_def size total)
  moreover have "adios_write_var_header_v1 e fv ok infos v fd =
      (total, v\<lparr>av_write_offset := of_nat (w_off (fd_w fd)) + fd_base_offset fd\<rparr>,
       bytes_written (fd\<lparr>fd_w := V (fd_w fd), fd_vars_written := fd_vars_written fd + 1\<rparr>))" for fd
    by (simp add: adios_write_var_header_v1_def Let_def S(2) D(2) C(2) size V_def B_def total_def del: patch.simps)
  ultimately show thesis by (intro that) (simp_all add: payload_size_def size total)
qed


section \<open>What is written into the buffer of a file\<close>

text \<open>Writers of variables or attributes into the buffer of a file: \<open>n\<close> of them, as the bytes \<open>bs\<close>.\<close>

definition fills :: "(adios_file_struct \<Rightarrow> adios_file_struct) \<Rightarrow> u8 list \<Rightarrow> nat \<Rightarrow> bool" where
  "fills F bs n \<longleftrightarrow>
     (\<forall>fd. w_mem (fd_w (F fd)) = put_bytes (w_off (fd_w fd)) bs (w_mem (fd_w fd))
        \<and> w_off (fd_w (F fd)) = w_off (fd_w fd) + length bs
        \<and> fd_vars_start (F fd) = fd_vars_start fd \<and> fd_vars_written (F fd) = fd_vars_written fd + of_nat n)"

lemma fills_id: "fills (\<lambda>fd. fd) [] 0"
  by (simp add: fills_def)

lemma fills_comp: "fills F as m \<Longrightarrow> fills G bs n \<Longrightarrow> fills (\<lambda>fd. G (F fd)) (as @ bs) (m + n)"
  by (simp add: fills_def put_bytes_append add.assoc)

lemma fills_fold:
  "(\<And>x. x \<in> set xs \<Longrightarrow> fills (F x) (f x) 1) \<Longrightarrow> fills (fold F xs) (concat (map f xs)) (length xs)"
proof (induction xs)
  case (Cons x xs)
  then show ?case using fills_comp [of "F x" "f x" 1 "fold F xs"] by (simp add: comp_def)
qed (simp add: fills_id id_def)

lemma bytes_written_fields [simp]:
  "fd_w (bytes_written fd) = fd_w fd" "fd_vars_start (bytes_written fd) = fd_vars_start fd"
  "fd_vars_written (bytes_written fd) = fd_vars_written fd"
  by (simp_all add: bytes_written_def)

text \<open>A section: the count and the size in front of what was written in between.\<close>

definition section_bytes :: "endian \<Rightarrow> u8 list \<Rightarrow> nat \<Rightarrow> u8 list" where
  "section_bytes e bs n = enc e 4 (of_nat n :: u32) @ enc e 8 (of_nat (12 + length bs) :: u64) @ bs"

lemma section_closed:
  assumes "\<And>n. ok n" and "fills F bs n"
    and "w_mem (fd_w fd1) = w_mem (fd_w fd)" and "w_off (fd_w fd1) = w_off (fd_w fd) + 12"
    and "fd_vars_start fd1 = w_off (fd_w fd)" and "fd_vars_written fd1 = 0" and "fd2 = F fd1"
  shows "w_mem (fd_w (adios_write_close_vars_v1 e ok fd2)) = put_bytes (w_off (fd_w fd)) (section_bytes e bs n) (w_mem (fd_w fd))"
    and "w_off (fd_w (adios_write_close_vars_v1 e ok fd2)) = w_off (fd_w fd) + length (section_bytes e bs n)"
proof -
  let ?hdr = "enc e 4 (of_nat n :: u32) @ enc e 8 (of_nat (12 + length bs) :: u64)"
  have fd2: "w_mem (fd_w fd2) = put_bytes (w_off (fd_w fd) + 12) bs (w_mem (fd_w fd))"
    "w_off (fd_w fd2) = w_off (fd_w fd) + (12 + length bs)" "fd_vars_start fd2 = w_off (fd_w fd)"
    "fd_vars_written fd2 = of_nat n"
    using assms(2-7) by (simp_all add: fills_def)
  have close: "fd_w (adios_write_close_vars_v1 e ok fd2) = patch ok (w_off (fd_w fd))
      [enc e 4 (of_nat n :: u32), enc e 8 (of_nat (12 + length bs) :: u64)] (fd_w fd2)"
    by (simp add: adios_write_close_vars_v1_def fd2 Let_def split_beta)
  note p = patch_ok [of ok, OF assms(1)]
  show "w_mem (fd_w (adios_write_close_vars_v1 e ok fd2)) = put_bytes (w_off (fd_w fd)) (section_bytes e bs n) (w_mem (fd_w fd))"
    using p put_bytes_append [of "w_off (fd_w fd)" ?hdr bs] by (simp add: close fd2 section_bytes_def del: patch.simps)
  show "w_off (fd_w (adios_write_close_vars_v1 e ok fd2)) = w_off (fd_w fd) + length (section_bytes e bs n)"
    using p by (simp add: close fd2 section_bytes_def del: patch.simps)
qed


text \<open>A variable: its header and its data.\<close>

definition data_bytes ::
  "endian \<Rightarrow> (ADIOS_DATATYPES \<Rightarrow> u8 list \<Rightarrow> u64) \<Rightarrow> plugin_infos \<Rightarrow> adios_var_struct \<Rightarrow> u8 list" where
  "data_bytes e fv infos v = header_bytes e fv infos v @ the (av_data v)"

lemma fills_var:
  assumes "\<And>n. ok n" and "var_data_ok e fv infos v"
  shows "fills (buffer_var e fv ok infos v) (data_bytes e fv infos v) 1"
proof -
  obtain V where V: "emits V (header_bytes e fv infos v)"
    and eq: "\<And>fd. adios_write_var_header_v1 e fv ok infos v fd =
      (of_nat (8 + length (header_body e fv infos v)) + payload_size e v,
       v\<lparr>av_write_offset := of_nat (w_off (fd_w fd)) + fd_base_offset fd\<rparr>,
       bytes_written (fd\<lparr>fd_w := V (fd_w fd), fd_vars_written := fd_vars_written fd + 1\<rparr>))"
    using var_header_written [of ok, OF assms] by blast
  obtain err n where size: "adios_get_var_size e (av_type v) (av_dimensions v) (av_data v) = (err, n)" by (rule prod.exhaust)
  then have "payload_size e v = n" by (simp add: payload_size_def)
  then obtain data where data: "av_data v = Some data" "length data = unat n"
    using assms(2) by (auto simp: var_data_ok_def split: option.splits)
  have "emits (\<lambda>s. bw ok data (report err (V s))) (header_bytes e fv infos v @ [] @ data)"
    using emits_comp [OF V emits_comp [of "report err" "[]" "bw ok data", OF _ emits_bw [of ok, OF assms(1)]]] plain_report [of err]
    by (simp add: plain_def)
  then show ?thesis
    using size data
    by (simp add: fills_def emits_def buffer_var_def eq adios_write_var_payload_v1_def data_bytes_def)
qed

text \<open>Attributes that are written as they should, and their bytes.\<close>

definition attr_data_ok :: "adios_attribute_struct \<Rightarrow> bool" where
  "attr_data_ok a \<longleftrightarrow>
     str_ok (aa_name a) \<and> str_ok (aa_path a)
     \<and> (case aa_var a of
          Some _ \<Rightarrow> True
        | None \<Rightarrow> aa_type a \<noteq> adios_unknown
            \<and> (case aa_value a of None \<Rightarrow> False
               | Some bs \<Rightarrow> if aa_type a = adios_string then 0 \<notin> set bs \<and> length bs < 2 ^ 32
                           else length bs = unat (adios_get_type_size (aa_type a) None)))"

definition attr_data_body :: "endian \<Rightarrow> adios_attribute_struct \<Rightarrow> u8 list" where
  "attr_data_body e a =
     enc e 4 (aa_id a) @ enc_string e (aa_name a) @ enc_string e (aa_path a)
     @ [byte_of_char (if aa_var a \<noteq> None then CHR ''y'' else CHR ''n'')]
     @ (case aa_var a of
          Some var \<Rightarrow> enc e 4 (vr_id var)
        | None \<Rightarrow> [word_of_int (type_code (aa_type a))] @ enc e 4 (of_nat (length (the (aa_value a))) :: u32)
            @ the (aa_value a))"

definition attr_data_bytes :: "endian \<Rightarrow> adios_attribute_struct \<Rightarrow> u8 list" where
  "attr_data_bytes e a = enc e 4 (of_nat (length (attr_data_body e a)) :: u32) @ attr_data_body e a"

lemma attr_value_size:
  assumes "attr_data_ok a" and "aa_var a = None"
  obtains bs where "aa_value a = Some bs" and "length bs < 2 ^ 32"
    and "ucast (adios_get_type_size (aa_type a) (Some (string_of_bytes bs))) = (of_nat (length bs) :: u32)"
proof -
  obtain bs where bs: "aa_value a = Some bs" using assms by (auto simp: attr_data_ok_def split: option.splits)
  show thesis
  proof (cases "aa_type a = adios_string")
    case True
    then have "0 \<notin> set bs" "length bs < 2 ^ 32" using assms bs by (simp_all add: attr_data_ok_def)
    then have "adios_get_type_size (aa_type a) (Some (string_of_bytes bs)) = of_nat (length bs)"
      by (simp add: True string_value_size)
    with that [OF bs] \<open>length bs < 2 ^ 32\<close> show thesis by (simp add: ucast_of_nat_down)
  next
    case False
    then have "length bs = unat (adios_get_type_size (aa_type a) None)" "aa_type a \<noteq> adios_unknown"
      using assms bs by (simp_all add: attr_data_ok_def)
    then show thesis using bs False by (intro that [OF bs]; cases "aa_type a") simp_all
  qed
qed

lemma attribute_value_offset [simp]:
  "write_attribute_value e ok (a\<lparr>aa_write_offset := x\<rparr>) = write_attribute_value e ok a"
  by (intro ext) (simp add: write_attribute_value_def split: option.split)

lemma fills_attribute:
  assumes "\<And>n. ok n" and "attr_data_ok a"
  shows "fills (\<lambda>fd. snd (adios_write_attribute_v1 e ok a fd)) (attr_data_bytes e a) 1"
proof -
  have ok: "str_ok (aa_name a)" "str_ok (aa_path a)" using assms(2) by (simp_all add: attr_data_ok_def)
  let ?strs = "enc_string e (aa_name a) @ enc_string e (aa_path a)"
    and ?flag = "[byte_of_char (if aa_var a \<noteq> None then CHR ''y'' else CHR ''n'')]"
  note w = plain_bw [of ok, OF assms(1)]
  from counted_comp [OF counted_str [of ok, OF assms(1) ok(1)] counted_str [of ok, OF assms(1) ok(2)], of e e]
  obtain S where S: "plain S ?strs"
    "\<And>n s. bw_str e ok (aa_path a) (bw_str e ok (aa_name a) (n, s)) = (n + of_nat (length ?strs), S s)"
    by (auto simp: counted_def)
  have size1: "ucast (4 + of_nat (length ?strs) :: u64) = (of_nat (4 + length ?strs) :: u32)"
  proof -
    have "4 + of_nat (length ?strs) = (of_nat (4 + length ?strs) :: u64)" by simp
    then show ?thesis by (elim ssubst) (rule ucast_of_nat_down, simp)
  qed
  obtain R tail where R: "plain R tail"
    "attr_data_body e a = enc e 4 (aa_id a) @ ?strs @ ?flag @ tail"
    "\<And>s2. write_attribute_value e ok a (4 + of_nat (length ?strs)) s2 =
          (of_nat (length (attr_data_body e a)), R s2)"
  proof (cases "aa_var a")
    case (Some var)
    show thesis
      by (rule that [OF w, of "enc e 4 (vr_id var)"]) (simp_all add: write_attribute_value_def Some attr_data_body_def size1 [simplified] add.assoc)
  next
    case None
    from attr_value_size [OF assms(2) None] obtain bs where bs: "aa_value a = Some bs" "length bs < 2 ^ 32"
        "ucast (adios_get_type_size (aa_type a) (Some (string_of_bytes bs))) = (of_nat (length bs) :: u32)" .
    have n: "unat (of_nat (length bs) :: u32) = length bs" using bs(2) by (simp add: unat_of_nat_small)
    let ?fs = "[bw ok [word_of_int (type_code (aa_type a))], bw ok (enc e 4 (of_nat (length bs) :: u32)), bw ok bs]"
    have "plain (pipe ?fs) (concat [[word_of_int (type_code (aa_type a))], enc e 4 (of_nat (length bs) :: u32), bs])"
      by (rule plain_pipe) (simp add: w)
    from that [OF this] show thesis
      by (simp add: write_attribute_value_def None bs n attr_data_body_def size1 [simplified] report_def Let_def add.assoc)
  qed
  let ?B = "\<lambda>s. R (bw ok ?flag (S (bw ok (enc e 4 (aa_id a)) s)))"
  have "plain (pipe [bw ok (enc e 4 (aa_id a)), S, bw ok ?flag, R]) (concat [enc e 4 (aa_id a), ?strs, ?flag, tail])"
    by (rule plain_pipe) (simp add: w S(1) R(1))
  then have "emits ?B (attr_data_body e a)" by (simp add: plain_def R(2))
  then have "emits (\<lambda>s. let s' = ?B (reserve 4 s) in patch ok (w_off s) [enc e 4 (of_nat (length (attr_data_body e a)) :: u32)] s')
      (attr_data_bytes e a)"
    unfolding attr_data_bytes_def by (intro emits_reserve_patch [where init = "\<lambda>s. s", OF assms(1)]) simp_all
  moreover have "snd (adios_write_attribute_v1 e ok a fd) = bytes_written (fd\<lparr>fd_w :=
      (let s' = ?B (reserve 4 (fd_w fd)) in patch ok (w_off (fd_w fd)) [enc e 4 (of_nat (length (attr_data_body e a)) :: u32)] s'),
      fd_vars_written := fd_vars_written fd + 1\<rparr>)" for fd
    using R(3) by (simp add: adios_write_attribute_v1_def S(2) Let_def del: patch.simps length_append of_nat_add)
  ultimately show ?thesis by (simp add: fills_def emits_def)
qed


text \<open>The data of a process group: the section of the variables and the section of the attributes.\<close>

definition group_data_bytes ::
  "endian \<Rightarrow> (ADIOS_DATATYPES \<Rightarrow> u8 list \<Rightarrow> u64) \<Rightarrow> plugin_infos \<Rightarrow> adios_var_struct list
    \<Rightarrow> adios_attribute_struct list \<Rightarrow> u8 list" where
  "group_data_bytes e fv infos vars attrs =
     section_bytes e (concat (map (data_bytes e fv infos) vars)) (length vars)
     @ section_bytes e (concat (map (attr_data_bytes e) attrs)) (length attrs)"

lemma close_attributes_vars: "adios_write_close_attributes_v1 = adios_write_close_vars_v1"
  by (intro ext) (simp add: adios_write_close_attributes_v1_def adios_write_close_vars_v1_def)

lemma group_data_written:
  assumes "\<And>n. ok n" and "list_all (var_data_ok e fv infos) vars" and "list_all attr_data_ok attrs"
    and "process_id = 0 \<or> subfile_index \<noteq> -1"
    and "fd' = close_buffer e ok process_id subfile_index attrs
      (fold (buffer_var e fv ok infos) vars (adios_write_open_vars_v1 fd))"
  shows "w_mem (fd_w fd') = put_bytes (w_off (fd_w fd)) (group_data_bytes e fv infos vars attrs) (w_mem (fd_w fd))"
    and "w_off (fd_w fd') = w_off (fd_w fd) + length (group_data_bytes e fv infos vars attrs)"
proof -
  let ?V = "concat (map (data_bytes e fv infos) vars)" and ?A = "concat (map (attr_data_bytes e) attrs)"
  define fd2 where "fd2 = adios_write_close_vars_v1 e ok (fold (buffer_var e fv ok infos) vars (adios_write_open_vars_v1 fd))"
  have V: "fills (fold (buffer_var e fv ok infos) vars) ?V (length vars)"
    using assms(2) by (intro fills_fold fills_var [of ok, OF assms(1)]) (simp add: list_all_iff)
  have A: "fills (fold (\<lambda>a fd. snd (adios_write_attribute_v1 e ok a fd)) attrs) ?A (length attrs)"
    using assms(3) by (intro fills_fold fills_attribute [of ok, OF assms(1)]) (simp add: list_all_iff)
  have v: "w_mem (fd_w fd2) = put_bytes (w_off (fd_w fd)) (section_bytes e ?V (length vars)) (w_mem (fd_w fd))"
    "w_off (fd_w fd2) = w_off (fd_w fd) + length (section_bytes e ?V (length vars))"
    unfolding fd2_def
    by (rule section_closed [of ok, OF assms(1) V _ _ _ _ refl]; simp add: adios_write_open_vars_v1_def reserve_def)+
  have fd': "fd' = adios_write_close_vars_v1 e ok (fold (\<lambda>a fd. snd (adios_write_attribute_v1 e ok a fd)) attrs
      (adios_write_open_attributes_v1 fd2))"
    using assms(4) by (simp add: assms(5) close_buffer_def fd2_def Let_def close_attributes_vars)
  have a: "w_mem (fd_w fd') = put_bytes (w_off (fd_w fd2)) (section_bytes e ?A (length attrs)) (w_mem (fd_w fd2))"
    "w_off (fd_w fd') = w_off (fd_w fd2) + length (section_bytes e ?A (length attrs))"
    unfolding fd'
    by (rule section_closed [of ok, OF assms(1) A _ _ _ _ refl]; simp add: adios_write_open_attributes_v1_def reserve_def)+
  show "w_mem (fd_w fd') = put_bytes (w_off (fd_w fd)) (group_data_bytes e fv infos vars attrs) (w_mem (fd_w fd))"
    "w_off (fd_w fd') = w_off (fd_w fd) + length (group_data_bytes e fv infos vars attrs)"
    using a v by (simp_all add: group_data_bytes_def put_bytes_append)
qed

end
