(* ===== verification/Hashtbl.thy ===== *)
theory Hashtbl
  imports Adios_Types
begin

text \<open>
  The chained hash table of \<open>core/qhashtbl.c\<close> that maps variable and attribute paths to
  their definitions. The nodes live in an explicit heap (addresses are natural numbers, 0 is
  the null pointer), every slot has a head and a tail pointer, and the loops follow \<open>next\<close>
  pointers, so that the pointer surgery of \<open>put\<close>, \<open>remove\<close> and \<open>clear\<close> is what is verified.
  A walk that meets a dangling pointer, or does not end, is \<open>None\<close>. The number of nodes (an \<open>int\<close>) and
  the counters of calls and walks are unbounded numbers here: a table holds fewer than \<open>2 ^ 31\<close> nodes.
\<close>

section \<open>The hash function\<close>

definition murmur_c1 :: u32 where "murmur_c1 = 0xcc9e2d51"

definition murmur_c2 :: u32 where "murmur_c2 = 0x1b873593"

definition murmur_block :: "u32 \<Rightarrow> u32 \<Rightarrow> u32" where
  "murmur_block k h =
     (let k1 = k * murmur_c1;
          k2 = push_bit 15 k1 OR drop_bit (32 - 15) k1;
          k3 = k2 * murmur_c2;
          h1 = h XOR k3;
          h2 = push_bit 13 h1 OR drop_bit (32 - 13) h1
      in h2 * 5 + 0xe6546b64)"

text \<open>The \<open>switch\<close> on the number of trailing bytes, whose cases fall through.\<close>

definition murmur_tail :: "u8 list \<Rightarrow> u32 \<Rightarrow> u32" where
  "murmur_tail bs h =
     (let k0 = 0;
          k1 = (if length bs = 3 then k0 XOR push_bit 16 (ucast (bs ! 2)) else k0);
          k2 = (if length bs \<ge> 2 then k1 XOR push_bit 8 (ucast (bs ! 1)) else k1)
      in if length bs = 0 then h
         else let k3 = k2 XOR ucast (bs ! 0);
                  k4 = k3 * murmur_c1;
                  k5 = push_bit 13 k4 OR drop_bit (32 - 15) k4;
                  k6 = k5 * murmur_c2
              in h XOR k6)"

definition murmur_final :: "u32 \<Rightarrow> u32" where
  "murmur_final h =
     (let h1 = h XOR drop_bit 16 h;
          h2 = h1 * 0x85ebca6b;
          h3 = h2 XOR drop_bit 13 h2;
          h4 = h3 * 0xc2b2ae35
      in h4 XOR drop_bit 16 h4)"

definition qhashmurmur3_32 :: "endian \<Rightarrow> u8 list \<Rightarrow> u32" where
  "qhashmurmur3_32 e data =
     (let nbytes = length data in
        if nbytes = 0 then 0
        else let nblocks = nbytes div 4;
                 blocks = (\<lambda>i. dec e (take 4 (drop (4 * i) data)) :: u32);
                 tail = drop (nblocks * 4) data;
                 h = fold (\<lambda>i. murmur_block (blocks i)) [0..<nblocks] 0;
                 h' = murmur_tail tail h
             in murmur_final (h' XOR of_nat nbytes))"

section \<open>The table\<close>

type_synonym addr = nat

record 'v qhnobj_t =
  qh_hash :: u32
  qh_key :: cstring
  qh_value :: "'v option" \<comment> \<open>\<open>None\<close> is the null pointer\<close>
  qh_next :: addr

type_synonym 'v qheap = "addr \<rightharpoonup> 'v qhnobj_t"

record qhslot_t =
  qh_head :: addr
  qh_tail :: addr

record 'v qhashtbl_t =
  qh_num :: int
  qh_range :: int
  qh_slots :: "qhslot_t list"
  ncalls_get :: nat
  nwalks_get :: nat
  ncalls_put :: nat
  nwalks_put :: nat
  qh_heap :: "'v qheap" \<comment> \<open>the nodes of the table\<close>
  qh_fresh :: addr \<comment> \<open>the address the next \<open>malloc\<close> returns\<close>

text \<open>\<open>qhashtbl (range)\<close>; the two flags say whether the two calls of \<open>malloc\<close> succeed.\<close>

definition qhashtbl :: "bool \<Rightarrow> bool \<Rightarrow> int \<Rightarrow> 'v qhashtbl_t option" where
  "qhashtbl tbl_ok slots_ok rng =
     (if rng = 0 then None
      else if \<not> tbl_ok then None
      else if \<not> slots_ok then None
      else Some \<lparr>qh_num = 0, qh_range = rng,
             qh_slots = replicate (nat rng) \<lparr>qh_head = 0, qh_tail = 0\<rparr>,
             ncalls_get = 0, nwalks_get = 0, ncalls_put = 0, nwalks_put = 0,
             qh_heap = Map.empty, qh_fresh = 1\<rparr>)"

definition genkey :: "cstring option \<Rightarrow> cstring \<Rightarrow> cstring" where
  "genkey path name =
     (case path of
        None \<Rightarrow> name
      | Some p \<Rightarrow>
          if p = '''' then name
          else if p = ''/'' then ''/'' @ name
          else p @ ''/'' @ name)"

text \<open>\<open>hash % range\<close>: the \<open>int\<close> range is converted to unsigned for the remainder.\<close>

definition qh_idx :: "'v qhashtbl_t \<Rightarrow> u32 \<Rightarrow> nat" where
  "qh_idx tbl hash = unat (hash mod word_of_int (qh_range tbl))"

definition qh_key_hash :: "endian \<Rightarrow> cstring \<Rightarrow> u32" where
  "qh_key_hash e key = qhashmurmur3_32 e (bytes_of_string key)"

text \<open>
  The search loop of \<open>qhput\<close> and \<open>qhget\<close>: the address of the node found (0 if none) and the
  number of steps walked.
\<close>

partial_function (option) qh_find ::
  "'v qheap \<Rightarrow> u32 \<Rightarrow> cstring \<Rightarrow> addr \<Rightarrow> nat \<Rightarrow> (addr \<times> nat) option" where
  "qh_find h hash key obj walks =
     (if obj = 0 then Some (0, walks)
      else case h obj of
          None \<Rightarrow> None
        | Some n \<Rightarrow>
            if qh_hash n = hash \<and> qh_key n = key then Some (obj, walks)
            else qh_find h hash key (qh_next n) (walks + 1))"

text \<open>The insertion branch of \<open>qhput\<close>, for a new node at address \<open>a\<close>.\<close>

definition qh_link ::
  "'v qheap \<Rightarrow> qhslot_t \<Rightarrow> addr \<Rightarrow> 'v qhnobj_t \<Rightarrow> ('v qheap \<times> qhslot_t) option" where
  "qh_link h slot a node =
     (case (if qh_tail slot \<noteq> 0
            then map_option (\<lambda>t. h(qh_tail slot \<mapsto> t\<lparr>qh_next := a\<rparr>)) (h (qh_tail slot))
            else Some h) of
        None \<Rightarrow> None
      | Some h1 \<Rightarrow>
          Some (h1(a \<mapsto> node\<lparr>qh_next := 0\<rparr>),
            \<lparr>qh_head = (if qh_head slot = 0 then a else qh_head slot), qh_tail = a\<rparr>))"

definition qhput ::
  "endian \<Rightarrow> bool \<Rightarrow> 'v qhashtbl_t \<Rightarrow> cstring \<Rightarrow> 'v option \<Rightarrow> (bool \<times> 'v qhashtbl_t) option" where
  "qhput e malloc_ok tbl key data =
     (let hash = qh_key_hash e key;
          idx = qh_idx tbl hash;
          slot = qh_slots tbl ! idx
      in case qh_find (qh_heap tbl) hash key (qh_head slot) 0 of
           None \<Rightarrow> None
         | Some (obj, walks) \<Rightarrow>
             let tbl1 = tbl\<lparr>ncalls_put := ncalls_put tbl + 1, nwalks_put := nwalks_put tbl + walks\<rparr>
             in if obj = 0 then
                  if \<not> malloc_ok then Some (False, tbl1)
                  else
                    let a = qh_fresh tbl;
                        node = \<lparr>qh_hash = hash, qh_key = key, qh_value = data, qh_next = 0\<rparr>
                    in (case qh_link (qh_heap tbl) slot a node of
                          None \<Rightarrow> None
                        | Some (h, slot') \<Rightarrow>
                            Some (True, tbl1\<lparr>qh_heap := h, qh_fresh := a + 1,
                              qh_slots := (qh_slots tbl)[idx := slot'],
                              qh_num := qh_num tbl + 1\<rparr>))
                else Some (True, tbl1))"

definition put ::
  "endian \<Rightarrow> bool \<Rightarrow> 'v qhashtbl_t \<Rightarrow> cstring option \<Rightarrow> 'v option \<Rightarrow> (bool \<times> 'v qhashtbl_t) option" where
  "put e malloc_ok tbl fullpath data =
     (case fullpath of
        None \<Rightarrow> Some (False, tbl)
      | Some key \<Rightarrow> qhput e malloc_ok tbl key data)"

definition put2 ::
  "endian \<Rightarrow> bool \<Rightarrow> 'v qhashtbl_t \<Rightarrow> cstring option \<Rightarrow> cstring \<Rightarrow> 'v option
    \<Rightarrow> (bool \<times> 'v qhashtbl_t) option" where
  "put2 e malloc_ok tbl path name data = qhput e malloc_ok tbl (genkey path name) data"

text \<open>\<open>qhget\<close>: the value, \<open>None\<close> (with \<open>errno = ENOENT\<close>) if there is none or it is null.\<close>

definition qhget ::
  "endian \<Rightarrow> 'v qhashtbl_t \<Rightarrow> cstring \<Rightarrow> ('v option \<times> 'v qhashtbl_t) option" where
  "qhget e tbl key =
     (let hash = qh_key_hash e key;
          idx = qh_idx tbl hash;
          slot = qh_slots tbl ! idx
      in case qh_find (qh_heap tbl) hash key (qh_head slot) 0 of
           None \<Rightarrow> None
         | Some (obj, walks) \<Rightarrow>
             let tbl1 = tbl\<lparr>ncalls_get := ncalls_get tbl + 1, nwalks_get := nwalks_get tbl + walks\<rparr>
             in if obj \<noteq> 0 then map_option (\<lambda>n. (qh_value n, tbl1)) (qh_heap tbl obj)
                else Some (None, tbl1))"

definition get ::
  "endian \<Rightarrow> 'v qhashtbl_t \<Rightarrow> cstring option \<Rightarrow> ('v option \<times> 'v qhashtbl_t) option" where
  "get e tbl fullpath =
     (case fullpath of None \<Rightarrow> Some (None, tbl) | Some key \<Rightarrow> qhget e tbl key)"

definition get2 ::
  "endian \<Rightarrow> 'v qhashtbl_t \<Rightarrow> cstring option \<Rightarrow> cstring \<Rightarrow> ('v option \<times> 'v qhashtbl_t) option" where
  "get2 e tbl path name = qhget e tbl (genkey path name)"

text \<open>The loop of \<open>remove\<close>, which keeps the node before the current one.\<close>

partial_function (option) qh_find_prev ::
  "'v qheap \<Rightarrow> u32 \<Rightarrow> cstring \<Rightarrow> addr \<Rightarrow> addr \<Rightarrow> (addr \<times> addr) option" where
  "qh_find_prev h hash key prev obj =
     (if obj = 0 then Some (prev, 0)
      else case h obj of
          None \<Rightarrow> None
        | Some n \<Rightarrow>
            if qh_hash n = hash \<and> qh_key n = key then Some (prev, obj)
            else qh_find_prev h hash key obj (qh_next n))"

definition qh_unlink ::
  "'v qheap \<Rightarrow> qhslot_t \<Rightarrow> addr \<Rightarrow> addr \<Rightarrow> ('v qheap \<times> qhslot_t) option" where
  "qh_unlink h slot prev obj =
     (case h obj of
        None \<Rightarrow> None
      | Some n \<Rightarrow>
          (case (if prev = 0 then Some (h, slot\<lparr>qh_head := qh_next n\<rparr>)
                 else map_option (\<lambda>p. (h(prev \<mapsto> p\<lparr>qh_next := qh_next n\<rparr>), slot)) (h prev)) of
             None \<Rightarrow> None
           | Some (h1, slot1) \<Rightarrow>
               let slot2 = (if obj = qh_tail slot1 then slot1\<lparr>qh_tail := prev\<rparr> else slot1)
               in Some (h1(obj := None), slot2)))"

definition qhremove ::
  "endian \<Rightarrow> 'v qhashtbl_t \<Rightarrow> cstring \<Rightarrow> (bool \<times> 'v qhashtbl_t) option" where
  "qhremove e tbl key =
     (let hash = qh_key_hash e key;
          idx = qh_idx tbl hash;
          slot = qh_slots tbl ! idx
      in case qh_find_prev (qh_heap tbl) hash key 0 (qh_head slot) of
           None \<Rightarrow> None
         | Some (prev, obj) \<Rightarrow>
             if obj = 0 then Some (False, tbl)
             else (case qh_unlink (qh_heap tbl) slot prev obj of
                     None \<Rightarrow> None
                   | Some (h, slot') \<Rightarrow>
                       Some (True, tbl\<lparr>qh_heap := h, qh_slots := (qh_slots tbl)[idx := slot'],
                         qh_num := qh_num tbl - 1\<rparr>)))"

definition qhsize :: "'v qhashtbl_t \<Rightarrow> int" where
  "qhsize tbl = qh_num tbl"

text \<open>\<open>clear\<close>: the inner loop frees a chain, the outer one stops when the count is used up.\<close>

partial_function (option) qh_free_chain ::
  "'v qheap \<Rightarrow> int \<Rightarrow> addr \<Rightarrow> ('v qheap \<times> int) option" where
  "qh_free_chain h num obj =
     (if obj = 0 then Some (h, num)
      else case h obj of
          None \<Rightarrow> None
        | Some n \<Rightarrow> qh_free_chain (h(obj := None)) (num - 1) (qh_next n))"

fun clear_slots :: "nat list \<Rightarrow> 'v qhashtbl_t \<Rightarrow> 'v qhashtbl_t option" where
  "clear_slots [] tbl = Some tbl"
| "clear_slots (idx # is) tbl =
     (if qh_num tbl > 0 then
        (case qh_free_chain (qh_heap tbl) (qh_num tbl) (qh_head (qh_slots tbl ! idx)) of
           None \<Rightarrow> None
         | Some (h, num) \<Rightarrow>
             clear_slots is (tbl\<lparr>qh_heap := h, qh_num := num,
               qh_slots := (qh_slots tbl)[idx := \<lparr>qh_head = 0, qh_tail = 0\<rparr>]\<rparr>))
      else Some tbl)"

definition clear :: "'v qhashtbl_t \<Rightarrow> 'v qhashtbl_t option" where
  "clear tbl = clear_slots [0..<nat (qh_range tbl)] tbl"

section \<open>Chains\<close>

text \<open>\<open>qh_chain h p as\<close>: following \<open>next\<close> from \<open>p\<close> visits the addresses \<open>as\<close> and ends in null.\<close>

primrec qh_chain :: "'v qheap \<Rightarrow> addr \<Rightarrow> addr list \<Rightarrow> bool" where
  "qh_chain h p [] = (p = 0)"
| "qh_chain h p (a # as) =
     (p = a \<and> a \<noteq> 0 \<and> (case h a of None \<Rightarrow> False | Some n \<Rightarrow> qh_chain h (qh_next n) as))"

lemma qh_chain_frame [simp]: "x \<notin> set as \<Longrightarrow> qh_chain (h(x := v)) p as = qh_chain h p as"
  by (induction as arbitrary: p) (auto split: option.splits)

lemma qh_chain_dom: "qh_chain h p as \<Longrightarrow> a \<in> set as \<Longrightarrow> a \<noteq> 0 \<and> a \<in> dom h"
  by (induction as arbitrary: p) (auto split: option.splits)

lemma qh_chain_0 [simp]: "qh_chain h 0 as \<longleftrightarrow> as = []"
  by (cases as) auto

lemma qh_chain_head: "qh_chain h p as \<Longrightarrow> p = (if as = [] then 0 else hd as)"
  by (cases as) auto

text \<open>Linking a fresh node behind the last one, and unlinking a node.\<close>

lemma qh_chain_snoc:
  "qh_chain h p (as @ [t]) \<Longrightarrow> distinct (as @ [t]) \<Longrightarrow> a \<notin> set (as @ [t]) \<Longrightarrow> a \<noteq> 0 \<Longrightarrow>
   h t = Some n \<Longrightarrow> qh_next m = 0 \<Longrightarrow>
   qh_chain (h(t \<mapsto> n\<lparr>qh_next := a\<rparr>, a \<mapsto> m)) p (as @ [t, a])"
  by (induction as arbitrary: p) (auto split: option.splits)

lemma qh_chain_remove:
  "qh_chain h p (as @ [q, x] @ bs) \<Longrightarrow> distinct (as @ [q, x] @ bs) \<Longrightarrow>
   h q = Some n \<Longrightarrow> h x = Some m \<Longrightarrow>
   qh_chain (h(q \<mapsto> n\<lparr>qh_next := qh_next m\<rparr>, x := None)) p (as @ [q] @ bs)"
  by (induction as arbitrary: p) (auto split: option.splits)

abbreviation qh_match :: "'v qheap \<Rightarrow> u32 \<Rightarrow> cstring \<Rightarrow> addr \<Rightarrow> bool" where
  "qh_match h hash key a \<equiv>
     (case h a of None \<Rightarrow> False | Some n \<Rightarrow> qh_hash n = hash \<and> qh_key n = key)"

text \<open>The search loops end on a chain and return the first match.\<close>

lemma qh_find_hit:
  "qh_chain h p (as @ x # bs) \<Longrightarrow> \<forall>a \<in> set as. \<not> qh_match h hash key a \<Longrightarrow>
   qh_match h hash key x \<Longrightarrow> qh_find h hash key p w = Some (x, w + length as)"
proof (induction as arbitrary: p w)
  case Nil
  then show ?case by (subst qh_find.simps) (auto split: option.splits)
next
  case (Cons a as)
  then show ?case by (subst qh_find.simps) (auto split: option.splits)
qed

lemma qh_find_miss:
  "qh_chain h p as \<Longrightarrow> \<forall>a \<in> set as. \<not> qh_match h hash key a \<Longrightarrow>
   qh_find h hash key p w = Some (0, w + length as)"
proof (induction as arbitrary: p w)
  case Nil
  then show ?case by (subst qh_find.simps) auto
next
  case (Cons a as)
  then show ?case by (subst qh_find.simps) (auto split: option.splits)
qed

lemma qh_find_prev_hit:
  "qh_chain h p (as @ x # bs) \<Longrightarrow> \<forall>a \<in> set as. \<not> qh_match h hash key a \<Longrightarrow>
   qh_match h hash key x \<Longrightarrow>
   qh_find_prev h hash key q p = Some (if as = [] then q else last as, x)"
proof (induction as arbitrary: p q)
  case Nil
  then show ?case by (subst qh_find_prev.simps) (auto split: option.splits)
next
  case (Cons a as)
  then show ?case by (subst qh_find_prev.simps) (auto split: option.splits)
qed

lemma qh_find_prev_miss:
  "qh_chain h p as \<Longrightarrow> \<forall>a \<in> set as. \<not> qh_match h hash key a \<Longrightarrow>
   \<exists>r. qh_find_prev h hash key q p = Some (r, 0)"
proof (induction as arbitrary: p q)
  case Nil
  then show ?case by (subst qh_find_prev.simps) auto
next
  case (Cons a as)
  then show ?case by (subst qh_find_prev.simps) (auto split: option.splits)
qed

lemma qh_free_chain_all:
  "qh_chain h p as \<Longrightarrow> distinct as \<Longrightarrow>
   qh_free_chain h num p = Some (h |` (- set as), num - int (length as))"
proof (induction as arbitrary: h p num)
  case Nil
  then show ?case by (subst qh_free_chain.simps) auto
next
  case (Cons a as)
  then obtain n where n: "p = a" "a \<noteq> 0" "h a = Some n" "qh_chain h (qh_next n) as"
    by (auto split: option.splits)
  with Cons.prems have "qh_chain (h(a := None)) (qh_next n) as" by simp
  then have "qh_free_chain (h(a := None)) (num - 1) (qh_next n)
      = Some ((h(a := None)) |` (- set as), num - 1 - int (length as))"
    by (rule Cons.IH) (use Cons.prems(2) in simp)
  moreover have "(h(a := None)) |` (- set as) = h |` (- set (a # as))"
    by (auto simp: restrict_map_def fun_eq_iff)
  ultimately show ?case using n by (subst qh_free_chain.simps) simp
qed

lemma qh_chain_cong: "\<forall>a \<in> set as. h' a = h a \<Longrightarrow> qh_chain h' p as = qh_chain h p as"
  by (induction as arbitrary: p) (auto split: option.splits)

section \<open>Invariant and abstract view\<close>

text \<open>
  \<open>qh_wf e tbl cs\<close>: the table is well formed and \<open>cs\<close> lists, slot by slot, the addresses of
  the nodes of the slot's chain. Every node of the heap is in the chain of the slot its hash
  selects, no key occurs twice, and the count is the number of nodes.
\<close>

definition qh_slot_wf :: "'v qheap \<Rightarrow> qhslot_t \<Rightarrow> addr list \<Rightarrow> bool" where
  "qh_slot_wf h slot as \<longleftrightarrow>
     qh_chain h (qh_head slot) as \<and> qh_tail slot = (if as = [] then 0 else last as) \<and> distinct as"

definition qh_nodes_wf :: "endian \<Rightarrow> 'v qhashtbl_t \<Rightarrow> bool" where
  "qh_nodes_wf e tbl \<longleftrightarrow>
     finite (dom (qh_heap tbl)) \<and> qh_num tbl = int (card (dom (qh_heap tbl))) \<and> 0 < qh_fresh tbl
     \<and> (\<forall>a n. qh_heap tbl a = Some n \<longrightarrow>
          qh_hash n = qh_key_hash e (qh_key n) \<and> a < qh_fresh tbl)
     \<and> (\<forall>a b n m. qh_heap tbl a = Some n \<longrightarrow> qh_heap tbl b = Some m \<longrightarrow>
          qh_key n = qh_key m \<longrightarrow> a = b)"

definition qh_wf :: "endian \<Rightarrow> 'v qhashtbl_t \<Rightarrow> addr list list \<Rightarrow> bool" where
  "qh_wf e tbl cs \<longleftrightarrow>
     0 < qh_range tbl \<and> qh_range tbl < 2 ^ 31
     \<and> length (qh_slots tbl) = nat (qh_range tbl) \<and> length cs = nat (qh_range tbl)
     \<and> qh_nodes_wf e tbl
     \<and> (\<forall>i < length cs. qh_slot_wf (qh_heap tbl) (qh_slots tbl ! i) (cs ! i))
     \<and> (\<forall>i < length cs. \<forall>a. a \<in> set (cs ! i) \<longleftrightarrow>
          (\<exists>n. qh_heap tbl a = Some n \<and> qh_idx tbl (qh_hash n) = i))"

text \<open>The abstract value of a table: a map from keys to the first value put under them.\<close>

definition qh_view :: "endian \<Rightarrow> 'v qhashtbl_t \<Rightarrow> (cstring \<rightharpoonup> 'v option) \<Rightarrow> bool" where
  "qh_view e tbl m \<longleftrightarrow>
     (\<exists>cs. qh_wf e tbl cs)
     \<and> (\<forall>k v. m k = Some v \<longleftrightarrow> (\<exists>a n. qh_heap tbl a = Some n \<and> qh_key n = k \<and> qh_value n = v))"

lemma qh_idx_less: "0 < qh_range tbl \<Longrightarrow> qh_range tbl < 2 ^ 31 \<Longrightarrow> qh_idx tbl h < nat (qh_range tbl)"
proof -
  assume r: "0 < qh_range tbl" "qh_range tbl < 2 ^ 31"
  then have "unat (word_of_int (qh_range tbl) :: u32) = nat (qh_range tbl)"
    by (simp add: unsigned_of_int take_bit_int_eq_self)
  with r show ?thesis by (simp add: qh_idx_def unat_mod)
qed

lemma qh_wf_idx: "qh_wf e tbl cs \<Longrightarrow> qh_idx tbl h < length cs"
  using qh_idx_less [of tbl h] by (simp add: qh_wf_def)

lemma qh_wf_slot: "qh_wf e tbl cs \<Longrightarrow> i < length cs \<Longrightarrow> qh_slot_wf (qh_heap tbl) (qh_slots tbl ! i) (cs ! i)"
  by (simp add: qh_wf_def)

lemma qh_wf_mem:
  "qh_wf e tbl cs \<Longrightarrow> i < length cs \<Longrightarrow>
   a \<in> set (cs ! i) \<longleftrightarrow> (\<exists>n. qh_heap tbl a = Some n \<and> qh_idx tbl (qh_hash n) = i)"
  by (simp add: qh_wf_def)

lemma qh_wf_node:
  "qh_wf e tbl cs \<Longrightarrow> qh_heap tbl a = Some n \<Longrightarrow>
   qh_hash n = qh_key_hash e (qh_key n) \<and> a < qh_fresh tbl \<and> a \<in> set (cs ! qh_idx tbl (qh_hash n))"
  using qh_wf_mem [of e tbl cs "qh_idx tbl (qh_hash n)" a] qh_wf_idx [of e tbl cs "qh_hash n"]
  by (simp add: qh_wf_def qh_nodes_wf_def)

lemma qh_wf_key_unique:
  "qh_wf e tbl cs \<Longrightarrow> qh_heap tbl a = Some n \<Longrightarrow> qh_heap tbl b = Some m \<Longrightarrow>
   qh_key n = qh_key m \<Longrightarrow> a = b"
  unfolding qh_wf_def qh_nodes_wf_def by blast

lemma qh_wf_num:
  "qh_wf e tbl cs \<Longrightarrow> finite (dom (qh_heap tbl)) \<and> qh_num tbl = int (card (dom (qh_heap tbl)))"
  by (simp add: qh_wf_def qh_nodes_wf_def)

text \<open>Replacing the chain of one slot keeps the table well formed.\<close>

lemma qh_wf_update:
  assumes wf: "qh_wf e tbl cs" and i: "i < length cs"
    and tbl': "qh_range tbl' = qh_range tbl" "qh_slots tbl' = (qh_slots tbl)[i := slot']"
      "qh_slot_wf (qh_heap tbl') slot' as'" "qh_nodes_wf e tbl'"
    and same: "\<And>a. a \<notin> set (cs ! i) \<Longrightarrow> a \<notin> set as' \<Longrightarrow> qh_heap tbl' a = qh_heap tbl a"
    and new: "\<And>a. a \<in> set as' \<Longrightarrow> a \<notin> set (cs ! i) \<Longrightarrow> qh_heap tbl a = None"
    and idx: "\<And>a n. a \<in> set as' \<Longrightarrow> qh_heap tbl' a = Some n \<Longrightarrow> qh_idx tbl (qh_hash n) = i"
    and gone: "\<And>a. a \<in> set (cs ! i) \<Longrightarrow> a \<notin> set as' \<Longrightarrow> qh_heap tbl' a = None"
  shows "qh_wf e tbl' (cs[i := as'])"
proof -
  have idx': "qh_idx tbl' = qh_idx tbl" using tbl'(1) by (simp add: qh_idx_def fun_eq_iff)
  have other: "qh_heap tbl' a = qh_heap tbl a" if "a \<in> set (cs ! j)" "j < length cs" "j \<noteq> i" for a j
  proof -
    from that qh_wf_mem [OF wf that(2), of a]
    obtain n where n: "qh_heap tbl a = Some n" "qh_idx tbl (qh_hash n) = j" by blast
    then have "a \<notin> set (cs ! i)" using qh_wf_mem [OF wf i, of a] that(3) by simp
    moreover from this n have "a \<notin> set as'" using new by fastforce
    ultimately show ?thesis by (rule same)
  qed
  have "qh_slot_wf (qh_heap tbl') (qh_slots tbl' ! j) (cs[i := as'] ! j)" if "j < length cs" for j
    using that tbl'(2,3) i wf other [of _ j] qh_wf_slot [OF wf that]
      qh_chain_cong [of "cs ! j" "qh_heap tbl'" "qh_heap tbl"]
    by (cases "j = i") (auto simp: qh_slot_wf_def qh_wf_def)
  moreover have "a \<in> set (cs[i := as'] ! j)
      \<longleftrightarrow> (\<exists>n. qh_heap tbl' a = Some n \<and> qh_idx tbl' (qh_hash n) = j)" if j: "j < length cs" for a j
  proof (cases "j = i")
    case True
    have "\<exists>n. qh_heap tbl' a = Some n" if "a \<in> set as'"
      using that qh_chain_dom [of "qh_heap tbl'" _ as' a] tbl'(3) by (auto simp: qh_slot_wf_def)
    moreover have "a \<in> set as'" if "qh_heap tbl' a = Some n" "qh_idx tbl (qh_hash n) = i" for n
      using that gone [of a] same [of a] qh_wf_mem [OF wf i, of a]
      by (metis option.distinct(1))
    ultimately show ?thesis using True i idx [of a] unfolding idx' by auto
  next
    case False
    have "qh_heap tbl a = Some n" if "qh_heap tbl' a = Some n" "qh_idx tbl (qh_hash n) = j" for n
      using that False gone [of a] same [of a] idx [of a] by (metis option.distinct(1))
    moreover have "cs[i := as'] ! j = cs ! j" using False by simp
    ultimately show ?thesis
      using False j other [of a j] qh_wf_mem [OF wf j, of a] unfolding idx' by metis
  qed
  ultimately show ?thesis using wf tbl' by (simp add: qh_wf_def)
qed

text \<open>
  Where a key is looked for: either the chain of its slot has a first node with that key, or
  no node of the table has it.
\<close>

lemma qh_locate:
  assumes wf: "qh_wf e tbl cs"
  obtains (hit) as x bs n where "cs ! qh_idx tbl (qh_key_hash e key) = as @ x # bs"
      "qh_heap tbl x = Some n" "qh_key n = key" "qh_hash n = qh_key_hash e key"
      "\<forall>a \<in> set as. \<not> qh_match (qh_heap tbl) (qh_key_hash e key) key a"
    | (miss) "\<forall>a n. qh_heap tbl a = Some n \<longrightarrow> qh_key n \<noteq> key"
proof (cases "\<exists>a n. qh_heap tbl a = Some n \<and> qh_key n = key")
  case True
  then obtain a n where "qh_heap tbl a = Some n" "qh_key n = key" by blast
  with qh_wf_node [OF wf this(1)]
  have "\<exists>x \<in> set (cs ! qh_idx tbl (qh_key_hash e key)).
      qh_match (qh_heap tbl) (qh_key_hash e key) key x"
    by (intro bexI [of _ a]) auto
  then obtain as x bs where *: "cs ! qh_idx tbl (qh_key_hash e key) = as @ x # bs"
    "qh_match (qh_heap tbl) (qh_key_hash e key) key x"
    "\<forall>a \<in> set as. \<not> qh_match (qh_heap tbl) (qh_key_hash e key) key a"
    by (rule split_list_first_propE)
  from *(2) obtain n where "qh_heap tbl x = Some n" "qh_key n = key" "qh_hash n = qh_key_hash e key"
    by (auto split: option.splits)
  with * show ?thesis by (intro hit)
next
  case False
  then show ?thesis using miss by blast
qed

section \<open>The operations on well-formed tables\<close>

text \<open>What a node stores, without its link.\<close>

definition qh_content :: "'v qheap \<Rightarrow> addr \<Rightarrow> (u32 \<times> cstring \<times> 'v option) option" where
  "qh_content h a = map_option (\<lambda>n. (qh_hash n, qh_key n, qh_value n)) (h a)"

lemma qh_content_None [simp]: "qh_content h a = None \<longleftrightarrow> h a = None"
  by (simp add: qh_content_def)

lemma qh_content_node:
  "qh_content h a = qh_content h' a \<Longrightarrow> h a = Some n \<Longrightarrow>
   \<exists>n'. h' a = Some n' \<and> qh_hash n' = qh_hash n \<and> qh_key n' = qh_key n \<and> qh_value n' = qh_value n"
  by (cases "h' a") (auto simp: qh_content_def)

lemma qh_content_dom: "\<forall>a. a \<notin> A \<longrightarrow> qh_content h' a = qh_content h a \<Longrightarrow> dom h' - A = dom h - A"
proof -
  assume "\<forall>a. a \<notin> A \<longrightarrow> qh_content h' a = qh_content h a"
  then have "a \<in> dom h' \<longleftrightarrow> a \<in> dom h" if "a \<notin> A" for a
    using that qh_content_None [of h a] qh_content_None [of h' a] unfolding domIff by metis
  then show ?thesis by blast
qed

lemma qh_link_ok:
  assumes "qh_slot_wf h slot as" and "h a = None" and "a \<noteq> 0"
  obtains h' slot' where "qh_link h slot a node = Some (h', slot')"
    "qh_slot_wf h' slot' (as @ [a])" "h' a = Some (node\<lparr>qh_next := 0\<rparr>)"
    "\<forall>x. x \<noteq> a \<longrightarrow> qh_content h' x = qh_content h x"
    "\<forall>x. x \<noteq> a \<longrightarrow> x \<notin> set as \<longrightarrow> h' x = h x"
proof (cases as rule: rev_cases)
  case Nil
  with assms show ?thesis
    by (intro that [of "h(a \<mapsto> node\<lparr>qh_next := 0\<rparr>)" "\<lparr>qh_head = a, qh_tail = a\<rparr>"])
      (auto simp: qh_link_def qh_slot_wf_def qh_content_def)
next
  case (snoc bs t)
  have chain: "qh_chain h (qh_head slot) (bs @ [t])" "distinct (bs @ [t])" "qh_tail slot = t"
    using assms(1) snoc by (simp_all add: qh_slot_wf_def)
  then obtain n where n: "h t = Some n" "t \<noteq> 0" using qh_chain_dom [OF chain(1), of t] by auto
  have a: "a \<notin> set (bs @ [t])" using qh_chain_dom [OF chain(1)] assms(2) by blast
  have "qh_head slot \<noteq> 0" using chain(1) by (cases "qh_head slot = 0") auto
  then show ?thesis
    using qh_chain_snoc [OF chain(1,2) a assms(3) n(1), of "node\<lparr>qh_next := 0\<rparr>"] snoc n chain a
    by (intro that [of "h(t \<mapsto> n\<lparr>qh_next := a\<rparr>, a \<mapsto> node\<lparr>qh_next := 0\<rparr>)" "slot\<lparr>qh_tail := a\<rparr>"])
      (auto simp: qh_link_def qh_slot_wf_def qh_content_def)
qed

lemma qh_unlink_ok:
  assumes "qh_slot_wf h slot (as @ x # bs)"
  obtains h' slot' where "qh_unlink h slot (if as = [] then 0 else last as) x = Some (h', slot')"
    "qh_slot_wf h' slot' (as @ bs)" "h' x = None"
    "\<forall>y. y \<noteq> x \<longrightarrow> qh_content h' y = qh_content h y"
    "\<forall>y. y \<noteq> x \<longrightarrow> y \<notin> set (as @ bs) \<longrightarrow> h' y = h y"
proof -
  have chain: "qh_chain h (qh_head slot) (as @ x # bs)" "distinct (as @ x # bs)"
    "qh_tail slot = last (as @ x # bs)"
    using assms by (simp_all add: qh_slot_wf_def)
  then obtain m where m: "h x = Some m" "x \<noteq> 0" using qh_chain_dom [OF chain(1), of x] by auto
  show ?thesis
  proof (cases as rule: rev_cases)
    case Nil
    then have "qh_chain h (qh_next m) bs" using chain(1) m by simp
    then show ?thesis using Nil chain m
      by (intro that [of "h(x := None)" "\<lparr>qh_head = qh_next m, qh_tail = (if bs = [] then 0 else last bs)\<rparr>"])
        (auto simp: qh_unlink_def qh_slot_wf_def qh_content_def Let_def)
  next
    case (snoc cs q)
    then obtain n where n: "h q = Some n" "q \<noteq> 0" using qh_chain_dom [OF chain(1), of q] by auto
    have "qh_chain (h(q \<mapsto> n\<lparr>qh_next := qh_next m\<rparr>, x := None)) (qh_head slot) (cs @ [q] @ bs)"
      using chain(1,2) snoc n m by (intro qh_chain_remove) auto
    then show ?thesis using snoc chain m n
      by (intro that [of "h(q \<mapsto> n\<lparr>qh_next := qh_next m\<rparr>, x := None)"
            "slot\<lparr>qh_tail := (if bs = [] then q else last bs)\<rparr>"])
        (auto simp: qh_unlink_def qh_slot_wf_def qh_content_def Let_def)
  qed
qed

text \<open>Adding and dropping one node keeps the conditions on nodes.\<close>

lemma qh_nodes_wf_unique:
  "qh_nodes_wf e tbl \<Longrightarrow> qh_heap tbl a = Some n \<Longrightarrow> qh_heap tbl b = Some m \<Longrightarrow>
   qh_key n = qh_key m \<Longrightarrow> a = b"
  unfolding qh_nodes_wf_def by blast

lemma qh_nodes_wf_insert:
  assumes wf: "qh_nodes_wf e tbl" and a: "a = qh_fresh tbl" "qh_heap tbl' a = Some n"
    and n: "qh_hash n = qh_key_hash e (qh_key n)"
      "\<forall>b m. qh_heap tbl b = Some m \<longrightarrow> qh_key m \<noteq> qh_key n"
    and same: "\<forall>x. x \<noteq> a \<longrightarrow> qh_content (qh_heap tbl') x = qh_content (qh_heap tbl) x"
    and tbl': "qh_num tbl' = qh_num tbl + 1" "qh_fresh tbl' = a + 1"
  shows "qh_nodes_wf e tbl'"
proof -
  let ?h = "qh_heap tbl" and ?h' = "qh_heap tbl'"
  have fresh: "a \<notin> dom ?h" using wf a(1) by (auto simp: qh_nodes_wf_def)
  have "dom ?h' - {a} = dom ?h - {a}" using same by (intro qh_content_dom) simp
  then have dom: "dom ?h' = insert a (dom ?h)" using a(2) fresh by auto
  have old: "\<exists>m'. ?h x = Some m' \<and> qh_hash m' = qh_hash m \<and> qh_key m' = qh_key m"
    if "?h' x = Some m" "x \<noteq> a" for x m
    using that same qh_content_node [of ?h' x ?h m] by auto
  have "qh_hash m = qh_key_hash e (qh_key m) \<and> x < a + 1" if "?h' x = Some m" for x m
    using that old [OF that] a n(1) wf by (cases "x = a") (auto simp: qh_nodes_wf_def less_Suc_eq)
  moreover have "x = y" if "?h' x = Some m" "?h' y = Some m'" "qh_key m = qh_key m'" for x y m m'
    using that old [OF that(1)] old [OF that(2)] a n(2) qh_nodes_wf_unique [OF wf]
    by (metis option.inject)
  ultimately show ?thesis using wf dom fresh tbl' by (auto simp: qh_nodes_wf_def)
qed

lemma qh_nodes_wf_delete:
  assumes wf: "qh_nodes_wf e tbl" and x: "qh_heap tbl x \<noteq> None" "qh_heap tbl' x = None"
    and same: "\<forall>y. y \<noteq> x \<longrightarrow> qh_content (qh_heap tbl') y = qh_content (qh_heap tbl) y"
    and tbl': "qh_num tbl' = qh_num tbl - 1" "qh_fresh tbl' = qh_fresh tbl"
  shows "qh_nodes_wf e tbl'"
proof -
  let ?h = "qh_heap tbl" and ?h' = "qh_heap tbl'"
  have "dom ?h' - {x} = dom ?h - {x}" using same by (intro qh_content_dom) simp
  then have dom: "dom ?h' = dom ?h - {x}" using x(2) by auto
  have old: "\<exists>m'. ?h y = Some m' \<and> qh_hash m' = qh_hash m \<and> qh_key m' = qh_key m"
    if "?h' y = Some m" for y m
    using that x(2) same qh_content_node [of ?h' y ?h m] by (cases "y = x") auto
  have "qh_hash m = qh_key_hash e (qh_key m) \<and> y < qh_fresh tbl" if "?h' y = Some m" for y m
    using old [OF that] wf by (auto simp: qh_nodes_wf_def)
  moreover have "y = z" if "?h' y = Some m" "?h' z = Some m'" "qh_key m = qh_key m'" for y z m m'
    using that old [OF that(1)] old [OF that(2)] qh_nodes_wf_unique [OF wf] by metis
  moreover have "card (dom ?h - {x}) = card (dom ?h) - 1" "0 < card (dom ?h)"
    using wf domIff [of x ?h] x(1) card_Diff_singleton [of x "dom ?h"] card_gt_0_iff [of "dom ?h"]
    by (auto simp: qh_nodes_wf_def)
  ultimately show ?thesis using wf dom tbl' by (auto simp: qh_nodes_wf_def of_nat_diff)
qed

lemma qh_wf_fresh: "qh_wf e tbl cs \<Longrightarrow> qh_heap tbl (qh_fresh tbl) = None \<and> qh_fresh tbl \<noteq> 0"
  by (auto simp: qh_wf_def qh_nodes_wf_def) (metis less_irrefl not_None_eq)

lemma qh_wf_counters [simp]:
  "qh_wf e (tbl\<lparr>ncalls_put := x, nwalks_put := y\<rparr>) cs = qh_wf e tbl cs"
  "qh_wf e (tbl\<lparr>ncalls_get := x, nwalks_get := y\<rparr>) cs = qh_wf e tbl cs"
  by (simp_all add: qh_wf_def qh_nodes_wf_def qh_idx_def)

text \<open>A key that has no node is linked at the end of its chain.\<close>

lemma qhput_new:
  assumes wf: "qh_wf e tbl cs" and new: "\<forall>a n. qh_heap tbl a = Some n \<longrightarrow> qh_key n \<noteq> key"
  obtains tbl' cs' where "qhput e True tbl key v = Some (True, tbl')" "qh_wf e tbl' cs'"
    "\<exists>n. qh_heap tbl' (qh_fresh tbl) = Some n \<and> qh_key n = key \<and> qh_value n = v"
    "\<forall>x. x \<noteq> qh_fresh tbl \<longrightarrow> qh_content (qh_heap tbl') x = qh_content (qh_heap tbl) x"
proof -
  define hash where "hash = qh_key_hash e key"
  define i where "i = qh_idx tbl hash"
  define a where "a = qh_fresh tbl"
  define node where "node = \<lparr>qh_hash = hash, qh_key = key, qh_value = v, qh_next = 0\<rparr>"
  let ?slot = "qh_slots tbl ! i"
  have i: "i < length cs" unfolding i_def by (rule qh_wf_idx [OF wf])
  note slot = qh_wf_slot [OF wf i]
  then have chain: "qh_chain (qh_heap tbl) (qh_head ?slot) (cs ! i)" by (simp add: qh_slot_wf_def)
  have a: "qh_heap tbl a = None" "a \<noteq> 0" using qh_wf_fresh [OF wf] by (simp_all add: a_def)
  then have a_new: "a \<notin> set (cs ! i)" using qh_chain_dom [OF chain] by blast
  have "\<forall>x \<in> set (cs ! i). \<not> qh_match (qh_heap tbl) hash key x" using new by (auto split: option.splits)
  note find = qh_find_miss [OF chain this, of 0]
  obtain h' slot' where link: "qh_link (qh_heap tbl) ?slot a node = Some (h', slot')"
    "qh_slot_wf h' slot' (cs ! i @ [a])" "h' a = Some (node\<lparr>qh_next := 0\<rparr>)"
    "\<forall>x. x \<noteq> a \<longrightarrow> qh_content h' x = qh_content (qh_heap tbl) x"
    "\<forall>x. x \<noteq> a \<longrightarrow> x \<notin> set (cs ! i) \<longrightarrow> h' x = qh_heap tbl x"
    by (rule qh_link_ok [OF slot a])
  define tbl' where "tbl' = tbl\<lparr>ncalls_put := ncalls_put tbl + 1,
      nwalks_put := nwalks_put tbl + length (cs ! i), qh_heap := h', qh_fresh := a + 1,
      qh_slots := (qh_slots tbl)[i := slot'], qh_num := qh_num tbl + 1\<rparr>"
  have put: "qhput e True tbl key v = Some (True, tbl')"
    using find link(1) by (simp add: qhput_def Let_def tbl'_def hash_def i_def a_def node_def)
  have nodes: "qh_nodes_wf e tbl'"
  proof (rule qh_nodes_wf_insert [of e tbl a _ "node\<lparr>qh_next := 0\<rparr>"])
    show "qh_nodes_wf e tbl" using wf by (simp add: qh_wf_def)
    show "qh_heap tbl' a = Some (node\<lparr>qh_next := 0\<rparr>)" using link(3) by (simp add: tbl'_def)
    show "\<forall>b m. qh_heap tbl b = Some m \<longrightarrow> qh_key m \<noteq> qh_key (node\<lparr>qh_next := 0\<rparr>)"
      using new by (simp add: node_def)
    show "\<forall>x. x \<noteq> a \<longrightarrow> qh_content (qh_heap tbl') x = qh_content (qh_heap tbl) x"
      using link(4) by (simp add: tbl'_def)
  qed (simp_all add: tbl'_def a_def node_def hash_def)
  have idx: "qh_idx tbl (qh_hash n) = i" if "x \<in> set (cs ! i @ [a])" "h' x = Some n" for x n
  proof (cases "x = a")
    case True
    with that link(3) show ?thesis by (auto simp: i_def node_def)
  next
    case False
    then have "qh_content h' x = qh_content (qh_heap tbl) x" using link(4) by simp
    from qh_content_node [OF this that(2)]
    obtain n' where "qh_heap tbl x = Some n'" "qh_hash n' = qh_hash n" by blast
    with that(1) False qh_wf_mem [OF wf i, of x] show ?thesis by simp
  qed
  have "qh_wf e tbl' (cs[i := cs ! i @ [a]])"
    using a a_new link nodes idx
    by (intro qh_wf_update [OF wf i, of tbl' slot' "cs ! i @ [a]"]) (auto simp: tbl'_def)
  with put show ?thesis using link(3,4) by (intro that) (auto simp: tbl'_def node_def a_def)
qed

lemma qhput_found:
  assumes wf: "qh_wf e tbl cs" and n: "qh_heap tbl x = Some n" "qh_key n = key"
  obtains tbl' where "\<And>ok. qhput e ok tbl key v = Some (True, tbl')" "qh_wf e tbl' cs"
    "qh_heap tbl' = qh_heap tbl"
proof (rule qh_locate [OF wf, where key = key])
  fix as y bs m
  assume *: "cs ! qh_idx tbl (qh_key_hash e key) = as @ y # bs" "qh_heap tbl y = Some m"
    "qh_key m = key" "qh_hash m = qh_key_hash e key"
    "\<forall>a \<in> set as. \<not> qh_match (qh_heap tbl) (qh_key_hash e key) key a"
  have chain: "qh_chain (qh_heap tbl) (qh_head (qh_slots tbl ! qh_idx tbl (qh_key_hash e key)))
      (as @ y # bs)"
    using qh_wf_slot [OF wf qh_wf_idx [OF wf]] *(1) by (metis qh_slot_wf_def)
  have "y \<noteq> 0" using qh_chain_dom [OF chain] by simp
  then show ?thesis
    using qh_find_hit [OF chain *(5), of 0] *(2-4) wf
    by (intro that [of "tbl\<lparr>ncalls_put := ncalls_put tbl + 1,
          nwalks_put := nwalks_put tbl + length as\<rparr>"]) (simp_all add: qhput_def Let_def)
qed (use n in blast)

lemma qhput_no_memory:
  assumes wf: "qh_wf e tbl cs" and new: "\<forall>a n. qh_heap tbl a = Some n \<longrightarrow> qh_key n \<noteq> key"
  obtains tbl' where "qhput e False tbl key v = Some (False, tbl')" "qh_wf e tbl' cs"
    "qh_heap tbl' = qh_heap tbl"
proof -
  let ?i = "qh_idx tbl (qh_key_hash e key)"
  have "qh_slot_wf (qh_heap tbl) (qh_slots tbl ! ?i) (cs ! ?i)" by (intro qh_wf_slot [OF wf] qh_wf_idx [OF wf])
  then have chain: "qh_chain (qh_heap tbl) (qh_head (qh_slots tbl ! ?i)) (cs ! ?i)"
    by (simp add: qh_slot_wf_def)
  have "\<forall>x \<in> set (cs ! ?i). \<not> qh_match (qh_heap tbl) (qh_key_hash e key) key x"
    using new by (auto split: option.splits)
  from qh_find_miss [OF chain this, of 0] wf show ?thesis
    by (intro that [of "tbl\<lparr>ncalls_put := ncalls_put tbl + 1,
          nwalks_put := nwalks_put tbl + length (cs ! ?i)\<rparr>"]) (simp_all add: qhput_def Let_def)
qed

lemma qhremove_found:
  assumes wf: "qh_wf e tbl cs" and n: "qh_heap tbl x = Some n" "qh_key n = key"
  obtains tbl' cs' where "qhremove e tbl key = Some (True, tbl')" "qh_wf e tbl' cs'"
    "qh_heap tbl' x = None"
    "\<forall>y. y \<noteq> x \<longrightarrow> qh_content (qh_heap tbl') y = qh_content (qh_heap tbl) y"
proof (rule qh_locate [OF wf, where key = key])
  let ?i = "qh_idx tbl (qh_key_hash e key)"
  let ?slot = "qh_slots tbl ! ?i"
  fix as y bs m
  assume *: "cs ! ?i = as @ y # bs" "qh_heap tbl y = Some m" "qh_key m = key"
    "qh_hash m = qh_key_hash e key"
    "\<forall>a \<in> set as. \<not> qh_match (qh_heap tbl) (qh_key_hash e key) key a"
  have y: "y = x" using qh_wf_key_unique [OF wf *(2) n(1)] *(3) n(2) by simp
  have i: "?i < length cs" by (rule qh_wf_idx [OF wf])
  have slot: "qh_slot_wf (qh_heap tbl) ?slot (as @ x # bs)" using qh_wf_slot [OF wf i] *(1) y by simp
  then have chain: "qh_chain (qh_heap tbl) (qh_head ?slot) (as @ x # bs)" "distinct (as @ x # bs)"
    by (simp_all add: qh_slot_wf_def)
  have x0: "x \<noteq> 0" using qh_chain_dom [OF chain(1)] by simp
  have find: "qh_find_prev (qh_heap tbl) (qh_key_hash e key) key 0 (qh_head ?slot)
      = Some (if as = [] then 0 else last as, x)"
    using * y by (intro qh_find_prev_hit [OF chain(1)]) auto
  obtain h' slot' where unlink:
    "qh_unlink (qh_heap tbl) ?slot (if as = [] then 0 else last as) x = Some (h', slot')"
    "qh_slot_wf h' slot' (as @ bs)" "h' x = None"
    "\<forall>y. y \<noteq> x \<longrightarrow> qh_content h' y = qh_content (qh_heap tbl) y"
    "\<forall>y. y \<noteq> x \<longrightarrow> y \<notin> set (as @ bs) \<longrightarrow> h' y = qh_heap tbl y"
    by (rule qh_unlink_ok [OF slot])
  define tbl' where "tbl' = tbl\<lparr>qh_heap := h', qh_slots := (qh_slots tbl)[?i := slot'],
      qh_num := qh_num tbl - 1\<rparr>"
  have remove: "qhremove e tbl key = Some (True, tbl')"
    using find unlink(1) x0 by (simp add: qhremove_def Let_def tbl'_def)
  have nodes: "qh_nodes_wf e tbl'"
  proof (rule qh_nodes_wf_delete [of e tbl x])
    show "qh_nodes_wf e tbl" using wf by (simp add: qh_wf_def)
  qed (use n(1) unlink(3,4) in \<open>simp_all add: tbl'_def\<close>)
  have idx: "qh_idx tbl (qh_hash n) = ?i" if "z \<in> set (as @ bs)" "h' z = Some n" for z n
  proof -
    have "z \<noteq> x" using that(1) chain(2) by auto
    then have "qh_content h' z = qh_content (qh_heap tbl) z" using unlink(4) by simp
    from qh_content_node [OF this that(2)]
    obtain n' where "qh_heap tbl z = Some n'" "qh_hash n' = qh_hash n" by blast
    with that(1) *(1) qh_wf_mem [OF wf i, of z] show ?thesis by auto
  qed
  have "qh_wf e tbl' (cs[?i := as @ bs])"
    using *(1) y unlink nodes idx
    by (intro qh_wf_update [OF wf i, of tbl' slot' "as @ bs"]) (auto simp: tbl'_def)
  with remove show ?thesis using unlink(3,4) by (intro that) (auto simp: tbl'_def)
qed (use n in blast)

lemma qhremove_absent:
  assumes wf: "qh_wf e tbl cs" and new: "\<forall>a n. qh_heap tbl a = Some n \<longrightarrow> qh_key n \<noteq> key"
  shows "qhremove e tbl key = Some (False, tbl)"
proof -
  let ?i = "qh_idx tbl (qh_key_hash e key)"
  have "qh_slot_wf (qh_heap tbl) (qh_slots tbl ! ?i) (cs ! ?i)" by (intro qh_wf_slot [OF wf] qh_wf_idx [OF wf])
  then have chain: "qh_chain (qh_heap tbl) (qh_head (qh_slots tbl ! ?i)) (cs ! ?i)"
    by (simp add: qh_slot_wf_def)
  have "\<forall>x \<in> set (cs ! ?i). \<not> qh_match (qh_heap tbl) (qh_key_hash e key) key x"
    using new by (auto split: option.splits)
  from qh_find_prev_miss [OF chain this, of 0] show ?thesis by (auto simp: qhremove_def Let_def)
qed

text \<open>\<open>clear\<close> frees slot after slot, and stops early only when no node is left.\<close>

lemma qh_free_slot:
  assumes wf: "qh_wf e tbl cs" and i: "i < length cs"
  obtains tbl' where
    "qh_free_chain (qh_heap tbl) (qh_num tbl) (qh_head (qh_slots tbl ! i))
      = Some (qh_heap tbl', qh_num tbl')"
    "tbl' = tbl\<lparr>qh_heap := qh_heap tbl', qh_num := qh_num tbl',
       qh_slots := (qh_slots tbl)[i := \<lparr>qh_head = 0, qh_tail = 0\<rparr>]\<rparr>"
    "qh_wf e tbl' (cs[i := []])"
proof -
  let ?as = "cs ! i"
  have chain: "qh_chain (qh_heap tbl) (qh_head (qh_slots tbl ! i)) ?as" and dist: "distinct ?as"
    using qh_wf_slot [OF wf i] by (simp_all add: qh_slot_wf_def)
  define tbl' where "tbl' = tbl\<lparr>qh_heap := qh_heap tbl |` (- set ?as),
    qh_num := qh_num tbl - int (length ?as),
    qh_slots := (qh_slots tbl)[i := \<lparr>qh_head = 0, qh_tail = 0\<rparr>]\<rparr>"
  have sub: "set ?as \<subseteq> dom (qh_heap tbl)" using qh_chain_dom [OF chain] by blast
  have nodes: "qh_nodes_wf e tbl" using wf by (simp add: qh_wf_def)
  have dom: "dom (qh_heap tbl') = dom (qh_heap tbl) - set ?as" by (auto simp: tbl'_def)
  have "qh_num tbl' = int (card (dom (qh_heap tbl')))"
    using nodes sub dist card_mono [OF _ sub]
    by (simp add: dom card_Diff_subset qh_nodes_wf_def) (simp add: tbl'_def distinct_card of_nat_diff)
  moreover have old: "qh_heap tbl a = Some n" if "qh_heap tbl' a = Some n" for a n
    using that by (auto simp: tbl'_def restrict_map_def split: if_splits)
  ultimately have "qh_nodes_wf e tbl'"
    using nodes dom qh_nodes_wf_unique [OF nodes old old]
    by (auto simp: qh_nodes_wf_def dest!: old) (simp_all add: tbl'_def)
  then have "qh_wf e tbl' (cs[i := []])"
    by (intro qh_wf_update [OF wf i, of tbl' "\<lparr>qh_head = 0, qh_tail = 0\<rparr>"])
      (auto simp: tbl'_def qh_slot_wf_def)
  moreover have "qh_free_chain (qh_heap tbl) (qh_num tbl) (qh_head (qh_slots tbl ! i))
      = Some (qh_heap tbl', qh_num tbl')"
    using qh_free_chain_all [OF chain dist] by (simp add: tbl'_def)
  ultimately show ?thesis by (intro that [of tbl']) (simp_all add: tbl'_def)
qed

lemma qh_wf_empty: "qh_wf e tbl cs \<Longrightarrow> \<forall>i < length cs. cs ! i = [] \<Longrightarrow> qh_heap tbl = Map.empty"
  by (rule ext) (metis qh_wf_node qh_wf_idx empty_iff empty_set not_None_eq)

lemma clear_slots_ok:
  "qh_wf e tbl cs \<Longrightarrow> j \<le> length cs \<Longrightarrow> \<forall>i < j. cs ! i = [] \<Longrightarrow>
   \<exists>tbl' cs'. clear_slots [j..<length cs] tbl = Some tbl' \<and> qh_wf e tbl' cs'
     \<and> qh_heap tbl' = Map.empty"
proof (induction "length cs - j" arbitrary: j tbl cs)
  case 0
  then show ?case using qh_wf_empty [of e tbl cs] by auto
next
  case (Suc k)
  then have j: "j < length cs" by simp
  show ?case
  proof (cases "qh_num tbl > 0")
    case True
    obtain tbl' where tbl': "qh_free_chain (qh_heap tbl) (qh_num tbl) (qh_head (qh_slots tbl ! j))
          = Some (qh_heap tbl', qh_num tbl')"
        "tbl' = tbl\<lparr>qh_heap := qh_heap tbl', qh_num := qh_num tbl',
           qh_slots := (qh_slots tbl)[j := \<lparr>qh_head = 0, qh_tail = 0\<rparr>]\<rparr>"
        "qh_wf e tbl' (cs[j := []])"
      by (rule qh_free_slot [OF Suc.prems(1) j])
    have "clear_slots [j..<length cs] tbl = clear_slots [Suc j..<length cs] tbl'"
      using True j tbl'(1) tbl'(2) [symmetric] by (simp add: upt_conv_Cons)
    moreover have "\<exists>tbl'' cs'. clear_slots [Suc j..<length (cs[j := []])] tbl' = Some tbl''
        \<and> qh_wf e tbl'' cs' \<and> qh_heap tbl'' = Map.empty"
      using Suc.hyps(2) j Suc.prems(3)
      by (intro Suc.hyps(1) [OF _ tbl'(3)]) (auto simp: less_Suc_eq nth_list_update)
    ultimately show ?thesis by simp
  next
    case False
    then have "qh_heap tbl = Map.empty" using qh_wf_num [OF Suc.prems(1)] by auto
    then show ?thesis using False j Suc.prems(1) by (auto simp: upt_conv_Cons)
  qed
qed

section \<open>Simulation by a map\<close>

lemma qh_view_dom: "qh_view e tbl m \<Longrightarrow> k \<in> dom m \<longleftrightarrow> (\<exists>a n. qh_heap tbl a = Some n \<and> qh_key n = k)"
  by (auto simp: qh_view_def dom_def)

lemma qh_view_wf: "qh_view e tbl m \<Longrightarrow> \<exists>cs. qh_wf e tbl cs"
  by (simp add: qh_view_def)

lemma qh_view_same_heap:
  "qh_view e tbl m \<Longrightarrow> qh_wf e tbl' cs \<Longrightarrow> qh_heap tbl' = qh_heap tbl \<Longrightarrow> qh_view e tbl' m"
  by (auto simp: qh_view_def)

text \<open>The entries seen through the contents of the nodes.\<close>

lemma qh_view_content:
  "qh_view e tbl m \<longleftrightarrow>
     (\<exists>cs. qh_wf e tbl cs)
     \<and> (\<forall>k v. m k = Some v \<longleftrightarrow> (\<exists>a h. qh_content (qh_heap tbl) a = Some (h, k, v)))"
  unfolding qh_view_def qh_content_def by auto

lemma qhput_view:
  assumes "qh_view e tbl m"
  shows "\<exists>tbl'. qhput e ok tbl k v = Some (k \<in> dom m \<or> ok, tbl')
    \<and> qh_view e tbl' (if k \<in> dom m \<or> \<not> ok then m else m(k \<mapsto> v))"
proof -
  from qh_view_wf [OF assms] obtain cs where wf: "qh_wf e tbl cs" ..
  consider (found) "k \<in> dom m" | (full) "k \<notin> dom m" "\<not> ok" | (new) "k \<notin> dom m" "ok" by blast
  then show ?thesis
  proof cases
    case found
    then obtain a n where "qh_heap tbl a = Some n" "qh_key n = k" using qh_view_dom [OF assms] by blast
    from qhput_found [OF wf this] obtain tbl' where "qhput e ok tbl k v = Some (True, tbl')"
      "qh_wf e tbl' cs" "qh_heap tbl' = qh_heap tbl" by metis
    with found qh_view_same_heap [OF assms] show ?thesis by auto
  next
    case full
    then have "\<forall>a n. qh_heap tbl a = Some n \<longrightarrow> qh_key n \<noteq> k" using qh_view_dom [OF assms] by blast
    from qhput_no_memory [OF wf this] obtain tbl' where "qhput e False tbl k v = Some (False, tbl')"
      "qh_wf e tbl' cs" "qh_heap tbl' = qh_heap tbl" by metis
    with full qh_view_same_heap [OF assms] show ?thesis by auto
  next
    case new
    then have "\<forall>a n. qh_heap tbl a = Some n \<longrightarrow> qh_key n \<noteq> k" using qh_view_dom [OF assms] by blast
    from qhput_new [OF wf this] obtain tbl' cs' n where tbl': "qhput e True tbl k v = Some (True, tbl')"
      "qh_wf e tbl' cs'" "qh_heap tbl' (qh_fresh tbl) = Some n" "qh_key n = k" "qh_value n = v"
      "\<forall>x. x \<noteq> qh_fresh tbl \<longrightarrow> qh_content (qh_heap tbl') x = qh_content (qh_heap tbl) x"
      by metis
    have self: "qh_content (qh_heap tbl') (qh_fresh tbl) = Some (qh_hash n, k, v)"
      using tbl'(3-5) by (simp add: qh_content_def)
    have none: "qh_content (qh_heap tbl) (qh_fresh tbl) = None" using qh_wf_fresh [OF wf] by simp
    have "(m(k \<mapsto> v)) k' = Some v' \<longleftrightarrow> (\<exists>a h. qh_content (qh_heap tbl') a = Some (h, k', v'))" for k' v'
    proof -
      have "(\<exists>a h. qh_content (qh_heap tbl') a = Some (h, k', v')) \<longleftrightarrow>
          (k' = k \<and> v' = v) \<or> (\<exists>a h. qh_content (qh_heap tbl) a = Some (h, k', v'))"
        using tbl'(6) self none by (metis option.distinct(1) option.inject prod.inject)
      then show ?thesis using assms new(1) unfolding qh_view_content by (auto simp: domIff)
    qed
    with tbl'(1,2) new show ?thesis by (auto simp: qh_view_content)
  qed
qed

lemma qhget_view:
  assumes "qh_view e tbl m"
  shows "\<exists>tbl'. qhget e tbl k = Some (Option.bind (m k) id, tbl') \<and> qh_view e tbl' m"
proof -
  from qh_view_wf [OF assms] obtain cs where wf: "qh_wf e tbl cs" ..
  let ?i = "qh_idx tbl (qh_key_hash e k)"
  have chain: "qh_chain (qh_heap tbl) (qh_head (qh_slots tbl ! ?i)) (cs ! ?i)"
    using qh_wf_slot [OF wf qh_wf_idx [OF wf]] by (metis qh_slot_wf_def)
  show ?thesis
  proof (rule qh_locate [OF wf, where key = k])
    fix as x bs n
    assume *: "cs ! ?i = as @ x # bs" "qh_heap tbl x = Some n" "qh_key n = k"
      "qh_hash n = qh_key_hash e k"
      "\<forall>a \<in> set as. \<not> qh_match (qh_heap tbl) (qh_key_hash e k) k a"
    from * have "x \<noteq> 0" using qh_chain_dom [OF chain] by simp
    moreover have "m k = Some (qh_value n)" using assms * by (auto simp: qh_view_def)
    ultimately show ?thesis
      using * qh_find_hit [OF chain [unfolded *(1)] *(5), of 0] qh_view_same_heap [OF assms] wf
      by (auto simp: qhget_def Let_def)
  next
    assume *: "\<forall>a n. qh_heap tbl a = Some n \<longrightarrow> qh_key n \<noteq> k"
    then have "\<forall>a \<in> set (cs ! ?i). \<not> qh_match (qh_heap tbl) (qh_key_hash e k) k a"
      by (auto split: option.splits)
    moreover have "m k = None" using * qh_view_dom [OF assms, of k] by blast
    ultimately show ?thesis
      using qh_find_miss [OF chain, of _ _ 0] qh_view_same_heap [OF assms] wf
      by (auto simp: qhget_def Let_def)
  qed
qed

lemma qhremove_view:
  assumes "qh_view e tbl m"
  shows "\<exists>tbl'. qhremove e tbl k = Some (k \<in> dom m, tbl') \<and> qh_view e tbl' (m(k := None))"
proof -
  from qh_view_wf [OF assms] obtain cs where wf: "qh_wf e tbl cs" ..
  show ?thesis
  proof (cases "k \<in> dom m")
    case False
    then have "\<forall>a n. qh_heap tbl a = Some n \<longrightarrow> qh_key n \<noteq> k" using qh_view_dom [OF assms] by blast
    moreover have "m(k := None) = m" using False by (auto simp: domIff)
    ultimately show ?thesis using qhremove_absent [OF wf] False assms by simp
  next
    case True
    then obtain x n where x: "qh_heap tbl x = Some n" "qh_key n = k" using qh_view_dom [OF assms] by blast
    from qhremove_found [OF wf this] obtain tbl' cs' where tbl': "qhremove e tbl k = Some (True, tbl')"
      "qh_wf e tbl' cs'" "qh_heap tbl' x = None"
      "\<forall>y. y \<noteq> x \<longrightarrow> qh_content (qh_heap tbl') y = qh_content (qh_heap tbl) y"
      by metis
    have only: "a = x" if "qh_content (qh_heap tbl) a = Some (h, k, v)" for a h v
      using that qh_wf_key_unique [OF wf _ x(1)] x(2) by (auto simp: qh_content_def)
    have self: "qh_content (qh_heap tbl) x = Some (qh_hash n, k, qh_value n)"
      using x by (simp add: qh_content_def)
    have "(m(k := None)) k' = Some v' \<longleftrightarrow> (\<exists>a h. qh_content (qh_heap tbl') a = Some (h, k', v'))" for k' v'
    proof -
      have "(\<exists>a h. qh_content (qh_heap tbl') a = Some (h, k', v')) \<longleftrightarrow>
          k' \<noteq> k \<and> (\<exists>a h. qh_content (qh_heap tbl) a = Some (h, k', v'))"
        using tbl'(3,4) self only
        by (metis qh_content_None option.distinct(1) option.inject prod.inject)
      then show ?thesis using assms unfolding qh_view_content by auto
    qed
    with tbl'(1,2) True show ?thesis by (auto simp: qh_view_content)
  qed
qed

lemma qhsize_view:
  assumes "qh_view e tbl m"
  shows "qhsize tbl = int (card (dom m))"
proof -
  from qh_view_wf [OF assms] obtain cs where wf: "qh_wf e tbl cs" ..
  let ?key = "\<lambda>a. qh_key (the (qh_heap tbl a))"
  have "dom m = ?key ` dom (qh_heap tbl)"
    using qh_view_dom [OF assms] by (auto simp: set_eq_iff image_iff) (metis domI option.sel)+
  moreover have "inj_on ?key (dom (qh_heap tbl))"
    by (rule inj_onI) (auto intro: qh_wf_key_unique [OF wf])
  ultimately show ?thesis using qh_wf_num [OF wf] by (simp add: qhsize_def card_image)
qed

lemma clear_view:
  assumes "qh_view e tbl m"
  shows "\<exists>tbl'. clear tbl = Some tbl' \<and> qh_view e tbl' Map.empty \<and> qh_heap tbl' = Map.empty"
proof -
  from qh_view_wf [OF assms] obtain cs where wf: "qh_wf e tbl cs" ..
  then have "length cs = nat (qh_range tbl)" by (simp add: qh_wf_def)
  with clear_slots_ok [OF wf, of 0] show ?thesis by (auto simp: clear_def qh_view_def)
qed

lemma qhashtbl_view:
  "0 < rng \<Longrightarrow> rng < 2 ^ 31 \<Longrightarrow> qhashtbl True True rng = Some tbl \<Longrightarrow> qh_view e tbl Map.empty"
  by (auto simp: qh_view_def qhashtbl_def qh_wf_def qh_nodes_wf_def qh_slot_wf_def
      intro!: exI [of _ "replicate (nat rng) []"])

section \<open>Properties\<close>

text \<open>
  The operations of the interface as commands, their effect on the table, and what they mean
  on a map. The flag of \<open>Put\<close> says whether \<open>malloc\<close> would succeed.
\<close>

datatype 'v qh_op =
  Put bool cstring "'v option" | Put2 bool "cstring option" cstring "'v option" | Get cstring
  | Get2 "cstring option" cstring | Remove cstring | Size | Clear

datatype 'v qh_out = Out_bool bool | Out_value "'v option" | Out_int int | Out_void

definition qh_step :: "endian \<Rightarrow> 'v qh_op \<Rightarrow> 'v qhashtbl_t \<Rightarrow> ('v qh_out \<times> 'v qhashtbl_t) option" where
  "qh_step e p tbl =
     (case p of
        Put ok k v \<Rightarrow> map_option (map_prod Out_bool id) (put e ok tbl (Some k) v)
      | Put2 ok path name v \<Rightarrow> map_option (map_prod Out_bool id) (put2 e ok tbl path name v)
      | Get k \<Rightarrow> map_option (map_prod Out_value id) (get e tbl (Some k))
      | Get2 path name \<Rightarrow> map_option (map_prod Out_value id) (get2 e tbl path name)
      | Remove k \<Rightarrow> map_option (map_prod Out_bool id) (qhremove e tbl k)
      | Size \<Rightarrow> Some (Out_int (qhsize tbl), tbl)
      | Clear \<Rightarrow> map_option (Pair Out_void) (clear tbl))"

text \<open>
  On the map, a value is found under its full path: the directory, closed by a slash if it is not
  the root, and the name. A name without a directory is its own full path. What is there already
  stays; without memory nothing is added.
\<close>

definition full_path :: "cstring option \<Rightarrow> cstring \<Rightarrow> cstring" where
  "full_path path name =
     (let dir = (case path of None \<Rightarrow> '''' | Some p \<Rightarrow> p)
      in if dir = '''' then name else (if dir = ''/'' then dir else dir @ ''/'') @ name)"

definition map_put :: "bool \<Rightarrow> cstring \<Rightarrow> 'v option \<Rightarrow> (cstring \<rightharpoonup> 'v option) \<Rightarrow> 'v qh_out \<times> (cstring \<rightharpoonup> 'v option)" where
  "map_put ok k v m = (Out_bool (k \<in> dom m \<or> ok), if k \<in> dom m \<or> \<not> ok then m else m(k \<mapsto> v))"

lemma genkey_full_path: "genkey path name = full_path path name"
  by (simp add: genkey_def full_path_def split: option.split)

definition map_step ::
  "'v qh_op \<Rightarrow> (cstring \<rightharpoonup> 'v option) \<Rightarrow> 'v qh_out \<times> (cstring \<rightharpoonup> 'v option)" where
  "map_step p m =
     (case p of
        Put ok k v \<Rightarrow> map_put ok k v m
      | Put2 ok path name v \<Rightarrow> map_put ok (full_path path name) v m
      | Get k \<Rightarrow> (Out_value (Option.bind (m k) id), m)
      | Get2 path name \<Rightarrow> (Out_value (Option.bind (m (full_path path name)) id), m)
      | Remove k \<Rightarrow> (Out_bool (k \<in> dom m), m(k := None))
      | Size \<Rightarrow> (Out_int (int (card (dom m))), m)
      | Clear \<Rightarrow> (Out_void, Map.empty))"

interpretation table: simulation "qh_step e" map_step "qh_view e" for e
proof
  fix s :: "'v qhashtbl_t" and m p
  assume view: "qh_view e s m"
  show "\<exists>s'. qh_step e p s = Some (fst (map_step p m), s') \<and> qh_view e s' (snd (map_step p m))"
  proof (cases p)
    case (Put ok k v)
    with qhput_view [OF view, of ok k v] show ?thesis by (auto simp: qh_step_def map_step_def map_put_def put_def)
  next
    case (Put2 ok path name v)
    with qhput_view [OF view, of ok "full_path path name" v] show ?thesis
      by (auto simp: qh_step_def map_step_def map_put_def put2_def genkey_full_path)
  next
    case (Get k)
    with qhget_view [OF view, of k] show ?thesis by (auto simp: qh_step_def map_step_def get_def)
  next
    case (Get2 path name)
    with qhget_view [OF view, of "full_path path name"] show ?thesis
      by (auto simp: qh_step_def map_step_def get2_def genkey_full_path)
  next
    case (Remove k)
    with qhremove_view [OF view, of k] show ?thesis by (auto simp: qh_step_def map_step_def)
  next
    case Size
    with qhsize_view [OF view] view show ?thesis by (simp add: qh_step_def map_step_def)
  next
    case Clear
    with clear_view [OF view] show ?thesis by (auto simp: qh_step_def map_step_def)
  qed
qed

text \<open>
  C3. The hash table implements a map in which the first value put under a key wins: from a
  new table, any sequence of \<open>put\<close>, \<open>put2\<close>, \<open>get\<close>, \<open>get2\<close>, \<open>remove\<close>, \<open>size\<close> and \<open>clear\<close> ends without
  following a dangling pointer or a cycle, and returns what the same operations return on the map,
  where \<open>put2\<close> and \<open>get2\<close> use the full path of their path and name as the key; a put for which
  \<open>malloc\<close> fails returns false and leaves the map as it was.
\<close>

theorem qhashtbl_refines_map:
  assumes "0 < rng" and "rng < 2 ^ 31" and "qhashtbl True True rng = Some tbl"
  shows "\<exists>tbl'. run_ops (qh_step e) ops tbl = Some (fst (run_abs map_step ops Map.empty), tbl')
    \<and> qh_view e tbl' (snd (run_abs map_step ops Map.empty))"
  using table.run_refines [OF qhashtbl_view [OF assms]] .

theorem qhashtbl_refines_map_witness:
  "map_option fst (run_ops (qh_step Little)
      [Put2 True (Some ''/a'') ''NX'' (Some (1::nat)), Put True ''/a/NX'' (Some 2), Get2 (Some ''/'') ''a/NX'', Size,
       Remove ''/a/NX'', Get ''/a/NX'', Size]
      (the (qhashtbl True True 3)))
   = Some [Out_bool True, Out_bool True, Out_value (Some 1), Out_int 1, Out_bool True,
       Out_value None, Out_int 0]"
proof -
  obtain tbl :: "nat qhashtbl_t" where tbl: "qhashtbl True True 3 = Some tbl"
    by (simp add: qhashtbl_def)
  show ?thesis
    using qhashtbl_refines_map [OF _ _ tbl, of Little "[Put2 True (Some ''/a'') ''NX'' (Some (1::nat)),
        Put True ''/a/NX'' (Some 2), Get2 (Some ''/'') ''a/NX'', Size, Remove ''/a/NX'', Get ''/a/NX'', Size]"]
    by (auto simp: tbl map_step_def map_put_def full_path_def)
qed

text \<open>
  C37. \<open>clear\<close> frees every node: after any operations on a new table, \<open>clear\<close> ends, no node
  of the table stays allocated and its count is 0, although its outer loop stops as soon as
  the count of nodes is used up.
\<close>

theorem clear_frees_all_nodes:
  assumes "0 < rng" and "rng < 2 ^ 31" and "qhashtbl True True rng = Some tbl0"
    and "run_ops (qh_step e) ops tbl0 = Some (outs, tbl)"
  shows "\<exists>tbl'. clear tbl = Some tbl' \<and> qh_heap tbl' = Map.empty \<and> qhsize tbl' = 0"
proof -
  from table.run_refines [OF qhashtbl_view [OF assms(1-3), of e], of ops] assms(4)
  have "qh_view e tbl (snd (run_abs map_step ops Map.empty))" by auto
  from clear_view [OF this] show ?thesis by (auto dest: qhsize_view)
qed

theorem clear_frees_all_nodes_witness:
  "\<exists>tbl'. clear (the (qhashtbl True True 1) :: nat qhashtbl_t) = Some tbl'
     \<and> qh_heap tbl' = Map.empty \<and> qhsize tbl' = 0"
proof -
  obtain tbl :: "nat qhashtbl_t" where tbl: "qhashtbl True True 1 = Some tbl"
    by (simp add: qhashtbl_def)
  have "run_ops (qh_step Little) [] tbl = Some ([], tbl)" by simp
  from clear_frees_all_nodes [OF _ _ tbl this] show ?thesis by (simp add: tbl)
qed

text \<open>
  A variable stored with \<open>put2\<close> under a path and a name is found by \<open>get\<close> under the full
  path \<open>path/name\<close>, and also by \<open>get2\<close> under any other split of that full path, with the
  value of the first definition.
\<close>

theorem put2_get_full_path:
  assumes "0 < rng" and "rng < 2 ^ 31" and "qhashtbl True True rng = Some tbl"
    and "put2 e True tbl path name v = Some (ok, tbl1)"
    and "put2 e True tbl1 path' name' w = Some (ok', tbl2)"
    and "genkey path' name' = genkey path name"
  shows "ok \<and> ok' \<and> map_option fst (get e tbl2 (Some (genkey path name))) = Some v
    \<and> map_option fst (get2 e tbl2 path' name') = Some v"
proof -
  let ?k = "genkey path name"
  have v0: "qh_view e tbl Map.empty" by (rule qhashtbl_view [OF assms(1-3)])
  from qhput_view [OF v0, of True ?k v] assms(4) have v1: "ok" "qh_view e tbl1 [?k \<mapsto> v]"
    by (auto simp: put2_def)
  from qhput_view [OF v1(2), of True ?k w] assms(5,6) have v2: "ok'" "qh_view e tbl2 [?k \<mapsto> v]"
    by (auto simp: put2_def)
  from qhget_view [OF v2(2), of ?k] v1(1) v2(1) assms(6) show ?thesis
    by (auto simp: get_def get2_def)
qed

theorem put2_get_full_path_witness:
  "\<exists>tbl1 tbl2. put2 Little True (the (qhashtbl True True 5)) (Some ''/a'') ''b'' (Some (1::nat)) = Some (True, tbl1)
     \<and> put2 Little True tbl1 (Some ''/'') ''a/b'' (Some 2) = Some (True, tbl2)
     \<and> map_option fst (get Little tbl2 (Some ''/a/b'')) = Some (Some 1)"
proof -
  obtain tbl :: "nat qhashtbl_t" where tbl: "qhashtbl True True 5 = Some tbl"
    by (simp add: qhashtbl_def)
  have v0: "qh_view Little tbl Map.empty" using qhashtbl_view [OF _ _ tbl] by simp
  obtain tbl1 where tbl1: "put2 Little True tbl (Some ''/a'') ''b'' (Some 1) = Some (True, tbl1)"
      "qh_view Little tbl1 [''/a/b'' \<mapsto> Some 1]"
    using qhput_view [OF v0, of True "''/a/b''" "Some 1"] by (auto simp: put2_def genkey_def)
  obtain tbl2 where tbl2: "put2 Little True tbl1 (Some ''/'') ''a/b'' (Some 2) = Some (True, tbl2)"
    using qhput_view [OF tbl1(2), of True "''/a/b''" "Some 2"] by (auto simp: put2_def genkey_def)
  show ?thesis
    using tbl1(1) tbl2 put2_get_full_path [OF _ _ tbl tbl1(1) tbl2] by (auto simp: tbl genkey_def)
qed

end
