(* ===== verification/BP_PG.thy ===== *)
theory BP_PG
  imports BP_Buffer Hashtbl
begin

text \<open>
  The process group index of a BP file, written by the first part of \<open>adios_write_index_v1\<close>
  (\<open>core/adios_internals.c\<close>) and read by \<open>adios_parse_process_group_index_v1\<close>
  (\<open>core/adios_bp_v1.c\<close>), and the header of a process group, written by
  \<open>adios_write_process_group_header_v1\<close> and read by \<open>adios_parse_process_group_header_v1\<close>. The
  theorems are round trips between machines of any two byte orders.
\<close>

section \<open>The process group index\<close>

record adios_index_process_group_struct_v1 =
  pg_group_name :: cstring
  pg_adios_host_language_fortran :: ADIOS_FLAG
  pg_process_id :: u32
  pg_time_index_name :: "cstring option" \<comment> \<open>\<open>None\<close> is the null pointer\<close>
  pg_time_index :: u32
  pg_offset_in_file :: u64

definition fortran_flag :: "ADIOS_FLAG \<Rightarrow> u8" where
  "fortran_flag f = byte_of_char (if f = adios_flag_yes then CHR ''y'' else CHR ''n'')"

text \<open>
  One round of the loop over \<open>pg_root\<close>. The size field at \<open>group_start\<close> is not counted in
  \<open>index_size\<close>, and \<open>group_size\<close> is a 16-bit number.
\<close>

definition write_pg_entry ::
  "endian \<Rightarrow> (nat \<Rightarrow> bool) \<Rightarrow> adios_index_process_group_struct_v1 \<Rightarrow> wst \<Rightarrow> wst" where
  "write_pg_entry e realloc_ok pg s =
     (let group_start = w_off s;
          tname = (case pg_time_index_name pg of Some t \<Rightarrow> t | None \<Rightarrow> '''');
          s' = pipe [bwi_string e realloc_ok (pg_group_name pg),
                     bwi realloc_ok [fortran_flag (pg_adios_host_language_fortran pg)],
                     bwi realloc_ok (enc e 4 (pg_process_id pg)),
                     bwi_string e realloc_ok tname,
                     bwi realloc_ok (enc e 4 (pg_time_index pg)),
                     bwi realloc_ok (enc e 8 (pg_offset_in_file pg))]
                 (reserve 2 (s\<lparr>w_entry_size := 0\<rparr>))
      in patch realloc_ok group_start [enc e 2 (ucast (w_entry_size s') :: u16)] s')"

definition write_pg_index ::
  "endian \<Rightarrow> (nat \<Rightarrow> bool) \<Rightarrow> adios_index_process_group_struct_v1 list \<Rightarrow> wst \<Rightarrow> wst" where
  "write_pg_index e realloc_ok pg_root s =
     (let buffer_offset_start = w_off s;
          groups_count = of_nat (length pg_root) :: u64;
          s' = fold (write_pg_entry e realloc_ok) pg_root (reserve (8 + 8) (s\<lparr>w_index_size := 0\<rparr>))
      in patch realloc_ok buffer_offset_start [enc e 8 groups_count, enc e 8 (w_index_size s')] s')"

definition parse_pg_entry :: "endian \<Rightarrow> adios_index_process_group_struct_v1 parser" where
  "parse_pg_entry e =
     pbind (get_u16 e) (\<lambda>length_of_group.
     pbind (get_string e) (\<lambda>group_name.
     pbind get_u8 (\<lambda>flag.
     pbind (get_u32 e) (\<lambda>process_id.
     pbind (get_string e) (\<lambda>time_index_name.
     pbind (get_u32 e) (\<lambda>time_index.
     pbind (get_u64 e) (\<lambda>offset_in_file.
     preturn \<lparr>pg_group_name = group_name,
       pg_adios_host_language_fortran =
         (if flag = byte_of_char CHR ''y'' then adios_flag_yes else adios_flag_no),
       pg_process_id = process_id, pg_time_index_name = Some time_index_name,
       pg_time_index = time_index, pg_offset_in_file = offset_in_file\<rparr>)))))))"

text \<open>
  The parser fills the nodes of the list it is given, one after the other, and allocates new
  ones behind them.
\<close>

definition adios_parse_process_group_index_v1 ::
  "endian \<Rightarrow> adios_index_process_group_struct_v1 list
    \<Rightarrow> adios_index_process_group_struct_v1 list parser" where
  "adios_parse_process_group_index_v1 e pg_root b =
     (if bp_length b - bp_offset b < 16 then Inl err_invalid_buffer_group
      else
        pbind (get_u64 e) (\<lambda>process_groups_count.
        pbind (get_u64 e) (\<lambda>process_groups_length.
        pbind (parse_times (unat process_groups_count) (parse_pg_entry e)) (\<lambda>new.
        preturn (new @ drop (length new) pg_root)))) b)"

text \<open>What an entry is read back as: any flag but yes becomes no, a null name the empty one.\<close>

definition yes_no :: "ADIOS_FLAG \<Rightarrow> ADIOS_FLAG" where
  "yes_no f = (if f = adios_flag_yes then adios_flag_yes else adios_flag_no)"

definition pg_as_read ::
  "adios_index_process_group_struct_v1 \<Rightarrow> adios_index_process_group_struct_v1" where
  "pg_as_read pg =
     pg\<lparr>pg_adios_host_language_fortran := yes_no (pg_adios_host_language_fortran pg),
        pg_time_index_name := Some (case pg_time_index_name pg of Some t \<Rightarrow> t | None \<Rightarrow> '''')\<rparr>"

definition pg_ok :: "adios_index_process_group_struct_v1 \<Rightarrow> bool" where
  "pg_ok pg \<longleftrightarrow> str_ok (pg_group_name pg)
     \<and> (case pg_time_index_name pg of Some t \<Rightarrow> str_ok t | None \<Rightarrow> True)"

definition pg_body :: "endian \<Rightarrow> adios_index_process_group_struct_v1 \<Rightarrow> u8 list" where
  "pg_body e pg =
     enc_string e (pg_group_name pg) @ [fortran_flag (pg_adios_host_language_fortran pg)]
     @ enc e 4 (pg_process_id pg)
     @ enc_string e (case pg_time_index_name pg of Some t \<Rightarrow> t | None \<Rightarrow> '''')
     @ enc e 4 (pg_time_index pg) @ enc e 8 (pg_offset_in_file pg)"

definition pg_bytes :: "endian \<Rightarrow> adios_index_process_group_struct_v1 \<Rightarrow> u8 list" where
  "pg_bytes e pg =
     enc e 2 (ucast (of_nat (length (pg_body e pg)) :: u32) :: u16) @ pg_body e pg"

lemma str_ok_Nil [simp]: "str_ok ''''"
  by (simp add: str_ok_def nul_free_def)

lemma inindex_pg_entry:
  assumes "\<And>n. ok n" and "pg_ok pg"
  shows "inindex (write_pg_entry e ok pg) (pg_bytes e pg) (length (pg_body e pg))"
proof -
  let ?t = "case pg_time_index_name pg of Some t \<Rightarrow> t | None \<Rightarrow> ''''"
  have "str_ok (pg_group_name pg)" "str_ok ?t"
    using assms(2) by (auto simp: pg_ok_def split: option.splits)
  note w = inentry_string [of ok, OF assms(1)] inentry_bwi [of ok, OF assms(1)] this
  have "inentry (pipe [bwi_string e ok (pg_group_name pg),
      bwi ok [fortran_flag (pg_adios_host_language_fortran pg)], bwi ok (enc e 4 (pg_process_id pg)),
      bwi_string e ok ?t, bwi ok (enc e 4 (pg_time_index pg)), bwi ok (enc e 8 (pg_offset_in_file pg))])
    (concat [enc_string e (pg_group_name pg), [fortran_flag (pg_adios_host_language_fortran pg)],
      enc e 4 (pg_process_id pg), enc_string e ?t, enc e 4 (pg_time_index pg), enc e 8 (pg_offset_in_file pg)])"
    by (rule inentry_pipe) (auto intro: w)
  then have body: "inentry (pipe [bwi_string e ok (pg_group_name pg),
      bwi ok [fortran_flag (pg_adios_host_language_fortran pg)], bwi ok (enc e 4 (pg_process_id pg)),
      bwi_string e ok ?t, bwi ok (enc e 4 (pg_time_index pg)), bwi ok (enc e 8 (pg_offset_in_file pg))])
    (pg_body e pg)" by (simp add: pg_body_def)
  show ?thesis
    using inindex_entry [where hdr = "\<lambda>n. enc e 2 (ucast n :: u16)", of ok, OF assms(1) body length_enc]
    by (simp add: write_pg_entry_def [abs_def] pg_bytes_def Let_def del: pipe_Cons patch.simps)
qed

lemma fortran_flag_read [simp]:
  "(if fortran_flag f = byte_of_char CHR ''y'' then adios_flag_yes else adios_flag_no) = yes_no f"
  by (simp add: fortran_flag_def yes_no_def)

lemma parses_pg_entry:
  assumes "pg_ok pg"
  shows "parses (flag_for e1 e2) (parse_pg_entry e2) (pg_bytes e1 pg) (pg_as_read pg)"
proof -
  let ?t = "case pg_time_index_name pg of Some t \<Rightarrow> t | None \<Rightarrow> ''''"
  have s: "str_ok (pg_group_name pg)" "str_ok ?t"
    using assms by (auto simp: pg_ok_def split: option.splits)
  show ?thesis
    unfolding pg_bytes_def pg_body_def parse_pg_entry_def
    by (intro parses_bind [OF parses_u16] parses_bind [OF parses_string] parses_bind [OF parses_u8]
        parses_bind [OF parses_u32] parses_bind [where bs = "[]", simplified, OF parses_u64] s)
      (simp add: pg_as_read_def parses_def preturn_def)
qed

interpretation pg_codec: index_codec write_pg_entry pg_bytes "\<lambda>e pg. length (pg_body e pg)" parse_pg_entry
  "\<lambda>_ _. pg_as_read" "\<lambda>_. pg_ok"
  by unfold_locales (auto intro: inindex_pg_entry parses_pg_entry)

definition pg_index_bytes :: "endian \<Rightarrow> adios_index_process_group_struct_v1 list \<Rightarrow> u8 list" where
  "pg_index_bytes e pgs = enc e 8 (of_nat (length pgs) :: u64)
     @ enc e 8 (of_nat (sum_list (map (\<lambda>pg. length (pg_body e pg)) pgs)) :: u64)
     @ concat (map (pg_bytes e) pgs)"

lemma emits_pg_index:
  assumes "\<And>n. ok n" and "list_all pg_ok pgs"
  shows "emits (write_pg_index e ok pgs) (pg_index_bytes e pgs)"
  using pg_codec.emits_entries [of ok, OF assms, of "enc e 8 (of_nat (length pgs) :: u64)" 8 e]
  by (simp add: write_pg_index_def [abs_def] pg_index_bytes_def Let_def del: patch.simps)

lemma read_pg_index:
  assumes "list_all pg_ok pgs" and "length pgs < 2 ^ 64" and "placed b (pg_index_bytes e1 pgs)"
    and "bp_change_endianness b = flag_for e1 e2"
  shows "adios_parse_process_group_index_v1 e2 old b =
    Inr (map pg_as_read pgs @ drop (length pgs) old,
         b\<lparr>bp_offset := bp_offset b + of_nat (length (pg_index_bytes e1 pgs))\<rparr>)"
proof -
  have entries: "parses (flag_for e1 e2) (parse_times (unat (of_nat (length pgs) :: u64)) (parse_pg_entry e2))
      (concat (map (pg_bytes e1) pgs)) (map pg_as_read pgs)"
    using assms(2) by (intro pg_codec.parses_entries [OF assms(1)]) simp
  have "parses (flag_for e1 e2) (pbind (get_u64 e2) (\<lambda>process_groups_count.
        pbind (get_u64 e2) (\<lambda>process_groups_length.
        pbind (parse_times (unat process_groups_count) (parse_pg_entry e2)) (\<lambda>new.
        preturn (new @ drop (length new) old))))) (pg_index_bytes e1 pgs)
      (map pg_as_read pgs @ drop (length pgs) old)"
    unfolding pg_index_bytes_def
    by (intro parses_bind [OF parses_u64])
      (use parses_last [OF entries, of "\<lambda>new. new @ drop (length new) old"] in simp)
  from placed_parses [OF assms(3) this [folded assms(4)]] placed_guard [OF assms(3), of 16] show ?thesis
    by (simp add: adios_parse_process_group_index_v1_def pg_index_bytes_def)
qed

text \<open>
  C20. The process group index written on one machine and read on another: the reader gets the
  entries that were written, in their order, with the byte order of every number put right,
  and stands behind the index; nodes of the list it was given that are not overwritten stay.
\<close>

theorem pg_index_roundtrip:
  assumes "\<And>n. ok n" and "list_all pg_ok pgs" and "length pgs < 2 ^ 64"
    and "placed b (emitted (write_pg_index e1 ok pgs) s)"
    and "bp_change_endianness b = flag_for e1 e2"
  shows "adios_parse_process_group_index_v1 e2 old b =
    Inr (map pg_as_read pgs @ drop (length pgs) old,
         b\<lparr>bp_offset := bp_offset b + of_nat (length (emitted (write_pg_index e1 ok pgs) s))\<rparr>)"
  using read_pg_index [OF assms(2,3) _ assms(5)] assms(4)
  unfolding emits_emitted [OF emits_pg_index [of ok, OF assms(1,2)]] by blast

definition pg_example :: adios_index_process_group_struct_v1 where
  "pg_example = \<lparr>pg_group_name = ''restart'', pg_adios_host_language_fortran = adios_flag_no,
     pg_process_id = 3, pg_time_index_name = None, pg_time_index = 1, pg_offset_in_file = 4096\<rparr>"

lemma pg_index_roundtrip_witness:
  "\<exists>b'. adios_parse_process_group_index_v1 Big [] (bp_buffer_of adios_flag_yes
       (emitted (write_pg_index Little (\<lambda>_. True) [pg_example]) empty_wst)) =
     Inr ([pg_example\<lparr>pg_time_index_name := Some ''''\<rparr>], b')"
proof -
  let ?bs = "emitted (write_pg_index Little (\<lambda>_. True) [pg_example]) empty_wst"
  have ok: "list_all pg_ok [pg_example]"
    by (simp add: pg_ok_def pg_example_def str_ok_def nul_free_def)
  have "length ?bs < 2 ^ 64"
    unfolding emits_emitted [OF emits_pg_index [of "\<lambda>_. True", OF TrueI ok]]
    by (simp add: pg_index_bytes_def pg_bytes_def pg_body_def pg_example_def enc_string_def)
  then show ?thesis
    using pg_index_roundtrip [of "\<lambda>_. True" "[pg_example]" "bp_buffer_of adios_flag_yes ?bs" Little empty_wst Big "[]"]
      ok placed_whole [of ?bs adios_flag_yes]
    by (simp add: bp_buffer_of_def flag_for_def pg_as_read_def pg_example_def yes_no_def)
qed

section \<open>The process group header\<close>

text \<open>
  The fields of \<open>struct adios_group_struct\<close> that the header is written from. The variables of
  the group are found by their full path in its hash table; a found variable is represented by
  its id. A method is its number and its parameters.
\<close>

record adios_group_struct =
  g_name :: cstring
  g_adios_host_language_fortran :: ADIOS_FLAG
  g_hashtbl_vars :: "u32 qhashtbl_t"
  g_group_by :: "cstring option"
  g_time_index_name :: "cstring option"
  g_time_index :: u32
  g_methods :: "(int \<times> cstring) list"

record adios_process_group_header_struct_v1 =
  hd_host_language_fortran :: ADIOS_FLAG
  hd_name :: cstring
  hd_coord_var_id :: u32
  hd_time_index_name :: cstring
  hd_time_index :: u32
  hd_methods_count :: u8
  hd_methods :: "(int \<times> cstring) list"

definition adios_find_var_by_name ::
  "endian \<Rightarrow> adios_group_struct \<Rightarrow> cstring option \<Rightarrow> u32 option option" where
  "adios_find_var_by_name e g fullpath = map_option fst (get e (g_hashtbl_vars g) fullpath)"

text \<open>\<open>len = strlen (str)\<close> and the writes of \<open>len\<close> and of the string, without sizes to sum.\<close>

definition bw_string :: "endian \<Rightarrow> (nat \<Rightarrow> bool) \<Rightarrow> cstring \<Rightarrow> wst \<Rightarrow> wst" where
  "bw_string e realloc_ok str s =
     (let len = of_nat (length str) :: u16
      in bw realloc_ok (take (unat len) (bytes_of_string str)) (bw realloc_ok (enc e 2 len) s))"

definition methods_length :: "(int \<times> cstring) list \<Rightarrow> u16" where
  "methods_length ms = fold (\<lambda>(_, params) len. len + of_nat (1 + 2 + length params)) ms 0"

text \<open>
  The result is the buffer and \<open>fd->bytes_written\<close>; a lookup that does not return gives \<open>None\<close>.
\<close>

definition adios_write_process_group_header_v1 ::
  "endian \<Rightarrow> (nat \<Rightarrow> bool) \<Rightarrow> adios_group_struct \<Rightarrow> u64 \<Rightarrow> nat \<Rightarrow> wst \<Rightarrow> (nat \<times> wst) option" where
  "adios_write_process_group_header_v1 e realloc_ok g total_size bytes_written s =
     (case adios_find_var_by_name e g (g_group_by g) of
        None \<Rightarrow> None
      | Some var \<Rightarrow>
         let s' = pipe ([bw realloc_ok (enc e 8 total_size),
               bw realloc_ok [fortran_flag (g_adios_host_language_fortran g)],
               bw_string e realloc_ok (g_name g),
               bw realloc_ok (enc e 4 (case var of Some ident \<Rightarrow> ident | None \<Rightarrow> (0 :: u32))),
               bw_string e realloc_ok (case g_time_index_name g of Some t \<Rightarrow> t | None \<Rightarrow> ''''),
               bw realloc_ok (enc e 4 (g_time_index g)),
               bw realloc_ok [of_nat (length (g_methods g))],
               bw realloc_ok (enc e 2 (methods_length (g_methods g)))]
             @ concat (map (\<lambda>(m, params). [bw realloc_ok [word_of_int m], bw_string e realloc_ok params])
                 (g_methods g))) s
         in Some (if bytes_written < w_off s' then w_off s' else bytes_written, s'))"

definition parse_method :: "endian \<Rightarrow> (int \<times> cstring) parser" where
  "parse_method e =
     pbind get_u8 (\<lambda>flag. pbind (get_string e) (\<lambda>params. preturn (uint flag, params)))"

definition adios_parse_process_group_header_v1 ::
  "endian \<Rightarrow> adios_process_group_header_struct_v1 parser" where
  "adios_parse_process_group_header_v1 e b =
     (if bp_length b - bp_offset b < 24 then Inl err_invalid_buffer_group
      else
        pbind (get_u64 e) (\<lambda>size.
        pbind get_u8 (\<lambda>flag.
        pbind (get_string e) (\<lambda>name.
        pbind (get_u32 e) (\<lambda>coord_var_id.
        pbind (get_string e) (\<lambda>time_index_name.
        pbind (get_u32 e) (\<lambda>time_index.
        pbind get_u8 (\<lambda>methods_count.
        pbind (get_u16 e) (\<lambda>len.
        pbind (parse_times (unat methods_count) (parse_method e)) (\<lambda>methods.
        preturn \<lparr>hd_host_language_fortran =
            (if flag = byte_of_char CHR ''y'' then adios_flag_yes else adios_flag_no),
          hd_name = name, hd_coord_var_id = coord_var_id, hd_time_index_name = time_index_name,
          hd_time_index = time_index, hd_methods_count = methods_count,
          hd_methods = methods\<rparr>))))))))) b)"

definition method_ok :: "int \<times> cstring \<Rightarrow> bool" where
  "method_ok m \<longleftrightarrow> 0 \<le> fst m \<and> fst m < 256 \<and> str_ok (snd m)"

definition group_ok :: "adios_group_struct \<Rightarrow> bool" where
  "group_ok g \<longleftrightarrow> str_ok (g_name g) \<and> (case g_time_index_name g of Some t \<Rightarrow> str_ok t | None \<Rightarrow> True)
     \<and> list_all method_ok (g_methods g) \<and> length (g_methods g) < 256"

definition method_bytes :: "endian \<Rightarrow> int \<times> cstring \<Rightarrow> u8 list" where
  "method_bytes e m = [word_of_int (fst m)] @ enc_string e (snd m)"

definition group_bytes :: "endian \<Rightarrow> adios_group_struct \<Rightarrow> u64 \<Rightarrow> u32 \<Rightarrow> u8 list" where
  "group_bytes e g total_size ident =
     enc e 8 total_size @ [fortran_flag (g_adios_host_language_fortran g)] @ enc_string e (g_name g)
     @ enc e 4 ident @ enc_string e (case g_time_index_name g of Some t \<Rightarrow> t | None \<Rightarrow> '''')
     @ enc e 4 (g_time_index g) @ [of_nat (length (g_methods g))]
     @ enc e 2 (methods_length (g_methods g)) @ concat (map (method_bytes e) (g_methods g))"

definition group_as_read :: "adios_group_struct \<Rightarrow> u32 \<Rightarrow> adios_process_group_header_struct_v1" where
  "group_as_read g ident =
     \<lparr>hd_host_language_fortran = yes_no (g_adios_host_language_fortran g), hd_name = g_name g,
      hd_coord_var_id = ident,
      hd_time_index_name = (case g_time_index_name g of Some t \<Rightarrow> t | None \<Rightarrow> ''''),
      hd_time_index = g_time_index g, hd_methods_count = of_nat (length (g_methods g)),
      hd_methods = g_methods g\<rparr>"

lemma emits_string:
  assumes "\<And>n. ok n" and "str_ok str"
  shows "emits (bw_string e ok str) (enc_string e str)"
proof -
  have "emits (bw ok (take (unat (of_nat (length str) :: u16)) (bytes_of_string str))) (bytes_of_string str)"
    using emits_bw [OF assms(1)] assms(2) by (simp add: str_ok_def)
  note emits_comp [OF emits_bw [of ok, OF assms(1)] this]
  moreover have "bw_string e ok str = (\<lambda>s.
      bw ok (take (unat (of_nat (length str) :: u16)) (bytes_of_string str))
        (bw ok (enc e 2 (of_nat (length str) :: u16)) s))"
    by (simp add: fun_eq_iff bw_string_def Let_def)
  ultimately show ?thesis by (simp add: enc_string_def)
qed

lemma emits_methods:
  assumes "\<And>n. ok n" and "list_all method_ok ms"
  shows "list_all2 emits (concat (map (\<lambda>(m, params). [bw ok [word_of_int m], bw_string e ok params]) ms))
    (concat (map (\<lambda>m. [[word_of_int (fst m)], enc_string e (snd m)]) ms))"
  using assms(2)
  by (induction ms)
    (auto simp: method_ok_def intro: emits_bw [of ok, OF assms(1)] emits_string [of ok, OF assms(1)])

lemma concat_methods:
  "concat (concat (map (\<lambda>m. [[word_of_int (fst m)], enc_string e (snd m)]) ms)) = concat (map (method_bytes e) ms)"
  by (induction ms) (simp_all add: method_bytes_def)

lemma emits_group:
  assumes "\<And>n. ok n" and "group_ok g"
    and "adios_find_var_by_name e g (g_group_by g) = Some var"
  shows "\<exists>W. emits W (group_bytes e g total_size (case var of Some ident \<Rightarrow> ident | None \<Rightarrow> 0))
    \<and> adios_write_process_group_header_v1 e ok g total_size bw' s = Some (max bw' (w_off (W s)), W s)"
proof -
  let ?t = "case g_time_index_name g of Some t \<Rightarrow> t | None \<Rightarrow> ''''"
    and ?id = "case var of Some ident \<Rightarrow> ident | None \<Rightarrow> (0 :: u32)"
  let ?W = "[bw ok (enc e 8 total_size), bw ok [fortran_flag (g_adios_host_language_fortran g)],
      bw_string e ok (g_name g), bw ok (enc e 4 ?id), bw_string e ok ?t, bw ok (enc e 4 (g_time_index g)),
      bw ok [of_nat (length (g_methods g))], bw ok (enc e 2 (methods_length (g_methods g)))]
      @ concat (map (\<lambda>(m, params). [bw ok [word_of_int m], bw_string e ok params]) (g_methods g))"
  have s: "str_ok (g_name g)" "str_ok ?t" "list_all method_ok (g_methods g)"
    using assms(2) by (auto simp: group_ok_def split: option.splits)
  note w = emits_bw [of ok, OF assms(1)] emits_string [of ok, OF assms(1)]
    emits_methods [of ok, OF assms(1) s(3)]
  have "emits (pipe ?W) (concat ([enc e 8 total_size, [fortran_flag (g_adios_host_language_fortran g)],
      enc_string e (g_name g), enc e 4 ?id, enc_string e ?t, enc e 4 (g_time_index g),
      [of_nat (length (g_methods g))], enc e 2 (methods_length (g_methods g))]
      @ concat (map (\<lambda>m. [[word_of_int (fst m)], enc_string e (snd m)]) (g_methods g))))"
    by (rule emits_pipe, rule list_all2_appendI) (auto intro: w s)
  then have "emits (pipe ?W) (group_bytes e g total_size ?id)"
    by (simp add: group_bytes_def concat_methods del: pipe_Cons)
  moreover have "adios_write_process_group_header_v1 e ok g total_size bw' s
      = Some (max bw' (w_off (pipe ?W s)), pipe ?W s)"
    by (simp add: adios_write_process_group_header_v1_def assms(3) Let_def max_def del: pipe_Cons)
  ultimately show ?thesis by blast
qed

lemma parses_method:
  assumes "method_ok m"
  shows "parses (flag_for e1 e2) (parse_method e2) (method_bytes e1 m) m"
proof -
  have "uint (word_of_int (fst m) :: u8) = fst m"
    using assms by (simp add: method_ok_def uint_word_of_int)
  then have "parses (flag_for e1 e2) (preturn (uint (word_of_int (fst m) :: u8), snd m)) [] m"
    using parses_return [of "flag_for e1 e2" m] by simp
  moreover have "str_ok (snd m)" using assms by (simp add: method_ok_def)
  ultimately show ?thesis
    unfolding parse_method_def method_bytes_def
    by (intro parses_bind [OF parses_u8] parses_bind [where bs = "[]", simplified, OF parses_string])
qed

lemma read_pg_header:
  assumes "group_ok g" and "placed b (group_bytes e1 g total_size ident)" and "bp_change_endianness b = flag_for e1 e2"
  shows "adios_parse_process_group_header_v1 e2 b = Inr (group_as_read g ident,
    b\<lparr>bp_offset := bp_offset b + of_nat (length (group_bytes e1 g total_size ident))\<rparr>)"
proof -
  let ?t = "case g_time_index_name g of Some t \<Rightarrow> t | None \<Rightarrow> ''''" and ?fl = "flag_for e1 e2"
  have s: "str_ok (g_name g)" "str_ok ?t" "length (g_methods g) = unat (of_nat (length (g_methods g)) :: u8)"
    using assms(1) by (auto simp: group_ok_def split: option.splits)
  have "parses ?fl (parse_times (length (g_methods g)) (parse_method e2))
      (concat (map (method_bytes e1) (g_methods g))) (g_methods g)"
    using assms(1) by (intro parses_times) (auto simp: list_all2_map1 list_all2_same group_ok_def list_all_iff
        intro: parses_method)
  then have ms: "parses ?fl (parse_times (unat (of_nat (length (g_methods g)) :: u8)) (parse_method e2))
      (concat (map (method_bytes e1) (g_methods g))) (g_methods g)" using s(3) by simp
  have len: "\<not> bp_length b - bp_offset b < 24"
    using assms(2) by (rule placed_guard) (simp add: group_bytes_def enc_string_def)
  show ?thesis
    unfolding adios_parse_process_group_header_v1_def if_not_P [OF len]
    using assms(2)
    by (rule placed_parses)
      (simp only: assms(3) group_bytes_def, intro parses_bind [OF parses_u64] parses_bind [OF parses_u8]
        parses_bind [OF parses_string] parses_bind [OF parses_u32] parses_bind [OF parses_u16]
        parses_bind [where bs = "[]", simplified, OF ms] s(1,2),
        simp only: fortran_flag_read group_as_read_def [symmetric] parses_return)
qed

text \<open>
  C21. The header of a process group written on one machine and read on another: name, flags,
  time index, coordination variable (its id when the variable named by \<open>group_by\<close> is in the
  group's hash table, 0 otherwise) and the list of methods are read back, and \<open>bytes_written\<close>
  covers the header.
\<close>

theorem pg_header_roundtrip:
  assumes "\<And>n. ok n" and "group_ok g"
    and "adios_find_var_by_name e1 g (g_group_by g) = Some var"
    and "adios_write_process_group_header_v1 e1 ok g total_size bytes_written s = Some (n, s')"
    and "placed b (map (w_mem s') [w_off s..<w_off s'])"
    and "bp_change_endianness b = flag_for e1 e2"
  shows "\<exists>b'. adios_parse_process_group_header_v1 e2 b =
      Inr (group_as_read g (case var of Some ident \<Rightarrow> ident | None \<Rightarrow> 0), b')
    \<and> n = max bytes_written (w_off s')"
proof -
  let ?id = "case var of Some ident \<Rightarrow> ident | None \<Rightarrow> (0 :: u32)"
  obtain W where W: "emits W (group_bytes e1 g total_size ?id)" "n = max bytes_written (w_off (W s))" "s' = W s"
    using emits_group [of ok, OF assms(1-3), of total_size bytes_written s] assms(4) by auto
  then have em: "map (w_mem s') [w_off s..<w_off s'] = group_bytes e1 g total_size ?id"
    using emits_emitted [OF W(1), of s] by (simp add: emitted_def)
  from read_pg_header [OF assms(2) assms(5) [unfolded em] assms(6)] W show ?thesis by auto
qed

definition group_example :: adios_group_struct where
  "group_example = \<lparr>g_name = ''restart'', g_adios_host_language_fortran = adios_flag_yes,
     g_hashtbl_vars = the (qhashtbl True True 1), g_group_by = None,
     g_time_index_name = Some ''iter'', g_time_index = 7, g_methods = [(2, ''verbose=1'')]\<rparr>"

lemma pg_header_roundtrip_witness:
  "\<exists>n s' b'. adios_write_process_group_header_v1 Big (\<lambda>_. True) group_example 64 0 empty_wst = Some (n, s')
     \<and> adios_parse_process_group_header_v1 Little
         (bp_buffer_of adios_flag_yes (map (w_mem s') [0..<w_off s'])) = Inr (group_as_read group_example 0, b')"
proof -
  have ok: "group_ok group_example"
    by (simp add: group_ok_def group_example_def method_ok_def str_ok_def nul_free_def)
  have var: "adios_find_var_by_name Big group_example (g_group_by group_example) = Some None"
    by (simp add: adios_find_var_by_name_def group_example_def get_def)
  obtain W where W: "emits W (group_bytes Big group_example 64 0)"
      "adios_write_process_group_header_v1 Big (\<lambda>_. True) group_example 64 0 empty_wst
        = Some (max 0 (w_off (W empty_wst)), W empty_wst)"
    using emits_group [of "\<lambda>_. True", OF TrueI ok var, of 64 0 empty_wst] by auto
  let ?bs = "map (w_mem (W empty_wst)) [0..<w_off (W empty_wst)]"
  have "?bs = group_bytes Big group_example 64 0"
    using emits_emitted [OF W(1), of empty_wst] by (simp add: emitted_def empty_wst_def)
  then have "length ?bs < 2 ^ 64"
    by (simp only:) (simp add: group_bytes_def group_example_def enc_string_def method_bytes_def)
  then have "placed (bp_buffer_of adios_flag_yes ?bs) (map (w_mem (W empty_wst)) [w_off empty_wst..<w_off (W empty_wst)])"
    using placed_whole [of ?bs adios_flag_yes] by (simp add: empty_wst_def)
  from pg_header_roundtrip [of "\<lambda>_. True", OF TrueI ok var W(2) this, of Little] W(2) show ?thesis
    by (auto simp: bp_buffer_of_def flag_for_def)
qed

end
