(* ===== verification/BP_Vars.thy ===== *)
theory BP_Vars
  imports BP_Chars BP_PG
begin

text \<open>
  The variable index of a BP file, written by \<open>adios_write_index_v1\<close>
  (\<open>core/adios_internals.c\<close>) and read by \<open>adios_parse_vars_index_v1\<close>
  (\<open>core/adios_bp_v1.c\<close>), which also enters the variables in
  the hash table that finds them by name. A node of a list is known by its position.
\<close>

section \<open>The variable index\<close>

record adios_index_var_struct_v1 =
  v_id :: u32
  v_group_name :: cstring
  v_var_name :: cstring
  v_var_path :: cstring
  v_type :: ADIOS_DATATYPES
  v_characteristics_count :: u64
  v_characteristics_allocated :: u64
  v_characteristics :: "adios_index_characteristic_struct_v1 list"

text \<open>
  The original type is asked for only while characteristics are written, so there is a first one.
\<close>

definition write_var_entry ::
  "plugin_infos \<Rightarrow> endian \<Rightarrow> (nat \<Rightarrow> bool) \<Rightarrow> adios_index_var_struct_v1 \<Rightarrow> wst \<Rightarrow> wst" where
  "write_var_entry infos e realloc_ok v s =
     (let var_start = w_off s;
          original_var_type = adios_transform_get_var_original_type_index (v_type v) (hd (v_characteristics v));
          s' = pipe [bwi realloc_ok (enc e 4 (v_id v)),
                     bwi_string e realloc_ok (v_group_name v),
                     bwi_string e realloc_ok (v_var_name v),
                     bwi_string e realloc_ok (v_var_path v),
                     bwi realloc_ok [word_of_int (type_code (v_type v))],
                     bwi realloc_ok (enc e 8 (v_characteristics_count v)),
                     fold (write_var_set e realloc_ok infos original_var_type (v_type v))
                       (take (unat (v_characteristics_count v)) (v_characteristics v))]
                 (reserve 4 (s\<lparr>w_entry_size := 0\<rparr>))
      in patch realloc_ok var_start [enc e 4 (w_entry_size s')] s')"

definition write_vars_index ::
  "plugin_infos \<Rightarrow> endian \<Rightarrow> (nat \<Rightarrow> bool) \<Rightarrow> adios_index_var_struct_v1 list \<Rightarrow> wst \<Rightarrow> wst" where
  "write_vars_index infos e realloc_ok vars_root s =
     (let buffer_offset_start = w_off s;
          vars_count = of_nat (length vars_root) :: u32;
          s' = fold (write_var_entry infos e realloc_ok) vars_root (reserve (4 + 8) (s\<lparr>w_index_size := 0\<rparr>))
      in patch realloc_ok buffer_offset_start [enc e 4 vars_count, enc e 8 (w_index_size s')] s')"

definition parse_var_entry ::
  "plugin_infos \<Rightarrow> u64 \<Rightarrow> (nat \<Rightarrow> bool) \<Rightarrow> endian \<Rightarrow> adios_index_var_struct_v1 parser" where
  "parse_var_entry infos junk malloc_ok e =
     pbind (get_u32 e) (\<lambda>var_entry_length.
     pbind (get_u32 e) (\<lambda>ident.
     pbind (get_string e) (\<lambda>group_name.
     pbind (get_string e) (\<lambda>var_name.
     pbind (get_string e) (\<lambda>var_path.
     pbind get_u8 (\<lambda>flag.
     pbind (get_u64 e) (\<lambda>characteristics_sets_count.
     pbind (parse_sets e (parse_var_item e infos junk malloc_ok (type_of_code flag))
         (unat characteristics_sets_count) []) (\<lambda>chs.
     preturn \<lparr>v_id = ident, v_group_name = group_name, v_var_name = var_name, v_var_path = var_path,
       v_type = type_of_code flag, v_characteristics_count = characteristics_sets_count,
       v_characteristics_allocated = characteristics_sets_count, v_characteristics = chs\<rparr>))))))))"

text \<open>
  The variable is put into the hash table, if there is one, under its path and name; the value is
  the position of the node. The state is that position and the table.
\<close>

definition put_var ::
  "endian \<Rightarrow> adios_index_var_struct_v1 \<Rightarrow> nat \<times> nat qhashtbl_t option \<Rightarrow> (nat \<times> nat qhashtbl_t option) option" where
  "put_var e v = (\<lambda>(i, tbl).
     case tbl of
       None \<Rightarrow> Some (i + 1, None)
     | Some t \<Rightarrow>
         (case put2 e True t (Some (v_var_path v)) (v_var_name v) (Some i) of
            None \<Rightarrow> None
          | Some (_, t') \<Rightarrow> Some (i + 1, Some t')))"

text \<open>
  The result is the list, the hash table and the position of the last node parsed, which is
  \<open>*vars_tail\<close>. The guard asks for 10 bytes, as the format once had a 16-bit count.
\<close>

definition adios_parse_vars_index_v1 ::
  "plugin_infos \<Rightarrow> u64 \<Rightarrow> (nat \<Rightarrow> bool) \<Rightarrow> endian \<Rightarrow> adios_index_var_struct_v1 list \<Rightarrow> nat qhashtbl_t option
    \<Rightarrow> (adios_index_var_struct_v1 list \<times> nat qhashtbl_t option \<times> nat option) parser" where
  "adios_parse_vars_index_v1 infos junk malloc_ok e vars_root hashtbl_vars b =
     (if bp_length b - bp_offset b < 10 then Inl err_invalid_buffer_vars
      else
        pbind (get_u32 e) (\<lambda>vars_count.
        pbind (get_u64 e) (\<lambda>vars_length.
        pbind (parse_fold (put_var e) (parse_var_entry infos junk malloc_ok e) (unat vars_count) (0, hashtbl_vars))
          (\<lambda>r. preturn (fst r @ drop (length (fst r)) vars_root, snd (snd r),
                        if fst r = [] then None else Some (length (fst r) - 1))))) b)"

text \<open>Good variables, their bytes, and what is read back.\<close>

definition var_original_type :: "adios_index_var_struct_v1 \<Rightarrow> ADIOS_DATATYPES" where
  "var_original_type v = adios_transform_get_var_original_type_index (v_type v) (hd (v_characteristics v))"

definition var_ok :: "plugin_infos \<Rightarrow> (nat \<Rightarrow> bool) \<Rightarrow> endian \<Rightarrow> adios_index_var_struct_v1 \<Rightarrow> bool" where
  "var_ok infos malloc_ok e v \<longleftrightarrow>
     plugins_ok infos \<and> (\<forall>n. malloc_ok n)
     \<and> str_ok (v_group_name v) \<and> str_ok (v_var_name v) \<and> str_ok (v_var_path v)
     \<and> v_type v \<noteq> adios_unknown \<and> unat (v_characteristics_count v) = length (v_characteristics v)
     \<and> list_all (var_ch_ok infos (var_original_type v) (v_type v)) (v_characteristics v)
     \<and> (e = Little \<or> list_all (\<lambda>ch. ch_transform ch = zero_transform) (v_characteristics v))"

definition var_body :: "plugin_infos \<Rightarrow> endian \<Rightarrow> adios_index_var_struct_v1 \<Rightarrow> u8 list" where
  "var_body infos e v =
     entry_body e (v_id v) (v_group_name v) (v_var_name v) (v_var_path v) (v_type v) (v_characteristics_count v)
       (concat (map (var_set_bytes e infos (v_type v)) (v_characteristics v)))"

definition var_bytes :: "plugin_infos \<Rightarrow> endian \<Rightarrow> adios_index_var_struct_v1 \<Rightarrow> u8 list" where
  "var_bytes infos e v = enc e 4 (of_nat (length (var_body infos e v)) :: u32) @ var_body infos e v"

definition var_as_read ::
  "u64 \<Rightarrow> endian \<Rightarrow> endian \<Rightarrow> adios_index_var_struct_v1 \<Rightarrow> adios_index_var_struct_v1" where
  "var_as_read junk e1 e2 v =
     v\<lparr>v_characteristics_allocated := v_characteristics_count v,
       v_characteristics := map (ch_as_read junk e1 e2 (v_type v)) (v_characteristics v)\<rparr>"

lemma inindex_var_entry:
  assumes "\<And>n. ok n" and "var_ok infos malloc_ok e v"
  shows "inindex (write_var_entry infos e ok v) (var_bytes infos e v) (length (var_body infos e v))"
proof -
  have s: "str_ok (v_group_name v)" "str_ok (v_var_name v)" "str_ok (v_var_path v)" "plugins_ok infos"
    "take (unat (v_characteristics_count v)) (v_characteristics v) = v_characteristics v"
    "list_all (var_ch_ok infos (var_original_type v) (v_type v)) (v_characteristics v)"
    using assms(2) by (auto simp: var_ok_def)
  let ?sets = "fold (write_var_set e ok infos (var_original_type v) (v_type v)) (v_characteristics v)"
  have sets: "inentry ?sets (concat (map (var_set_bytes e infos (v_type v)) (v_characteristics v)))"
    using s(6) by (intro inentry_fold inentry_var_set [of ok, OF assms(1) s(4)]) (simp add: list_all_iff)
  from inindex_named_entry [of ok, OF assms(1) s(1-3) sets, of e "v_id v" "v_type v" "v_characteristics_count v"] s(5)
  show ?thesis
    by (simp add: write_var_entry_def [abs_def] var_bytes_def var_body_def var_original_type_def Let_def
        del: pipe_Cons patch.simps)
qed

lemma original_type_known:
  assumes "type \<noteq> adios_unknown" and "var_ch_ok infos ot type ch"
  shows "adios_transform_get_var_original_type_index type ch \<noteq> adios_unknown"
  using assms
  by (auto simp: adios_transform_get_var_original_type_index_def var_ch_ok_def scalar_only_def array_ok_def
      zero_transform_def transform_ok_def)

lemma parses_var_entry:
  assumes "var_ok infos mok e1 v"
  shows "parses (flag_for e1 e2) (parse_var_entry infos junk mok e2) (var_bytes infos e1 v) (var_as_read junk e1 e2 v)"
proof -
  let ?fl = "flag_for e1 e2" and ?chs = "v_characteristics v" and ?rd = "ch_as_read junk e1 e2 (v_type v)"
    and ?item = "parse_var_item e2 infos junk mok (v_type v)" and ?ot = "var_original_type v"
  have s: "str_ok (v_group_name v)" "str_ok (v_var_name v)" "str_ok (v_var_path v)"
    and ty: "v_type v \<noteq> adios_unknown" and pl: "plugins_ok infos" and mok: "\<And>n. mok n"
    and count: "unat (v_characteristics_count v) = length ?chs"
    and chs: "\<And>ch. ch \<in> set ?chs \<Longrightarrow> var_ch_ok infos ?ot (v_type v) ch
      \<and> (ch_transform ch = zero_transform \<or> e1 = Little)"
    using assms by (auto simp: var_ok_def list_all_iff)
  let ?body = "\<lambda>ch. common_bytes e1 ch @ array_bytes e1 infos ch @ value_bytes e1 (v_type v) (ch_value ch)"
    and ?cnt = "\<lambda>ch. 4 + (array_items ch + value_items (ch_value ch))"
  have sets: "parses ?fl (parse_sets e2 ?item (length ?chs) [])
      (concat (map (\<lambda>ch. set_bytes e1 (?body ch) (?cnt ch)) ?chs)) (map ?rd ?chs)"
  proof (rule parses_sets)
    fix i assume i: "i < length ?chs"
    let ?ch = "?chs ! i" and ?before = "map ?rd (take i ?chs)"
    have "hd ?chs \<in> set ?chs" using i by (intro hd_in_set) auto
    then have ch: "var_ch_ok infos ?ot (v_type v) ?ch" "ch_transform ?ch = zero_transform \<or> e1 = Little"
      "var_ch_ok infos ?ot (v_type v) (hd ?chs)"
      using chs [of ?ch] chs [of "hd ?chs"] i by simp_all
    have ot: "?ot \<noteq> adios_unknown"
      unfolding var_original_type_def by (rule original_type_known [OF ty ch(3)])
    have "?ot = adios_transform_get_var_original_type_index (v_type v) (case ?before of [] \<Rightarrow> ?ch | ch0 # _ \<Rightarrow> ch0)"
    proof (cases i)
      case 0
      with i show ?thesis by (simp add: var_original_type_def hd_conv_nth)
    next
      case (Suc j)
      with i show ?thesis
        by (cases ?chs) (simp_all add: var_original_type_def adios_transform_get_var_original_type_index_def ch_as_read_def)
    qed
    from parses_var_items [of infos mok, OF pl mok ch(1) ot ch(2) this, of e2 junk]
    have "parses ?fl (parse_set (?item ?before) (?cnt ?ch) zero_characteristic) (?body ?ch) (?rd ?ch)" .
    moreover have "?cnt ?ch < 256" by (simp add: array_items_def value_items_def transform_items_def)
    ultimately show "?cnt ?ch < 256
      \<and> parses ?fl (parse_set (?item ?before) (?cnt ?ch) zero_characteristic) (?body ?ch) (?rd ?ch)" by simp
  qed
  then have sets': "parses ?fl (parse_sets e2 ?item (unat (v_characteristics_count v)) [])
      (concat (map (var_set_bytes e1 infos (v_type v)) ?chs)) (map ?rd ?chs)"
    by (simp add: count var_set_bytes_def [abs_def])
  have read: "\<lparr>v_id = v_id v, v_group_name = v_group_name v, v_var_name = v_var_name v, v_var_path = v_var_path v,
      v_type = v_type v, v_characteristics_count = v_characteristics_count v,
      v_characteristics_allocated = v_characteristics_count v, v_characteristics = map ?rd ?chs\<rparr>
      = var_as_read junk e1 e2 v" by (cases v) (simp add: var_as_read_def)
  have "parses ?fl (parse_var_entry infos junk mok e2) (enc e1 4 (of_nat (length (var_body infos e1 v)) :: u32)
      @ enc e1 4 (v_id v) @ enc_string e1 (v_group_name v) @ enc_string e1 (v_var_name v) @ enc_string e1 (v_var_path v)
      @ [word_of_int (type_code (v_type v))] @ enc e1 8 (v_characteristics_count v)
      @ concat (map (var_set_bytes e1 infos (v_type v)) ?chs) @ []) (var_as_read junk e1 e2 v)"
    unfolding parse_var_entry_def
    by (intro parses_bind [OF parses_u32] parses_bind [OF parses_string] parses_bind [OF parses_u8]
        parses_bind [OF parses_u64] s)
      (simp only: type_of_code_of [OF ty], intro parses_bind [OF sets'], simp only: read parses_return)
  then show ?thesis by (simp add: var_bytes_def var_body_def entry_body_def)
qed

interpretation var_codec: index_codec "write_var_entry infos" "var_bytes infos"
  "\<lambda>e v. length (var_body infos e v)" "parse_var_entry infos junk malloc_ok" "var_as_read junk"
  "var_ok infos malloc_ok" for infos junk malloc_ok
  by unfold_locales (auto intro: inindex_var_entry parses_var_entry)

definition vars_index_bytes :: "plugin_infos \<Rightarrow> endian \<Rightarrow> adios_index_var_struct_v1 list \<Rightarrow> u8 list" where
  "vars_index_bytes infos e vars = enc e 4 (of_nat (length vars) :: u32)
     @ enc e 8 (of_nat (sum_list (map (\<lambda>v. length (var_body infos e v)) vars)) :: u64)
     @ concat (map (var_bytes infos e) vars)"

lemma emits_vars_index:
  assumes "\<And>n. ok n" and "list_all (var_ok infos mok e) vars"
  shows "emits (write_vars_index infos e ok vars) (vars_index_bytes infos e vars)"
  using var_codec.emits_entries [of ok, OF assms, of "enc e 4 (of_nat (length vars) :: u32)" 4]
  by (simp add: write_vars_index_def [abs_def] vars_index_bytes_def Let_def del: patch.simps)

text \<open>The hash table afterwards: each full path leads to the first variable that has it.\<close>

definition var_key :: "adios_index_var_struct_v1 \<Rightarrow> cstring" where
  "var_key v = genkey (Some (v_var_path v)) (v_var_name v)"

lemma put_vars_view:
  assumes "qh_view e t m"
  shows "\<exists>t'. fold_opt (put_var e) vs (i, Some t) = Some (i + length vs, Some t')
    \<and> qh_view e t' (map_of (zip (map var_key vs) (map Some [i..<i + length vs])) ++ m)"
  using assms
proof (induction vs arbitrary: i t m)
  case Nil
  then show ?case by simp
next
  case (Cons v vs)
  let ?m = "if var_key v \<in> dom m then m else m(var_key v \<mapsto> Some i)"
  from qhput_view [OF Cons.prems, of True "var_key v" "Some i"] obtain t1
    where t1: "qhput e True t (var_key v) (Some i) = Some (True, t1)" "qh_view e t1 ?m" by auto
  from Cons.IH [OF t1(2), of "i + 1"] obtain t2
    where t2: "fold_opt (put_var e) vs (i + 1, Some t1) = Some (i + 1 + length vs, Some t2)"
      "qh_view e t2 (map_of (zip (map var_key vs) (map Some [i + 1..<i + 1 + length vs])) ++ ?m)" by blast
  define ix where "ix = map Some [i + 1..<i + 1 + length vs]"
  have ix: "map Some [i..<i + length (v # vs)] = Some i # ix"
    by (simp add: ix_def upt_conv_Cons del: upt_Suc)
  have "map_of (zip (map var_key vs) ix) ++ ?m
      = map_of (zip (map var_key (v # vs)) (map Some [i..<i + length (v # vs)])) ++ m"
    unfolding ix by (auto simp: fun_eq_iff map_add_def split: option.splits)
  with t2(2) have "qh_view e t2 (map_of (zip (map var_key (v # vs)) (map Some [i..<i + length (v # vs)])) ++ m)"
    by (simp only: ix_def)
  moreover have "put_var e v (i, Some t) = Some (i + 1, Some t1)"
    using t1(1) by (simp add: put_var_def put2_def var_key_def)
  then have "fold_opt (put_var e) (v # vs) (i, Some t) = Some (i + length (v # vs), Some t2)"
    using t2(1) by simp
  ultimately show ?case by blast
qed

lemma first_index: "length ks = length xs \<Longrightarrow> Option.bind (map_of (zip ks (map Some xs)) k) id = map_of (zip ks xs) k"
  by (induction ks xs rule: list_induct2) auto

text \<open>The hash table after all variables were put into it, and none when there is none.\<close>

lemma put_vars_none: "fold_opt (put_var e) vs (i, None) = Some (i + length vs, None)"
  by (induction vs arbitrary: i) (simp_all add: put_var_def)

lemma put_vars_fresh:
  assumes "qh_view e2 tbl Map.empty"
  obtains tbl' where "fold_opt (put_var e2) (map (var_as_read junk e1 e2) vars) (0, Some tbl) = Some (length vars, Some tbl')"
    and "\<forall>k. map_option fst (get e2 tbl' (Some k)) = Some (map_of (zip (map var_key vars) [0..<length vars]) k)"
proof -
  let ?vs = "map (var_as_read junk e1 e2) vars"
  have keys: "map var_key ?vs = map var_key vars" by (simp add: var_key_def var_as_read_def)
  from put_vars_view [OF assms, of ?vs 0] obtain tbl'
    where tbl': "fold_opt (put_var e2) ?vs (0, Some tbl) = Some (length vars, Some tbl')"
      "qh_view e2 tbl' (map_of (zip (map var_key vars) (map Some [0..<length vars])))"
    unfolding keys by auto
  have "map_option fst (get e2 tbl' (Some k)) = Some (map_of (zip (map var_key vars) [0..<length vars]) k)" for k
    using qhget_view [OF tbl'(2), of k] by (auto simp: get_def first_index)
  with tbl'(1) that show thesis by blast
qed

lemma read_vars_index:
  assumes "list_all (var_ok infos malloc_ok e1) vars" and "length vars < 2 ^ 32"
    and "fold_opt (put_var e2) (map (var_as_read junk e1 e2) vars) (0, tbl) = Some (length vars, tbl')"
    and "placed b (vars_index_bytes infos e1 vars)" and "bp_change_endianness b = flag_for e1 e2"
  shows "adios_parse_vars_index_v1 infos junk malloc_ok e2 old tbl b =
      Inr ((map (var_as_read junk e1 e2) vars @ drop (length vars) old, tbl',
            if vars = [] then None else Some (length vars - 1)),
           b\<lparr>bp_offset := bp_offset b + of_nat (length (vars_index_bytes infos e1 vars))\<rparr>)"
proof -
  let ?vs = "map (var_as_read junk e1 e2) vars"
  have count: "length vars = unat (of_nat (length vars) :: u32)" using assms(2) by simp
  from var_codec.parses_fold [OF assms(1,3)]
  have entries: "parses (flag_for e1 e2) (parse_fold (put_var e2) (parse_var_entry infos junk malloc_ok e2)
      (unat (of_nat (length vars) :: u32)) (0, tbl)) (concat (map (var_bytes infos e1) vars))
      (?vs, (length vars, tbl'))"
    unfolding count [symmetric] .
  let ?r = "\<lambda>r. (fst r @ drop (length (fst r)) old, snd (snd r), if fst r = [] then None else Some (length (fst r) - 1))"
  have "parses (flag_for e1 e2) (pbind (get_u32 e2) (\<lambda>vars_count. pbind (get_u64 e2) (\<lambda>vars_length.
        pbind (parse_fold (put_var e2) (parse_var_entry infos junk malloc_ok e2) (unat vars_count) (0, tbl))
          (\<lambda>r. preturn (?r r)))))
      (vars_index_bytes infos e1 vars)
      (?vs @ drop (length vars) old, tbl', if vars = [] then None else Some (length vars - 1))"
    unfolding vars_index_bytes_def
    by (intro parses_bind [OF parses_u32] parses_bind [OF parses_u64])
      (use parses_last [OF entries, of ?r] in \<open>simp only: fst_conv snd_conv length_map map_is_Nil_conv\<close>)
  from placed_parses [OF assms(4) this [folded assms(5)]] placed_guard [OF assms(4), of 10]
  show ?thesis by (simp add: adios_parse_vars_index_v1_def vars_index_bytes_def)
qed

text \<open>
  C17. The variable index written on one machine and read on another, with a fresh hash table:
  the reader gets the variables in their order, with names, type, dimensions, transforms,
  values and statistics converted to its byte order, and looking up any name in the hash table
  gives the first variable with that full path. What the reader gets is \<open>var_as_read\<close>: the variable
  itself but for the minimum of a histogram, which the parser never stores, and, between machines
  of different byte order, the values of complex types, which it does not convert. Transforms are
  covered for little-endian writers only (\<open>var_ok\<close>): a big-endian one loses the type before the
  transform (\<open>transform_roundtrip\<close>).
\<close>

theorem vars_index_roundtrip:
  assumes "\<And>n. ok n" and "list_all (var_ok infos malloc_ok e1) vars" and "length vars < 2 ^ 32"
    and "0 < rng" and "rng < 2 ^ 31" and "qhashtbl True True rng = Some tbl"
    and "placed b (emitted (write_vars_index infos e1 ok vars) s)"
    and "bp_change_endianness b = flag_for e1 e2"
  shows "\<exists>tbl'. adios_parse_vars_index_v1 infos junk malloc_ok e2 old (Some tbl) b =
      Inr ((map (var_as_read junk e1 e2) vars @ drop (length vars) old, Some tbl',
            if vars = [] then None else Some (length vars - 1)),
           b\<lparr>bp_offset := bp_offset b + of_nat (length (emitted (write_vars_index infos e1 ok vars) s))\<rparr>)
    \<and> (\<forall>k. map_option fst (get e2 tbl' (Some k)) = Some (map_of (zip (map var_key vars) [0..<length vars]) k))"
proof -
  obtain tbl' where tbl': "fold_opt (put_var e2) (map (var_as_read junk e1 e2) vars) (0, Some tbl) = Some (length vars, Some tbl')"
    and keys: "\<forall>k. map_option fst (get e2 tbl' (Some k)) = Some (map_of (zip (map var_key vars) [0..<length vars]) k)"
    by (rule put_vars_fresh [OF qhashtbl_view [OF assms(4-6)]])
  show ?thesis
    using read_vars_index [OF assms(2,3) tbl' _ assms(8), of old] assms(7) keys
    unfolding emits_emitted [OF emits_vars_index [of ok, OF assms(1,2)]] by blast
qed

definition ch_example :: adios_index_characteristic_struct_v1 where
  "ch_example = \<lparr>ch_offset = 100, ch_dims = \<lparr>d_count = 1, d_dims = [10, 40, 20]\<rparr>, ch_var_id = 0, ch_value = None,
     ch_payload_offset = 160, ch_file_index = 0, ch_time_index = 1, ch_bitmap = 3,
     ch_stats = Some [[Some (Stat_Bytes [1, 0, 0, 0]), Some (Stat_Bytes [9, 0, 0, 0]), None, None, None, None, None]],
     ch_transform = zero_transform\<rparr>"

definition var_example :: adios_index_var_struct_v1 where
  "var_example = \<lparr>v_id = 1, v_group_name = ''g'', v_var_name = ''T'', v_var_path = ''/a'', v_type = adios_integer,
     v_characteristics_count = 1, v_characteristics_allocated = 4, v_characteristics = [ch_example]\<rparr>"

lemma bits_3: "stat_bits 3 0 = [0, 1]"
  by code_simp

lemma var_example_ok: "var_ok [] (\<lambda>_. True) e var_example"
proof -
  have ot: "var_original_type var_example = adios_integer"
    by (simp add: var_original_type_def var_example_def ch_example_def zero_transform_def
        adios_transform_get_var_original_type_index_def)
  have "replicate 5 None = [None, None, None, None, None :: stat_data option]" by (simp add: numeral_eq_Suc)
  then have "array_ok [] adios_integer ch_example"
    by (simp add: array_ok_def ch_example_def row_ok_def row_data_def bits_3 stat_size_def
        adios_get_stat_set_count_def)
  then have "var_ch_ok [] adios_integer adios_integer ch_example"
    by (simp add: var_ch_ok_def ch_example_def)
  with ot show ?thesis
    by (simp add: var_ok_def var_example_def plugins_ok_def str_ok_def nul_free_def ch_example_def)
qed

lemma vars_index_roundtrip_witness:
  "\<exists>tbl' b'. adios_parse_vars_index_v1 [] 0 (\<lambda>_. True) Big [] (Some (the (qhashtbl True True 5)))
       (bp_buffer_of adios_flag_yes (emitted (write_vars_index [] Little (\<lambda>_. True) [var_example]) empty_wst)) =
     Inr (([var_as_read 0 Little Big var_example], Some tbl', Some 0), b')
     \<and> map_option fst (get Big tbl' (Some ''/a/T'')) = Some (Some 0)"
proof -
  let ?bs = "emitted (write_vars_index [] Little (\<lambda>_. True) [var_example]) empty_wst"
  have ok: "list_all (var_ok [] (\<lambda>_. True) Little) [var_example]" by (simp add: var_example_ok)
  have key: "var_key var_example = ''/a/T''" by (simp add: var_key_def var_example_def genkey_def)
  obtain tbl :: "nat qhashtbl_t" where tbl: "qhashtbl True True 5 = Some tbl" by (simp add: qhashtbl_def)
  have "length ?bs < 2 ^ 64"
    unfolding emits_emitted [OF emits_vars_index [of "\<lambda>_. True", OF TrueI ok]]
    by (simp add: vars_index_bytes_def var_bytes_def var_body_def entry_body_def var_example_def enc_string_def var_set_bytes_def set_bytes_def
        common_bytes_def array_bytes_def value_bytes_def ch_example_def transform_item_bytes_def row_bytes_def row_data_def)
  then have "placed (bp_buffer_of adios_flag_yes ?bs) ?bs" by (rule placed_whole)
  moreover have "bp_change_endianness (bp_buffer_of adios_flag_yes ?bs) = flag_for Little Big"
    by (simp add: bp_buffer_of_def flag_for_def)
  ultimately obtain tbl' b' where r: "adios_parse_vars_index_v1 [] 0 (\<lambda>_. True) Big [] (Some tbl)
        (bp_buffer_of adios_flag_yes ?bs) = Inr (([var_as_read 0 Little Big var_example], Some tbl', Some 0), b')"
      "\<forall>k. map_option fst (get Big tbl' (Some k)) = Some (map_of (zip [var_key var_example] [0]) k)"
    using vars_index_roundtrip [of "\<lambda>_. True" "[]" "\<lambda>_. True" Little "[var_example]" 5 tbl
        "bp_buffer_of adios_flag_yes ?bs" empty_wst Big 0 "[]"] ok tbl by auto
  from r(2) [rule_format, of "''/a/T''"] r(1) tbl key show ?thesis by auto
qed

end
