(* ===== verification/BP_Attrs.thy ===== *)
theory BP_Attrs
  imports BP_Chars
begin

text \<open>
  The attribute index of a BP file, written by \<open>adios_write_index_v1\<close>
  (\<open>core/adios_internals.c\<close>) and read by \<open>adios_parse_attributes_index_v1\<close>
  (\<open>core/adios_bp_v1.c\<close>).
\<close>

section \<open>Definitions\<close>

record adios_index_attribute_struct_v1 =
  a_id :: u32
  a_group_name :: cstring
  a_attr_name :: cstring
  a_attr_path :: cstring
  a_type :: ADIOS_DATATYPES
  a_characteristics_count :: u64
  a_characteristics_allocated :: u64
  a_characteristics :: "adios_index_characteristic_struct_v1 list"

definition write_var_id_item :: "endian \<Rightarrow> (nat \<Rightarrow> bool) \<Rightarrow> u32 \<Rightarrow> wst \<Rightarrow> wst" where
  "write_var_id_item e realloc_ok var_id =
     pipe [set_item realloc_ok adios_characteristic_var_id, bws realloc_ok (enc e 4 var_id)]"

text \<open>One round of the loop over the sets of characteristics of an attribute.\<close>

definition write_attr_set ::
  "endian \<Rightarrow> (nat \<Rightarrow> bool) \<Rightarrow> ADIOS_DATATYPES \<Rightarrow> adios_index_characteristic_struct_v1 \<Rightarrow> wst \<Rightarrow> wst" where
  "write_attr_set e realloc_ok type ch s =
     (let characteristic_set_start = w_off s;
          s1 = reserve (1 + 4) (add_sizes (1 + 4) (s\<lparr>w_set_len := 0, w_set_count := 0\<rparr>));
          s2 = write_common_items e realloc_ok ch s1;
          s3 = (case ch_value ch of
                  None \<Rightarrow> s2
                | Some v \<Rightarrow> if type = adios_string then write_string_item e realloc_ok (Some v) s2
                            else write_value_item realloc_ok type v s2);
          s' = (if ch_var_id ch \<noteq> 0 then write_var_id_item e realloc_ok (ch_var_id ch) s3 else s3)
      in patch realloc_ok characteristic_set_start [[w_set_count s'], enc e 4 (w_set_len s')] s')"

definition write_attr_entry ::
  "endian \<Rightarrow> (nat \<Rightarrow> bool) \<Rightarrow> adios_index_attribute_struct_v1 \<Rightarrow> wst \<Rightarrow> wst" where
  "write_attr_entry e realloc_ok a s =
     (let attr_start = w_off s;
          s' = pipe [bwi realloc_ok (enc e 4 (a_id a)),
                     bwi_string e realloc_ok (a_group_name a),
                     bwi_string e realloc_ok (a_attr_name a),
                     bwi_string e realloc_ok (a_attr_path a),
                     bwi realloc_ok [word_of_int (type_code (a_type a))],
                     bwi realloc_ok (enc e 8 (a_characteristics_count a)),
                     fold (write_attr_set e realloc_ok (a_type a))
                       (take (unat (a_characteristics_count a)) (a_characteristics a))]
                 (reserve 4 (s\<lparr>w_entry_size := 0\<rparr>))
      in patch realloc_ok attr_start [enc e 4 (w_entry_size s')] s')"

definition write_attrs_index ::
  "endian \<Rightarrow> (nat \<Rightarrow> bool) \<Rightarrow> adios_index_attribute_struct_v1 list \<Rightarrow> wst \<Rightarrow> wst" where
  "write_attrs_index e realloc_ok attrs_root s =
     (let buffer_offset_start = w_off s;
          attrs_count = of_nat (length attrs_root) :: u32;
          s' = fold (write_attr_entry e realloc_ok) attrs_root (reserve (4 + 8) (s\<lparr>w_index_size := 0\<rparr>))
      in patch realloc_ok buffer_offset_start [enc e 4 attrs_count, enc e 8 (w_index_size s')] s')"

text \<open>
  The value of an attribute. The terminating zero is stored before the result of \<open>malloc\<close> is
  tested, so a failed allocation is an access through a null pointer.
\<close>

definition parse_attr_value ::
  "endian \<Rightarrow> (nat \<Rightarrow> bool) \<Rightarrow> ADIOS_DATATYPES \<Rightarrow> u8 list option parser" where
  "parse_attr_value e malloc_ok type =
     pbind (if type = adios_string then get_u16 e else preturn (ucast (adios_get_type_size type (Some ''''))))
       (\<lambda>size.
        let data_size = unat size in
        if \<not> malloc_ok (data_size + 1) then pfail err_out_of_bounds
        else if type = adios_unknown then preturn None
        else if type = adios_string then pbind (get_bytes data_size) (\<lambda>data. preturn (Some data))
        else
          pbind (get_data e data_size (\<lambda>e p.
            if type = adios_complex \<or> type = adios_double_complex then id
            else if data_size = 2 then swap_16_ptr e p
            else if data_size = 4 then swap_32_ptr e p
            else if data_size = 8 then swap_64_ptr e p
            else if data_size = 16 then swap_128_ptr e p
            else id)) (\<lambda>data. preturn (Some data)))"

text \<open>
  A bitmap is stored into the 64-bit \<open>offset\<close>, of which \<open>swap_32\<close> then swaps the first four bytes
  in memory.
\<close>

definition bitmap_as_offset :: "endian \<Rightarrow> u8 list \<Rightarrow> bool \<Rightarrow> u64" where
  "bitmap_as_offset e bs swap =
     (let off = ucast (dec e bs :: u32) :: u64; mem = enc e 8 off
      in if swap then dec e (rev (take 4 mem) @ drop 4 mem) else off)"

definition parse_attr_item ::
  "endian \<Rightarrow> plugin_infos \<Rightarrow> (nat \<Rightarrow> bool) \<Rightarrow> ADIOS_DATATYPES
    \<Rightarrow> adios_index_characteristic_struct_v1 list \<Rightarrow> u8 \<Rightarrow> adios_index_characteristic_struct_v1
    \<Rightarrow> adios_index_characteristic_struct_v1 parser" where
  "parse_attr_item e infos malloc_ok type chs flag ch =
     (if flag = adios_characteristic_value then
        pbind (parse_attr_value e malloc_ok type) (\<lambda>data. preturn (ch\<lparr>ch_value := data\<rparr>))
      else if flag = adios_characteristic_offset then
        pbind (get_u64 e) (\<lambda>x. preturn (ch\<lparr>ch_offset := x\<rparr>))
      else if flag = adios_characteristic_bitmap then
        pbind (get_bytes 4) (\<lambda>bs b.
          preturn (ch\<lparr>ch_offset := bitmap_as_offset e bs (bp_change_endianness b = adios_flag_yes)\<rparr>) b)
      else if flag = adios_characteristic_payload_offset then
        pbind (get_u64 e) (\<lambda>x. preturn (ch\<lparr>ch_payload_offset := x\<rparr>))
      else if flag = adios_characteristic_file_index then
        pbind (get_u32 e) (\<lambda>x. preturn (ch\<lparr>ch_file_index := x\<rparr>))
      else if flag = adios_characteristic_time_index then
        pbind (get_u32 e) (\<lambda>x. preturn (ch\<lparr>ch_time_index := x\<rparr>))
      else if flag = adios_characteristic_var_id then
        pbind (get_u32 e) (\<lambda>x. preturn (ch\<lparr>ch_var_id := x\<rparr>))
      else if flag = adios_characteristic_transform_type then
        pbind (adios_transform_deserialize_transform_characteristic e infos (ch_transform ch))
          (\<lambda>tr. preturn (ch\<lparr>ch_transform := tr\<rparr>))
      else preturn ch)"

definition parse_attr_entry ::
  "plugin_infos \<Rightarrow> (nat \<Rightarrow> bool) \<Rightarrow> endian \<Rightarrow> adios_index_attribute_struct_v1 parser" where
  "parse_attr_entry infos malloc_ok e =
     pbind (get_u32 e) (\<lambda>attr_entry_length.
     pbind (get_u32 e) (\<lambda>ident.
     pbind (get_string e) (\<lambda>group_name.
     pbind (get_string e) (\<lambda>attr_name.
     pbind (get_string e) (\<lambda>attr_path.
     pbind get_u8 (\<lambda>flag.
     pbind (get_u64 e) (\<lambda>characteristics_sets_count.
     pbind (parse_sets e (parse_attr_item e infos malloc_ok (type_of_code flag))
         (unat characteristics_sets_count) []) (\<lambda>chs.
     preturn \<lparr>a_id = ident, a_group_name = group_name, a_attr_name = attr_name, a_attr_path = attr_path,
       a_type = type_of_code flag, a_characteristics_count = characteristics_sets_count,
       a_characteristics_allocated = characteristics_sets_count, a_characteristics = chs\<rparr>))))))))"

definition adios_parse_attributes_index_v1 ::
  "plugin_infos \<Rightarrow> (nat \<Rightarrow> bool) \<Rightarrow> endian \<Rightarrow> adios_index_attribute_struct_v1 list
    \<Rightarrow> adios_index_attribute_struct_v1 list parser" where
  "adios_parse_attributes_index_v1 infos malloc_ok e attrs_root b =
     (if bp_length b - bp_offset b < 10 then Inl err_invalid_buffer_attrs
      else
        pbind (get_u32 e) (\<lambda>attrs_count.
        pbind (get_u64 e) (\<lambda>attrs_length.
        pbind (parse_times (unat attrs_count) (parse_attr_entry infos malloc_ok e)) (\<lambda>new.
        preturn (new @ drop (length new) attrs_root)))) b)"

section \<open>What is written\<close>

definition attr_ch_ok :: "ADIOS_DATATYPES \<Rightarrow> adios_index_characteristic_struct_v1 \<Rightarrow> bool" where
  "attr_ch_ok type ch \<longleftrightarrow> scalar_only ch \<and> (case ch_value ch of Some v \<Rightarrow> value_ok type v | None \<Rightarrow> True)"

definition attr_ok :: "(nat \<Rightarrow> bool) \<Rightarrow> adios_index_attribute_struct_v1 \<Rightarrow> bool" where
  "attr_ok malloc_ok a \<longleftrightarrow>
     (\<forall>n. malloc_ok n) \<and> str_ok (a_group_name a) \<and> str_ok (a_attr_name a) \<and> str_ok (a_attr_path a)
     \<and> a_type a \<noteq> adios_unknown \<and> unat (a_characteristics_count a) = length (a_characteristics a)
     \<and> list_all (attr_ch_ok (a_type a)) (a_characteristics a)"

definition var_id_items :: "u32 \<Rightarrow> nat" where
  "var_id_items var_id = (if var_id = 0 then 0 else 1)"

definition var_id_bytes :: "endian \<Rightarrow> u32 \<Rightarrow> u8 list" where
  "var_id_bytes e var_id = (if var_id = 0 then [] else adios_characteristic_var_id # enc e 4 var_id)"

definition attr_items :: "adios_index_characteristic_struct_v1 \<Rightarrow> nat" where
  "attr_items ch = 4 + (value_items (ch_value ch) + var_id_items (ch_var_id ch))"

definition attr_items_bytes :: "endian \<Rightarrow> ADIOS_DATATYPES \<Rightarrow> adios_index_characteristic_struct_v1 \<Rightarrow> u8 list" where
  "attr_items_bytes e type ch =
     common_bytes e ch @ value_bytes e type (ch_value ch) @ var_id_bytes e (ch_var_id ch)"

definition attr_set_bytes :: "endian \<Rightarrow> ADIOS_DATATYPES \<Rightarrow> adios_index_characteristic_struct_v1 \<Rightarrow> u8 list" where
  "attr_set_bytes e type ch = set_bytes e (attr_items_bytes e type ch) (attr_items ch)"

definition attr_body :: "endian \<Rightarrow> adios_index_attribute_struct_v1 \<Rightarrow> u8 list" where
  "attr_body e a =
     entry_body e (a_id a) (a_group_name a) (a_attr_name a) (a_attr_path a) (a_type a) (a_characteristics_count a)
       (concat (map (attr_set_bytes e (a_type a)) (a_characteristics a)))"

definition attr_bytes :: "endian \<Rightarrow> adios_index_attribute_struct_v1 \<Rightarrow> u8 list" where
  "attr_bytes e a = enc e 4 (of_nat (length (attr_body e a)) :: u32) @ attr_body e a"

definition attr_as_read ::
  "endian \<Rightarrow> endian \<Rightarrow> adios_index_attribute_struct_v1 \<Rightarrow> adios_index_attribute_struct_v1" where
  "attr_as_read e1 e2 a =
     a\<lparr>a_characteristics_allocated := a_characteristics_count a,
       a_characteristics := map (\<lambda>ch. ch\<lparr>ch_value := map_option (value_as_read e1 e2 (a_type a)) (ch_value ch)\<rparr>)
         (a_characteristics a)\<rparr>"

lemma inset_var_id:
  assumes "\<And>n. ok n"
  shows "inset (if var_id \<noteq> 0 then write_var_id_item e ok var_id else (\<lambda>s. s)) (var_id_bytes e var_id) (var_id_items var_id)"
proof (cases "var_id = 0")
  case False
  with inset_pipe [of "[set_item ok 5, bws ok (enc e 4 var_id)]" "[([5], 1), (enc e 4 var_id, 0)]"]
    inset_item [of ok 5, OF assms] inset_bws [of ok, OF assms] show ?thesis
    by (simp add: write_var_id_item_def var_id_bytes_def var_id_items_def del: pipe_Cons)
qed (simp add: var_id_bytes_def var_id_items_def inset_id)

lemma inentry_attr_set:
  assumes "\<And>n. ok n" and "type \<noteq> adios_unknown" and "attr_ch_ok type ch"
  shows "inentry (write_attr_set e ok type ch) (attr_set_bytes e type ch)"
proof -
  define V where "V = (case ch_value ch of None \<Rightarrow> (\<lambda>s. s)
      | Some v \<Rightarrow> if type = adios_string then write_string_item e ok (Some v) else write_value_item ok type v)"
  define I where "I = (if ch_var_id ch \<noteq> 0 then write_var_id_item e ok (ch_var_id ch) else (\<lambda>s. s))"
  have "inset V (value_bytes e type (ch_value ch)) (value_items (ch_value ch))"
  proof (cases "ch_value ch")
    case None
    then show ?thesis by (simp add: V_def value_bytes_def value_items_def inset_id)
  next
    case (Some v)
    then have v: "value_ok type v" using assms(3) by (simp add: attr_ch_ok_def)
    show ?thesis
    proof (cases "type = adios_string")
      case True
      with inset_string [of ok, OF assms(1), of v e] v Some show ?thesis by (simp add: V_def value_items_def)
    next
      case False
      with inset_value [of ok, OF assms(1,2) False v, of e] Some show ?thesis by (simp add: V_def value_items_def)
    qed
  qed
  note body = inset_comp [OF inset_common [of ok, OF assms(1)] inset_comp [OF this inset_var_id [of ok, OF assms(1), of "ch_var_id ch" e]]]
  from inentry_set [of ok, OF assms(1) body, where e = e]
  have "inentry (\<lambda>s. let s' = I (V (write_common_items e ok ch (reserve 5 (add_sizes 5 (s\<lparr>w_set_len := 0, w_set_count := 0\<rparr>)))))
      in patch ok (w_off s) [[w_set_count s'], enc e 4 (w_set_len s')] s') (attr_set_bytes e type ch)"
    by (simp only: I_def attr_set_bytes_def set_bytes_def attr_items_bytes_def attr_items_def)
  moreover have "write_attr_set e ok type ch =
      (\<lambda>s. let s' = I (V (write_common_items e ok ch (reserve 5 (add_sizes 5 (s\<lparr>w_set_len := 0, w_set_count := 0\<rparr>)))))
      in patch ok (w_off s) [[w_set_count s'], enc e 4 (w_set_len s')] s')"
    by (simp add: fun_eq_iff write_attr_set_def V_def I_def Let_def del: patch.simps split: option.splits)
  ultimately show ?thesis by simp
qed

lemma inindex_attr_entry:
  assumes "\<And>n. ok n" and "attr_ok malloc_ok a"
  shows "inindex (write_attr_entry e ok a) (attr_bytes e a) (length (attr_body e a))"
proof -
  have s: "str_ok (a_group_name a)" "str_ok (a_attr_name a)" "str_ok (a_attr_path a)" "a_type a \<noteq> adios_unknown"
    "take (unat (a_characteristics_count a)) (a_characteristics a) = a_characteristics a"
    "list_all (attr_ch_ok (a_type a)) (a_characteristics a)"
    using assms(2) by (auto simp: attr_ok_def)
  have "inentry (fold (write_attr_set e ok (a_type a)) (a_characteristics a))
      (concat (map (attr_set_bytes e (a_type a)) (a_characteristics a)))"
    using s(6) by (intro inentry_fold inentry_attr_set [of ok, OF assms(1) s(4)]) (simp add: list_all_iff)
  from inindex_named_entry [of ok, OF assms(1) s(1-3) this, of e "a_id a" "a_type a" "a_characteristics_count a"] s(5)
  show ?thesis
    by (simp add: write_attr_entry_def [abs_def] attr_bytes_def attr_body_def Let_def del: pipe_Cons patch.simps)
qed

section \<open>What is read back\<close>

lemma parse_attr_value_eq:
  assumes "\<And>n. mok n"
  shows "parse_attr_value e mok type = parse_value e mok type"
  by (auto simp: fun_eq_iff parse_attr_value_def parse_value_def assms Let_def pbind_assoc cong: if_cong)

lemma attr_item_simps:
  "parse_attr_item e infos mok type chs adios_characteristic_value ch =
     pbind (parse_attr_value e mok type) (\<lambda>data. preturn (ch\<lparr>ch_value := data\<rparr>))"
  "parse_attr_item e infos mok type chs adios_characteristic_var_id ch =
     pbind (get_u32 e) (\<lambda>x. preturn (ch\<lparr>ch_var_id := x\<rparr>))"
  by (simp_all add: parse_attr_item_def)

lemma parses_attr_items:
  assumes "\<And>n. mok n" and "type \<noteq> adios_unknown" and "attr_ch_ok type ch"
  shows "parses (flag_for e1 e2) (parse_set (parse_attr_item e2 infos mok type chs) (attr_items ch) zero_characteristic)
    (attr_items_bytes e1 type ch) (ch\<lparr>ch_value := map_option (value_as_read e1 e2 type) (ch_value ch)\<rparr>)"
proof -
  let ?item = "parse_attr_item e2 infos mok type chs" and ?fl = "flag_for e1 e2"
  let ?ch1 = "zero_characteristic\<lparr>ch_offset := ch_offset ch, ch_payload_offset := ch_payload_offset ch,
       ch_file_index := ch_file_index ch, ch_time_index := ch_time_index ch\<rparr>"
  let ?ch2 = "?ch1\<lparr>ch_value := map_option (value_as_read e1 e2 type) (ch_value ch)\<rparr>"
  let ?ch3 = "?ch2\<lparr>ch_var_id := ch_var_id ch\<rparr>"
  have v: "case ch_value ch of Some v \<Rightarrow> value_ok type v | None \<Rightarrow> True" and sc: "scalar_only ch"
    using assms(3) by (auto simp: attr_ch_ok_def)
  have "common_parser e2 ?item" by (simp add: common_parser_def parse_attr_item_def)
  then have p1: "parses ?fl (parse_set ?item 4 zero_characteristic) (common_bytes e1 ch) ?ch1"
    by (rule parses_common)
  have p2: "parses ?fl (parse_set ?item (value_items (ch_value ch)) ?ch1) (value_bytes e1 type (ch_value ch)) ?ch2"
    by (rule parses_value_item [of mok, OF assms(1,2) v refl])
      (simp_all add: attr_item_simps parse_attr_value_eq [of mok, OF assms(1)] zero_characteristic_def)
  have p3: "parses ?fl (parse_set ?item (var_id_items (ch_var_id ch)) ?ch2) (var_id_bytes e1 (ch_var_id ch)) ?ch3"
  proof (cases "ch_var_id ch = 0")
    case True
    then have "?ch3 = ?ch2" by (simp add: zero_characteristic_def)
    with True show ?thesis by (simp add: var_id_items_def var_id_bytes_def parses_return)
  next
    case False
    have "parses ?fl (parse_set ?item 1 ?ch2) (adios_characteristic_var_id # enc e1 4 (ch_var_id ch)) ?ch3"
      by (rule parses_set_one) (simp only: attr_item_simps, rule parses_last [OF parses_u32])
    with False show ?thesis by (simp add: var_id_items_def var_id_bytes_def del: parse_set.simps)
  qed
  have "?ch3 = ch\<lparr>ch_value := map_option (value_as_read e1 e2 type) (ch_value ch)\<rparr>"
    using sc by (simp add: scalar_only_def zero_characteristic_def)
  with parses_set_add [OF p1 parses_set_add [OF p2 p3]] show ?thesis
    by (simp add: attr_items_def attr_items_bytes_def)
qed

lemma parses_attr_entry:
  assumes "attr_ok mok a"
  shows "parses (flag_for e1 e2) (parse_attr_entry infos mok e2) (attr_bytes e1 a) (attr_as_read e1 e2 a)"
proof -
  let ?fl = "flag_for e1 e2" and ?chs = "a_characteristics a" and ?item = "parse_attr_item e2 infos mok (a_type a)"
    and ?rd = "\<lambda>ch. ch\<lparr>ch_value := map_option (value_as_read e1 e2 (a_type a)) (ch_value ch)\<rparr>"
  have s: "str_ok (a_group_name a)" "str_ok (a_attr_name a)" "str_ok (a_attr_path a)"
    and ty: "a_type a \<noteq> adios_unknown" and mok: "\<And>n. mok n"
    and count: "unat (a_characteristics_count a) = length ?chs"
    and chs: "\<And>ch. ch \<in> set ?chs \<Longrightarrow> attr_ch_ok (a_type a) ch"
    using assms by (auto simp: attr_ok_def list_all_iff)
  have "parses ?fl (parse_sets e2 ?item (length ?chs) [])
      (concat (map (\<lambda>ch. set_bytes e1 (attr_items_bytes e1 (a_type a) ch) (attr_items ch)) ?chs)) (map ?rd ?chs)"
  proof (rule parses_sets)
    fix i assume "i < length ?chs"
    moreover have "attr_items ch < 256" for ch by (simp add: attr_items_def value_items_def var_id_items_def)
    ultimately show "attr_items (?chs ! i) < 256 \<and> parses ?fl (parse_set (?item (map ?rd (take i ?chs))) (attr_items (?chs ! i))
        zero_characteristic) (attr_items_bytes e1 (a_type a) (?chs ! i)) (?rd (?chs ! i))"
      using parses_attr_items [of mok, OF mok ty chs] by simp
  qed
  then have sets: "parses ?fl (parse_sets e2 ?item (unat (a_characteristics_count a)) [])
      (concat (map (attr_set_bytes e1 (a_type a)) ?chs)) (map ?rd ?chs)"
    by (simp add: count attr_set_bytes_def [abs_def])
  have read: "\<lparr>a_id = a_id a, a_group_name = a_group_name a, a_attr_name = a_attr_name a, a_attr_path = a_attr_path a,
      a_type = a_type a, a_characteristics_count = a_characteristics_count a,
      a_characteristics_allocated = a_characteristics_count a, a_characteristics = map ?rd ?chs\<rparr>
      = attr_as_read e1 e2 a" by (cases a) (simp add: attr_as_read_def)
  have "parses ?fl (parse_attr_entry infos mok e2) (enc e1 4 (of_nat (length (attr_body e1 a)) :: u32)
      @ enc e1 4 (a_id a) @ enc_string e1 (a_group_name a) @ enc_string e1 (a_attr_name a) @ enc_string e1 (a_attr_path a)
      @ [word_of_int (type_code (a_type a))] @ enc e1 8 (a_characteristics_count a)
      @ concat (map (attr_set_bytes e1 (a_type a)) ?chs) @ []) (attr_as_read e1 e2 a)"
    unfolding parse_attr_entry_def
    by (intro parses_bind [OF parses_u32] parses_bind [OF parses_string] parses_bind [OF parses_u8]
        parses_bind [OF parses_u64] s)
      (simp only: type_of_code_of [OF ty], intro parses_bind [OF sets], simp only: read parses_return)
  then show ?thesis by (simp add: attr_bytes_def attr_body_def entry_body_def)
qed

interpretation attr_codec: index_codec write_attr_entry attr_bytes "\<lambda>e a. length (attr_body e a)"
  "parse_attr_entry infos malloc_ok" attr_as_read "\<lambda>_. attr_ok malloc_ok" for infos malloc_ok
  by unfold_locales (auto intro: inindex_attr_entry parses_attr_entry)

definition attrs_index_bytes :: "endian \<Rightarrow> adios_index_attribute_struct_v1 list \<Rightarrow> u8 list" where
  "attrs_index_bytes e attrs = enc e 4 (of_nat (length attrs) :: u32)
     @ enc e 8 (of_nat (sum_list (map (\<lambda>a. length (attr_body e a)) attrs)) :: u64)
     @ concat (map (attr_bytes e) attrs)"

lemma emits_attrs_index:
  assumes "\<And>n. ok n" and "list_all (attr_ok mok) attrs"
  shows "emits (write_attrs_index e ok attrs) (attrs_index_bytes e attrs)"
  using attr_codec.emits_entries [of ok, OF assms, of "enc e 4 (of_nat (length attrs) :: u32)" 4 e]
  by (simp add: write_attrs_index_def [abs_def] attrs_index_bytes_def Let_def del: patch.simps)

lemma read_attrs_index:
  assumes "list_all (attr_ok mok) attrs" and "length attrs < 2 ^ 32" and "placed b (attrs_index_bytes e1 attrs)"
    and "bp_change_endianness b = flag_for e1 e2"
  shows "adios_parse_attributes_index_v1 infos mok e2 old b =
    Inr (map (attr_as_read e1 e2) attrs @ drop (length attrs) old,
         b\<lparr>bp_offset := bp_offset b + of_nat (length (attrs_index_bytes e1 attrs))\<rparr>)"
proof -
  have entries: "parses (flag_for e1 e2) (parse_times (unat (of_nat (length attrs) :: u32)) (parse_attr_entry infos mok e2))
      (concat (map (attr_bytes e1) attrs)) (map (attr_as_read e1 e2) attrs)"
    using assms(2) by (intro attr_codec.parses_entries [OF assms(1)]) simp
  have "parses (flag_for e1 e2) (pbind (get_u32 e2) (\<lambda>attrs_count. pbind (get_u64 e2) (\<lambda>attrs_length.
      pbind (parse_times (unat attrs_count) (parse_attr_entry infos mok e2)) (\<lambda>new.
      preturn (new @ drop (length new) old)))))
    (attrs_index_bytes e1 attrs) (map (attr_as_read e1 e2) attrs @ drop (length attrs) old)"
    unfolding attrs_index_bytes_def
    by (intro parses_bind [OF parses_u32] parses_bind [OF parses_u64])
      (use parses_last [OF entries, of "\<lambda>new. new @ drop (length new) old"] in simp)
  from placed_parses [OF assms(3) this [folded assms(4)]] placed_guard [OF assms(3), of 10] show ?thesis
    by (simp add: adios_parse_attributes_index_v1_def attrs_index_bytes_def)
qed

text \<open>
  C18. The attribute index written on one machine and read on another: attributes with their
  names, types, values and the ids of the variables they refer to are read back in their order, as
  \<open>attr_as_read\<close>: unchanged, with the values in the reader's byte order, but for those of complex
  types, which keep the byte order of the writer.
\<close>

theorem attrs_index_roundtrip:
  assumes "\<And>n. ok n" and "list_all (attr_ok malloc_ok) attrs" and "length attrs < 2 ^ 32"
    and "placed b (emitted (write_attrs_index e1 ok attrs) s)"
    and "bp_change_endianness b = flag_for e1 e2"
  shows "adios_parse_attributes_index_v1 infos malloc_ok e2 old b =
    Inr (map (attr_as_read e1 e2) attrs @ drop (length attrs) old,
         b\<lparr>bp_offset := bp_offset b + of_nat (length (emitted (write_attrs_index e1 ok attrs) s))\<rparr>)"
  using read_attrs_index [OF assms(2,3) _ assms(5)] assms(4)
  unfolding emits_emitted [OF emits_attrs_index [of ok, OF assms(1,2)]] by blast

definition attr_example :: adios_index_attribute_struct_v1 where
  "attr_example = \<lparr>a_id = 2, a_group_name = ''g'', a_attr_name = ''units'', a_attr_path = ''/T'', a_type = adios_string,
     a_characteristics_count = 1, a_characteristics_allocated = 1,
     a_characteristics = [zero_characteristic\<lparr>ch_offset := 300, ch_payload_offset := 340, ch_value := Some [75]\<rparr>]\<rparr>"

lemma attr_example_ok: "attr_ok (\<lambda>_. True) attr_example"
  by (simp add: attr_ok_def attr_example_def str_ok_def nul_free_def attr_ch_ok_def scalar_only_def
      zero_characteristic_def value_ok_def)

lemma attrs_index_roundtrip_witness:
  "\<exists>b'. adios_parse_attributes_index_v1 [] (\<lambda>_. True) Little [] (bp_buffer_of adios_flag_yes
       (emitted (write_attrs_index Big (\<lambda>_. True) [attr_example]) empty_wst)) = Inr ([attr_example], b')"
proof -
  let ?bs = "emitted (write_attrs_index Big (\<lambda>_. True) [attr_example]) empty_wst"
  have ok: "list_all (attr_ok (\<lambda>_. True)) [attr_example]" by (simp add: attr_example_ok)
  have "length ?bs < 2 ^ 64"
    unfolding emits_emitted [OF emits_attrs_index [of "\<lambda>_. True", OF TrueI ok]]
    by (simp add: attrs_index_bytes_def attr_bytes_def attr_body_def entry_body_def attr_example_def enc_string_def attr_set_bytes_def
        set_bytes_def attr_items_bytes_def common_bytes_def value_bytes_def var_id_bytes_def zero_characteristic_def)
  then have "placed (bp_buffer_of adios_flag_yes ?bs) ?bs" by (rule placed_whole)
  moreover have "attr_as_read Big Little attr_example = attr_example"
    by (simp add: attr_as_read_def attr_example_def value_as_read_def)
  moreover have "bp_change_endianness (bp_buffer_of adios_flag_yes ?bs) = flag_for Big Little"
    by (simp add: bp_buffer_of_def flag_for_def)
  ultimately show ?thesis
    using attrs_index_roundtrip [of "\<lambda>_. True" "\<lambda>_. True" "[attr_example]" "bp_buffer_of adios_flag_yes ?bs"
        Big empty_wst Little "[]" "[]"] ok by simp
qed

end
