(* ===== verification/BP_Index.thy ===== *)
theory BP_Index
  imports BP_Vars BP_Attrs
begin

text \<open>
  The metadata at the end of a BP file: \<open>adios_write_index_v1\<close> (\<open>core/adios_internals.c\<close>) as a
  whole, with the three indexes, the version information and the table of their offsets, and the
  version word that the write methods add. The theorem follows a reader that starts from the end
  of the file.
\<close>

section \<open>Writing the metadata\<close>

record adios_index_struct_v1 =
  ix_pg_root :: "adios_index_process_group_struct_v1 list"
  ix_vars_root :: "adios_index_var_struct_v1 list"
  ix_attrs_root :: "adios_index_attribute_struct_v1 list"

text \<open>
  \<open>VERSION\<close> and its three numbers come from the configuration. The version string is padded to
  14 characters and cut there.
\<close>

record adios_version =
  VERSION :: cstring
  VERSION_MAJOR :: u8
  VERSION_MINOR :: u8
  VERSION_MICRO :: u8

definition verstr :: "cstring \<Rightarrow> cstring" where
  "verstr version = ''ADIOS-BP v'' @ take 14 version @ replicate (14 - length version) CHR '' ''"

definition write_version_info :: "(nat \<Rightarrow> bool) \<Rightarrow> adios_version \<Rightarrow> wst \<Rightarrow> wst" where
  "write_version_info realloc_ok ver =
     pipe [bw realloc_ok (bytes_of_string (verstr (VERSION ver))),
           bw realloc_ok [VERSION_MAJOR ver], bw realloc_ok [VERSION_MINOR ver],
           bw realloc_ok [VERSION_MICRO ver], bw realloc_ok [0]]"

definition adios_write_index_v1 ::
  "plugin_infos \<Rightarrow> adios_version \<Rightarrow> endian \<Rightarrow> (nat \<Rightarrow> bool) \<Rightarrow> u64 \<Rightarrow> adios_index_struct_v1 \<Rightarrow> wst \<Rightarrow> wst" where
  "adios_write_index_v1 infos ver e realloc_ok index_start index s =
     (let pg_index_start = index_start;
          s = write_pg_index e realloc_ok (ix_pg_root index) s;
          vars_index_start = of_nat (w_off s) + index_start;
          s = write_vars_index infos e realloc_ok (ix_vars_root index) s;
          attrs_index_start = of_nat (w_off s) + index_start;
          s = write_attrs_index e realloc_ok (ix_attrs_root index) s;
          s = write_version_info realloc_ok ver s
      in pipe [bw realloc_ok (enc e 8 pg_index_start), bw realloc_ok (enc e 8 vars_index_start),
               bw realloc_ok (enc e 8 attrs_index_start)] s)"

text \<open>The index and the version word, as the write methods write them from an empty buffer.\<close>

definition write_metadata ::
  "plugin_infos \<Rightarrow> adios_version \<Rightarrow> endian \<Rightarrow> (nat \<Rightarrow> bool) \<Rightarrow> u64 \<Rightarrow> adios_index_struct_v1 \<Rightarrow> wst \<Rightarrow> wst" where
  "write_metadata infos ver e realloc_ok index_start index s =
     adios_write_version_flag_v1 e realloc_ok 0
       (adios_write_index_v1 infos ver e realloc_ok index_start index s)"

section \<open>Its bytes\<close>

definition index_ok :: "plugin_infos \<Rightarrow> (nat \<Rightarrow> bool) \<Rightarrow> endian \<Rightarrow> adios_index_struct_v1 \<Rightarrow> bool" where
  "index_ok infos malloc_ok e index \<longleftrightarrow>
     list_all pg_ok (ix_pg_root index) \<and> list_all (var_ok infos malloc_ok e) (ix_vars_root index)
     \<and> list_all (attr_ok malloc_ok) (ix_attrs_root index)
     \<and> length (ix_vars_root index) < 2 ^ 32 \<and> length (ix_attrs_root index) < 2 ^ 32"

definition version_info_bytes :: "adios_version \<Rightarrow> u8 list" where
  "version_info_bytes ver = bytes_of_string (verstr (VERSION ver))
     @ [VERSION_MAJOR ver, VERSION_MINOR ver, VERSION_MICRO ver, 0]"

lemma length_version_info: "length (version_info_bytes ver) = 28"
  by (simp add: version_info_bytes_def verstr_def)

definition metadata_bytes ::
  "plugin_infos \<Rightarrow> adios_version \<Rightarrow> endian \<Rightarrow> u64 \<Rightarrow> adios_index_struct_v1 \<Rightarrow> u8 list" where
  "metadata_bytes infos ver e index_start index =
     (let pg = pg_index_bytes e (ix_pg_root index); vars = vars_index_bytes infos e (ix_vars_root index);
          attrs = attrs_index_bytes e (ix_attrs_root index)
      in pg @ vars @ attrs @ version_info_bytes ver
         @ (enc e 8 index_start @ enc e 8 (of_nat (length pg) + index_start)
            @ enc e 8 (of_nat (length pg + length vars) + index_start))
         @ rev (bytes_le 4 (version_word e 0)))"

lemma emitted_metadata:
  assumes "\<And>n. ok n" and "index_ok infos mok e index" and "w_off s = 0"
  shows "emitted (write_metadata infos ver e ok index_start index) s = metadata_bytes infos ver e index_start index"
proof -
  let ?pg = "pg_index_bytes e (ix_pg_root index)" and ?vars = "vars_index_bytes infos e (ix_vars_root index)"
    and ?attrs = "attrs_index_bytes e (ix_attrs_root index)"
  let ?vs = "of_nat (length ?pg) + index_start" and ?as = "of_nat (length ?pg + length ?vars) + index_start"
  have i: "list_all pg_ok (ix_pg_root index)" "list_all (var_ok infos mok e) (ix_vars_root index)"
    "list_all (attr_ok mok) (ix_attrs_root index)" using assms(2) by (auto simp: index_ok_def)
  note w = emits_bw [of ok, OF assms(1)] emits_version [of ok, OF assms(1)]
    emits_pg_index [of ok, OF assms(1) i(1), of e] emits_vars_index [of ok, OF assms(1) i(2)]
    emits_attrs_index [of ok, OF assms(1) i(3), of e]
  have info: "emits (write_version_info ok ver) (version_info_bytes ver)"
    using emits_pipe [of "[bw ok (bytes_of_string (verstr (VERSION ver))), bw ok [VERSION_MAJOR ver],
        bw ok [VERSION_MINOR ver], bw ok [VERSION_MICRO ver], bw ok [0]]"
        "[bytes_of_string (verstr (VERSION ver)), [VERSION_MAJOR ver], [VERSION_MINOR ver], [VERSION_MICRO ver], [0]]"]
    by (simp add: w write_version_info_def version_info_bytes_def del: pipe_Cons)
  let ?fs = "[write_pg_index e ok (ix_pg_root index), write_vars_index infos e ok (ix_vars_root index),
      write_attrs_index e ok (ix_attrs_root index), write_version_info ok ver, bw ok (enc e 8 index_start),
      bw ok (enc e 8 ?vs), bw ok (enc e 8 ?as), adios_write_version_flag_v1 e ok 0]"
  have "emits (pipe ?fs) (concat [?pg, ?vars, ?attrs, version_info_bytes ver, enc e 8 index_start, enc e 8 ?vs,
      enc e 8 ?as, rev (bytes_le 4 (version_word e 0))])"
    by (rule emits_pipe) (simp add: w info)
  then have em: "emits (pipe ?fs) (metadata_bytes infos ver e index_start index)"
    by (simp add: metadata_bytes_def Let_def del: pipe_Cons)
  have "w_off (write_pg_index e ok (ix_pg_root index) s) = length ?pg"
    "w_off (write_vars_index infos e ok (ix_vars_root index) (write_pg_index e ok (ix_pg_root index) s))
      = length ?pg + length ?vars"
    using w(3,4) assms(3) by (simp_all add: emits_def)
  then have "write_metadata infos ver e ok index_start index s = pipe ?fs s"
    by (simp add: write_metadata_def adios_write_index_v1_def Let_def)
  with emits_emitted [OF em, of s] show ?thesis by (simp add: emitted_def)
qed

lemma pg_count_fits: "length pgs \<le> length (pg_index_bytes e pgs)"
proof -
  have "length pgs \<le> length (concat (map (pg_bytes e) pgs))"
  proof (induction pgs)
    case (Cons pg pgs)
    have "1 \<le> length (pg_bytes e pg)" by (simp add: pg_bytes_def)
    with Cons show ?case by simp
  qed simp
  then show ?thesis by (simp add: pg_index_bytes_def)
qed

text \<open>An example.\<close>

definition index_example :: adios_index_struct_v1 where
  "index_example = \<lparr>ix_pg_root = [pg_example], ix_vars_root = [var_example], ix_attrs_root = [attr_example]\<rparr>"

definition version_example :: adios_version where
  "version_example = \<lparr>VERSION = ''1.9.0'', VERSION_MAJOR = 1, VERSION_MINOR = 9, VERSION_MICRO = 0\<rparr>"

lemma index_example_ok: "index_ok [] (\<lambda>_. True) e index_example"
  by (simp add: index_ok_def index_example_def var_example_ok attr_example_ok pg_ok_def pg_example_def
      str_ok_def nul_free_def)

end
