(* ===== verification/BP_Posix.thy ===== *)
theory BP_Posix
  imports BP_Index
begin

text \<open>
  Reading the metadata of a file with POSIX calls: the buffer handling and the
  \<open>adios_posix_read_...\<close> functions at the end of \<open>core/adios_bp_v1.c\<close>, and the part of
  \<open>adios_posix_open\<close> (\<open>write/adios_posix.c\<close>) that reads the old metadata of a file it appends to.
\<close>

section \<open>Buffers\<close>

text \<open>
  The buffer is aligned within a slightly larger block, whose size is computed in 64 bits and may
  wrap; \<open>fresh\<close> is what the block holds. A null buffer has no bytes.
\<close>

definition realloc_aligned :: "(nat \<Rightarrow> bool) \<Rightarrow> (nat \<Rightarrow> u8) \<Rightarrow> u64 \<Rightarrow> bp_buffer \<Rightarrow> bp_buffer" where
  "realloc_aligned malloc_ok fresh sz b =
     (if malloc_ok (unat (sz + 8 - 1))
      then b\<lparr>bp_buff := map fresh [0..<min (unat sz) (unat (sz + 8 - 1))], bp_length := sz\<rparr>
      else b\<lparr>bp_buff := [], bp_length := 0\<rparr>)"

definition alloc_aligned :: "(nat \<Rightarrow> bool) \<Rightarrow> (nat \<Rightarrow> u8) \<Rightarrow> u64 \<Rightarrow> bp_buffer \<Rightarrow> bp_buffer" where
  "alloc_aligned malloc_ok fresh sz b =
     (if malloc_ok (unat (sz + 8 - 1))
      then b\<lparr>bp_buff := map fresh [0..<min (unat sz) (unat (sz + 8 - 1))], bp_length := sz\<rparr>
      else b\<lparr>bp_buff := [], bp_length := 0\<rparr>)"

section \<open>Files\<close>

text \<open>
  \<open>lseek\<close> to an offset and \<open>read\<close> into the buffer. A regular file gives all the bytes it has
  there; a read into a null buffer fails and changes nothing. An offset that is negative as an
  \<open>off_t\<close> and a read beyond the buffer end the model.
\<close>

definition read_at :: "u8 list \<Rightarrow> u64 \<Rightarrow> u64 \<Rightarrow> bp_buffer \<Rightarrow> adios_errcode + bp_buffer" where
  "read_at file off n b =
     (if sint off < 0 then Inl err_out_of_bounds
      else if bp_buff b = [] then Inr b
      else if unat n > length (bp_buff b) then Inl err_out_of_bounds
      else let d = take (unat n) (drop (unat off) file)
           in Inr (b\<lparr>bp_buff := d @ drop (length d) (bp_buff b)\<rparr>))"

definition adios_init_buffer_read_version ::
  "(nat \<Rightarrow> bool) \<Rightarrow> (nat \<Rightarrow> u8) \<Rightarrow> bp_buffer \<Rightarrow> adios_errcode + bp_buffer" where
  "adios_init_buffer_read_version malloc_ok fresh b =
     (if bp_buff b = [] then
        let b = alloc_aligned malloc_ok fresh 28 b
        in if bp_buff b = [] then Inl err_out_of_bounds
           else Inr (b\<lparr>bp_buff := replicate 28 0, bp_offset := 24\<rparr>)
      else Inr b)"

definition adios_posix_read_version ::
  "(nat \<Rightarrow> bool) \<Rightarrow> (nat \<Rightarrow> u8) \<Rightarrow> u8 list \<Rightarrow> bp_buffer \<Rightarrow> adios_errcode + bp_buffer" where
  "adios_posix_read_version malloc_ok fresh file b =
     (case adios_init_buffer_read_version malloc_ok fresh b of
        Inl err \<Rightarrow> Inl err
      | Inr b \<Rightarrow> read_at file (bp_file_size b - 28) 28 b)"

definition adios_init_buffer_read_index_offsets :: "bp_buffer \<Rightarrow> bp_buffer" where
  "adios_init_buffer_read_index_offsets b = b\<lparr>bp_offset := 0\<rparr>"

definition adios_posix_read_index_offsets :: "bp_buffer \<Rightarrow> bp_buffer" where
  "adios_posix_read_index_offsets b = adios_init_buffer_read_index_offsets b"

definition adios_init_buffer_read_process_group_index ::
  "(nat \<Rightarrow> bool) \<Rightarrow> (nat \<Rightarrow> u8) \<Rightarrow> bp_buffer \<Rightarrow> bp_buffer" where
  "adios_init_buffer_read_process_group_index malloc_ok fresh b =
     (realloc_aligned malloc_ok fresh (bp_pg_size b) b)\<lparr>bp_offset := 0\<rparr>"

definition adios_posix_read_process_group_index ::
  "(nat \<Rightarrow> bool) \<Rightarrow> (nat \<Rightarrow> u8) \<Rightarrow> u8 list \<Rightarrow> bp_buffer \<Rightarrow> adios_errcode + bp_buffer" where
  "adios_posix_read_process_group_index malloc_ok fresh file b =
     (let b = adios_init_buffer_read_process_group_index malloc_ok fresh b
      in read_at file (bp_pg_index_offset b) (bp_pg_size b) b)"

definition adios_init_buffer_read_vars_index ::
  "(nat \<Rightarrow> bool) \<Rightarrow> (nat \<Rightarrow> u8) \<Rightarrow> bp_buffer \<Rightarrow> bp_buffer" where
  "adios_init_buffer_read_vars_index malloc_ok fresh b =
     (realloc_aligned malloc_ok fresh (bp_vars_size b) b)\<lparr>bp_offset := 0\<rparr>"

definition adios_posix_read_vars_index ::
  "(nat \<Rightarrow> bool) \<Rightarrow> (nat \<Rightarrow> u8) \<Rightarrow> u8 list \<Rightarrow> bp_buffer \<Rightarrow> adios_errcode + bp_buffer" where
  "adios_posix_read_vars_index malloc_ok fresh file b =
     (let b = adios_init_buffer_read_vars_index malloc_ok fresh b
      in read_at file (bp_vars_index_offset b) (bp_vars_size b) b)"

definition adios_init_buffer_read_attributes_index ::
  "(nat \<Rightarrow> bool) \<Rightarrow> (nat \<Rightarrow> u8) \<Rightarrow> bp_buffer \<Rightarrow> bp_buffer" where
  "adios_init_buffer_read_attributes_index malloc_ok fresh b =
     (realloc_aligned malloc_ok fresh (bp_attrs_size b) b)\<lparr>bp_offset := 0\<rparr>"

definition adios_posix_read_attributes_index ::
  "(nat \<Rightarrow> bool) \<Rightarrow> (nat \<Rightarrow> u8) \<Rightarrow> u8 list \<Rightarrow> bp_buffer \<Rightarrow> adios_errcode + bp_buffer" where
  "adios_posix_read_attributes_index malloc_ok fresh file b =
     (let b = adios_init_buffer_read_attributes_index malloc_ok fresh b
      in read_at file (bp_attrs_index_offset b) (bp_attrs_size b) b)"

text \<open>
  Opening: \<open>files\<close> gives the contents of the files that exist and can be read, \<open>fd\<close> is the
  descriptor that \<open>open\<close> returns. Opening a file to append to it, \<open>adios_posix_open\<close> does not call this
  function but has the same calls of \<open>stat\<close> and \<open>open\<close> in line, with the same effect on the buffer.
\<close>

definition adios_posix_open_read_internal ::
  "(cstring \<Rightarrow> u8 list option) \<Rightarrow> int \<Rightarrow> cstring \<Rightarrow> cstring \<Rightarrow> bp_buffer \<Rightarrow> bool \<times> bp_buffer" where
  "adios_posix_open_read_internal files fd filename base_path b =
     (case files (base_path @ filename) of
        None \<Rightarrow> (False, b\<lparr>bp_f := -1\<rparr>)
      | Some file \<Rightarrow> (True, b\<lparr>bp_file_size := of_nat (length file), bp_f := fd\<rparr>))"

definition adios_posix_close_internal :: "bp_buffer \<Rightarrow> bp_buffer" where
  "adios_posix_close_internal b = adios_buffer_struct_clear (b\<lparr>bp_f := -1\<rparr>)"

section \<open>Reading the metadata of a file to append to\<close>

text \<open>
  The callers ignore the result of a parser. A parser that refuses its buffer at once has not
  changed anything, so the caller goes on with what it had; \<open>junk\<close> stands for a variable that was
  never set. An error in the middle of an index ends the model.
\<close>

definition ignoring_result :: "'a \<Rightarrow> 'a parser \<Rightarrow> 'a parser" where
  "ignoring_result junk p b =
     (case p b of
        Inl err \<Rightarrow>
          if err \<in> {err_invalid_buffer_version, err_invalid_buffer_index, err_invalid_buffer_group,
                    err_invalid_buffer_vars, err_invalid_buffer_attrs}
          then Inr (junk, b) else Inl err
      | Inr r \<Rightarrow> Inr r)"

definition max_time_index :: "adios_index_process_group_struct_v1 list \<Rightarrow> u32" where
  "max_time_index pgs = fold (\<lambda>pg m. if pg_time_index pg > m then pg_time_index pg else m) pgs 0"

text \<open>
  The sequence that reads the version, the table of offsets and the three indexes, used when a
  file is appended to and when it is read. An unknown version gives \<open>None\<close>.
\<close>

definition posix_read_indexes ::
  "plugin_infos \<Rightarrow> u64 \<Rightarrow> u32 \<Rightarrow> (nat \<Rightarrow> bool) \<Rightarrow> (nat \<Rightarrow> u8) \<Rightarrow> endian \<Rightarrow> u8 list
    \<Rightarrow> adios_index_struct_v1 \<Rightarrow> nat qhashtbl_t option \<Rightarrow> (adios_index_struct_v1 \<times> nat qhashtbl_t option) option parser" where
  "posix_read_indexes infos junk version malloc_ok fresh e file index tbl b0 =
     (case adios_posix_read_version malloc_ok fresh file b0 of Inl err \<Rightarrow> Inl err | Inr b1 \<Rightarrow>
     (case ignoring_result version (adios_parse_version e) b1 of Inl err \<Rightarrow> Inl err | Inr (version, b2) \<Rightarrow>
      if version AND 0xFF \<noteq> 1 \<and> version AND 0xFF \<noteq> 2 then Inr (None, b2)
      else
     (case ignoring_result () (adios_parse_index_offsets_v1 e) (adios_posix_read_index_offsets b2) of
        Inl err \<Rightarrow> Inl err | Inr (_, b3) \<Rightarrow>
     (case adios_posix_read_process_group_index malloc_ok fresh file b3 of Inl err \<Rightarrow> Inl err | Inr b4 \<Rightarrow>
     (case ignoring_result (ix_pg_root index) (adios_parse_process_group_index_v1 e (ix_pg_root index)) b4 of
        Inl err \<Rightarrow> Inl err | Inr (pgs, b5) \<Rightarrow>
     (case adios_posix_read_vars_index malloc_ok fresh file b5 of Inl err \<Rightarrow> Inl err | Inr b6 \<Rightarrow>
     (case ignoring_result (ix_vars_root index, tbl, None)
             (adios_parse_vars_index_v1 infos junk malloc_ok e (ix_vars_root index) tbl) b6 of
        Inl err \<Rightarrow> Inl err | Inr ((vars, tbl', _), b7) \<Rightarrow>
     (case adios_posix_read_attributes_index malloc_ok fresh file b7 of Inl err \<Rightarrow> Inl err | Inr b8 \<Rightarrow>
     (case ignoring_result (ix_attrs_root index)
             (adios_parse_attributes_index_v1 infos malloc_ok e (ix_attrs_root index)) b8 of
        Inl err \<Rightarrow> Inl err | Inr (attrs, b9) \<Rightarrow>
          Inr (Some (\<lparr>ix_pg_root = pgs, ix_vars_root = vars, ix_attrs_root = attrs\<rparr>, tbl'), b9))))))))))"

text \<open>
  The state of the method that the code sets: the time index of the group, the index with its
  hash table of variables, and the base offset, which is also the start of the first new process
  group. An unknown version leaves it unset.
\<close>

record posix_append =
  ap_time_index :: u32
  ap_index :: adios_index_struct_v1
  ap_hashtbl_vars :: "nat qhashtbl_t option"
  ap_base_offset :: u64
  ap_pg_start_in_file :: u64

definition read_old_index ::
  "plugin_infos \<Rightarrow> u64 \<Rightarrow> u32 \<Rightarrow> (nat \<Rightarrow> bool) \<Rightarrow> (nat \<Rightarrow> u8) \<Rightarrow> endian \<Rightarrow> u8 list
    \<Rightarrow> adios_index_struct_v1 \<Rightarrow> nat qhashtbl_t option \<Rightarrow> posix_append option parser" where
  "read_old_index infos junk version malloc_ok fresh e file index tbl =
     pbind (posix_read_indexes infos junk version malloc_ok fresh e file index tbl) (\<lambda>r b. Inr
       (map_option (\<lambda>(index, tbl').
          \<lparr>ap_time_index = max_time_index (ix_pg_root index) + 1, ap_index = index, ap_hashtbl_vars = tbl',
           ap_base_offset = bp_end_of_pgs b, ap_pg_start_in_file = bp_end_of_pgs b\<rparr>) r, b))"


section \<open>What is read\<close>

lemma fits_off_t:
  assumes "n < 2 ^ 63"
  shows "unat (of_nat n :: u64) = n" and "\<not> sint (of_nat n :: u64) < 0"
proof -
  show u: "unat (of_nat n :: u64) = n" using assms by (simp add: unat_of_nat_small)
  have "\<not> bit (of_nat n :: u64) 63" using not_bit_unat_less [of "of_nat n :: u64" 63] u assms by simp
  then show "\<not> sint (of_nat n :: u64) < 0" using bit_last_iff [of "of_nat n :: u64"] by simp
qed

text \<open>A part of a file, read into a buffer of its size.\<close>

lemma read_slice:
  assumes "file = pre @ bs @ post" and "length file < 2 ^ 63" and "\<forall>n. malloc_ok n"
  shows "read_at file (of_nat (length pre)) (of_nat (length bs))
      ((realloc_aligned malloc_ok fresh (of_nat (length bs)) b)\<lparr>bp_offset := 0\<rparr>) =
    Inr (b\<lparr>bp_buff := bs, bp_length := of_nat (length bs), bp_offset := 0\<rparr>)"
proof -
  let ?n = "of_nat (length bs) :: u64"
  have len: "length pre < 2 ^ 63" "length bs < 2 ^ 63" using assms(1,2) by simp_all
  note n = fits_off_t [OF len(2)] and p = fits_off_t [OF len(1)]
  have "unat (?n + 7) = length bs + 7"
    using n(1) len(2) by (subst unat_add_no_wrap) simp_all
  moreover have "?n + 8 - 1 = ?n + 7" by simp
  ultimately have "min (unat ?n) (unat (?n + 8 - 1)) = length bs" using n(1) by (simp only: min_def) simp
  then show ?thesis
    using assms n p by (cases b) (auto simp: read_at_def realloc_aligned_def Let_def)
qed

text \<open>The last 28 bytes: the table of the offsets of the indexes and the version word.\<close>

lemma read_footer:
  assumes "file = body @ (enc e1 8 pg @ enc e1 8 vars @ enc e1 8 attrs) @ rev (bytes_le 4 (version_word e1 0))"
    and "length file < 2 ^ 63" and "\<forall>n. malloc_ok n"
    and "bp_buff b = []" and "bp_file_size b = of_nat (length file)"
  obtains b1 b2 b3 where "adios_posix_read_version malloc_ok fresh file b = Inr b1"
    and "adios_parse_version e2 b1 = Inr (0x202, b2)"
    and "adios_parse_index_offsets_v1 e2 (adios_posix_read_index_offsets b2) = Inr ((), b3)"
    and "bp_change_endianness b3 = flag_for e1 e2" and "bp_pg_index_offset b3 = pg"
    and "bp_vars_index_offset b3 = vars" and "bp_attrs_index_offset b3 = attrs" and "bp_end_of_pgs b3 = pg"
    and "bp_pg_size b3 = vars - pg" and "bp_vars_size b3 = attrs - vars"
    and "bp_attrs_size b3 = of_nat (length body) - attrs"
proof -
  let ?offs = "enc e1 8 pg @ enc e1 8 vars @ enc e1 8 attrs" and ?ver = "rev (bytes_le 4 (version_word e1 0))"
  have len: "length file = length body + 28" using assms(1) by simp
  define b1 where "b1 = b\<lparr>bp_buff := ?offs @ ?ver, bp_length := 28, bp_offset := 24\<rparr>"
  define b2 where "b2 = b1\<lparr>bp_change_endianness := flag_for e1 e2\<rparr>"
  have off: "bp_file_size b - 28 = of_nat (length body)" using assms(5) len by simp
  have "length body < 2 ^ 63" using assms(2) len by simp
  note body = fits_off_t [OF this]
  have "replicate 28 (0 :: u8) \<noteq> []" by simp
  then have "adios_posix_read_version malloc_ok fresh file b = Inr b1"
    using assms(3,4) body off
    by (simp add: adios_posix_read_version_def adios_init_buffer_read_version_def alloc_aligned_def
        read_at_def Let_def b1_def assms(1))
  moreover have "adios_parse_version e2 b1 = Inr (0x202 OR 0, b2)"
    unfolding b2_def by (rule read_version) (simp_all add: b1_def)
  moreover have "placed (b2\<lparr>bp_offset := 0\<rparr>) ?offs"
    by (simp add: placed_def b2_def b1_def)
  from read_index_offsets [OF this, of e2]
  have "adios_parse_index_offsets_v1 e2 (adios_posix_read_index_offsets b2) =
      Inr ((), b2\<lparr>bp_offset := 24, bp_pg_index_offset := pg, bp_vars_index_offset := vars,
        bp_attrs_index_offset := attrs, bp_end_of_pgs := pg, bp_pg_size := vars - pg,
        bp_vars_size := attrs - vars, bp_attrs_size := of_nat (length body) - attrs\<rparr>)"
    using off by (simp add: b2_def b1_def adios_posix_read_index_offsets_def adios_init_buffer_read_index_offsets_def)
  ultimately show thesis by (intro that) (assumption | simp add: b2_def)+
qed


lemma realloc_fields [simp]:
  "bp_pg_index_offset (realloc_aligned ok fresh n b) = bp_pg_index_offset b"
  "bp_vars_index_offset (realloc_aligned ok fresh n b) = bp_vars_index_offset b"
  "bp_attrs_index_offset (realloc_aligned ok fresh n b) = bp_attrs_index_offset b"
  "bp_pg_size (realloc_aligned ok fresh n b) = bp_pg_size b"
  "bp_vars_size (realloc_aligned ok fresh n b) = bp_vars_size b"
  "bp_attrs_size (realloc_aligned ok fresh n b) = bp_attrs_size b"
  by (simp_all add: realloc_aligned_def)

lemmas posix_read_defs = adios_posix_read_process_group_index_def adios_init_buffer_read_process_group_index_def
  adios_posix_read_vars_index_def adios_init_buffer_read_vars_index_def
  adios_posix_read_attributes_index_def adios_init_buffer_read_attributes_index_def

lemma max_time_index_as_read: "max_time_index (map pg_as_read pgs) = max_time_index pgs"
proof -
  have "pg_time_index (pg_as_read pg) = pg_time_index pg" for pg by (simp add: pg_as_read_def)
  then show ?thesis by (simp add: max_time_index_def fold_map comp_def cong: if_cong)
qed

text \<open>
  The three indexes, read and parsed one after the other, once the buffer knows where they are.
\<close>

lemma read_indexes:
  assumes "\<forall>n. malloc_ok n" and "index_ok infos malloc_ok e1 index"
    and "fold_opt (put_var e2) (map (var_as_read junk e1 e2) (ix_vars_root index)) (0, tbl) =
      Some (length (ix_vars_root index), tbl')"
    and "file = body @ pg_index_bytes e1 (ix_pg_root index) @ vars_index_bytes infos e1 (ix_vars_root index)
      @ (attrs_index_bytes e1 (ix_attrs_root index) @ info) @ rest" and "length file < 2 ^ 63"
    and "bp_change_endianness b = flag_for e1 e2"
    and "bp_pg_index_offset b = of_nat (length body)"
    and "bp_vars_index_offset b = of_nat (length (body @ pg_index_bytes e1 (ix_pg_root index)))"
    and "bp_attrs_index_offset b = of_nat (length (body @ pg_index_bytes e1 (ix_pg_root index)
      @ vars_index_bytes infos e1 (ix_vars_root index)))"
    and "bp_pg_size b = of_nat (length (pg_index_bytes e1 (ix_pg_root index)))"
    and "bp_vars_size b = of_nat (length (vars_index_bytes infos e1 (ix_vars_root index)))"
    and "bp_attrs_size b = of_nat (length (attrs_index_bytes e1 (ix_attrs_root index) @ info))"
  obtains b1 b2 b3 b4 b5 b6 last
  where "adios_posix_read_process_group_index malloc_ok fresh file b = Inr b1"
    and "adios_parse_process_group_index_v1 e2 [] b1 = Inr (map pg_as_read (ix_pg_root index), b2)"
    and "adios_posix_read_vars_index malloc_ok fresh file b2 = Inr b3"
    and "adios_parse_vars_index_v1 infos junk malloc_ok e2 [] tbl b3 =
      Inr ((map (var_as_read junk e1 e2) (ix_vars_root index), tbl', last), b4)"
    and "adios_posix_read_attributes_index malloc_ok fresh file b4 = Inr b5"
    and "adios_parse_attributes_index_v1 infos malloc_ok e2 [] b5 = Inr (map (attr_as_read e1 e2) (ix_attrs_root index), b6)"
    and "bp_end_of_pgs b6 = bp_end_of_pgs b" and "bp_pg_index_offset b6 = bp_pg_index_offset b"
    and "bp_change_endianness b6 = bp_change_endianness b"
proof -
  let ?pg = "pg_index_bytes e1 (ix_pg_root index)" and ?vars = "vars_index_bytes infos e1 (ix_vars_root index)"
    and ?attrs = "attrs_index_bytes e1 (ix_attrs_root index)"
  have i: "list_all pg_ok (ix_pg_root index)" "list_all (var_ok infos malloc_ok e1) (ix_vars_root index)"
    "list_all (attr_ok malloc_ok) (ix_attrs_root index)" "length (ix_vars_root index) < 2 ^ 32"
    "length (ix_attrs_root index) < 2 ^ 32" using assms(2) by (auto simp: index_ok_def)
  have len: "length ?pg < 2 ^ 63" "length ?vars < 2 ^ 63" "length (?attrs @ info) < 2 ^ 63"
    and pgs: "length (ix_pg_root index) < 2 ^ 64"
    using pg_count_fits [of "ix_pg_root index" e1] assms(5) by (simp_all add: assms(4))
  define buf where "buf bs k = b\<lparr>bp_buff := bs, bp_length := of_nat (length bs), bp_offset := k\<rparr>" for bs k
  have pl: "placed (buf (bs @ post) 0) bs" if "length (bs @ post) < 2 ^ 63" for bs post
    by (rule placedI [where pre = "[]" and post = post]) (use that in \<open>simp_all add: buf_def\<close>)
  have fl: "bp_change_endianness (buf bs k) = flag_for e1 e2" for bs k by (simp add: buf_def assms(6))
  have slice: "read_at file (of_nat (length pre)) (of_nat (length bs))
      ((realloc_aligned malloc_ok fresh (of_nat (length bs)) (buf bs' k))\<lparr>bp_offset := 0\<rparr>) = Inr (buf bs 0)"
    if "file = pre @ bs @ post" for pre bs post bs' k
    using read_slice [OF that assms(5,1), of fresh "buf bs' k"] by (simp add: buf_def)
  have r1: "adios_posix_read_process_group_index malloc_ok fresh file b = Inr (buf ?pg 0)"
    using read_slice [OF _ assms(5,1), of body ?pg "?vars @ ?attrs @ info @ rest" fresh b] assms(4,7,10)
    by (simp add: posix_read_defs Let_def buf_def)
  from read_pg_index [OF i(1) pgs pl [of ?pg "[]", unfolded append_Nil2, OF len(1)] fl, of "[]"] obtain k1
    where p1: "adios_parse_process_group_index_v1 e2 [] (buf ?pg 0) = Inr (map pg_as_read (ix_pg_root index), buf ?pg k1)"
    by (auto simp: buf_def)
  have r2: "adios_posix_read_vars_index malloc_ok fresh file (buf ?pg k1) = Inr (buf ?vars 0)"
    using slice [of "body @ ?pg" ?vars "?attrs @ info @ rest" ?pg k1] assms(4,8,11)
    by (simp add: posix_read_defs Let_def buf_def)
  from read_vars_index [OF i(2,4) assms(3) pl [of ?vars "[]", unfolded append_Nil2, OF len(2)] fl, of "[]"]
  obtain last k2 where p2: "adios_parse_vars_index_v1 infos junk malloc_ok e2 [] tbl (buf ?vars 0) =
      Inr ((map (var_as_read junk e1 e2) (ix_vars_root index), tbl', last), buf ?vars k2)"
    by (auto simp: buf_def)
  have r3: "adios_posix_read_attributes_index malloc_ok fresh file (buf ?vars k2) = Inr (buf (?attrs @ info) 0)"
    using slice [of "body @ ?pg @ ?vars" "?attrs @ info" rest ?vars k2] assms(4,9,12)
    by (simp add: posix_read_defs Let_def buf_def)
  from read_attrs_index [OF i(3,5) pl [OF len(3)] fl, of infos "[]"] obtain k3
    where p3: "adios_parse_attributes_index_v1 infos malloc_ok e2 [] (buf (?attrs @ info) 0) =
      Inr (map (attr_as_read e1 e2) (ix_attrs_root index), buf (?attrs @ info) k3)"
    by (auto simp: buf_def)
  show thesis by (rule that [OF r1 p1 r2 p2 r3 p3]) (simp_all add: buf_def)
qed

text \<open>
  Metadata written on one machine and read on another, with the parts of the buffer that lead to
  the process groups.
\<close>

lemma read_written_indexes:
  assumes "\<And>n. ok n" and "\<forall>n. malloc_ok n" and "index_ok infos malloc_ok e1 index" and "w_off s = 0"
    and "fold_opt (put_var e2) (map (var_as_read junk e1 e2) (ix_vars_root index)) (0, tbl) =
      Some (length (ix_vars_root index), tbl')"
    and "file = body @ emitted (write_metadata infos ver e1 ok (of_nat (length body)) index) s"
    and "length file < 2 ^ 63" and "bp_buff b = []" and "bp_file_size b = of_nat (length file)"
  obtains b' where "posix_read_indexes infos junk version malloc_ok fresh e2 file
        \<lparr>ix_pg_root = [], ix_vars_root = [], ix_attrs_root = []\<rparr> tbl b =
      Inr (Some (\<lparr>ix_pg_root = map pg_as_read (ix_pg_root index),
                  ix_vars_root = map (var_as_read junk e1 e2) (ix_vars_root index),
                  ix_attrs_root = map (attr_as_read e1 e2) (ix_attrs_root index)\<rparr>, tbl'), b')"
    and "bp_end_of_pgs b' = of_nat (length body)" and "bp_pg_index_offset b' = of_nat (length body)"
    and "bp_change_endianness b' = flag_for e1 e2"
proof -
  let ?pg = "pg_index_bytes e1 (ix_pg_root index)" and ?vars = "vars_index_bytes infos e1 (ix_vars_root index)"
    and ?attrs = "attrs_index_bytes e1 (ix_attrs_root index)" and ?info = "version_info_bytes ver"
    and ?ver = "rev (bytes_le 4 (version_word e1 0))" and ?is = "of_nat (length body) :: u64"
  let ?vs = "of_nat (length (body @ ?pg)) :: u64" and ?as = "of_nat (length (body @ ?pg @ ?vars)) :: u64"
  let ?offs = "enc e1 8 ?is @ enc e1 8 ?vs @ enc e1 8 ?as"
  have content: "file = (body @ ?pg @ ?vars @ ?attrs @ ?info) @ ?offs @ ?ver"
    using assms(6) emitted_metadata [of ok, OF assms(1,3,4)]
    by (simp add: metadata_bytes_def Let_def ac_simps)
  then have parts: "file = body @ ?pg @ ?vars @ (?attrs @ ?info) @ ?offs @ ?ver" by simp
  obtain b1 b2 b3 where v: "adios_posix_read_version malloc_ok fresh file b = Inr b1"
      "adios_parse_version e2 b1 = Inr (0x202, b2)"
    and o: "adios_parse_index_offsets_v1 e2 (adios_posix_read_index_offsets b2) = Inr ((), b3)"
    and b3: "bp_change_endianness b3 = flag_for e1 e2" "bp_pg_index_offset b3 = ?is" "bp_vars_index_offset b3 = ?vs"
      "bp_attrs_index_offset b3 = ?as" "bp_pg_size b3 = of_nat (length ?pg)"
      "bp_vars_size b3 = of_nat (length ?vars)" "bp_attrs_size b3 = of_nat (length (?attrs @ ?info))"
    and eop: "bp_end_of_pgs b3 = ?is"
    by (rule read_footer [OF content assms(7,2,8,9), of fresh e2]) simp_all
  show thesis
    by (rule read_indexes [OF assms(2,3,5) parts assms(7) b3, of fresh], rule that)
      (use eop b3 in \<open>simp_all add: posix_read_indexes_def ignoring_result_def v o\<close>)
qed

text \<open>
  C7. Appending to a file: whatever process groups precede it, metadata written on one machine is
  read on another from the end of the file. The version word tells the byte order, the table of
  offsets leads to the three indexes, and these come back with all process groups, variables and
  attributes; every variable is found in the hash table under its full path, the first one of its
  name. New process groups get a time index one above the largest in the file and start where the
  old metadata started.
\<close>

theorem append_reads_old_index:
  assumes "\<And>n. ok n" and "\<forall>n. malloc_ok n" and "index_ok infos malloc_ok e1 index" and "w_off s = 0"
    and "0 < rng" and "rng < 2 ^ 31" and "qhashtbl True True rng = Some tbl"
    and "file = body @ emitted (write_metadata infos ver e1 ok (of_nat (length body)) index) s"
    and "length file < 2 ^ 63" and "files (base_path @ filename) = Some file"
  shows "\<exists>b tbl' b'. adios_posix_open_read_internal files fd filename base_path (adios_buffer_struct_init b0) = (True, b)
    \<and> read_old_index infos junk version malloc_ok fresh e2 file
        \<lparr>ix_pg_root = [], ix_vars_root = [], ix_attrs_root = []\<rparr> (Some tbl) b =
      Inr (Some \<lparr>ap_time_index = max_time_index (ix_pg_root index) + 1,
                 ap_index = \<lparr>ix_pg_root = map pg_as_read (ix_pg_root index),
                             ix_vars_root = map (var_as_read junk e1 e2) (ix_vars_root index),
                             ix_attrs_root = map (attr_as_read e1 e2) (ix_attrs_root index)\<rparr>,
                 ap_hashtbl_vars = Some tbl', ap_base_offset = of_nat (length body),
                 ap_pg_start_in_file = of_nat (length body)\<rparr>, b')
    \<and> (\<forall>k. map_option fst (get e2 tbl' (Some k)) =
          Some (map_of (zip (map var_key (ix_vars_root index)) [0..<length (ix_vars_root index)]) k))"
proof -
  define b where "b = (adios_buffer_struct_init b0)\<lparr>bp_file_size := of_nat (length file), bp_f := fd\<rparr>"
  have open': "adios_posix_open_read_internal files fd filename base_path (adios_buffer_struct_init b0) = (True, b)"
    using assms(10) by (simp add: adios_posix_open_read_internal_def b_def)
  have nul: "bp_buff b = []" "bp_file_size b = of_nat (length file)" by (simp_all add: b_def adios_buffer_struct_init_def)
  obtain tbl' where tbl': "fold_opt (put_var e2) (map (var_as_read junk e1 e2) (ix_vars_root index)) (0, Some tbl) =
      Some (length (ix_vars_root index), Some tbl')"
    and keys: "\<forall>k. map_option fst (get e2 tbl' (Some k)) =
      Some (map_of (zip (map var_key (ix_vars_root index)) [0..<length (ix_vars_root index)]) k)"
    by (rule put_vars_fresh [OF qhashtbl_view [OF assms(5-7)]])
  show ?thesis
    by (rule read_written_indexes [of ok, OF assms(1-4) tbl' assms(8,9) nul, of version fresh])
      (use open' keys in \<open>auto simp: read_old_index_def pbind_def max_time_index_as_read\<close>)
qed


lemma append_reads_old_index_witness:
  "\<exists>b tbl' b'. adios_posix_open_read_internal
        [''out/a.bp'' \<mapsto> [1, 2, 3, 4] @ emitted (write_metadata [] version_example Little (\<lambda>_. True) 4 index_example) empty_wst]
        3 ''a.bp'' ''out/'' (adios_buffer_struct_init (bp_buffer_of adios_flag_no [])) = (True, b)
    \<and> read_old_index [] 0 0 (\<lambda>_. True) (\<lambda>_. 7) Big
        ([1, 2, 3, 4] @ emitted (write_metadata [] version_example Little (\<lambda>_. True) 4 index_example) empty_wst)
        \<lparr>ix_pg_root = [], ix_vars_root = [], ix_attrs_root = []\<rparr> (Some (the (qhashtbl True True 5))) b =
      Inr (Some \<lparr>ap_time_index = 2,
                 ap_index = \<lparr>ix_pg_root = [pg_as_read pg_example], ix_vars_root = [var_as_read 0 Little Big var_example],
                             ix_attrs_root = [attr_as_read Little Big attr_example]\<rparr>,
                 ap_hashtbl_vars = Some tbl', ap_base_offset = 4, ap_pg_start_in_file = 4\<rparr>, b')
    \<and> map_option fst (get Big tbl' (Some ''/a/T'')) = Some (Some 0)"
proof -
  let ?bs = "emitted (write_metadata [] version_example Little (\<lambda>_. True) 4 index_example) empty_wst"
  have key: "var_key var_example = ''/a/T''" by (simp add: var_key_def var_example_def genkey_def)
  have m: "max_time_index [pg_example] + 1 = 2" by (simp add: max_time_index_def pg_example_def)
  obtain tbl :: "nat qhashtbl_t" where tbl: "qhashtbl True True 5 = Some tbl" by (simp add: qhashtbl_def)
  have off: "w_off empty_wst = 0" by (simp add: empty_wst_def)
  note em = emitted_metadata [of "\<lambda>_. True", OF TrueI index_example_ok off, of version_example Little 4]
  have "length ?bs < 2 ^ 62"
    unfolding em
    by (simp add: metadata_bytes_def Let_def index_example_def length_version_info pg_index_bytes_def pg_bytes_def
        pg_body_def pg_example_def enc_string_def vars_index_bytes_def var_bytes_def var_body_def entry_body_def
        var_example_def var_set_bytes_def set_bytes_def common_bytes_def array_bytes_def value_bytes_def
        ch_example_def transform_item_bytes_def row_bytes_def row_data_def attrs_index_bytes_def attr_bytes_def
        attr_body_def attr_example_def attr_set_bytes_def attr_items_bytes_def var_id_bytes_def zero_characteristic_def)
  then have len: "length ([1, 2, 3, 4] @ ?bs) < 2 ^ 63" by simp
  have start: "of_nat (length [1, 2, 3, 4 :: u8]) = (4 :: u64)" by simp
  let ?files = "[''out/a.bp'' \<mapsto> [1, 2, 3, 4] @ ?bs]"
  have "?files (''out/'' @ ''a.bp'') = Some ([1, 2, 3, 4] @ ?bs)" by simp
  then have "\<exists>b tbl' b'. adios_posix_open_read_internal ?files 3 ''a.bp'' ''out/''
        (adios_buffer_struct_init (bp_buffer_of adios_flag_no [])) = (True, b)
    \<and> read_old_index [] 0 0 (\<lambda>_. True) (\<lambda>_. 7) Big ([1, 2, 3, 4] @ ?bs)
        \<lparr>ix_pg_root = [], ix_vars_root = [], ix_attrs_root = []\<rparr> (Some tbl) b =
      Inr (Some \<lparr>ap_time_index = max_time_index (ix_pg_root index_example) + 1,
                 ap_index = \<lparr>ix_pg_root = map pg_as_read (ix_pg_root index_example),
                             ix_vars_root = map (var_as_read 0 Little Big) (ix_vars_root index_example),
                             ix_attrs_root = map (attr_as_read Little Big) (ix_attrs_root index_example)\<rparr>,
                 ap_hashtbl_vars = Some tbl', ap_base_offset = of_nat (length [1, 2, 3, 4 :: u8]),
                 ap_pg_start_in_file = of_nat (length [1, 2, 3, 4 :: u8])\<rparr>, b')
    \<and> (\<forall>k. map_option fst (get Big tbl' (Some k)) = Some (map_of (zip (map var_key (ix_vars_root index_example))
        [0..<length (ix_vars_root index_example)]) k))"
    using append_reads_old_index [of "\<lambda>_. True" "\<lambda>_. True" "[]" Little index_example empty_wst 5 tbl "[1, 2, 3, 4] @ ?bs"
        "[1, 2, 3, 4]" version_example ?files "''out/''" "''a.bp''" 3 "bp_buffer_of adios_flag_no []" 0 0 "\<lambda>_. 7" Big]
      index_example_ok off tbl len unfolding start by (simp del: length_append)
  then show ?thesis using key tbl m unfolding start by (auto simp: index_example_def dest: spec [of _ "''/a/T''"])
qed

end
