(* ===== verification/BP_Read.thy ===== *)
theory BP_Read
  imports BP_Data BP_Posix
begin

text \<open>
  Reading a process group back, as the POSIX method does (\<open>write/adios_posix.c\<close>,
  \<open>adios_posix_do_read\<close>): the headers and payloads of the variables and the attributes are parsed
  from the buffer, and the payloads go to the variables of the same name. The lemmas show that
  what \<open>core/adios_internals.c\<close> writes is read back.
\<close>

section \<open>Reading\<close>

definition adios_init_buffer_read_process_group ::
  "(nat \<Rightarrow> bool) \<Rightarrow> (nat \<Rightarrow> u8) \<Rightarrow> bp_buffer \<Rightarrow> bp_buffer" where
  "adios_init_buffer_read_process_group malloc_ok fresh b =
     (realloc_aligned malloc_ok fresh (bp_read_pg_size b) b)\<lparr>bp_offset := 0\<rparr>"

definition adios_posix_read_process_group ::
  "(nat \<Rightarrow> bool) \<Rightarrow> (nat \<Rightarrow> u8) \<Rightarrow> u8 list \<Rightarrow> bp_buffer \<Rightarrow> adios_errcode + bp_buffer" where
  "adios_posix_read_process_group malloc_ok fresh file b =
     (let b = adios_init_buffer_read_process_group malloc_ok fresh b
      in read_at file (bp_read_pg_offset b) (bp_read_pg_size b) b)"

text \<open>
  The search for the variable of the name and path in a header, and the payload: it goes to the
  data of that variable, or is skipped. A payload that is refused is reported and skipped.
\<close>

fun read_payload :: "endian \<Rightarrow> adios_var_header_struct_v1 \<Rightarrow> adios_var_struct list \<Rightarrow> adios_var_struct list parser" where
  "read_payload e hdr [] = pbind (adios_parse_var_data_payload_v1 e hdr None 0) (\<lambda>_. preturn [])"
| "read_payload e hdr (v1 # vars) =
     (if same_case (hv_name hdr) (av_name v1) \<and> same_case (hv_path hdr) (av_path v1)
      then pbind (adios_parse_var_data_payload_v1 e hdr (av_data v1) (av_data_size v1))
             (\<lambda>r. preturn (v1\<lparr>av_data := snd r\<rparr> # vars))
      else pbind (read_payload e hdr vars) (\<lambda>vars. preturn (v1 # vars)))"

text \<open>
  The loop over the variables. \<open>old\<close> is what the characteristics of the header held before; its
  ids and indexes are not looked at. When a header is refused, the code goes on with a structure
  that was never filled; the model ends with the error.
\<close>

fun read_vars ::
  "endian \<Rightarrow> plugin_infos \<Rightarrow> adios_index_characteristic_struct_v1 \<Rightarrow> nat \<Rightarrow> adios_var_struct list
    \<Rightarrow> adios_var_struct list parser" where
  "read_vars e infos old 0 vars = preturn vars"
| "read_vars e infos old (Suc n) vars =
     pbind (adios_parse_var_data_header_v1 e infos old) (\<lambda>hdr.
     pbind (read_payload e hdr vars) (\<lambda>vars.
     read_vars e infos old n vars))"

text \<open>The variables and the attributes of a process group; the attributes are only parsed.\<close>

definition read_group ::
  "endian \<Rightarrow> plugin_infos \<Rightarrow> adios_index_characteristic_struct_v1 \<Rightarrow> adios_var_struct list
    \<Rightarrow> (adios_var_struct list \<times> adios_attribute_struct_v1 list) parser" where
  "read_group e infos old vars =
     pbind (adios_parse_vars_header_v1 e) (\<lambda>vars_header.
     pbind (read_vars e infos old (unat (vh_count vars_header)) vars) (\<lambda>vars.
     pbind (adios_parse_attributes_header_v1 e) (\<lambda>attrs_header.
     pbind (parse_times (unat (vh_count attrs_header)) (adios_parse_attribute_v1 e)) (\<lambda>attrs.
     preturn (vars, attrs)))))"

text \<open>
  \<open>adios_posix_do_read\<close>: the variables of the group with their data, from the last process group
  of the file. A file without process groups is a null pointer.
\<close>

definition adios_posix_do_read ::
  "plugin_infos \<Rightarrow> u64 \<Rightarrow> (nat \<Rightarrow> bool) \<Rightarrow> (nat \<Rightarrow> u8) \<Rightarrow> endian \<Rightarrow> adios_index_characteristic_struct_v1
    \<Rightarrow> u8 list \<Rightarrow> adios_var_struct list \<Rightarrow> adios_var_struct list parser" where
  "adios_posix_do_read infos junk malloc_ok fresh e old file vars b0 =
     (case posix_read_indexes infos junk 0 malloc_ok fresh e file
             \<lparr>ix_pg_root = [], ix_vars_root = [], ix_attrs_root = []\<rparr> None b0 of
        Inl err \<Rightarrow> Inl err
      | Inr (None, b) \<Rightarrow> Inr (vars, b)
      | Inr (Some (index, _), b) \<Rightarrow>
          if ix_pg_root index = [] then Inl err_out_of_bounds
          else
            let off = pg_offset_in_file (last (ix_pg_root index));
                b = b\<lparr>bp_read_pg_offset := off, bp_read_pg_size := bp_pg_index_offset b - off\<rparr>
            in (case adios_posix_read_process_group malloc_ok fresh file b of
                  Inl err \<Rightarrow> Inl err
                | Inr b \<Rightarrow>
                    (case pbind (adios_parse_process_group_header_v1 e) (\<lambda>_. read_group e infos old vars) b of
                       Inl err \<Rightarrow> Inl err
                     | Inr ((vars, _), b) \<Rightarrow> Inr (vars, adios_buffer_struct_clear b))))"

section \<open>Parsers that check the rest of the buffer\<close>

text \<open>
  \<open>reads fl p bs x\<close>: in any buffer whose byte order flag is \<open>fl\<close> and which holds \<open>bs\<close> at its
  offset, the parser \<open>p\<close> reads exactly \<open>bs\<close> and returns \<open>x\<close>.
\<close>

definition reads :: "ADIOS_FLAG \<Rightarrow> 'a parser \<Rightarrow> u8 list \<Rightarrow> 'a \<Rightarrow> bool" where
  "reads fl p bs x \<longleftrightarrow>
     (\<forall>b. placed b bs \<longrightarrow> bp_change_endianness b = fl \<longrightarrow>
        p b = Inr (x, b\<lparr>bp_offset := bp_offset b + of_nat (length bs)\<rparr>))"

lemma parses_reads: "parses fl p bs x \<Longrightarrow> reads fl p bs x"
  by (auto simp: reads_def intro: placed_parses)

lemma placed_append:
  assumes "placed b (as @ bs)"
  shows "placed b as" and "placed (b\<lparr>bp_offset := bp_offset b + of_nat (length as)\<rparr>) bs"
proof -
  obtain pre post where b: "bp_buff b = pre @ (as @ bs) @ post" "unat (bp_offset b) = length pre"
      "length (bp_buff b) < 2 ^ 64" "bp_length b = of_nat (length (bp_buff b))"
  proof (rule that)
    show "bp_buff b = take (unat (bp_offset b)) (bp_buff b) @ (as @ bs) @ drop (unat (bp_offset b) + length (as @ bs)) (bp_buff b)"
      using assms unfolding placed_def by (metis append_take_drop_id drop_drop add.commute)
  qed (use assms in \<open>simp_all add: placed_def\<close>)
  have off: "bp_offset b = of_nat (length pre)" using b(2) by (simp flip: b(2))
  show "placed b as" by (rule placedI [where pre = pre and post = "bs @ post"]) (use b off in simp_all)
  show "placed (b\<lparr>bp_offset := bp_offset b + of_nat (length as)\<rparr>) bs"
    by (rule placedI [where pre = "pre @ as" and post = post]) (use b off in simp_all)
qed

lemma reads_bind:
  assumes "reads fl p as x" and "reads fl (f x) bs y"
  shows "reads fl (pbind p f) (as @ bs) y"
  unfolding reads_def
proof (intro allI impI)
  fix b assume b: "placed b (as @ bs)" "bp_change_endianness b = fl"
  let ?b = "b\<lparr>bp_offset := bp_offset b + of_nat (length as)\<rparr>"
  have "p b = Inr (x, ?b)" using assms(1) placed_append(1) [OF b(1)] b(2) by (simp add: reads_def)
  moreover have "f x ?b = Inr (y, ?b\<lparr>bp_offset := bp_offset ?b + of_nat (length bs)\<rparr>)"
    using assms(2) placed_append(2) [OF b(1)] b(2) unfolding reads_def by simp
  ultimately show "pbind p f b = Inr (y, b\<lparr>bp_offset := bp_offset b + of_nat (length (as @ bs))\<rparr>)"
    by (simp add: pbind_def add.assoc)
qed

lemma reads_return: "reads fl (preturn x) [] x"
  by (rule parses_reads [OF parses_return])

lemma reads_last: "reads fl p bs x \<Longrightarrow> reads fl (pbind p (\<lambda>x. preturn (f x))) bs (f x)"
  using reads_bind [of fl p bs x "\<lambda>x. preturn (f x)" "[]" "f x"] reads_return by fastforce

lemma reads_guard:
  assumes "reads fl p bs x" and "unat n \<le> length bs"
  shows "reads fl (\<lambda>b. if bp_length b - bp_offset b < n then Inl err else p b) bs x"
  using assms placed_guard [OF _ assms(2)] by (simp add: reads_def)

lemma reads_times:
  assumes "list_all2 (reads fl p) bss xs"
  shows "reads fl (parse_times (length xs) p) (concat bss) xs"
  using assms
proof (induction rule: list_all2_induct)
  case Nil
  then show ?case by (simp add: reads_return)
next
  case (Cons bs bss x xs)
  from reads_bind [OF Cons(1) reads_last [OF Cons(3)], of "\<lambda>x xs. x # xs"] show ?case by simp
qed

section \<open>The characteristics in the header of a variable\<close>

lemma parses_data_hist:
  assumes "hist_ok h"
  shows "parses (flag_for e1 e2) (parse_data_hist e2) (hist_bytes e1 h) h"
proof -
  let ?fl = "flag_for e1 e2" and ?n = "h_num_breaks h"
  have h: "\<lparr>h_min = h_min h, h_max = h_max h, h_num_breaks = ?n, h_frequencies = h_frequencies h,
      h_breaks = h_breaks h\<rparr> = h" by (cases h) simp
  have "parses ?fl (parse_data_hist e2)
      (enc e1 4 ?n @ enc e1 8 (h_min h) @ enc e1 8 (h_max h) @ concat (map (enc e1 4) (h_frequencies h))
        @ concat (map (enc e1 8) (h_breaks h)) @ []) h"
    unfolding parse_data_hist_def
    by (intro parses_bind [OF parses_u32] parses_bind [OF parses_u64] parses_bind [OF parses_hist_arrays(1) [OF assms]]
        parses_bind [OF parses_hist_arrays(2) [OF assms]]) (simp only: h parses_return)
  then show ?thesis by (simp add: hist_bytes_def)
qed

lemma parses_data_stat:
  assumes "stat_ok type j d"
  shows "parses adios_flag_no (parse_data_stat e type j) (stat_bytes e d) d"
proof (cases d)
  case (Stat_Hist h)
  then have h: "j = 5" "hist_ok h" using assms by simp_all
  from parses_last [OF parses_data_hist [OF h(2)], of e e Stat_Hist] h(1) Stat_Hist show ?thesis
    by (simp add: parse_data_stat_def flag_for_def)
next
  case (Stat_Bytes bs)
  with assms have j: "j \<noteq> 5" "length bs = unat (stat_size type j)" by simp_all
  from parses_last [OF parses_bytes [OF j(2)], of adios_flag_no Stat_Bytes]
  have "parses adios_flag_no (\<lambda>b. pbind (get_bytes (unat (stat_size type j))) (\<lambda>bs. preturn (Stat_Bytes bs)) b) bs d"
    by (simp add: Stat_Bytes)
  from parses_cong [OF _ this] j(1) Stat_Bytes show ?thesis
    by (auto simp: parse_data_stat_def Let_def pbind_def get_bytes_def preturn_def split: if_splits)
qed


lemma parses_data_stats_row:
  assumes "k \<le> 32" and "list_all2 (stat_ok type) (stat_bits bitmap k) ds" and "length (done' @ ds) \<le> 7"
  shows "parses adios_flag_no (parse_data_stats_row e type bitmap [k..<32] (length done') (row_of done'))
    (concat (map (stat_bytes e) ds)) (row_of (done' @ ds))"
  using assms
proof (induction "32 - k" arbitrary: k ds done')
  case 0
  then show ?case by (simp add: stat_bits_def parses_return)
next
  case (Suc n)
  then have k: "k < 32" "n = 32 - Suc k" by simp_all
  have l: "[k..<32] = k # [Suc k..<32]" using k(1) by (rule upt_conv_Cons)
  show ?case
  proof (cases "bit bitmap k")
    case True
    then obtain d ds' where ds: "ds = d # ds'" "stat_ok type k d"
        "list_all2 (stat_ok type) (stat_bits bitmap (Suc k)) ds'"
      using Suc.prems(2) k(1) by (auto simp: stat_bits_rec list_all2_Cons1)
    have nz: "drop_bit k bitmap \<noteq> 0"
    proof
      assume "drop_bit k bitmap = 0"
      then have "\<not> bit (drop_bit k bitmap) 0" by simp
      with True show False by (simp add: bit_drop_bit_eq)
    qed
    have "parses adios_flag_no (parse_data_stats_row e type bitmap [Suc k..<32] (length (done' @ [d])) (row_of (done' @ [d])))
        (concat (map (stat_bytes e) ds')) (row_of ((done' @ [d]) @ ds'))"
      using Suc.prems(3) k(1) ds(1) by (intro Suc.hyps(1) [OF k(2)] ds(3)) simp_all
    from parses_bind [OF parses_data_stat [OF ds(2), of e], of
        "\<lambda>data. parse_data_stats_row e type bitmap [Suc k..<32] (length done' + 1) ((row_of done')[length done' := Some data])"]
      this True nz Suc.prems(3)
    show ?thesis by (simp add: l ds(1) row_of_Some)
  next
    case F: False
    have "drop_bit k bitmap = 0 \<Longrightarrow> ds = []" using Suc.prems(2) by (simp add: stat_bits_stop)
    with Suc.hyps(1) [OF k(2), of ds done'] Suc.prems k(1) F show ?thesis
      by (auto simp: l stat_bits_rec parses_return)
  qed
qed

lemma parses_data_stats:
  assumes "length rows = unat (adios_get_stat_set_count type)" and "list_all (row_ok type bitmap) rows"
  shows "parses adios_flag_no (parse_data_stats e type bitmap) (concat (map (row_bytes e) rows)) rows"
proof -
  have "parses adios_flag_no (parse_data_stats_row e type bitmap [0..<32] 0 (replicate 7 None)) (row_bytes e row) (id row)"
    if "row \<in> set rows" for row
  proof -
    have row: "row_ok type bitmap row" using that assms(2) by (simp add: list_all_iff)
    then have eq: "row = row_of (row_data row)" unfolding row_ok_def row_of_def by blast
    have all: "list_all2 (stat_ok type) (stat_bits bitmap 0) (row_data row)" "length (row_data row) \<le> 7"
      using row unfolding row_ok_def by blast+
    from parses_data_stats_row [OF _ all(1), of "[]" e] all(2)
    have "parses adios_flag_no (parse_data_stats_row e type bitmap [0..<32] 0 (replicate 7 None))
        (concat (map (stat_bytes e) (row_data row))) (row_of (row_data row))"
      by (simp add: row_of_def)
    then show ?thesis unfolding row_bytes_def id_apply eq [symmetric] .
  qed
  then show ?thesis
    using parses_each [of rows adios_flag_no _ "row_bytes e" id, OF _ assms(1)] by (simp add: parse_data_stats_def)
qed

lemma header_item_simps:
  "parse_header_item e infos type adios_characteristic_stat ch =
     pbind (parse_data_stats e (adios_transform_get_var_original_type_var_header type ch) (ch_bitmap ch))
       (\<lambda>rows. preturn (ch\<lparr>ch_stats := Some rows\<rparr>))"
  "parse_header_item e infos type adios_characteristic_bitmap ch =
     pbind (get_u32 e) (\<lambda>x. preturn (ch\<lparr>ch_bitmap := x\<rparr>))"
  "parse_header_item e infos type adios_characteristic_dimensions ch =
     pbind (parse_dims e) (\<lambda>d. preturn (ch\<lparr>ch_dims := d\<lparr>d_count := d_count (ch_dims ch)\<rparr>\<rparr>))"
  "parse_header_item e infos type adios_characteristic_transform_type ch =
     pbind (adios_transform_deserialize_transform_characteristic e infos (ch_transform ch))
       (\<lambda>tr. preturn (ch\<lparr>ch_transform := tr\<rparr>))"
  by (simp_all add: parse_header_item_def adios_characteristic_transform_type_def)

text \<open>
  The transform of a variable: a variable without one keeps what the header was initialised with.
\<close>

definition transform_of_header :: "adios_index_characteristic_transform_struct \<Rightarrow> adios_index_characteristic_transform_struct" where
  "transform_of_header tr = (if tr = zero_transform then adios_transform_init_transform_characteristic else tr)"

lemma parses_header_transform:
  assumes "plugins_ok infos" and "tr = zero_transform \<or> e = Little \<and> transform_ok infos tr"
    and "ch_transform ch = adios_transform_init_transform_characteristic"
  shows "parses adios_flag_no (parse_set (parse_header_item e infos type) (transform_items tr) ch)
    (transform_item_bytes e infos tr) (ch\<lparr>ch_transform := transform_of_header tr\<rparr>)"
proof (cases "tr = zero_transform")
  case True
  with assms(3) have "ch\<lparr>ch_transform := transform_of_header tr\<rparr> = ch" by (simp add: transform_of_header_def)
  with True show ?thesis by (simp add: transform_items_def transform_item_bytes_def parses_return)
next
  case False
  with assms(2) have tr: "e = Little" "transform_ok infos tr" by simp_all
  then have "transform_as_read e tr = transform_of_header tr"
    using False by (simp add: transform_as_read_def pre_type_as_read_def transform_of_header_def)
  moreover have "tr_transform_metadata_len (ch_transform ch) = 0"
    by (simp add: assms(3) adios_transform_init_transform_characteristic_def)
  ultimately have "parses adios_flag_no (parse_header_item e infos type adios_characteristic_transform_type ch)
      (transform_bytes e infos tr) (ch\<lparr>ch_transform := transform_of_header tr\<rparr>)"
    unfolding header_item_simps using parses_transform [OF assms(1) tr(2), of "ch_transform ch" e e]
    by (auto simp: flag_for_def intro: parses_last)
  then have "parses adios_flag_no (parse_set (parse_header_item e infos type) 1 ch)
      (adios_characteristic_transform_type # transform_bytes e infos tr) (ch\<lparr>ch_transform := transform_of_header tr\<rparr>)"
    by (rule parses_set_one)
  with False show ?thesis
    by (simp add: transform_items_def transform_item_bytes_def del: parse_set.simps)
qed

lemma parses_header_array:
  assumes "plugins_ok infos" and "array_ok infos ot ch" and "ch_transform ch = zero_transform \<or> e = Little"
    and "ot = (if tr_transform_type (ch_transform ch) \<noteq> 0 then tr_pre_transform_type (ch_transform ch) else type)"
    and "ch_transform ch1 = adios_transform_init_transform_characteristic" and "d_count (ch_dims ch1) = 0"
  shows "parses adios_flag_no (parse_set (parse_header_item e infos type) (array_items ch) ch1)
    (array_bytes e infos ch) (ch1\<lparr>ch_dims := (ch_dims ch)\<lparr>d_count := 0\<rparr>,
      ch_transform := transform_of_header (ch_transform ch), ch_bitmap := ch_bitmap ch, ch_stats := ch_stats ch\<rparr>)"
proof -
  let ?item = "parse_header_item e infos type" and ?fl = "adios_flag_no"
  have fl: "flag_for e e = adios_flag_no" by (simp add: flag_for_def)
  obtain rows where rows: "ch_stats ch = Some rows" "length rows = unat (adios_get_stat_set_count ot)"
      "list_all (row_ok ot (ch_bitmap ch)) rows"
    using assms(2) by (auto simp: array_ok_def split: option.splits)
  have d: "d_count (ch_dims ch) \<noteq> 0" "length (d_dims (ch_dims ch)) = 3 * unat (d_count (ch_dims ch))"
    and tr: "ch_transform ch = zero_transform \<or> e = Little \<and> transform_ok infos (ch_transform ch)"
    using assms(2,3) by (auto simp: array_ok_def)
  let ?ch2 = "ch1\<lparr>ch_dims := (ch_dims ch)\<lparr>d_count := d_count (ch_dims ch1)\<rparr>\<rparr>"
  let ?ch3 = "?ch2\<lparr>ch_transform := transform_of_header (ch_transform ch)\<rparr>"
  let ?ch4 = "?ch3\<lparr>ch_bitmap := ch_bitmap ch\<rparr>"
  let ?ch5 = "?ch4\<lparr>ch_stats := Some rows\<rparr>"
  have p1: "parses ?fl (parse_set ?item 1 ch1)
      (adios_characteristic_dimensions # ([d_count (ch_dims ch)] @ enc e 2 (dims_len (ch_dims ch))
        @ concat (map (enc e 8) (d_dims (ch_dims ch))))) ?ch2"
    by (rule parses_set_one) (simp only: header_item_simps, rule parses_last [OF parses_dims [OF d(2), of e e, unfolded fl]])
  have p2: "parses ?fl (parse_set ?item (transform_items (ch_transform ch)) ?ch2)
      (transform_item_bytes e infos (ch_transform ch)) ?ch3"
    using assms(5) by (intro parses_header_transform [OF assms(1) tr]) simp
  have p3: "parses ?fl (parse_set ?item 1 ?ch3) (adios_characteristic_bitmap # enc e 4 (ch_bitmap ch)) ?ch4"
    by (rule parses_set_one) (simp only: header_item_simps, rule parses_last [OF parses_u32 [of e e, unfolded fl]])
  have ot: "adios_transform_get_var_original_type_var_header type ?ch4 = ot"
    by (simp add: assms(4) adios_transform_get_var_original_type_var_header_def transform_of_header_def
        adios_transform_init_transform_characteristic_def zero_transform_def)
  have "parses ?fl (pbind (parse_data_stats e ot (ch_bitmap ch)) (\<lambda>rows. preturn (?ch4\<lparr>ch_stats := Some rows\<rparr>)))
      (concat (map (row_bytes e) rows)) ?ch5"
    by (rule parses_last [OF parses_data_stats [OF rows(2,3)]])
  then have p4: "parses ?fl (parse_set ?item 1 ?ch4) (adios_characteristic_stat # concat (map (row_bytes e) rows)) ?ch5"
    by (intro parses_set_one) (simp add: header_item_simps ot)
  have "array_items ch = 1 + (transform_items (ch_transform ch) + (1 + 1))"
    using d(1) by (simp add: array_items_def)
  with parses_set_add [OF p1 parses_set_add [OF p2 parses_set_add [OF p3 p4]]]
  show ?thesis using d(1) rows(1) assms(6)
    by (simp add: array_bytes_def del: parse_set.simps One_nat_def add_Suc add_Suc_right)
qed


section \<open>The header of a variable\<close>

definition chars_as_read ::
  "endian \<Rightarrow> (ADIOS_DATATYPES \<Rightarrow> u8 list \<Rightarrow> u64) \<Rightarrow> adios_var_struct \<Rightarrow> adios_index_characteristic_struct_v1
    \<Rightarrow> adios_index_characteristic_struct_v1" where
  "chars_as_read e fv v old =
     (if is_array v
      then (init_characteristics old)\<lparr>ch_dims := (dim_values e fv (av_dimensions v))\<lparr>d_count := 0\<rparr>,
        ch_transform := transform_of_header (var_transform e fv v), ch_bitmap := av_bitmap v, ch_stats := av_stats v\<rparr>
      else init_characteristics old)"

definition header_as_read ::
  "endian \<Rightarrow> (ADIOS_DATATYPES \<Rightarrow> u8 list \<Rightarrow> u64) \<Rightarrow> adios_index_characteristic_struct_v1 \<Rightarrow> adios_var_struct
    \<Rightarrow> adios_var_header_struct_v1" where
  "header_as_read e fv old v =
     \<lparr>hv_id = av_id v, hv_name = av_name v, hv_path = av_path v, hv_type = av_type v, hv_is_dim = yes_no (av_is_dim v),
      hv_dims = map dim_as_read (av_dimensions v), hv_characteristics = chars_as_read e fv v old,
      hv_payload_size = payload_size e v\<rparr>"

text \<open>
  The transform is read back on machines that store the first byte of an enumeration as its
  number.
\<close>

definition transform_readable :: "endian \<Rightarrow> adios_var_struct \<Rightarrow> bool" where
  "transform_readable e v \<longleftrightarrow> av_transform_type v = 0 \<or> e = Little"

lemma parses_header_chars:
  assumes "var_data_ok e fv infos v" and "transform_readable e v"
  obtains c l where "chars_bytes e fv infos v = [c] @ enc e 4 (l :: u32) @ (if is_array v then array_bytes e infos (var_ch e fv v) else [])"
    and "parses adios_flag_no (parse_set (parse_header_item e infos (av_type v)) (unat c) (init_characteristics old))
      (if is_array v then array_bytes e infos (var_ch e fv v) else []) (chars_as_read e fv v old)"
proof (cases "is_array v")
  case True
  let ?ch = "var_ch e fv v"
  have ok: "plugins_ok infos" "array_ok infos (adios_transform_get_var_original_type_var v) ?ch"
    using assms(1) True by (simp_all add: var_data_ok_def var_array_ok_def)
  have "array_items ?ch \<le> 4" by (simp add: array_items_def transform_items_def)
  then have c: "unat (of_nat (array_items ?ch) :: u8) = array_items ?ch" by simp
  have tr: "ch_transform ?ch = zero_transform \<or> e = Little"
    using assms(2) by (auto simp: transform_readable_def var_ch_def var_transform_def)
  have ty: "adios_transform_get_var_original_type_var v =
      (if tr_transform_type (ch_transform ?ch) \<noteq> 0 then tr_pre_transform_type (ch_transform ?ch) else av_type v)"
    by (simp add: adios_transform_get_var_original_type_var_def var_ch_def var_transform_def zero_transform_def)
  have "parses adios_flag_no (parse_set (parse_header_item e infos (av_type v)) (array_items ?ch) (init_characteristics old))
      (array_bytes e infos ?ch) ((init_characteristics old)\<lparr>ch_dims := (ch_dims ?ch)\<lparr>d_count := 0\<rparr>,
        ch_transform := transform_of_header (ch_transform ?ch), ch_bitmap := ch_bitmap ?ch, ch_stats := ch_stats ?ch\<rparr>)"
    by (rule parses_header_array [OF ok tr ty]) (simp_all add: init_characteristics_def zero_dims_def)
  then have "parses adios_flag_no (parse_set (parse_header_item e infos (av_type v)) (unat (of_nat (array_items ?ch) :: u8))
      (init_characteristics old)) (array_bytes e infos ?ch) (chars_as_read e fv v old)"
    unfolding c chars_as_read_def using True by (simp add: var_ch_def)
  with True show thesis by (intro that) (simp_all add: chars_bytes_def set_bytes_def)
next
  case False
  then show thesis
    by (intro that [of 0 0]) (simp_all add: chars_bytes_def set_bytes_def chars_as_read_def parses_return)
qed

lemma reads_var_header:
  assumes "var_data_ok e fv infos v" and "transform_readable e v"
  shows "reads adios_flag_no (adios_parse_var_data_header_v1 e infos old) (header_bytes e fv infos v) (header_as_read e fv old v)"
proof -
  have ok: "str_ok (av_name v)" "str_ok (av_path v)" "length (av_dimensions v) < 2 ^ 8" "av_type v \<noteq> adios_unknown"
    using assms(1) by (simp_all add: var_data_ok_def)
  have fl: "flag_for e e = adios_flag_no" by (simp add: flag_for_def)
  obtain c l where ch: "chars_bytes e fv infos v = [c] @ enc e 4 (l :: u32) @ (if is_array v then array_bytes e infos (var_ch e fv v) else [])"
    and chp: "parses adios_flag_no (parse_set (parse_header_item e infos (av_type v)) (unat c) (init_characteristics old))
      (if is_array v then array_bytes e infos (var_ch e fv v) else []) (chars_as_read e fv v old)"
    by (rule parses_header_chars [OF assms])
  let ?len = "of_nat (8 + length (header_body e fv infos v)) + payload_size e v"
    and ?dim = "byte_of_char (if av_is_dim v = adios_flag_yes then CHR ''y'' else CHR ''n'')"
  let ?T = "pbind (get_u64 e) (\<lambda>n. pbind (get_u32 e) (\<lambda>ident. pbind (get_string e) (\<lambda>name. pbind (get_string e) (\<lambda>path.
     pbind get_u8 (\<lambda>type. pbind get_u8 (\<lambda>is_dim. pbind (parse_dimensions e) (\<lambda>dims. pbind get_u8 (\<lambda>c. pbind (get_u32 e) (\<lambda>l.
     pbind (parse_set (parse_header_item e infos (type_of_code type)) (unat c) (init_characteristics old)) (\<lambda>ch.
     preturn (n, ident, name, path, type, is_dim, dims, ch)))))))))))"
  note w = parses_u64 [of e e, unfolded fl] parses_u32 [of e e, unfolded fl] parses_string [of _ e e, unfolded fl]
  have "parses adios_flag_no ?T (enc e 8 ?len @ enc e 4 (av_id v) @ enc_string e (av_name v) @ enc_string e (av_path v)
      @ [word_of_int (type_code (av_type v))] @ [?dim] @ dims_bytes e (av_dimensions v) @ [c] @ enc e 4 l
      @ (if is_array v then array_bytes e infos (var_ch e fv v) else []) @ [])
      (?len, av_id v, av_name v, av_path v, word_of_int (type_code (av_type v)), ?dim, map dim_as_read (av_dimensions v),
        chars_as_read e fv v old)"
    by (intro parses_bind [OF w(1)] parses_bind [OF w(2)] parses_bind [OF w(3) [OF ok(1)]] parses_bind [OF w(3) [OF ok(2)]]
        parses_bind [OF parses_u8] parses_bind [OF parses_dimensions [OF ok(3), of e e, unfolded fl]])
      (simp only: type_of_code_of [OF ok(4)], rule parses_bind [OF chp], rule parses_return)
  then have T: "parses adios_flag_no ?T (header_bytes e fv infos v)
      (?len, av_id v, av_name v, av_path v, word_of_int (type_code (av_type v)), ?dim, map dim_as_read (av_dimensions v),
        chars_as_read e fv v old)"
    by (simp add: header_bytes_def header_body_def ch)
  have y: "?dim = byte_of_char CHR ''y'' \<longleftrightarrow> av_is_dim v = adios_flag_yes" by (simp add: byte_of_char_inject)
  show ?thesis
    unfolding reads_def
  proof (intro allI impI)
    fix b assume b: "placed b (header_bytes e fv infos v)" "bp_change_endianness b = adios_flag_no"
    have "23 \<le> length (header_bytes e fv infos v)"
      by (simp add: header_bytes_def header_body_def ch enc_string_def dims_bytes_def)
    then have g: "\<not> bp_length b - bp_offset b < 23" by (intro placed_guard [OF b(1)]) simp
    note t = placed_parses [OF b(1) T [folded b(2)]]
    have "of_nat (length (header_bytes e fv infos v)) + payload_size e v = ?len"
      by (simp add: header_bytes_def)
    then have "?len - of_nat (length (header_bytes e fv infos v)) = payload_size e v" by simp
    then show "adios_parse_var_data_header_v1 e infos old b =
        Inr (header_as_read e fv old v, b\<lparr>bp_offset := bp_offset b + of_nat (length (header_bytes e fv infos v))\<rparr>)"
      using t g y type_of_code_of [OF ok(4)]
      by (auto simp: adios_parse_var_data_header_v1_def pbind_def preturn_def header_as_read_def yes_no_def Let_def
          split: sum.splits prod.splits)
  qed
qed


section \<open>The data of the variables\<close>

text \<open>
  What reading a variable should do to the variables of the group: the first one of the same
  name and path, up to case, gets the data, if it has a buffer that is large enough.
\<close>

definition stored :: "ADIOS_DATATYPES \<Rightarrow> u8 list \<Rightarrow> u8 list \<Rightarrow> u8 list" where
  "stored type data buf =
     (if type = adios_string then data @ [0] @ drop (length data + 1) buf else data @ drop (length data) buf)"

fun restore :: "adios_var_struct \<Rightarrow> adios_var_struct list \<Rightarrow> adios_var_struct list" where
  "restore v [] = []"
| "restore v (r # rs) =
     (if same_case (av_name v) (av_name r) \<and> same_case (av_path v) (av_path r)
      then (case av_data r of
              None \<Rightarrow> r
            | Some buf \<Rightarrow> if unat (av_data_size r) < length (the (av_data v)) then r
                         else r\<lparr>av_data := Some (stored (av_type v) (the (av_data v)) buf)\<rparr>) # rs
      else r # restore v rs)"

text \<open>
  The buffers are as large as they claim to be; a string needs one byte more, which the code does
  not check.
\<close>

definition roomy :: "adios_var_struct list \<Rightarrow> adios_var_struct list \<Rightarrow> bool" where
  "roomy vs rs \<longleftrightarrow> list_all (\<lambda>r. case av_data r of None \<Rightarrow> True
     | Some buf \<Rightarrow> unat (av_data_size r) \<le> length buf
         \<and> (list_ex (\<lambda>v. av_type v = adios_string) vs \<longrightarrow> unat (av_data_size r) < length buf)) rs"

lemma roomy_restore: "roomy (v # vs) rs \<Longrightarrow> roomy vs (restore v rs)"
proof (induction rs)
  case (Cons r rs)
  have "length (stored (av_type v) (the (av_data v)) buf) = length buf"
    if "av_data r = Some buf" "\<not> unat (av_data_size r) < length (the (av_data v))" for buf
    using that Cons.prems by (auto simp: roomy_def stored_def)
  then show ?case using Cons by (auto simp: roomy_def list_all_iff split: option.splits)
qed (simp add: roomy_def)

lemma reads_payload:
  assumes "var_data_ok e fv infos v" and "roomy [v] rs" and "hdr = header_as_read e fv old v"
  shows "reads adios_flag_no (read_payload e hdr rs) (the (av_data v)) (restore v rs)"
  using assms(2)
proof (induction rs)
  obtain data where data: "av_data v = Some data" "length data = unat (payload_size e v)"
    using assms(1) by (auto simp: var_data_ok_def split: option.splits)
  have hdr: "hv_payload_size hdr = payload_size e v" "hv_type hdr = av_type v" "hv_name hdr = av_name v" "hv_path hdr = av_path v"
    by (simp_all add: assms(3) header_as_read_def)
  have n: "of_nat (length data) = payload_size e v" by (simp add: data(2))
  have guard: "\<not> bp_length b - bp_offset b < payload_size e v"
    "unat (bp_offset b) + unat (payload_size e v) \<le> length (bp_buff b)"
    "take (unat (payload_size e v)) (drop (unat (bp_offset b)) (bp_buff b)) = data" if "placed b data" for b
    using placed_guard [OF that, of "payload_size e v"] that by (simp_all add: data(2) placed_def)
  note payload = adios_parse_var_data_payload_v1_def Let_def hdr
  have skip: "reads adios_flag_no (adios_parse_var_data_payload_v1 e hdr None 0) data (None, None)"
    unfolding reads_def using guard by (auto simp: payload n)
  {
    case Nil
    with reads_last [OF skip, of "\<lambda>_. []"] show ?case by (simp add: data)
  next
    case (Cons r rs)
    show ?case
    proof (cases "same_case (av_name v) (av_name r) \<and> same_case (av_path v) (av_path r)")
      case False
      from reads_last [OF Cons.IH, of "\<lambda>vars. r # vars"] False Cons.prems show ?thesis
        by (auto simp: hdr roomy_def)
    next
      case True
      let ?r = "hd (restore v (r # rs))"
      obtain err where "reads adios_flag_no (adios_parse_var_data_payload_v1 e hdr (av_data r) (av_data_size r)) data (err, av_data ?r)"
      proof (cases "av_data r")
        case None
        show thesis by (rule that [of None]) (use guard True None in \<open>auto simp: reads_def payload n\<close>)
      next
        case (Some buf)
        have big: "unat (av_data_size r) \<le> length buf" "av_type v = adios_string \<Longrightarrow> unat (av_data_size r) < length buf"
          using Cons.prems Some by (simp_all add: roomy_def)
        show thesis
        proof (cases "unat (av_data_size r) < length data")
          case small: True
          then have "av_data_size r < payload_size e v" by (simp add: word_less_nat_alt data(2))
          with guard small True Some show thesis
            by (intro that [of "Some err_invalid_buffer_vars"]) (auto simp: reads_def payload n data)
        next
          case large: False
          then have "\<not> av_data_size r < payload_size e v" by (simp add: word_less_nat_alt data(2))
          with guard large True Some big show thesis
            by (intro that [of None]) (auto simp: reads_def payload n data stored_def dest: leD)
        qed
      qed
      note reads_last [OF this, of "\<lambda>x. r\<lparr>av_data := snd x\<rparr> # rs"]
      moreover have "r\<lparr>av_data := av_data ?r\<rparr> # rs = restore v (r # rs)"
        using True by (cases r) (auto split: option.splits)
      ultimately show ?thesis using True by (simp only: read_payload.simps hdr data snd_conv option.sel if_True simp_thms)
    qed
  }
qed

lemma reads_vars:
  assumes "list_all (\<lambda>v. var_data_ok e fv infos v \<and> transform_readable e v) vs" and "roomy vs rs"
  shows "reads adios_flag_no (read_vars e infos old (length vs) rs) (concat (map (data_bytes e fv infos) vs)) (fold restore vs rs)"
  using assms
proof (induction vs arbitrary: rs)
  case Nil
  then show ?case by (simp add: reads_return)
next
  case (Cons v vs)
  then have v: "var_data_ok e fv infos v" "transform_readable e v" by simp_all
  have room: "roomy [v] rs" using Cons.prems(2) by (auto simp: roomy_def list_all_iff split: option.splits)
  have "reads adios_flag_no (read_vars e infos old (length vs) (restore v rs)) (concat (map (data_bytes e fv infos) vs))
      (fold restore vs (restore v rs))"
    using Cons.IH [OF _ roomy_restore [OF Cons.prems(2)]] Cons.prems(1) by simp
  from reads_bind [where f = "read_vars e infos old (length vs)", OF reads_payload [OF v(1) room refl, of old] this]
  have "reads adios_flag_no (pbind (read_payload e (header_as_read e fv old v) rs) (read_vars e infos old (length vs)))
      (the (av_data v) @ concat (map (data_bytes e fv infos) vs)) (fold restore vs (restore v rs))" .
  from reads_bind [where f = "\<lambda>hdr. pbind (read_payload e hdr rs) (read_vars e infos old (length vs))",
      OF reads_var_header [OF v, of old] this]
  show ?case by (simp add: data_bytes_def [of e fv infos v])
qed


section \<open>The attributes\<close>

text \<open>The record that is filled from an attribute of the group.\<close>

definition attr_data_as_read :: "adios_attribute_struct \<Rightarrow> adios_attribute_struct_v1" where
  "attr_data_as_read a =
     (case aa_var a of
        Some var \<Rightarrow> \<lparr>at_id = aa_id a, at_name = aa_name a, at_path = aa_path a, at_is_var = adios_flag_yes,
          at_var_id = vr_id var, at_type = adios_unknown, at_length = 0, at_value = None\<rparr>
      | None \<Rightarrow> \<lparr>at_id = aa_id a, at_name = aa_name a, at_path = aa_path a, at_is_var = adios_flag_no, at_var_id = 0,
          at_type = aa_type a, at_length = of_nat (length (the (aa_value a))), at_value = aa_value a\<rparr>)"

lemma parses_attribute_value:
  "length bs = n \<Longrightarrow> parses adios_flag_no (parse_attribute_value e type n) bs bs"
  unfolding parse_attribute_value_def
  by (rule parses_cong [OF _ parses_bytes]) (auto simp: pbind_def get_bytes_def preturn_def split: if_splits)

lemma reads_attribute:
  assumes "attr_data_ok a"
  shows "reads adios_flag_no (adios_parse_attribute_v1 e) (attr_data_bytes e a) (attr_data_as_read a)"
proof -
  have ok: "str_ok (aa_name a)" "str_ok (aa_path a)" using assms by (simp_all add: attr_data_ok_def)
  have fl: "flag_for e e = adios_flag_no" by (simp add: flag_for_def)
  note w = parses_u32 [of e e, unfolded fl] parses_string [of _ e e, unfolded fl]
  note p = parses_bind [OF w(1)] parses_bind [OF w(2) [OF ok(1)]] parses_bind [OF w(2) [OF ok(2)]] parses_bind [OF parses_u8]
  have len: "15 \<le> length (attr_data_bytes e a)"
    by (simp add: attr_data_bytes_def attr_data_body_def enc_string_def split: option.split)
  show ?thesis
  proof (cases "aa_var a")
    case (Some var)
    have b: "attr_data_bytes e a = enc e 4 (of_nat (length (attr_data_body e a)) :: u32) @ enc e 4 (aa_id a)
        @ enc_string e (aa_name a) @ enc_string e (aa_path a) @ [byte_of_char CHR ''y''] @ enc e 4 (vr_id var)"
      by (simp add: attr_data_bytes_def) (simp add: attr_data_body_def Some)
    have r: "attr_data_as_read a = \<lparr>at_id = aa_id a, at_name = aa_name a, at_path = aa_path a, at_is_var = adios_flag_yes,
          at_var_id = vr_id var, at_type = adios_unknown, at_length = 0, at_value = None\<rparr>"
      by (simp add: attr_data_as_read_def Some)
    show ?thesis
      using len unfolding adios_parse_attribute_v1_def b r
      by (intro reads_guard parses_reads p) (simp_all, rule parses_last [OF w(1)])
  next
    case None
    from attr_value_size [OF assms None] obtain v where v: "aa_value a = Some v" "length v < 2 ^ 32" by blast
    have n: "unat (of_nat (length v) :: u32) = length v" using v(2) by (simp add: unat_of_nat_small)
    have ty: "type_of_code (word_of_int (type_code (aa_type a))) = aa_type a"
      using assms None by (intro type_of_code_of) (simp add: attr_data_ok_def)
    have b: "attr_data_bytes e a = enc e 4 (of_nat (length (attr_data_body e a)) :: u32) @ enc e 4 (aa_id a)
        @ enc_string e (aa_name a) @ enc_string e (aa_path a) @ [byte_of_char CHR ''n'']
        @ [word_of_int (type_code (aa_type a))] @ enc e 4 (of_nat (length v) :: u32) @ v"
      by (simp add: attr_data_bytes_def) (simp add: attr_data_body_def None v)
    have r: "attr_data_as_read a = \<lparr>at_id = aa_id a, at_name = aa_name a, at_path = aa_path a, at_is_var = adios_flag_no, at_var_id = 0,
          at_type = aa_type a, at_length = of_nat (length v), at_value = Some v\<rparr>"
      by (simp add: attr_data_as_read_def None v)
    have val: "parses adios_flag_no (pbind (parse_attribute_value e (aa_type a) (length v)) (\<lambda>v'. preturn
        \<lparr>at_id = aa_id a, at_name = aa_name a, at_path = aa_path a, at_is_var = adios_flag_no, at_var_id = 0,
          at_type = aa_type a, at_length = of_nat (length v), at_value = Some v'\<rparr>)) v (attr_data_as_read a)"
      unfolding r by (rule parses_last [OF parses_attribute_value [OF refl]])
    have "parses adios_flag_no (pbind get_u8 (\<lambda>type. pbind (get_u32 e) (\<lambda>len.
        pbind (parse_attribute_value e (type_of_code type) (unat len)) (\<lambda>v'. preturn
        \<lparr>at_id = aa_id a, at_name = aa_name a, at_path = aa_path a, at_is_var = adios_flag_no, at_var_id = 0,
          at_type = type_of_code type, at_length = len, at_value = Some v'\<rparr>))))
        ([word_of_int (type_code (aa_type a))] @ enc e 4 (of_nat (length v) :: u32) @ v) (attr_data_as_read a)"
      by (intro p) (simp only: ty n val)
    then show ?thesis
      using len unfolding adios_parse_attribute_v1_def b
      by (intro reads_guard parses_reads p) (simp_all add: byte_of_char_inject)
  qed
qed

section \<open>A process group\<close>

lemma reads_section_header:
  "reads adios_flag_no (adios_parse_vars_header_v1 e) (enc e 4 n @ enc e 8 len) \<lparr>vh_count = n, vh_length = len\<rparr>"
  "reads adios_flag_no (adios_parse_attributes_header_v1 e) (enc e 4 n @ enc e 8 len) \<lparr>vh_count = n, vh_length = len\<rparr>"
proof -
  have fl: "flag_for e e = adios_flag_no" by (simp add: flag_for_def)
  have "parses adios_flag_no (pbind (get_u32 e) (\<lambda>count. pbind (get_u64 e) (\<lambda>len. preturn \<lparr>vh_count = count, vh_length = len\<rparr>)))
      (enc e 4 n @ enc e 8 len) \<lparr>vh_count = n, vh_length = len\<rparr>"
    by (intro parses_bind [OF parses_u32 [of e e, unfolded fl]] parses_last parses_u64 [of e e, unfolded fl])
  note r = parses_reads [OF this]
  show "reads adios_flag_no (adios_parse_vars_header_v1 e) (enc e 4 n @ enc e 8 len) \<lparr>vh_count = n, vh_length = len\<rparr>"
    unfolding adios_parse_vars_header_v1_def by (rule reads_guard [OF r]) simp
  show "reads adios_flag_no (adios_parse_attributes_header_v1 e) (enc e 4 n @ enc e 8 len) \<lparr>vh_count = n, vh_length = len\<rparr>"
    unfolding adios_parse_attributes_header_v1_def by (rule reads_guard [OF r]) simp
qed

definition group_data_ok ::
  "endian \<Rightarrow> (ADIOS_DATATYPES \<Rightarrow> u8 list \<Rightarrow> u64) \<Rightarrow> plugin_infos \<Rightarrow> adios_var_struct list
    \<Rightarrow> adios_attribute_struct list \<Rightarrow> bool" where
  "group_data_ok e fv infos vars attrs \<longleftrightarrow>
     list_all (\<lambda>v. var_data_ok e fv infos v \<and> transform_readable e v) vars \<and> length vars < 2 ^ 32
     \<and> list_all attr_data_ok attrs \<and> length attrs < 2 ^ 32"

lemma reads_group:
  assumes "group_data_ok e fv infos vars attrs" and "roomy vars rs"
  shows "reads adios_flag_no (read_group e infos old rs) (group_data_bytes e fv infos vars attrs)
    (fold restore vars rs, map attr_data_as_read attrs)"
proof -
  let ?V = "concat (map (data_bytes e fv infos) vars)" and ?A = "concat (map (attr_data_bytes e) attrs)"
  have n: "unat (of_nat (length vars) :: u32) = length vars" "unat (of_nat (length attrs) :: u32) = length attrs"
    using assms(1) by (simp_all add: group_data_ok_def unat_of_nat_small)
  have vs: "reads adios_flag_no (read_vars e infos old (length vars) rs) ?V (fold restore vars rs)"
    using assms by (intro reads_vars) (simp_all add: group_data_ok_def)
  have "list_all2 (reads adios_flag_no (adios_parse_attribute_v1 e)) (map (attr_data_bytes e) attrs) (map attr_data_as_read attrs)"
    using assms(1) reads_attribute
    by (auto simp: group_data_ok_def list_all_iff list_all2_map1 list_all2_map2 list_all2_same)
  from reads_times [OF this]
  have as: "reads adios_flag_no (parse_times (length attrs) (adios_parse_attribute_v1 e)) ?A (map attr_data_as_read attrs)" by simp
  have b: "group_data_bytes e fv infos vars attrs =
      (enc e 4 (of_nat (length vars) :: u32) @ enc e 8 (of_nat (12 + length ?V) :: u64)) @ ?V
      @ (enc e 4 (of_nat (length attrs) :: u32) @ enc e 8 (of_nat (12 + length ?A) :: u64)) @ ?A"
    by (simp add: group_data_bytes_def section_bytes_def)
  show ?thesis
    unfolding read_group_def b
    by (intro reads_bind [OF reads_section_header(1)], simp only: adios_vars_header_struct_v1.select_convs n,
        intro reads_bind [OF vs] reads_bind [OF reads_section_header(2)],
        simp only: adios_vars_header_struct_v1.select_convs n, rule reads_last [OF as])
qed


section \<open>A file, written and read\<close>

lemma reads_group_header:
  "group_ok g \<Longrightarrow> reads (flag_for e1 e2) (adios_parse_process_group_header_v1 e2) (group_bytes e1 g total_size ident) (group_as_read g ident)"
  by (simp add: reads_def read_pg_header)

text \<open>The last process group of a file, whose header is followed by its data, is read from the file.\<close>

lemma read_last_group:
  assumes "\<forall>n. malloc_ok n" and "file = pre @ bs @ post" and "length file < 2 ^ 63"
    and "reads (bp_change_endianness b) p bs x" and "off = of_nat (length pre)"
    and "bp_pg_index_offset b = of_nat (length (pre @ bs))"
  obtains b1 b2 where "adios_posix_read_process_group malloc_ok fresh file
      (b\<lparr>bp_read_pg_offset := off, bp_read_pg_size := bp_pg_index_offset b - off\<rparr>) = Inr b1" and "p b1 = Inr (x, b2)"
proof -
  let ?b = "b\<lparr>bp_read_pg_offset := off, bp_read_pg_size := bp_pg_index_offset b - off\<rparr>"
  have sz: "bp_read_pg_size ?b = of_nat (length bs)" "bp_read_pg_offset ?b = of_nat (length pre)"
    using assms(5,6) by simp_all
  have fields: "bp_read_pg_size (realloc_aligned malloc_ok fresh n b) = bp_read_pg_size b"
    "bp_read_pg_offset (realloc_aligned malloc_ok fresh n b) = bp_read_pg_offset b" for n b
    by (simp_all add: realloc_aligned_def)
  let ?b1 = "?b\<lparr>bp_buff := bs, bp_length := of_nat (length bs), bp_offset := 0\<rparr>"
  have "adios_posix_read_process_group malloc_ok fresh file ?b = Inr ?b1"
    using read_slice [OF assms(2,3,1), of fresh ?b]
    unfolding adios_posix_read_process_group_def adios_init_buffer_read_process_group_def Let_def
    by (simp add: fields sz del: bp_buffer.update_convs)
  moreover have "placed ?b1 bs"
    by (rule placedI [where pre = "[]" and post = "[]"]) (use assms(2,3) in simp_all)
  then have "p ?b1 = Inr (x, ?b1\<lparr>bp_offset := bp_offset ?b1 + of_nat (length bs)\<rparr>)"
    using assms(4) unfolding reads_def by simp
  ultimately show thesis by (rule that)
qed

text \<open>
  C9. What one run writes, a later run on a machine of the same byte order reads. A process group
  with its header, its variables and its attributes goes into the buffer of a file as the library
  writes it, behind the process groups the file already has, and the metadata of the file follow,
  with an index whose last process group is this one. Reading the file finds that process group,
  and every variable of the reading group that has a buffer large enough for the data written
  under its name gets exactly these data; all other variables keep theirs.
\<close>

theorem posix_read_restores:
  assumes "\<And>n. ok n" and "\<forall>n. malloc_ok n"
    and "group_ok g" and "adios_find_var_by_name e g (g_group_by g) = Some var"
    and "group_data_ok e fv infos vars attrs" and "roomy vars rs"
    and "process_id = 0 \<or> subfile_index \<noteq> -1"
    and "adios_write_process_group_header_v1 e ok g total_size n0 s0 = Some (n, fd_w fd)" and "w_off s0 = 0"
    and "fd' = close_buffer e ok process_id subfile_index attrs
      (fold (buffer_var e fv ok infos) vars (adios_write_open_vars_v1 fd))"
    and "body = old_pgs @ map (w_mem (fd_w fd')) [0..<w_off (fd_w fd')]"
    and "index_ok infos malloc_ok e index" and "ix_pg_root index \<noteq> []"
    and "pg_offset_in_file (last (ix_pg_root index)) = of_nat (length old_pgs)" and "w_off s = 0"
    and "file = body @ emitted (write_metadata infos ver e ok (of_nat (length body)) index) s"
    and "length file < 2 ^ 63"
    and "adios_posix_open_read_internal files fd_nr filename base_path (adios_buffer_struct_init b0) = (True, b)"
    and "files (base_path @ filename) = Some file"
  shows "\<exists>b'. adios_posix_do_read infos junk malloc_ok fresh e old file rs b = Inr (fold restore vars rs, b')"
proof -
  let ?id = "case var of Some ident \<Rightarrow> ident | None \<Rightarrow> (0 :: u32)"
  let ?bs = "group_bytes e g total_size ?id @ group_data_bytes e fv infos vars attrs"
  obtain W where W: "emits W (group_bytes e g total_size ?id)" "fd_w fd = W s0"
    using emits_group [of ok, OF assms(1,3,4), of total_size n0 s0] assms(8) by auto
  have vars: "list_all (var_data_ok e fv infos) vars" "list_all attr_data_ok attrs"
    using assms(5) by (simp_all add: group_data_ok_def list_all_iff)
  note data = group_data_written [of ok, OF assms(1) vars assms(7,10)]
  have "w_mem (fd_w fd') = put_bytes 0 ?bs (w_mem s0)" "w_off (fd_w fd') = length ?bs"
    using W assms(9) data put_bytes_append [of 0 "group_bytes e g total_size ?id"] by (simp_all add: emits_def)
  then have body: "body = old_pgs @ ?bs" using assms(11) put_bytes_read [of 0 ?bs "w_mem s0"] by simp
  have "bp_buff b = []" "bp_file_size b = of_nat (length file)"
    using assms(18,19) by (auto simp: adios_posix_open_read_internal_def adios_buffer_struct_init_def)
  then obtain b1 where ix: "posix_read_indexes infos junk 0 malloc_ok fresh e file
        \<lparr>ix_pg_root = [], ix_vars_root = [], ix_attrs_root = []\<rparr> None b =
      Inr (Some (\<lparr>ix_pg_root = map pg_as_read (ix_pg_root index),
                  ix_vars_root = map (var_as_read junk e e) (ix_vars_root index),
                  ix_attrs_root = map (attr_as_read e e) (ix_attrs_root index)\<rparr>, None), b1)"
    and b1: "bp_pg_index_offset b1 = of_nat (length body)" "bp_change_endianness b1 = flag_for e e"
    using read_written_indexes [of ok, OF assms(1,2,12,15) _ assms(16,17), of e junk None None b 0 fresh]
      put_vars_none [of e "map (var_as_read junk e e) (ix_vars_root index)" 0] by auto
  have off: "pg_offset_in_file (last (map pg_as_read (ix_pg_root index))) = of_nat (length old_pgs)"
    using assms(13,14) by (simp add: last_map pg_as_read_def)
  have fl: "flag_for e e = adios_flag_no" by (simp add: flag_for_def)
  have group: "reads (bp_change_endianness b1) (pbind (adios_parse_process_group_header_v1 e) (\<lambda>_. read_group e infos old rs)) ?bs
      (fold restore vars rs, map attr_data_as_read attrs)"
    using reads_bind [OF reads_group_header [OF assms(3), of e e total_size ?id, unfolded fl]
        reads_group [OF assms(5,6), of old]] b1(2) fl by simp
  obtain b2 b3 where "adios_posix_read_process_group malloc_ok fresh file (b1\<lparr>bp_read_pg_offset := of_nat (length old_pgs),
        bp_read_pg_size := bp_pg_index_offset b1 - of_nat (length old_pgs)\<rparr>) = Inr b2"
      "pbind (adios_parse_process_group_header_v1 e) (\<lambda>_. read_group e infos old rs) b2 =
        Inr ((fold restore vars rs, map attr_data_as_read attrs), b3)"
    by (rule read_last_group [OF assms(2) _ assms(17) group refl, of old_pgs _ fresh]) (use body assms(16) b1(1) in simp_all)
  then show ?thesis using assms(13) ix off by (simp add: adios_posix_do_read_def Let_def)
qed


text \<open>
  An example: one number with an attribute, written behind three other bytes and read into a
  variable whose name differs in case.
\<close>

definition data_example :: adios_var_struct where
  "data_example = \<lparr>av_id = 1, av_name = ''T'', av_path = ''/a'', av_type = adios_integer, av_dimensions = [],
     av_is_dim = adios_flag_no, av_write_offset = 0, av_data = Some [1, 2, 3, 4], av_data_size = 4, av_stats = None, av_bitmap = 0,
     av_transform_type = 0, av_pre_transform_type = adios_byte, av_pre_transform_dimensions = [],
     av_transform_metadata_len = 0, av_transform_metadata = None\<rparr>"

definition reader_example :: adios_var_struct where
  "reader_example = data_example\<lparr>av_name := ''t'', av_path := ''/A'', av_data := Some [0, 0, 0, 0, 9]\<rparr>"

definition attr_data_example :: adios_attribute_struct where
  "attr_data_example = \<lparr>aa_id = 2, aa_name = ''unit'', aa_path = ''/a'', aa_type = adios_string,
     aa_value = Some [75], aa_var = None, aa_write_offset = 0\<rparr>"

definition written_example :: adios_file_struct where
  "written_example =
     close_buffer Little (\<lambda>_. True) 0 (-1) [attr_data_example]
       (fold (buffer_var Little (\<lambda>_ _. 0) (\<lambda>_. True) []) [data_example]
         (adios_write_open_vars_v1
           \<lparr>fd_w = snd (the (adios_write_process_group_header_v1 Little (\<lambda>_. True) group_example 64 0 empty_wst)),
            fd_base_offset = 0, fd_bytes_written = 0, fd_vars_start = 0, fd_vars_written = 0\<rparr>))"

definition pgs_example :: "u8 list" where
  "pgs_example = [7, 7, 7] @ map (w_mem (fd_w written_example)) [0..<w_off (fd_w written_example)]"

definition index_of_example :: adios_index_struct_v1 where
  "index_of_example = index_example\<lparr>ix_pg_root := [pg_example\<lparr>pg_offset_in_file := 3\<rparr>]\<rparr>"

definition file_example :: "u8 list" where
  "file_example = pgs_example @ emitted (write_metadata [] version_example Little (\<lambda>_. True)
     (of_nat (length pgs_example)) index_of_example) empty_wst"

lemma posix_read_restores_witness:
  "\<exists>b'. adios_posix_do_read [] 0 (\<lambda>_. True) (\<lambda>_. 7) Little zero_characteristic file_example [reader_example]
      (snd (adios_posix_open_read_internal [''out/a.bp'' \<mapsto> file_example] 3 ''a.bp'' ''out/''
        (adios_buffer_struct_init (bp_buffer_of adios_flag_no [])))) =
    Inr ([reader_example\<lparr>av_data := Some [1, 2, 3, 4, 9]\<rparr>], b')"
proof -
  have g: "group_ok group_example"
    by (simp add: group_ok_def group_example_def method_ok_def str_ok_def nul_free_def)
  have var: "adios_find_var_by_name Little group_example (g_group_by group_example) = Some None"
    by (simp add: adios_find_var_by_name_def group_example_def get_def)
  let ?hdr = "adios_write_process_group_header_v1 Little (\<lambda>_. True) group_example 64 0 empty_wst"
  let ?fd = "\<lparr>fd_w = snd (the ?hdr), fd_base_offset = 0, fd_bytes_written = 0, fd_vars_start = 0, fd_vars_written = 0\<rparr>"
  obtain W where W: "emits W (group_bytes Little group_example 64 0)" "?hdr = Some (max 0 (w_off (W empty_wst)), W empty_wst)"
    using emits_group [of "\<lambda>_. True", OF TrueI g var, of 64 0 empty_wst] by auto
  have arr: "\<not> is_array data_example" by (simp add: is_array_def data_example_def)
  have size: "payload_size Little data_example = 4"
    by (simp add: payload_size_def data_example_def adios_get_var_size_def adios_get_dimension_space_size_def)
  have ok: "group_data_ok Little (\<lambda>_ _. 0) [] [data_example] [attr_data_example]"
    using arr size by (simp add: group_data_ok_def var_data_ok_def transform_readable_def chars_bytes_def set_bytes_def
        attr_data_ok_def plugins_ok_def, simp add: data_example_def attr_data_example_def str_ok_def nul_free_def)
  then have oks: "list_all (var_data_ok Little (\<lambda>_ _. 0) []) [data_example]" "list_all attr_data_ok [attr_data_example]"
    by (simp_all add: group_data_ok_def)
  have room: "roomy [data_example] [reader_example]" by (simp add: roomy_def reader_example_def data_example_def)
  have ix: "index_ok [] (\<lambda>_. True) Little index_of_example"
    using index_example_ok by (simp add: index_ok_def index_of_example_def index_example_def pg_ok_def)
  have last: "pg_offset_in_file (last (ix_pg_root index_of_example)) = of_nat (length [7, 7, 7 :: u8])"
    "ix_pg_root index_of_example \<noteq> []" by (simp_all add: index_of_example_def)
  have off: "w_off empty_wst = 0" by (simp add: empty_wst_def)
  have "length (group_bytes Little group_example 64 0) < 2 ^ 20"
    by (simp add: group_bytes_def group_example_def enc_string_def method_bytes_def)
  moreover have "length (group_data_bytes Little (\<lambda>_ _. 0) [] [data_example] [attr_data_example]) < 2 ^ 20"
    using arr by (simp add: group_data_bytes_def section_bytes_def data_bytes_def header_bytes_def header_body_def chars_bytes_def
        set_bytes_def attr_data_bytes_def attr_data_body_def dims_bytes_def)
      (simp add: data_example_def attr_data_example_def enc_string_def)
  ultimately have pgs: "length pgs_example < 2 ^ 22"
    using group_data_written(2) [of "\<lambda>_. True", OF TrueI oks _ refl, of 0 "-1" ?fd] W off
    by (simp add: pgs_example_def written_example_def emits_def)
  have "length (emitted (write_metadata [] version_example Little (\<lambda>_. True) (of_nat (length pgs_example)) index_of_example) empty_wst) < 2 ^ 62"
    unfolding emitted_metadata [of "\<lambda>_. True", OF TrueI ix off]
    by (simp add: metadata_bytes_def Let_def index_of_example_def index_example_def length_version_info pg_index_bytes_def pg_bytes_def
        pg_body_def pg_example_def enc_string_def vars_index_bytes_def var_bytes_def var_body_def entry_body_def
        var_example_def var_set_bytes_def set_bytes_def common_bytes_def array_bytes_def value_bytes_def
        ch_example_def transform_item_bytes_def row_bytes_def row_data_def attrs_index_bytes_def attr_bytes_def
        attr_body_def attr_example_def attr_set_bytes_def attr_items_bytes_def var_id_bytes_def zero_characteristic_def)
  with pgs have len: "length file_example < 2 ^ 63" by (simp add: file_example_def)
  let ?files = "[''out/a.bp'' \<mapsto> file_example]"
  obtain b where b: "adios_posix_open_read_internal ?files 3 ''a.bp'' ''out/''
      (adios_buffer_struct_init (bp_buffer_of adios_flag_no [])) = (True, b)"
    by (simp add: adios_posix_open_read_internal_def)
  have hdr: "?hdr = Some (max 0 (w_off (W empty_wst)), fd_w ?fd)" using W(2) by simp
  have "\<exists>b'. adios_posix_do_read [] 0 (\<lambda>_. True) (\<lambda>_. 7) Little zero_characteristic file_example [reader_example] b =
      Inr (fold restore [data_example] [reader_example], b')"
    by (rule posix_read_restores [where ok = "\<lambda>_. True", OF _ _ g var ok room _ hdr off _ pgs_example_def ix last(2,1) off
          file_example_def len b]) (simp_all add: written_example_def)
  moreover have names: "same_case (av_name data_example) (av_name reader_example)"
      "same_case (av_path data_example) (av_path reader_example)" by code_simp+
  have "fold restore [data_example] [reader_example] = [reader_example\<lparr>av_data := Some [1, 2, 3, 4, 9]\<rparr>]"
    by (simp add: names, simp add: reader_example_def data_example_def stored_def)
  ultimately show ?thesis by (simp add: b)
qed


section \<open>What a machine of the other byte order cannot read\<close>

text \<open>
  In a file from a machine of the other byte order, the number of values of an array, a
  statistic of 4 bytes, is converted as a number of the type of the variable. For a \<open>double\<close> the
  conversion takes 8 bytes of a block of 4, and the header of the variable cannot be read.
\<close>

theorem foreign_count_out_of_bounds:
  assumes "length bs = 4" and "placed b bs" and "bp_change_endianness b = adios_flag_yes"
  shows "parse_data_stat e adios_double 2 b = Inl err_out_of_bounds"
proof -
  have "stat_size adios_double 2 = 4" by (simp add: stat_size_def)
  moreover have "get_bytes 4 b = Inr (bs, b\<lparr>bp_offset := bp_offset b + 4\<rparr>)"
    using placed_parses [OF assms(2) parses_bytes [OF assms(1)]] assms(1) by simp
  ultimately show ?thesis using assms(3) by (simp add: parse_data_stat_def pbind_def Let_def)
qed


lemma foreign_count_out_of_bounds_witness:
  "parse_data_stat Little adios_double 2 (bp_buffer_of adios_flag_yes [0, 0, 0, 9]) = Inl err_out_of_bounds"
  by (rule foreign_count_out_of_bounds [of "[0, 0, 0, 9]"]) (use placed_whole [of "[0, 0, 0, 9]" adios_flag_yes] in
    \<open>simp_all add: bp_buffer_of_def\<close>)

end
