(* ===== verification/BP_Merge.thy ===== *)
theory BP_Merge
  imports BP_Index
begin

text \<open>
  Building up an index in memory (\<open>core/adios_internals.c\<close>): the indexes that the processes of a
  run write for their own data are merged into one, in which every variable is one entry with the
  characteristics of all its blocks, and the result is sorted by time. Theorems: the merge keeps,
  for every name, exactly the characteristics of both indexes, in order, and the hash table goes
  on finding the variables.
\<close>

section \<open>Definitions\<close>

text \<open>
  The index with its hash table of variables, where a node of the list of variables is known by
  its position; \<open>vars_tail\<close> is the last node. \<open>ms_errno\<close> is the error that was reported last.
\<close>

record merge_state =
  ms_index :: adios_index_struct_v1
  ms_hashtbl_vars :: "nat qhashtbl_t option"
  ms_errno :: "adios_errcode option"

definition adios_alloc_index_v1 :: "bool \<Rightarrow> bool \<Rightarrow> bool \<Rightarrow> merge_state" where
  "adios_alloc_index_v1 tbl_ok slots_ok alloc_hashtables =
     \<lparr>ms_index = \<lparr>ix_pg_root = [], ix_vars_root = [], ix_attrs_root = []\<rparr>,
      ms_hashtbl_vars = (if alloc_hashtables then qhashtbl tbl_ok slots_ok 500 else None),
      ms_errno = None\<rparr>"

text \<open>The lists are emptied, and the table too, if there is one.\<close>

definition adios_clear_index_v1 :: "merge_state \<Rightarrow> merge_state option" where
  "adios_clear_index_v1 s =
     (let s = s\<lparr>ms_index := \<lparr>ix_pg_root = [], ix_vars_root = [], ix_attrs_root = []\<rparr>\<rparr> in
      case ms_hashtbl_vars s of
        None \<Rightarrow> Some s
      | Some t \<Rightarrow> (case clear t of None \<Rightarrow> None | Some t' \<Rightarrow> Some (s\<lparr>ms_hashtbl_vars := Some t'\<rparr>)))"

definition index_append_process_group_v1 ::
  "adios_index_process_group_struct_v1 list \<Rightarrow> adios_index_process_group_struct_v1 list
    \<Rightarrow> adios_index_process_group_struct_v1 list" where
  "index_append_process_group_v1 root item = root @ item"

text \<open>
  Making room for the characteristics of an item: the size the array is said to have, and whether
  there is that room. The number of new elements goes through an \<open>int\<close>. When \<open>realloc\<close> fails, the
  larger size stays recorded. An item of \<open>2 ^ 31\<close> or more characteristics would be copied behind the
  end of an array that is too small; the memory that this destroys is not modelled.
\<close>

definition make_room :: "(nat \<Rightarrow> bool) \<Rightarrow> u64 \<Rightarrow> u64 \<Rightarrow> u64 \<Rightarrow> u64 \<times> bool" where
  "make_room realloc_ok count allocated item_count =
     (if count + item_count > allocated then
        let new_items = (if item_count = 1 then 100 else ucast item_count) :: u32;
            allocated = count + scast new_items
        in (allocated, realloc_ok (unat allocated))
      else (allocated, True))"

text \<open>Appending the characteristics of an item to those of an entry with the same name.\<close>

definition extend_var ::
  "(nat \<Rightarrow> bool) \<Rightarrow> adios_index_var_struct_v1 \<Rightarrow> adios_index_var_struct_v1
    \<Rightarrow> adios_errcode option \<times> adios_index_var_struct_v1" where
  "extend_var realloc_ok olditem item =
     (if v_group_name olditem \<noteq> v_group_name item then (Some err_unspecified, olditem)
      else
        let (allocated, ok) = make_room realloc_ok (v_characteristics_count olditem)
              (v_characteristics_allocated olditem) (v_characteristics_count item);
            olditem = olditem\<lparr>v_characteristics_allocated := allocated\<rparr>
        in if \<not> ok then (Some err_no_memory, olditem)
           else (None, olditem\<lparr>
             v_characteristics := take (unat (v_characteristics_count olditem)) (v_characteristics olditem)
               @ take (unat (v_characteristics_count item)) (v_characteristics item),
             v_characteristics_count := v_characteristics_count olditem + v_characteristics_count item\<rparr>))"

text \<open>
  A variable is looked up by its full path. \<open>None\<close>: there is no table, or a look-up does not
  return.
\<close>

definition index_append_var_v1 ::
  "endian \<Rightarrow> (nat \<Rightarrow> bool) \<Rightarrow> bool \<Rightarrow> adios_index_var_struct_v1 \<Rightarrow> merge_state \<Rightarrow> merge_state option" where
  "index_append_var_v1 e realloc_ok malloc_ok item s =
     (let index = ms_index s; vars = ix_vars_root index in
      case ms_hashtbl_vars s of
        None \<Rightarrow> None
      | Some t \<Rightarrow>
          (case get2 e t (Some (v_var_path item)) (v_var_name item) of
             None \<Rightarrow> None
           | Some (None, t) \<Rightarrow>
               (case put2 e malloc_ok t (Some (v_var_path item)) (v_var_name item) (Some (length vars)) of
                  None \<Rightarrow> None
                | Some (_, t) \<Rightarrow> Some (s\<lparr>ms_index := index\<lparr>ix_vars_root := vars @ [item]\<rparr>, ms_hashtbl_vars := Some t\<rparr>))
           | Some (Some i, t) \<Rightarrow>
               if i \<ge> length vars then None
               else
                 let (err, olditem) = extend_var realloc_ok (vars ! i) item
                 in Some (s\<lparr>ms_index := index\<lparr>ix_vars_root := vars[i := olditem]\<rparr>, ms_hashtbl_vars := Some t,
                            ms_errno := (if err = None then ms_errno s else err)\<rparr>)))"

definition extend_attr ::
  "(nat \<Rightarrow> bool) \<Rightarrow> adios_index_attribute_struct_v1 \<Rightarrow> adios_index_attribute_struct_v1
    \<Rightarrow> adios_errcode option \<times> adios_index_attribute_struct_v1" where
  "extend_attr realloc_ok root item =
     (let (allocated, ok) = make_room realloc_ok (a_characteristics_count root)
            (a_characteristics_allocated root) (a_characteristics_count item);
          root = root\<lparr>a_characteristics_allocated := allocated\<rparr>
      in if \<not> ok then (Some err_no_memory, root)
         else (None, root\<lparr>
           a_characteristics := take (unat (a_characteristics_count root)) (a_characteristics root)
             @ take (unat (a_characteristics_count item)) (a_characteristics item),
           a_characteristics_count := a_characteristics_count root + a_characteristics_count item\<rparr>))"

definition same_attr :: "adios_index_attribute_struct_v1 \<Rightarrow> adios_index_attribute_struct_v1 \<Rightarrow> bool" where
  "same_attr item root \<longleftrightarrow> same_case (a_group_name item) (a_group_name root)
     \<and> same_case (a_attr_name item) (a_attr_name root) \<and> same_case (a_attr_path item) (a_attr_path root)"

fun index_append_attribute_v1 ::
  "(nat \<Rightarrow> bool) \<Rightarrow> adios_index_attribute_struct_v1 list \<Rightarrow> adios_index_attribute_struct_v1
    \<Rightarrow> adios_errcode option \<times> adios_index_attribute_struct_v1 list" where
  "index_append_attribute_v1 realloc_ok [] item = (None, [item])"
| "index_append_attribute_v1 realloc_ok (root # attrs) item =
     (if same_attr item root then
        let (err, root) = extend_attr realloc_ok root item in (err, root # attrs)
      else
        let (err, attrs) = index_append_attribute_v1 realloc_ok attrs item in (err, root # attrs))"

text \<open>The merge: the lists of the new index are added to the main index.\<close>

definition adios_merge_index_v1 ::
  "endian \<Rightarrow> (nat \<Rightarrow> bool) \<Rightarrow> bool \<Rightarrow> adios_index_struct_v1 \<Rightarrow> merge_state \<Rightarrow> merge_state option" where
  "adios_merge_index_v1 e realloc_ok malloc_ok new s =
     (let index = ms_index s;
          s = s\<lparr>ms_index := index\<lparr>ix_pg_root := index_append_process_group_v1 (ix_pg_root index) (ix_pg_root new)\<rparr>\<rparr>
      in case fold_opt (index_append_var_v1 e realloc_ok malloc_ok) (ix_vars_root new) s of
           None \<Rightarrow> None
         | Some s \<Rightarrow> Some (fold (\<lambda>a s.
             let (err, attrs) = index_append_attribute_v1 realloc_ok (ix_attrs_root (ms_index s)) a
             in s\<lparr>ms_index := (ms_index s)\<lparr>ix_attrs_root := attrs\<rparr>,
                  ms_errno := (if err = None then ms_errno s else err)\<rparr>) (ix_attrs_root new) s))"

section \<open>Lists of named entries\<close>

text \<open>
  What the indexes of variables and of attributes have in common: an entry has a key and a tag and
  holds items; an entry that comes in with the key of an old one is added to it, or else put at
  the end. It is an error when the tags differ. An array has less than \<open>room\<close> items.
\<close>

locale keyed_index =
  fixes key :: "'a \<Rightarrow> 'k" and tag :: "'a \<Rightarrow> 't" and held :: "'a \<Rightarrow> 'c list"
    and extend :: "'a \<Rightarrow> 'a \<Rightarrow> 'a" and good :: "'a \<Rightarrow> bool" and room :: nat
  assumes key_extend: "key (extend x y) = key x" and tag_extend: "tag (extend x y) = tag x"
    and held_extend: "good x \<Longrightarrow> good y \<Longrightarrow> key x = key y \<Longrightarrow> tag x = tag y \<Longrightarrow> length (held x) + length (held y) < room \<Longrightarrow>
      good (extend x y) \<and> held (extend x y) = held x @ held y"
begin

fun add :: "'a list \<Rightarrow> 'a \<Rightarrow> 'a list" where
  "add [] y = [y]"
| "add (x # xs) y = (if key x = key y then extend x y # xs else x # add xs y)"

definition content :: "'a list \<Rightarrow> 'k \<Rightarrow> 'c list" where
  "content xs k = concat (map held (filter (\<lambda>x. key x = k) xs))"

lemma content_Cons: "content (x # xs) k = (if key x = k then held x else []) @ content xs k"
  by (simp add: content_def)

lemma content_Nil [simp]: "content [] k = []"
  by (simp add: content_def)

lemma content_none: "k \<notin> key ` set xs \<Longrightarrow> content xs k = []"
  by (induction xs) (auto simp: content_Cons)

text \<open>The entries are good, their tags are a function of their keys, and they have different keys.\<close>

definition index_of :: "('k \<Rightarrow> 't) \<Rightarrow> 'a list \<Rightarrow> bool" where
  "index_of g xs \<longleftrightarrow> list_all (\<lambda>x. good x \<and> tag x = g (key x)) xs \<and> distinct (map key xs)"

lemma keys_add: "map key (add xs y) = map key xs @ (if key y \<in> key ` set xs then [] else [key y])"
  by (induction xs) (auto simp: key_extend)

lemma key_set_add: "key ` set (add xs y) = insert (key y) (key ` set xs)"
  using arg_cong [OF keys_add [of xs y], of set] by auto

lemma add_index:
  assumes "index_of g xs" and "good y" and "tag y = g (key y)"
    and "length (content xs (key y)) + length (held y) < room"
  shows "index_of g (add xs y)" and "content (add xs y) k = content xs k @ (if k = key y then held y else [])"
  using assms(1,4)
proof (induction xs)
  case Nil
  {
    case 1
    then show ?case using assms(2,3) by (simp add: index_of_def)
  next
    case 2
    then show ?case by (simp add: content_def)
  }
next
  case (Cons x xs)
  have x: "good x" "tag x = g (key x)" "index_of g xs" "key x \<notin> key ` set xs"
    if "index_of g (x # xs)" using that by (auto simp: index_of_def)
  {
    case 1
    have len: "length (content xs (key y)) + length (held y) < room" using 1(2) by (simp add: content_Cons)
    show ?case
    proof (cases "key x = key y")
      case True
      then have "good (extend x y)"
        using held_extend [of x y] x [OF 1(1)] assms(2,3) 1(2) by (simp add: content_Cons)
      with True 1(1) show ?thesis by (simp add: index_of_def key_extend tag_extend)
    next
      case False
      then have "key x \<notin> key ` set (add xs y)"
        using x(4) [OF 1(1)] by (simp add: key_set_add)
      with False Cons.IH(1) [OF x(3) [OF 1(1)] len] x [OF 1(1)] show ?thesis by (simp add: index_of_def)
    qed
  next
    case 2
    have len: "length (content xs (key y)) + length (held y) < room" using 2(2) by (simp add: content_Cons)
    show ?case
    proof (cases "key x = key y")
      case True
      then have "held (extend x y) = held x @ held y" "content xs (key y) = []"
        using held_extend [of x y] x [OF 2(1)] assms(2,3) 2(2) content_none [of "key y" xs] by (simp_all add: content_Cons)
      with True show ?thesis by (auto simp: content_Cons key_extend)
    next
      case False
      with Cons.IH(2) [OF x(3) [OF 2(1)] len] show ?thesis by (simp add: content_Cons)
    qed
  }
qed

text \<open>Adding a whole list of entries, which may share keys.\<close>

definition add_all :: "'a list \<Rightarrow> 'a list \<Rightarrow> 'a list" where
  "add_all xs ys = fold (\<lambda>y xs. add xs y) ys xs"

lemma length_content_le: "length (content xs k) \<le> (\<Sum>x\<leftarrow>xs. length (held x))"
  by (induction xs) (simp_all add: content_def)

lemma add_all_index:
  assumes "index_of g xs" and "list_all (\<lambda>y. good y \<and> tag y = g (key y)) ys"
    and "\<And>k. length (content xs k) + length (content ys k) < room"
  shows "index_of g (add_all xs ys) \<and> content (add_all xs ys) k = content xs k @ content ys k"
  using assms
proof (induction ys arbitrary: xs)
  case Nil
  then show ?case by (simp add: add_all_def content_def)
next
  case (Cons y ys)
  have y: "good y" "tag y = g (key y)" using Cons.prems(2) by simp_all
  have len: "length (content xs (key y)) + length (held y) < room"
    using Cons.prems(3) [of "key y"] by (simp add: content_Cons)
  note step = add_index [OF Cons.prems(1) y len]
  have "length (content (add xs y) k) + length (content ys k) < room" for k
    using Cons.prems(3) [of k] by (simp add: step(2) content_Cons split: if_splits)
  from Cons.IH [OF step(1) _ this] Cons.prems(2) show ?case
    by (auto simp: add_all_def step(2) content_Cons)
qed

lemma keys_add_all: "key ` set (add_all xs ys) = key ` set xs \<union> key ` set ys"
proof (induction ys arbitrary: xs)
  case (Cons y ys)
  with Cons [of "add xs y"] show ?case by (simp add: add_all_def key_set_add)
qed (simp add: add_all_def)

lemma add_new: "key y \<notin> key ` set xs \<Longrightarrow> add xs y = xs @ [y]"
  by (induction xs) auto

lemma add_old:
  assumes "i < length xs" and "key (xs ! i) = key y" and "distinct (map key xs)"
  shows "add xs y = xs[i := extend (xs ! i) y]"
  using assms
proof (induction xs arbitrary: i)
  case (Cons x xs)
  then show ?case
  proof (cases i)
    case (Suc j)
    then have "key x \<noteq> key y" using Cons.prems by (metis distinct.simps(2) length_Cons list.simps(9) map_eq_conv nth_Cons_Suc
        nth_map nth_mem Suc_less_eq length_map)
    with Suc Cons show ?thesis by simp
  qed simp
qed simp

end

section \<open>The two indexes\<close>

definition good_var :: "adios_index_var_struct_v1 \<Rightarrow> bool" where
  "good_var v \<longleftrightarrow> unat (v_characteristics_count v) = length (v_characteristics v)"

definition good_attr :: "adios_index_attribute_struct_v1 \<Rightarrow> bool" where
  "good_attr a \<longleftrightarrow> unat (a_characteristics_count a) = length (a_characteristics a)"

definition attr_key :: "adios_index_attribute_struct_v1 \<Rightarrow> cstring \<times> cstring \<times> cstring" where
  "attr_key a = (map tolower (a_group_name a), map tolower (a_attr_name a), map tolower (a_attr_path a))"

lemma same_attr_key: "same_attr a b \<longleftrightarrow> attr_key a = attr_key b"
  by (simp add: same_attr_def same_case_def attr_key_def)

lemma make_room_ok: "snd (make_room (\<lambda>_. True) c a n)"
  by (simp add: make_room_def Let_def)

interpretation var_index: keyed_index var_key v_group_name v_characteristics
  "\<lambda>x y. snd (extend_var (\<lambda>_. True) x y)" good_var "2 ^ 64"
proof
  fix x y :: adios_index_var_struct_v1
  obtain n where n: "make_room (\<lambda>_. True) (v_characteristics_count x) (v_characteristics_allocated x)
      (v_characteristics_count y) = (n, True)" by (metis make_room_ok prod.collapse)
  show "var_key (snd (extend_var (\<lambda>_. True) x y)) = var_key x" "v_group_name (snd (extend_var (\<lambda>_. True) x y)) = v_group_name x"
    by (simp_all add: extend_var_def n var_key_def)
  assume "good_var x" "good_var y" "v_group_name x = v_group_name y"
    "length (v_characteristics x) + length (v_characteristics y) < 2 ^ 64"
  then show "good_var (snd (extend_var (\<lambda>_. True) x y)) \<and>
      v_characteristics (snd (extend_var (\<lambda>_. True) x y)) = v_characteristics x @ v_characteristics y"
    by (simp add: extend_var_def n good_var_def unat_add_no_wrap)
qed

interpretation attr_index: keyed_index attr_key "\<lambda>_. ()" a_characteristics
  "\<lambda>x y. snd (extend_attr (\<lambda>_. True) x y)" good_attr "2 ^ 64"
proof
  fix x y :: adios_index_attribute_struct_v1
  obtain n where n: "make_room (\<lambda>_. True) (a_characteristics_count x) (a_characteristics_allocated x)
      (a_characteristics_count y) = (n, True)" by (metis make_room_ok prod.collapse)
  show "attr_key (snd (extend_attr (\<lambda>_. True) x y)) = attr_key x" by (simp add: extend_attr_def n attr_key_def)
  assume "good_attr x" "good_attr y" "length (a_characteristics x) + length (a_characteristics y) < 2 ^ 64"
  then show "good_attr (snd (extend_attr (\<lambda>_. True) x y)) \<and>
      a_characteristics (snd (extend_attr (\<lambda>_. True) x y)) = a_characteristics x @ a_characteristics y"
    by (simp add: extend_attr_def n good_attr_def unat_add_no_wrap)
qed simp

text \<open>The characteristics of all entries with a name.\<close>

definition var_chars :: "adios_index_var_struct_v1 list \<Rightarrow> cstring \<Rightarrow> adios_index_characteristic_struct_v1 list" where
  "var_chars vars k = concat (map v_characteristics (filter (\<lambda>v. var_key v = k) vars))"

definition attr_chars ::
  "adios_index_attribute_struct_v1 list \<Rightarrow> cstring \<times> cstring \<times> cstring \<Rightarrow> adios_index_characteristic_struct_v1 list" where
  "attr_chars attrs k = concat (map a_characteristics (filter (\<lambda>a. attr_key a = k) attrs))"

definition good_vars :: "(cstring \<Rightarrow> cstring) \<Rightarrow> adios_index_var_struct_v1 list \<Rightarrow> bool" where
  "good_vars group_of vars \<longleftrightarrow> list_all (\<lambda>v. good_var v \<and> v_group_name v = group_of (var_key v)) vars"

text \<open>
  A main index: every variable and every attribute is one entry, all variables of a name are in
  the same group, and the hash table finds each variable.
\<close>

definition merge_inv :: "endian \<Rightarrow> (cstring \<Rightarrow> cstring) \<Rightarrow> merge_state \<Rightarrow> bool" where
  "merge_inv e group_of s \<longleftrightarrow>
     (let vars = ix_vars_root (ms_index s); attrs = ix_attrs_root (ms_index s) in
      good_vars group_of vars \<and> distinct (map var_key vars)
      \<and> list_all good_attr attrs \<and> distinct (map attr_key attrs)
      \<and> (case ms_hashtbl_vars s of None \<Rightarrow> False
         | Some t \<Rightarrow> qh_view e t (map_of (zip (map var_key vars) (map Some [0..<length vars])))))"

lemma content_chars: "var_index.content = var_chars" "attr_index.content = attr_chars"
  by (simp_all add: fun_eq_iff var_index.content_def var_chars_def attr_index.content_def attr_chars_def)

lemma index_of_good:
  "var_index.index_of g vars \<longleftrightarrow> good_vars g vars \<and> distinct (map var_key vars)"
  "attr_index.index_of h attrs \<longleftrightarrow> list_all good_attr attrs \<and> distinct (map attr_key attrs)"
  by (simp_all add: var_index.index_of_def good_vars_def attr_index.index_of_def)

section \<open>The merge\<close>

text \<open>Attributes: the recursion over the list is the addition to it.\<close>

lemma append_attribute:
  "index_append_attribute_v1 (\<lambda>_. True) attrs a = (None, attr_index.add attrs a)"
proof (induction attrs)
  case (Cons root attrs)
  have "extend_attr (\<lambda>_. True) root a = (None, snd (extend_attr (\<lambda>_. True) root a))"
    using make_room_ok by (simp add: extend_attr_def Let_def split_beta)
  with Cons show ?case by (auto simp: same_attr_key split: prod.splits)
qed simp

lemma append_attributes:
  "fold (\<lambda>a s. let (err, attrs) = index_append_attribute_v1 (\<lambda>_. True) (ix_attrs_root (ms_index s)) a
      in s\<lparr>ms_index := (ms_index s)\<lparr>ix_attrs_root := attrs\<rparr>, ms_errno := (if err = None then ms_errno s else err)\<rparr>) as s
   = s\<lparr>ms_index := (ms_index s)\<lparr>ix_attrs_root := attr_index.add_all (ix_attrs_root (ms_index s)) as\<rparr>\<rparr>"
  by (induction as arbitrary: s) (simp_all add: attr_index.add_all_def append_attribute)

text \<open>Variables: the look-up in the hash table finds the position of the entry to add to.\<close>

lemma position_lookup:
  "distinct ks \<Longrightarrow> i < length ks \<Longrightarrow> map_of (zip ks (map Some [0..<length ks])) (ks ! i) = Some (Some i)"
  using map_of_zip_nth [of ks "map Some [0..<length ks]" i] by simp

lemma position_append:
  assumes "k \<notin> set ks"
  shows "map_of (zip (ks @ [k]) (map Some [0..<length (ks @ [k])])) =
    (map_of (zip ks (map Some [0..<length ks])))(k \<mapsto> Some (length ks))"
proof -
  let ?m = "map_of (zip ks (map Some [0..<length ks]))"
  have "zip (ks @ [k]) (map Some [0..<length (ks @ [k])]) = zip ks (map Some [0..<length ks]) @ [(k, Some (length ks))]"
    by simp
  moreover have "k \<notin> dom ?m" using assms by (simp add: dom_map_of_zip)
  then have "Map.empty(k \<mapsto> Some (length ks)) ++ ?m = (Map.empty ++ ?m)(k \<mapsto> Some (length ks))"
    by (rule map_add_upd_left)
  ultimately show ?thesis by (simp only: map_of_append map_of.simps fst_conv snd_conv empty_map_add)
qed

lemma append_var:
  assumes "merge_inv e g s" and "good_var v" and "v_group_name v = g (var_key v)"
    and "length (var_chars (ix_vars_root (ms_index s)) (var_key v)) + length (v_characteristics v) < 2 ^ 64"
  obtains t where "index_append_var_v1 e (\<lambda>_. True) True v s =
      Some (s\<lparr>ms_index := (ms_index s)\<lparr>ix_vars_root := var_index.add (ix_vars_root (ms_index s)) v\<rparr>, ms_hashtbl_vars := Some t\<rparr>)"
    and "merge_inv e g (s\<lparr>ms_index := (ms_index s)\<lparr>ix_vars_root := var_index.add (ix_vars_root (ms_index s)) v\<rparr>,
      ms_hashtbl_vars := Some t\<rparr>)"
proof -
  let ?vars = "ix_vars_root (ms_index s)" and ?k = "var_key v"
  let ?ks = "map var_key ?vars"
  obtain t where t: "ms_hashtbl_vars s = Some t" "qh_view e t (map_of (zip ?ks (map Some [0..<length ?ks])))"
    and dist: "distinct ?ks" and ix: "var_index.index_of g ?vars"
    using assms(1) by (auto simp: merge_inv_def Let_def index_of_good split: option.splits)
  have len: "length (var_index.content ?vars ?k) + length (v_characteristics v) < 2 ^ 64"
    using assms(4) by (simp add: content_chars)
  have ix': "var_index.index_of g (var_index.add ?vars v)"
    by (rule var_index.add_index(1) [OF ix assms(2,3) len])
  have inv: "merge_inv e g (s\<lparr>ms_index := (ms_index s)\<lparr>ix_vars_root := var_index.add ?vars v\<rparr>, ms_hashtbl_vars := Some t'\<rparr>)"
    if "qh_view e t' (map_of (zip (map var_key (var_index.add ?vars v)) (map Some [0..<length (var_index.add ?vars v)])))" for t'
    using assms(1) ix' that by (simp add: merge_inv_def Let_def index_of_good)
  obtain t1 where t1: "get2 e t (Some (v_var_path v)) (v_var_name v) =
      Some (Option.bind (map_of (zip ?ks (map Some [0..<length ?ks])) ?k) id, t1)"
      "qh_view e t1 (map_of (zip ?ks (map Some [0..<length ?ks])))"
    using qhget_view [OF t(2), of ?k] by (auto simp: get2_def var_key_def)
  have keys: "map var_key (var_index.add ?vars v) = ?ks @ (if ?k \<in> set ?ks then [] else [?k])"
    using var_index.keys_add [of ?vars v] by simp
  then have n: "length (var_index.add ?vars v) = length (?ks @ (if ?k \<in> set ?ks then [] else [?k]))"
    by (metis length_map)
  show thesis
  proof (cases "?k \<in> set ?ks")
    case True
    then obtain i where i: "i < length ?vars" "var_key (?vars ! i) = ?k" by (auto simp: in_set_conv_nth)
    have "map_of (zip ?ks (map Some [0..<length ?ks])) ?k = Some (Some i)"
      using position_lookup [OF dist, of i] i by simp
    then have "get2 e t (Some (v_var_path v)) (v_var_name v) = Some (Some i, t1)"
      using t1(1) by (simp only: bind.bind_lunit id_apply)
    moreover have "v_group_name (?vars ! i) = g ?k"
      using ix i by (simp add: var_index.index_of_def list_all_length)
    then have "extend_var (\<lambda>_. True) (?vars ! i) v = (None, snd (extend_var (\<lambda>_. True) (?vars ! i) v))"
      using assms(3) make_room_ok by (simp add: extend_var_def Let_def split_beta)
    moreover have "var_index.add ?vars v = ?vars[i := snd (extend_var (\<lambda>_. True) (?vars ! i) v)]"
      using dist i by (intro var_index.add_old) simp_all
    ultimately have "index_append_var_v1 e (\<lambda>_. True) True v s =
        Some (s\<lparr>ms_index := (ms_index s)\<lparr>ix_vars_root := var_index.add ?vars v\<rparr>, ms_hashtbl_vars := Some t1\<rparr>)"
      using t(1) i(1) by (cases "extend_var (\<lambda>_. True) (?vars ! i) v") (simp add: index_append_var_v1_def Let_def)
    moreover have "qh_view e t1 (map_of (zip (map var_key (var_index.add ?vars v)) (map Some [0..<length (var_index.add ?vars v)])))"
      unfolding keys n using t1(2) True by simp
    ultimately show thesis using inv by (intro that)
  next
    case False
    then have "get2 e t (Some (v_var_path v)) (v_var_name v) = Some (None, t1)"
      using t1(1) map_of_zip_is_None [of ?ks "map Some [0..<length ?ks]" ?k]
      by (simp only: bind.bind_lzero length_map length_upt diff_zero refl simp_thms)
    moreover obtain t2 where t2: "put2 e True t1 (Some (v_var_path v)) (v_var_name v) (Some (length ?vars)) = Some (True, t2)"
      "qh_view e t2 ((map_of (zip ?ks (map Some [0..<length ?ks])))(?k \<mapsto> Some (length ?vars)))"
      using qhput_view [OF t1(2), of True ?k "Some (length ?vars)"] False
      by (auto simp: put2_def var_key_def dom_map_of_zip)
    moreover have "var_index.add ?vars v = ?vars @ [v]" using False by (intro var_index.add_new) simp
    ultimately have "index_append_var_v1 e (\<lambda>_. True) True v s =
        Some (s\<lparr>ms_index := (ms_index s)\<lparr>ix_vars_root := var_index.add ?vars v\<rparr>, ms_hashtbl_vars := Some t2\<rparr>)"
      using t(1) by (simp add: index_append_var_v1_def Let_def)
    moreover have "qh_view e t2 (map_of (zip (map var_key (var_index.add ?vars v)) (map Some [0..<length (var_index.add ?vars v)])))"
      unfolding keys n using t2(2) False position_append [OF False] by simp
    ultimately show thesis using inv by (intro that)
  qed
qed

lemma append_vars:
  assumes "merge_inv e g s" and "good_vars g vs"
    and "\<And>k. length (var_chars (ix_vars_root (ms_index s)) k) + length (var_chars vs k) < 2 ^ 64"
  obtains t where "fold_opt (index_append_var_v1 e (\<lambda>_. True) True) vs s =
      Some (s\<lparr>ms_index := (ms_index s)\<lparr>ix_vars_root := var_index.add_all (ix_vars_root (ms_index s)) vs\<rparr>, ms_hashtbl_vars := Some t\<rparr>)"
    and "merge_inv e g (s\<lparr>ms_index := (ms_index s)\<lparr>ix_vars_root := var_index.add_all (ix_vars_root (ms_index s)) vs\<rparr>,
      ms_hashtbl_vars := Some t\<rparr>)"
  using assms
proof (induction vs arbitrary: s thesis)
  case Nil
  obtain t where "ms_hashtbl_vars s = Some t" using Nil.prems(2) by (auto simp: merge_inv_def Let_def split: option.splits)
  then have "s\<lparr>ms_index := (ms_index s)\<lparr>ix_vars_root := ix_vars_root (ms_index s)\<rparr>, ms_hashtbl_vars := Some t\<rparr> = s" by (cases s) simp
  with Nil.prems(1) [of t] Nil.prems(2) show ?case by (simp add: var_index.add_all_def)
next
  case (Cons v vs)
  let ?vars = "ix_vars_root (ms_index s)"
  have v: "good_var v" "v_group_name v = g (var_key v)" "good_vars g vs" using Cons.prems(3) by (simp_all add: good_vars_def)
  have len: "length (var_chars ?vars (var_key v)) + length (v_characteristics v) < 2 ^ 64"
    using Cons.prems(4) [of "var_key v"] by (simp add: var_chars_def)
  let ?s = "\<lambda>t. s\<lparr>ms_index := (ms_index s)\<lparr>ix_vars_root := var_index.add ?vars v\<rparr>, ms_hashtbl_vars := Some t\<rparr>"
  obtain t where t: "index_append_var_v1 e (\<lambda>_. True) True v s = Some (?s t)" "merge_inv e g (?s t)"
    by (rule append_var [OF Cons.prems(2) v(1,2) len])
  have ix: "var_index.index_of g ?vars" using Cons.prems(2) by (simp add: merge_inv_def Let_def index_of_good)
  have "length (var_index.content ?vars (var_key v)) + length (v_characteristics v) < 2 ^ 64"
    using len by (simp add: content_chars)
  from var_index.add_index(2) [OF ix v(1,2) this]
  have chars: "var_chars (var_index.add ?vars v) k = var_chars ?vars k @ (if k = var_key v then v_characteristics v else [])" for k
    by (simp add: content_chars)
  have "length (var_chars (ix_vars_root (ms_index (?s t))) k) + length (var_chars vs k) < 2 ^ 64" for k
    using Cons.prems(4) [of k] by (simp add: chars) (simp add: var_chars_def split: if_splits)
  from Cons.IH [OF _ t(2) v(3) this] obtain t' where
      "fold_opt (index_append_var_v1 e (\<lambda>_. True) True) vs (?s t) =
        Some ((?s t)\<lparr>ms_index := (ms_index (?s t))\<lparr>ix_vars_root := var_index.add_all (ix_vars_root (ms_index (?s t))) vs\<rparr>,
          ms_hashtbl_vars := Some t'\<rparr>)"
      "merge_inv e g ((?s t)\<lparr>ms_index := (ms_index (?s t))\<lparr>ix_vars_root := var_index.add_all (ix_vars_root (ms_index (?s t))) vs\<rparr>,
          ms_hashtbl_vars := Some t'\<rparr>)" by blast
  with t(1) Cons.prems(1) [of t'] show ?case by (simp add: var_index.add_all_def)
qed


text \<open>
  C10. Merging the index of one process into the main index. All process groups are kept, those of
  the main index first. Under every full path the merged index has exactly the characteristics of
  the main index followed by those of the new one, also when a new index has several entries of a
  name, and every name that one of the indexes has is one entry of the merged index; the same for
  attributes, whose names are compared without case. No error is reported, and the hash table
  finds every variable of the merged index, so that the next merge works as well.
\<close>

theorem merge_keeps_all:
  assumes "\<And>n. ok n" and "merge_inv e g s" and "good_vars g (ix_vars_root new)" and "list_all good_attr (ix_attrs_root new)"
    and "\<And>k. length (var_chars (ix_vars_root (ms_index s)) k) + length (var_chars (ix_vars_root new) k) < 2 ^ 64"
    and "\<And>k. length (attr_chars (ix_attrs_root (ms_index s)) k) + length (attr_chars (ix_attrs_root new) k) < 2 ^ 64"
  shows "\<exists>s'. adios_merge_index_v1 e ok True new s = Some s' \<and> merge_inv e g s' \<and> ms_errno s' = ms_errno s
    \<and> ix_pg_root (ms_index s') = ix_pg_root (ms_index s) @ ix_pg_root new
    \<and> (\<forall>k. var_chars (ix_vars_root (ms_index s')) k =
          var_chars (ix_vars_root (ms_index s)) k @ var_chars (ix_vars_root new) k)
    \<and> (\<forall>k. attr_chars (ix_attrs_root (ms_index s')) k =
          attr_chars (ix_attrs_root (ms_index s)) k @ attr_chars (ix_attrs_root new) k)
    \<and> var_key ` set (ix_vars_root (ms_index s')) =
        var_key ` set (ix_vars_root (ms_index s)) \<union> var_key ` set (ix_vars_root new)
    \<and> attr_key ` set (ix_attrs_root (ms_index s')) =
        attr_key ` set (ix_attrs_root (ms_index s)) \<union> attr_key ` set (ix_attrs_root new)"
proof -
  have ok: "ok = (\<lambda>_. True)" using assms(1) by (simp add: fun_eq_iff)
  let ?index = "ms_index s"
  let ?s1 = "s\<lparr>ms_index := ?index\<lparr>ix_pg_root := ix_pg_root ?index @ ix_pg_root new\<rparr>\<rparr>"
  have inv1: "merge_inv e g ?s1" using assms(2) by (simp add: merge_inv_def)
  let ?vars = "var_index.add_all (ix_vars_root ?index) (ix_vars_root new)"
    and ?attrs = "attr_index.add_all (ix_attrs_root ?index) (ix_attrs_root new)"
  obtain t where vars: "fold_opt (index_append_var_v1 e ok True) (ix_vars_root new) ?s1 =
        Some (?s1\<lparr>ms_index := (ms_index ?s1)\<lparr>ix_vars_root := ?vars\<rparr>, ms_hashtbl_vars := Some t\<rparr>)"
      "merge_inv e g (?s1\<lparr>ms_index := (ms_index ?s1)\<lparr>ix_vars_root := ?vars\<rparr>, ms_hashtbl_vars := Some t\<rparr>)"
    using append_vars [OF inv1 assms(3)] assms(5) ok by auto
  let ?s' = "s\<lparr>ms_index := ?index\<lparr>ix_pg_root := ix_pg_root ?index @ ix_pg_root new, ix_vars_root := ?vars,
      ix_attrs_root := ?attrs\<rparr>, ms_hashtbl_vars := Some t\<rparr>"
  have s': "adios_merge_index_v1 e ok True new s = Some ?s'"
    using vars(1) by (simp add: adios_merge_index_v1_def index_append_process_group_v1_def append_attributes [unfolded Let_def] ok Let_def)
  have v: "var_index.index_of g (ix_vars_root ?index)" and a: "attr_index.index_of (\<lambda>_. ()) (ix_attrs_root ?index)"
    using assms(2) by (simp_all add: merge_inv_def Let_def index_of_good)
  have "list_all (\<lambda>v. good_var v \<and> v_group_name v = g (var_key v)) (ix_vars_root new)"
    "list_all (\<lambda>a. good_attr a \<and> () = ()) (ix_attrs_root new)"
    using assms(3,4) by (simp_all add: good_vars_def)
  note merged = var_index.add_all_index [OF v this(1)] attr_index.add_all_index [OF a this(2)]
  have "var_chars ?vars k = var_chars (ix_vars_root ?index) k @ var_chars (ix_vars_root new) k"
    "attr_chars ?attrs k' = attr_chars (ix_attrs_root ?index) k' @ attr_chars (ix_attrs_root new) k'" for k k'
    using merged assms(5,6) by (simp_all add: content_chars)
  moreover have "attr_index.index_of (\<lambda>_. ()) ?attrs" using merged(2) assms(6) by (simp add: content_chars)
  then have "merge_inv e g ?s'" using vars(2) by (simp add: merge_inv_def Let_def index_of_good)
  ultimately show ?thesis
    by (intro exI [of _ ?s'] conjI s')
      (simp_all add: var_index.keys_add_all attr_index.keys_add_all)
qed

text \<open>An example: the index of the examples, merged twice into an empty one.\<close>

definition merge_example :: merge_state where
  "merge_example = adios_alloc_index_v1 True True True"

lemma merge_keeps_all_witness:
  "\<exists>s s'. adios_merge_index_v1 Little (\<lambda>_. True) True index_example merge_example = Some s
    \<and> adios_merge_index_v1 Little (\<lambda>_. True) True index_example s = Some s'
    \<and> var_chars (ix_vars_root (ms_index s')) ''/a/T'' = [ch_example, ch_example]
    \<and> ms_errno s' = None"
proof -
  have key: "var_key var_example = ''/a/T''" by (simp add: var_key_def var_example_def genkey_def)
  have new: "good_vars (\<lambda>_. ''g'') (ix_vars_root index_example)" "list_all good_attr (ix_attrs_root index_example)"
    by (simp_all add: good_vars_def good_var_def index_example_def var_example_def good_attr_def attr_example_def)
  have inv: "merge_inv Little (\<lambda>_. ''g'') merge_example"
    using qhashtbl_view [of 500 _ Little] by (auto simp: merge_inv_def merge_example_def adios_alloc_index_v1_def
        good_vars_def qhashtbl_def)
  have len: "length (var_chars (ix_vars_root index_example) k) \<le> 1" "length (attr_chars (ix_attrs_root index_example) k') \<le> 1" for k k'
    by (simp_all add: var_chars_def attr_chars_def index_example_def) (simp_all add: var_example_def attr_example_def)
  have empty: "var_chars (ix_vars_root (ms_index merge_example)) k = []" "attr_chars (ix_attrs_root (ms_index merge_example)) k' = []"
    "ms_errno merge_example = None" for k k'
    by (simp_all add: merge_example_def adios_alloc_index_v1_def var_chars_def attr_chars_def)
  obtain s where s: "adios_merge_index_v1 Little (\<lambda>_. True) True index_example merge_example = Some s"
      "merge_inv Little (\<lambda>_. ''g'') s" "ms_errno s = None"
      "\<forall>k. var_chars (ix_vars_root (ms_index s)) k = var_chars (ix_vars_root index_example) k"
      "\<forall>k. attr_chars (ix_attrs_root (ms_index s)) k = attr_chars (ix_attrs_root index_example) k"
    using merge_keeps_all [of "\<lambda>_. True" Little "\<lambda>_. ''g''" merge_example index_example, OF TrueI inv new] len empty
    by (fastforce intro: le_less_trans)
  obtain s' where "adios_merge_index_v1 Little (\<lambda>_. True) True index_example s = Some s'" "ms_errno s' = None"
      "\<forall>k. var_chars (ix_vars_root (ms_index s')) k = var_chars (ix_vars_root index_example) k @ var_chars (ix_vars_root index_example) k"
    using merge_keeps_all [of "\<lambda>_. True" Little "\<lambda>_. ''g''" s index_example, OF TrueI s(2) new] s(3-5) len
    by (fastforce intro: le_less_trans [OF add_mono])
  moreover have "var_chars (ix_vars_root index_example) ''/a/T'' = [ch_example]"
    using key by (simp add: var_chars_def index_example_def) (simp add: var_example_def)
  ultimately show ?thesis using s(1) by auto
qed

end
