(* ===== verification/BP_Sort.thy ===== *)
theory BP_Sort
  imports BP_Index "HOL-Library.Multiset"
begin

text \<open>
  \<open>adios_sort_index_v1\<close> (\<open>core/adios_internals.c\<close>): the process groups of an index are sorted by
  their time index through insertion into a linked list, and the characteristics of every variable
  through a bubble sort. The list of process groups is a heap of nodes, because the insertion
  loses track of it when a node has to go to the front.
\<close>

section \<open>Definitions\<close>

text \<open>
  The heap gives the \<open>next\<close> of a node, 0 is the null pointer; \<open>time\<close> is its time index. The loop
  that searches the place ends at the first node with a larger time index, or at the null pointer;
  it returns that node and the one before it.
\<close>

type_synonym node = nat

partial_function (option) find_place ::
  "(node \<Rightarrow> u32) \<Rightarrow> (node \<Rightarrow> node) \<Rightarrow> node \<Rightarrow> node \<Rightarrow> node \<Rightarrow> (node \<times> node) option" where
  "find_place time next' p1 p2_temp p2_temp_prev =
     (if p2_temp \<noteq> 0 \<and> time p1 \<ge> time p2_temp then find_place time next' p1 (next' p2_temp) p2_temp
      else Some (p2_temp, p2_temp_prev))"

partial_function (option) sort_process_groups ::
  "(node \<Rightarrow> u32) \<Rightarrow> node \<Rightarrow> node \<Rightarrow> (node \<Rightarrow> node) \<Rightarrow> (node \<times> (node \<Rightarrow> node)) option" where
  "sort_process_groups time p1 p2 next' =
     (if p1 = 0 then Some (p2, next')
      else if p2 = 0 then sort_process_groups time (next' p1) p1 (next'(p1 := 0))
      else
        case find_place time next' p1 p2 p2 of
          None \<Rightarrow> None
        | Some (p2_temp, p2_temp_prev) \<Rightarrow>
            if p2_temp = 0 then
              let next'' = next'(p2_temp_prev := p1)
              in sort_process_groups time (next'' p1) p2 (next''(p1 := 0))
            else
              sort_process_groups time (next' p1) p2 (next'(p1 := p2_temp, p2_temp_prev := p1)))"

text \<open>
  The exchange of two characteristics. The id of a variable goes through a \<open>uint16_t\<close> on its way
  from the first to the second.
\<close>

definition exchange ::
  "adios_index_characteristic_struct_v1 \<Rightarrow> adios_index_characteristic_struct_v1
    \<Rightarrow> adios_index_characteristic_struct_v1 \<times> adios_index_characteristic_struct_v1" where
  "exchange c1 c2 =
     (let t_var_id = ucast (ch_var_id c1) :: u16;
          (transform1, transform2) = adios_transform_swap_transform_characteristics (ch_transform c1, ch_transform c2)
      in (c2\<lparr>ch_transform := transform1\<rparr>, c1\<lparr>ch_var_id := ucast t_var_id, ch_transform := transform2\<rparr>))"

definition sort_round ::
  "nat \<Rightarrow> adios_index_characteristic_struct_v1 list \<Rightarrow> adios_index_characteristic_struct_v1 list" where
  "sort_round n cs =
     fold (\<lambda>j cs. if ch_time_index (cs ! j) > ch_time_index (cs ! (j + 1)) then
                    let (c1, c2) = exchange (cs ! j) (cs ! (j + 1)) in cs[j := c1, j + 1 := c2]
                  else cs) [0..<n] cs"

definition sort_characteristics ::
  "nat \<Rightarrow> adios_index_characteristic_struct_v1 list \<Rightarrow> adios_index_characteristic_struct_v1 list" where
  "sort_characteristics n cs = fold (\<lambda>i. sort_round (n - i - 1)) [0..<n] cs"

text \<open>The attributes are not sorted.\<close>

definition adios_sort_index_v1 ::
  "(node \<Rightarrow> u32) \<Rightarrow> node \<times> (node \<Rightarrow> node) \<Rightarrow> adios_index_var_struct_v1 list
    \<Rightarrow> ((node \<times> (node \<Rightarrow> node)) \<times> adios_index_var_struct_v1 list) option" where
  "adios_sort_index_v1 time = (\<lambda>(p1, next') vars.
     case sort_process_groups time p1 0 next' of
       None \<Rightarrow> None
     | Some pgs \<Rightarrow> Some (pgs, map (\<lambda>v. v\<lparr>v_characteristics :=
           sort_characteristics (unat (v_characteristics_count v)) (v_characteristics v)\<rparr>) vars))"

section \<open>Sorting the process groups\<close>

text \<open>\<open>nodes next' p as\<close>: following \<open>next'\<close> from \<open>p\<close> visits the nodes \<open>as\<close> and ends in null.\<close>

fun nodes :: "(node \<Rightarrow> node) \<Rightarrow> node \<Rightarrow> node list \<Rightarrow> bool" where
  "nodes next' p [] \<longleftrightarrow> p = 0"
| "nodes next' p (a # as) \<longleftrightarrow> p = a \<and> a \<noteq> 0 \<and> nodes next' (next' a) as"

lemma nodes_upd: "a \<notin> set as \<Longrightarrow> nodes (next'(a := q)) p as = nodes next' p as"
  by (induction as arbitrary: p) auto

lemma nodes_distinct: "nodes next' p as \<Longrightarrow> distinct as \<and> 0 \<notin> set as"
proof -
  have determined: "nodes next' p as \<Longrightarrow> nodes next' p bs \<Longrightarrow> as = bs" for p as bs
  proof (induction as arbitrary: p bs)
    case Nil
    then show ?case by (cases bs) auto
  next
    case (Cons a as)
    then show ?case by (cases bs) auto
  qed
  have suffix: "nodes next' p (as @ bs) \<Longrightarrow> bs \<noteq> [] \<Longrightarrow> nodes next' (hd bs) bs" for p as bs
    by (induction as arbitrary: p) (auto elim: nodes.elims)
  assume "nodes next' p as"
  then show ?thesis
  proof (induction as arbitrary: p)
    case (Cons a as)
    have "a \<notin> set as"
    proof
      assume "a \<in> set as"
      then obtain bs cs where as: "as = bs @ a # cs" by (auto dest: split_list)
      then have "nodes next' a (a # cs)" using suffix [of p "a # bs" "a # cs"] Cons.prems by simp
      moreover have "nodes next' a (a # as)" using Cons.prems by simp
      ultimately have "as = cs" using determined by blast
      with as show False by (metis append_eq_append_conv2 length_append length_Cons less_add_Suc2 less_irrefl)
    qed
    with Cons show ?case by auto
  qed simp
qed

text \<open>The place is behind all nodes that are not later.\<close>

lemma find_place_result:
  assumes "nodes next' p zs"
  shows "find_place time next' c p prev =
    Some (case dropWhile (\<lambda>a. time a \<le> time c) zs of [] \<Rightarrow> 0 | a # _ \<Rightarrow> a,
          last (prev # takeWhile (\<lambda>a. time a \<le> time c) zs))"
  using assms
proof (induction zs arbitrary: p prev)
  case Nil
  then show ?case by (subst find_place.simps) simp
next
  case (Cons z zs)
  then show ?case by (subst find_place.simps) simp
qed

definition place :: "('a \<Rightarrow> 'k::linorder) \<Rightarrow> 'a \<Rightarrow> 'a list \<Rightarrow> 'a list" where
  "place f c xs = takeWhile (\<lambda>a. f a \<le> f c) xs @ c # dropWhile (\<lambda>a. f a \<le> f c) xs"

lemma set_place: "set (place f c xs) = insert c (set xs)"
proof -
  have "set xs = set (takeWhile (\<lambda>a. f a \<le> f c) xs) \<union> set (dropWhile (\<lambda>a. f a \<le> f c) xs)"
    by (metis set_append takeWhile_dropWhile_id)
  then show ?thesis by (simp add: place_def)
qed

lemma nodes_insert:
  assumes "nodes next' p (as @ bs)" and "as \<noteq> []" and "c \<noteq> 0" and "c \<notin> set (as @ bs)"
  shows "nodes (next'(last as := c, c := (case bs of [] \<Rightarrow> 0 | b # _ \<Rightarrow> b))) p (as @ c # bs)"
  using assms
proof (induction as arbitrary: p)
  case (Cons a as)
  let ?next = "next'(last (a # as) := c, c := (case bs of [] \<Rightarrow> 0 | b # _ \<Rightarrow> b))"
  have dist: "distinct (a # as @ bs)" using nodes_distinct [OF Cons.prems(1)] by simp
  show ?case
  proof (cases "as = []")
    case True
    have "nodes ?next (case bs of [] \<Rightarrow> 0 | b # _ \<Rightarrow> b) bs"
    proof -
      have "nodes next' (next' a) bs" using Cons.prems(1) True by simp
      then have "nodes next' (case bs of [] \<Rightarrow> 0 | b # _ \<Rightarrow> b) bs" by (cases bs) simp_all
      then show ?thesis using dist Cons.prems(4) True by (simp add: nodes_upd)
    qed
    moreover have "?next a = c" "?next c = (case bs of [] \<Rightarrow> 0 | b # _ \<Rightarrow> b)" using Cons.prems(4) True by auto
    ultimately have "nodes ?next a (a # c # bs)" using Cons.prems(1,3) True by (simp only: nodes.simps append.simps) simp
    moreover have "p = a" using Cons.prems(1) by simp
    ultimately show ?thesis unfolding True append.simps by blast
  next
    case False
    have "last as \<noteq> a" using False dist by (metis Un_iff distinct.simps(2) last_in_set set_append)
    with False Cons show ?thesis by auto
  qed
qed simp

lemma place_nodes:
  assumes "nodes next' p xs" and "xs \<noteq> []" and "time (hd xs) \<le> time c" and "c \<noteq> 0" and "c \<notin> set xs"
  obtains t prev where "find_place time next' c p p = Some (t, prev)" and "prev \<in> set xs"
    and "nodes (next'(prev := c, c := t)) p (place time c xs)"
proof -
  let ?as = "takeWhile (\<lambda>a. time a \<le> time c) xs" and ?bs = "dropWhile (\<lambda>a. time a \<le> time c) xs"
  have as: "?as \<noteq> []" using assms(2,3) by (cases xs) simp_all
  have "c \<notin> set (?as @ ?bs)" using assms(5) by simp
  from nodes_insert [OF _ as assms(4) this] assms(1)
  have "nodes (next'(last ?as := c, c := (case ?bs of [] \<Rightarrow> 0 | b # _ \<Rightarrow> b))) p (place time c xs)"
    by (simp add: place_def)
  moreover have "last ?as \<in> set xs" using as by (meson last_in_set set_takeWhileD)
  moreover have "find_place time next' c p p = Some (case ?bs of [] \<Rightarrow> 0 | b # _ \<Rightarrow> b, last ?as)"
    using find_place_result [OF assms(1), of time c p] as by simp
  ultimately show thesis by (intro that)
qed

lemma sort_nodes:
  assumes "nodes next' p2 xs" and "nodes next' p1 ys" and "distinct (xs @ ys)" and "xs \<noteq> []"
    and "\<forall>y \<in> set ys. time (hd xs) \<le> time y"
  shows "\<exists>next''. sort_process_groups time p1 p2 next' = Some (p2, next'') \<and> nodes next'' p2 (fold (place time) ys xs)"
  using assms
proof (induction ys arbitrary: next' p1 xs)
  case Nil
  then show ?case by (simp add: sort_process_groups.simps [of time 0])
next
  case (Cons y ys)
  have y: "p1 = y" "y \<noteq> 0" "nodes next' (next' y) ys" using Cons.prems(2) by simp_all
  have p2: "p2 \<noteq> 0" using Cons.prems(1,4) by (cases xs) auto
  have c: "time (hd xs) \<le> time y" "y \<notin> set xs" using Cons.prems(3,5) by auto
  obtain t prev where t: "find_place time next' y p2 p2 = Some (t, prev)" "prev \<in> set xs"
      "nodes (next'(prev := y, y := t)) p2 (place time y xs)"
    by (rule place_nodes [where time = time, OF Cons.prems(1,4) c(1) y(2) c(2)])
  have ne: "prev \<noteq> y" "prev \<notin> set ys" "y \<notin> set ys" using t(2) Cons.prems(3) by auto
  then have rest: "nodes (next'(prev := y, y := t)) (next' y) ys" using y(3) by (simp add: nodes_upd)
  have step: "sort_process_groups time p1 p2 next' = sort_process_groups time (next' y) p2 (next'(prev := y, y := t))"
    using y(2) p2 t(1) ne(1) unfolding y(1) by (subst sort_process_groups.simps) (simp add: fun_upd_twist)
  have hd: "hd (place time y xs) = hd xs" using c(1) Cons.prems(4) by (cases xs) (simp_all add: place_def)
  have set: "set (place time y xs) = insert y (set xs)" "place time y xs \<noteq> []" "distinct (place time y xs)"
    using nodes_distinct [OF t(3)] by (simp_all add: set_place) (simp add: place_def)
  have "\<exists>next''. sort_process_groups time (next' y) p2 (next'(prev := y, y := t)) = Some (p2, next'')
      \<and> nodes next'' p2 (fold (place time) ys (place time y xs))"
    by (rule Cons.IH [OF t(3) rest]) (use set hd Cons.prems(3,5) in auto)
  then show ?case by (simp add: step)
qed

text \<open>Insertion behind what is not later sorts, and keeps the order of groups with the same time.\<close>

lemma sorted_split:
  assumes "sorted (map f xs)"
  shows "\<forall>a \<in> set (takeWhile (\<lambda>a. f a \<le> k) xs). f a \<le> k" and "\<forall>b \<in> set (dropWhile (\<lambda>a. f a \<le> k) xs). k < f b"
proof -
  show "\<forall>a \<in> set (takeWhile (\<lambda>a. f a \<le> k) xs). f a \<le> k" using set_takeWhileD by fastforce
  show "\<forall>b \<in> set (dropWhile (\<lambda>a. f a \<le> k) xs). k < f b"
    using assms by (induction xs) (auto simp: not_le intro: less_le_trans)
qed

lemma place_parts:
  assumes "sorted (map f xs)"
  obtains as bs where "xs = as @ bs" and "place f c xs = as @ c # bs"
    and "\<forall>a \<in> set as. f a \<le> f c" and "\<forall>b \<in> set bs. f c < f b"
proof (rule that)
  show "xs = takeWhile (\<lambda>a. f a \<le> f c) xs @ dropWhile (\<lambda>a. f a \<le> f c) xs" by simp
  show "place f c xs = takeWhile (\<lambda>a. f a \<le> f c) xs @ c # dropWhile (\<lambda>a. f a \<le> f c) xs"
    by (rule place_def)
qed (rule sorted_split [OF assms])+

lemma place_sorted:
  assumes "sorted (map f xs)"
  shows "sorted (map f (place f c xs))" and "mset (place f c xs) = add_mset c (mset xs)"
    and "filter (\<lambda>x. f x = k) (place f c xs) = filter (\<lambda>x. f x = k) (xs @ [c])"
proof -
  obtain as bs where xs: "xs = as @ bs" and place: "place f c xs = as @ c # bs"
      and as: "\<forall>a \<in> set as. f a \<le> f c" and bs: "\<forall>b \<in> set bs. f c < f b"
    using place_parts [OF assms, of c] .
  have "sorted (map f as)" "sorted (map f bs)" using assms by (simp_all add: xs sorted_append)
  moreover have "f a \<le> f b" if "a \<in> set as" "b \<in> set bs" for a b
    using as bs that by (meson less_imp_le order_trans)
  ultimately show "sorted (map f (place f c xs))"
    using as bs by (auto simp: place sorted_append intro: less_imp_le)
  show "mset (place f c xs) = add_mset c (mset xs)" unfolding place by (simp add: xs)
  have "filter (\<lambda>x. f x = k) bs = []" if "f c = k" using bs that by (auto simp: filter_empty_conv)
  then show "filter (\<lambda>x. f x = k) (place f c xs) = filter (\<lambda>x. f x = k) (xs @ [c])"
    unfolding place by (simp add: xs)
qed

lemma fold_place_sorts:
  assumes "sorted (map f xs)"
  shows "sorted (map f (fold (place f) ys xs)) \<and> mset (fold (place f) ys xs) = mset (xs @ ys)
    \<and> (\<forall>k. filter (\<lambda>x. f x = k) (fold (place f) ys xs) = filter (\<lambda>x. f x = k) (xs @ ys))"
  using assms
proof (induction ys arbitrary: xs)
  case (Cons y ys)
  from Cons.IH [OF place_sorted(1) [OF Cons.prems, of y]] show ?case
    using place_sorted(2,3) [OF Cons.prems] by simp
qed simp

lemma fold_place_sort_key: "fold (place f) ys [x] = sort_key f (x # ys)"
proof (rule sym, rule properties_for_sort_key)
  note s = fold_place_sorts [of f "[x]" ys]
  show "mset (fold (place f) ys [x]) = mset (x # ys)" "sorted (map f (fold (place f) ys [x]))" using s by simp_all
  show "filter (\<lambda>y. f k = f y) (fold (place f) ys [x]) = filter (\<lambda>y. f k = f y) (x # ys)" for k
    using s by (simp add: eq_commute [of "f k"])
qed


section \<open>Sorting the characteristics\<close>

text \<open>The bubble sort without the detour of the id, for any key.\<close>

definition swap_step :: "('a \<Rightarrow> 'k::linorder) \<Rightarrow> nat \<Rightarrow> 'a list \<Rightarrow> 'a list" where
  "swap_step f j cs = (if f (cs ! j) > f (cs ! (j + 1)) then cs[j := cs ! (j + 1), j + 1 := cs ! j] else cs)"

definition bubble_round :: "('a \<Rightarrow> 'k::linorder) \<Rightarrow> nat \<Rightarrow> 'a list \<Rightarrow> 'a list" where
  "bubble_round f n cs = fold (swap_step f) [0..<n] cs"

definition same_groups :: "('a \<Rightarrow> 'k) \<Rightarrow> 'a list \<Rightarrow> 'a list \<Rightarrow> bool" where
  "same_groups f xs ys \<longleftrightarrow> mset xs = mset ys \<and> (\<forall>k. filter (\<lambda>x. f x = k) xs = filter (\<lambda>x. f x = k) ys)"

lemma same_groups_trans: "same_groups f xs ys \<Longrightarrow> same_groups f ys zs \<Longrightarrow> same_groups f xs zs"
  by (simp add: same_groups_def)

lemma swap_step_split:
  assumes "j + 1 < length cs"
  obtains as a b bs where "cs = as @ a # b # bs" and "length as = j"
    and "swap_step f j cs = (if f b < f a then as @ b # a # bs else cs)"
proof (rule that)
  show "cs = take j cs @ cs ! j # cs ! (j + 1) # drop (j + 2) cs"
    using assms by (simp add: Cons_nth_drop_Suc)
  show "length (take j cs) = j" using assms by simp
  have "cs[j := cs ! (j + 1), j + 1 := cs ! j] = take j cs @ cs ! (j + 1) # cs ! j # drop (j + 2) cs"
    using assms by (simp add: upd_conv_take_nth_drop take_Suc_conv_app_nth min_def)
  then show "swap_step f j cs = (if f (cs ! (j + 1)) < f (cs ! j)
      then take j cs @ cs ! (j + 1) # cs ! j # drop (j + 2) cs else cs)"
    by (simp add: swap_step_def)
qed

lemma swap_step_groups:
  assumes "j + 1 < length cs"
  shows "same_groups f (swap_step f j cs) cs"
proof -
  obtain as a b bs where "cs = as @ a # b # bs" "swap_step f j cs = (if f b < f a then as @ b # a # bs else cs)"
    using swap_step_split [OF assms, of f] by metis
  then show ?thesis by (auto simp: same_groups_def)
qed

lemma swap_step_nth:
  assumes "j + 1 < length cs"
  shows "i < j \<or> j + 1 < i \<Longrightarrow> swap_step f j cs ! i = cs ! i"
    and "f (swap_step f j cs ! j) \<le> f (swap_step f j cs ! (j + 1))" and "f (cs ! j) \<le> f (swap_step f j cs ! (j + 1))"
  using assms by (auto simp: swap_step_def nth_list_update)

lemma bubble_round:
  assumes "n < length cs"
  shows "same_groups f (bubble_round f n cs) cs \<and> drop (n + 1) (bubble_round f n cs) = drop (n + 1) cs
    \<and> (\<forall>i \<le> n. f (bubble_round f n cs ! i) \<le> f (bubble_round f n cs ! n))"
  using assms
proof (induction n)
  case 0
  then show ?case by (simp add: bubble_round_def same_groups_def)
next
  case (Suc n)
  let ?r = "bubble_round f n cs"
  have step: "bubble_round f (Suc n) cs = swap_step f n ?r" by (simp add: bubble_round_def)
  from Suc have IH: "same_groups f ?r cs" "drop (n + 1) ?r = drop (n + 1) cs" "\<forall>i \<le> n. f (?r ! i) \<le> f (?r ! n)"
    by simp_all
  have n: "n + 1 < length ?r" using Suc.prems IH(1) by (metis Suc_eq_plus1 same_groups_def size_mset)
  note nth = swap_step_nth(1) [OF n, where f = f]
  have "f (swap_step f n ?r ! i) \<le> f (swap_step f n ?r ! (n + 1))" if i: "i \<le> n + 1" for i
  proof -
    consider "i < n" | "i = n" | "i = n + 1" using i by linarith
    then show ?thesis
    proof cases
      case 1
      then have "f (?r ! i) \<le> f (?r ! n)" using IH(3) less_imp_le by blast
      with 1 nth [of i] swap_step_nth(3) [OF n, of f] show ?thesis by (simp add: order_trans)
    qed (use swap_step_nth(2) [OF n, of f] in auto)
  qed
  moreover have "drop (n + 2) (swap_step f n ?r) = drop (n + 2) cs"
    using IH(2) by (simp add: swap_step_def) (metis drop_drop plus_1_eq_Suc)
  ultimately show ?case using step same_groups_trans [OF swap_step_groups [OF n] IH(1)] by simp
qed


lemma same_groups_length: "same_groups f xs ys \<Longrightarrow> length xs = length ys \<and> set xs = set ys"
  unfolding same_groups_def by (metis set_mset_mset size_mset)

text \<open>
  After \<open>m\<close> rounds the last \<open>m\<close> elements are final. A round leaves the elements behind its end alone
  and permutes those before it.
\<close>

lemma round_prefix:
  assumes "q < length cs" and "same_groups f rs cs" and "drop (q + 1) rs = drop (q + 1) cs" and "a \<le> q"
  obtains c where "c \<le> q" and "rs ! a = cs ! c"
proof -
  note len = same_groups_length [OF assms(2)]
  have "mset (take (q + 1) rs) + mset (drop (q + 1) rs) = mset (take (q + 1) cs) + mset (drop (q + 1) cs)"
    using assms(2) unfolding same_groups_def mset_append [symmetric] append_take_drop_id by blast
  then have "mset (take (q + 1) rs) = mset (take (q + 1) cs)" using assms(3) by simp
  then have "set (take (q + 1) rs) = set (take (q + 1) cs)" by (rule mset_eq_setD)
  moreover have "take (q + 1) rs ! a \<in> set (take (q + 1) rs)" using assms(1,4) len by (intro nth_mem) simp
  moreover have "take (q + 1) rs ! a = rs ! a" using assms(4) by simp
  ultimately have "rs ! a \<in> set (take (q + 1) cs)" by simp
  then obtain c where "c < length (take (q + 1) cs)" "take (q + 1) cs ! c = rs ! a" by (auto simp only: in_set_conv_nth)
  then show thesis by (intro that [of c]) simp_all
qed

lemma bubble_rounds:
  fixes f :: "'a \<Rightarrow> 'k::linorder"
  assumes "m \<le> length cs"
  defines "r \<equiv> \<lambda>m. fold (\<lambda>i. bubble_round f (length cs - i - 1)) [0..<m] cs"
  shows "same_groups f (r m) cs \<and> (\<forall>b. length cs - m \<le> b \<and> b < length cs \<longrightarrow> (\<forall>a \<le> b. f (r m ! a) \<le> f (r m ! b)))"
  using assms(1)
proof (induction m)
  case 0
  then show ?case by (auto simp: r_def same_groups_def)
next
  case (Suc m)
  let ?q = "length cs - m - 1"
  have step: "r (Suc m) = bubble_round f ?q (r m)" by (simp add: r_def)
  from Suc have IH: "same_groups f (r m) cs"
      "\<And>a b. length cs - m \<le> b \<Longrightarrow> b < length cs \<Longrightarrow> a \<le> b \<Longrightarrow> f (r m ! a) \<le> f (r m ! b)"
    by simp_all
  have len: "length (r m) = length cs" using same_groups_length [OF IH(1)] by simp
  have q: "?q < length (r m)" using Suc.prems len by simp
  from bubble_round [OF q, of f] step have round: "same_groups f (r (Suc m)) (r m)"
      "drop (?q + 1) (r (Suc m)) = drop (?q + 1) (r m)" "\<And>i. i \<le> ?q \<Longrightarrow> f (r (Suc m) ! i) \<le> f (r (Suc m) ! ?q)"
    by simp_all
  have len': "length (r (Suc m)) = length cs" using same_groups_length [OF round(1)] len by simp
  have behind: "r (Suc m) ! i = r m ! i" if "?q < i" "i < length cs" for i
  proof -
    have "drop (?q + 1) (r (Suc m)) ! (i - ?q - 1) = drop (?q + 1) (r m) ! (i - ?q - 1)" using round(2) by simp
    then show ?thesis using that len len' by simp
  qed
  have "f (r (Suc m) ! a) \<le> f (r (Suc m) ! b)" if i: "length cs - Suc m \<le> b" "b < length cs" "a \<le> b" for a b
  proof (cases "b = ?q")
    case True
    then show ?thesis using i(3) round(3) by simp
  next
    case False
    then have b: "?q < b" "r (Suc m) ! b = r m ! b" using i behind by simp_all
    obtain c where "c \<le> b" "r (Suc m) ! a = r m ! c"
    proof (cases "a \<le> ?q")
      case True
      obtain c where "c \<le> ?q" "r (Suc m) ! a = r m ! c" by (rule round_prefix [OF q round(1,2) True])
      with b(1) show thesis by (intro that [of c]) simp_all
    next
      case False
      then show thesis using behind [of a] i by (intro that [of a]) simp_all
    qed
    then show ?thesis using IH(2) [of b c] b i by simp
  qed
  then show ?case using same_groups_trans [OF round(1) IH(1)] by blast
qed

lemma bubble_sort: "fold (\<lambda>i. bubble_round f (length cs - i - 1)) [0..<length cs] cs = sort_key f cs"
proof (rule sym, rule properties_for_sort_key)
  let ?r = "fold (\<lambda>i. bubble_round f (length cs - i - 1)) [0..<length cs] cs"
  from bubble_rounds [of "length cs" cs f] have r: "same_groups f ?r cs"
      "\<And>a b. b < length cs \<Longrightarrow> a \<le> b \<Longrightarrow> f (?r ! a) \<le> f (?r ! b)"
    by simp_all
  from r(1) show "mset ?r = mset cs" by (simp add: same_groups_def)
  show "filter (\<lambda>y. f k = f y) ?r = filter (\<lambda>y. f k = f y) cs" for k
  proof -
    have "filter (\<lambda>y. f y = f k) ?r = filter (\<lambda>y. f y = f k) cs" using r(1) unfolding same_groups_def by blast
    moreover have "(\<lambda>y. f k = f y) = (\<lambda>y. f y = f k)" by auto
    ultimately show ?thesis by (simp only:)
  qed
  have "length ?r = length cs" using same_groups_length [OF r(1)] by simp
  then show "sorted (map f ?r)" using r(2) unfolding sorted_iff_nth_mono by simp
qed

text \<open>The exchange is faithful for ids below \<open>2 ^ 16\<close>.\<close>

abbreviation short_ids :: "adios_index_characteristic_struct_v1 list \<Rightarrow> bool" where
  "short_ids cs \<equiv> \<forall>c \<in> set cs. ch_var_id c < 65536"

lemma exchange_swaps: "ch_var_id c1 < 65536 \<Longrightarrow> exchange c1 c2 = (c2, c1)"
proof -
  assume "ch_var_id c1 < 65536"
  then have "unat (ch_var_id c1) < 2 ^ 16" by (simp add: word_less_nat_alt)
  then have "take_bit 16 (unat (ch_var_id c1)) = unat (ch_var_id c1)" by (rule take_bit_nat_eq_self)
  then have "take_bit 16 (ch_var_id c1) = ch_var_id c1" by (metis unsigned_take_bit_eq word_eq_iff_unsigned)
  then have "ucast (ucast (ch_var_id c1) :: u16) = ch_var_id c1" by (simp add: unsigned_ucast_eq)
  then show ?thesis by (simp add: exchange_def adios_transform_swap_transform_characteristics_def)
qed

lemma sort_round_bubble:
  assumes "n < length cs" and "short_ids cs"
  shows "sort_round n cs = bubble_round ch_time_index n cs"
  using assms(1)
proof (induction n)
  case 0
  then show ?case by (simp add: sort_round_def bubble_round_def)
next
  case (Suc n)
  let ?r = "bubble_round ch_time_index n cs"
  have "same_groups ch_time_index ?r cs" using bubble_round [of n cs ch_time_index] Suc.prems by simp
  then have "length ?r = length cs" "set ?r = set cs" by (simp_all add: same_groups_length)
  then have "ch_var_id (?r ! n) < 65536" using assms(2) Suc.prems by (metis Suc_lessD nth_mem)
  with Suc show ?case by (simp add: sort_round_def bubble_round_def swap_step_def exchange_swaps)
qed

lemma sort_characteristics_sort_key:
  assumes "short_ids cs"
  shows "sort_characteristics (length cs) cs = sort_key ch_time_index cs"
proof -
  have "fold (\<lambda>i. sort_round (length cs - i - 1)) [0..<m] cs
      = fold (\<lambda>i. bubble_round ch_time_index (length cs - i - 1)) [0..<m] cs" if "m \<le> length cs" for m
    using that
  proof (induction m)
    case (Suc m)
    let ?r = "fold (\<lambda>i. bubble_round ch_time_index (length cs - i - 1)) [0..<m] cs"
    have "same_groups ch_time_index ?r cs" using bubble_rounds [of m cs ch_time_index] Suc.prems by simp
    then have "length ?r = length cs" "short_ids ?r" using assms by (simp_all add: same_groups_length)
    with Suc show ?case by (simp add: sort_round_bubble)
  qed simp
  from this [of "length cs"] show ?thesis
    using bubble_sort [of ch_time_index cs] by (simp add: sort_characteristics_def)
qed


section \<open>Sorting an index\<close>

text \<open>
  C13. When the first process group has the smallest time index, \<open>adios_sort_index_v1\<close> returns the
  same head with all process groups in a stable sort by their time index, and the characteristics
  of every variable are in a stable sort by their time index, provided the ids of the variables
  fit the 16 bits of \<open>t_var_id\<close>.
\<close>
theorem sort_index_sorts:
  assumes "nodes next' p1 (a # as)" and "\<forall>b \<in> set as. time a \<le> time b"
    and "\<forall>v \<in> set vars. unat (v_characteristics_count v) = length (v_characteristics v) \<and> short_ids (v_characteristics v)"
  shows "\<exists>next''. adios_sort_index_v1 time (p1, next') vars
        = Some ((p1, next''), map (\<lambda>v. v\<lparr>v_characteristics := sort_key ch_time_index (v_characteristics v)\<rparr>) vars)
      \<and> nodes next'' p1 (sort_key time (a # as))"
proof -
  have p1: "p1 = a" "a \<noteq> 0" "nodes next' (next' a) as" using assms(1) by simp_all
  have dist: "distinct (a # as)" "0 \<notin> set as" using nodes_distinct [OF assms(1)] by simp_all
  let ?next = "next'(a := 0)"
  have first: "sort_process_groups time p1 0 next' = sort_process_groups time (next' a) a ?next"
    using p1 by (subst sort_process_groups.simps) simp
  have "nodes ?next a [a]" "nodes ?next (next' a) as" using p1 dist(1) by (simp_all add: nodes_upd)
  from sort_nodes [OF this, of time] obtain next'' where
    "sort_process_groups time p1 0 next' = Some (p1, next'')" "nodes next'' p1 (sort_key time (a # as))"
    using dist assms(2) first p1(1) by (auto simp: fold_place_sort_key simp del: sort_key_simps)
  moreover have "sort_characteristics (unat (v_characteristics_count v)) (v_characteristics v)
      = sort_key ch_time_index (v_characteristics v)" if "v \<in> set vars" for v
    using assms(3) that by (simp add: sort_characteristics_sort_key)
  ultimately show ?thesis by (auto simp: adios_sort_index_v1_def)
qed

lemma find_place_cycle:
  assumes "next' a = b" and "next' b = a" and "a \<noteq> 0" and "b \<noteq> 0" and "time a \<le> time c" and "time b \<le> time c"
  shows "find_place time next' c a prev = None"
proof -
  have "t = time \<longrightarrow> n = next' \<longrightarrow> c' = c \<longrightarrow> q \<noteq> a \<and> q \<noteq> b" if "find_place t n c' q prev = Some r" for t n c' q prev r
  proof (rule find_place.raw_induct [OF _ that])
    fix F t n c' q prev r
    assume IH: "\<And>t n c' q prev r. F t n c' q prev = Some r \<Longrightarrow> t = time \<longrightarrow> n = next' \<longrightarrow> c' = c \<longrightarrow> q \<noteq> a \<and> q \<noteq> b"
      and eq: "(if q \<noteq> 0 \<and> t c' \<ge> t q then F t n c' (n q) q else Some (q, prev)) = Some r"
    show "t = time \<longrightarrow> n = next' \<longrightarrow> c' = c \<longrightarrow> q \<noteq> a \<and> q \<noteq> b"
      using IH [of t n c' "n q" q r] eq assms by (auto split: if_splits)
  qed
  then show ?thesis by (metis option.exhaust)
qed


text \<open>
  C38. When the second process group is earlier than the first, the insertion links it behind the
  head although it belongs in front: the list of two groups becomes a cycle that never reaches the
  null pointer. With a third group that is not earlier than the first, the search of its place
  runs around this cycle and the sort never returns.
\<close>
theorem sort_early_group:
  assumes "nodes next' p (a # b # cs)" and "time b < time a"
  shows "(cs = [] \<longrightarrow> (\<exists>next''. sort_process_groups time p 0 next' = Some (a, next'') \<and> next'' a = b \<and> next'' b = a))
    \<and> (cs \<noteq> [] \<and> time a \<le> time (hd cs) \<longrightarrow> sort_process_groups time p 0 next' = None)"
proof -
  have p: "p = a" "a \<noteq> 0" "next' a = b" "b \<noteq> 0" "nodes next' (next' b) cs" using assms(1) by simp_all
  have dist: "a \<noteq> b" "a \<notin> set cs" "b \<notin> set cs" using nodes_distinct [OF assms(1)] by auto
  let ?next = "next'(a := b, b := a)"
  have "find_place time (next'(a := 0)) b a a = Some (a, a)"
    using assms(2) by (subst find_place.simps) (simp only: not_le [symmetric] simp_thms if_False)
  then have sort: "sort_process_groups time p 0 next' = sort_process_groups time (next' b) a ?next"
    using p dist(1) by (subst sort_process_groups.simps, simp, subst sort_process_groups.simps)
      (simp add: fun_upd_twist)
  have "cs = [] \<longrightarrow> (\<exists>next''. sort_process_groups time p 0 next' = Some (a, next'') \<and> next'' a = b \<and> next'' b = a)"
  proof
    assume "cs = []"
    with p(5) have "next' b = 0" by simp
    with sort have "sort_process_groups time p 0 next' = Some (a, ?next)"
      by (simp only: sort_process_groups.simps [of time 0] if_True refl)
    with dist(1) show "\<exists>next''. sort_process_groups time p 0 next' = Some (a, next'') \<and> next'' a = b \<and> next'' b = a"
      by simp
  qed
  moreover have "cs \<noteq> [] \<and> time a \<le> time (hd cs) \<longrightarrow> sort_process_groups time p 0 next' = None"
  proof
    assume c: "cs \<noteq> [] \<and> time a \<le> time (hd cs)"
    then have hd: "next' b = hd cs" "hd cs \<noteq> 0" using p(5) by (cases cs; simp)+
    have "find_place time ?next (hd cs) a a = None"
      by (rule find_place_cycle [where b = b]) (use p dist c assms(2) in auto)
    then show "sort_process_groups time p 0 next' = None"
      using hd p(2) unfolding sort by (subst sort_process_groups.simps) simp
  qed
  ultimately show ?thesis by blast
qed


theorem sort_early_group_witness:
  "sort_process_groups (\<lambda>p. if p = 2 then 1 else 2) 1 0 ((\<lambda>_. 0)(1 := 2, 2 := 3)) = None"
  using sort_early_group [of "(\<lambda>_. 0)(1 := 2, 2 := 3)" 1 1 2 "[3]" "\<lambda>p. if p = 2 then 1 else 2"] by simp

definition sort_example :: adios_index_var_struct_v1 where
  "sort_example = (let c = (\<lambda>t i. ch_example\<lparr>ch_time_index := t, ch_var_id := i\<rparr>)
     in var_example\<lparr>v_characteristics_count := 3, v_characteristics := [c 2 7, c 3 8, c 1 9]\<rparr>)"

theorem sort_index_sorts_witness:
  "\<exists>next'' v. adios_sort_index_v1 (\<lambda>p. if p = 3 then 1 else if p = 2 then 2 else 0) (1, (\<lambda>_. 0)(1 := 2, 2 := 3)) [sort_example]
      = Some ((1, next''), [v])
    \<and> nodes next'' 1 [1, 3, 2] \<and> map ch_var_id (v_characteristics v) = [9, 7, 8]"
  using sort_index_sorts [of "(\<lambda>_. 0)(1 := 2, 2 := 3)" 1 1 "[2, 3]" "\<lambda>p. if p = 3 then 1 else if p = 2 then 2 else 0" "[sort_example]"]
  by (auto simp: sort_example_def Let_def word_le_nat_alt)

end
