(* ===== verification/BP_Steps.thy ===== *)
theory BP_Steps
  imports BP_Vars Selection
begin

text \<open>
  The steps and dimensions of a variable as the reader sees them (\<open>core/bp_utils.c\<close>): steps are the
  runs of equal time indexes in the sorted characteristics, and the dimensions of a block are
  separated from the time dimension by conventions on zeros and ones.
\<close>

section \<open>Definitions\<close>

text \<open>The characteristics of a variable are an array of \<open>characteristics_count\<close> elements.\<close>

definition time_indexes :: "adios_index_var_struct_v1 \<Rightarrow> u32 list" where
  "time_indexes v = map ch_time_index (take (unat (v_characteristics_count v)) (v_characteristics v))"

text \<open>The result is an \<open>int\<close>; -1 stands for no such step.\<close>

fun get_time_loop :: "u32 list \<Rightarrow> u32 \<Rightarrow> int \<Rightarrow> int \<Rightarrow> u32" where
  "get_time_loop [] prev_ti counter step = -1"
| "get_time_loop (t # ts) prev_ti counter step =
     (if t \<noteq> prev_ti then
        (if counter + 1 = step + 1 then t else get_time_loop ts t (counter + 1) step)
      else get_time_loop ts prev_ti counter step)"

definition get_time :: "adios_index_var_struct_v1 \<Rightarrow> int \<Rightarrow> u32" where
  "get_time v step = get_time_loop (time_indexes v) 0 0 step"

fun start_index_loop :: "u32 list \<Rightarrow> u32 \<Rightarrow> int \<Rightarrow> int" where
  "start_index_loop [] t i = -1"
| "start_index_loop (x # xs) t i = (if x = t then i else start_index_loop xs t (i + 1))"

definition get_var_start_index :: "adios_index_var_struct_v1 \<Rightarrow> u32 \<Rightarrow> int" where
  "get_var_start_index v t = start_index_loop (time_indexes v) t 0"

fun stop_index_loop :: "u32 list \<Rightarrow> u32 \<Rightarrow> nat \<Rightarrow> int" where
  "stop_index_loop ts t 0 = -1"
| "stop_index_loop ts t (Suc i) = (if ts ! i = t then int i else stop_index_loop ts t i)"

definition get_var_stop_index :: "adios_index_var_struct_v1 \<Rightarrow> u32 \<Rightarrow> int" where
  "get_var_stop_index v t = stop_index_loop (time_indexes v) t (length (time_indexes v))"

fun nsteps_loop :: "u32 list \<Rightarrow> u32 \<Rightarrow> int \<Rightarrow> int" where
  "nsteps_loop [] prev_step nsteps = nsteps"
| "nsteps_loop (t # ts) prev_step nsteps =
     (if t \<noteq> prev_step then nsteps_loop ts t (nsteps + 1) else nsteps_loop ts prev_step nsteps)"

definition get_var_nsteps :: "adios_index_var_struct_v1 \<Rightarrow> int" where
  "get_var_nsteps v = nsteps_loop (time_indexes v) (-1) 0"

text \<open>The blocks of each step; an access in front of the array is \<open>None\<close>.\<close>

fun nblocks_loop :: "u32 list \<Rightarrow> int \<Rightarrow> u32 \<Rightarrow> int list \<Rightarrow> int list option" where
  "nblocks_loop [] j prev_step nblocks = Some nblocks"
| "nblocks_loop (t # ts) j prev_step nblocks =
     (let (j, prev_step) = (if t \<noteq> prev_step then (j + 1, t) else (j, prev_step))
      in if j > int (length nblocks) - 1 then Some nblocks
         else if j < 0 then None
         else nblocks_loop ts j prev_step (nblocks[nat j := nblocks ! nat j + 1]))"

definition get_var_nblocks :: "adios_index_var_struct_v1 \<Rightarrow> int \<Rightarrow> int list option" where
  "get_var_nblocks v nsteps = nblocks_loop (time_indexes v) (-1) (-1) (replicate (nat nsteps) 0)"

text \<open>\<open>swap_order\<close>, with the position of the time dimension in the array.\<close>

definition swap_order :: "nat \<Rightarrow> u64 list \<times> int \<Rightarrow> u64 list \<times> int" where
  "swap_order n = (\<lambda>(array, timedim).
     (fold (\<lambda>i a. a[i := a ! (n - 1 - i), n - 1 - i := a ! i]) [0..<n div 2] array,
      if timedim > -1 then int n - 1 - timedim else timedim))"

definition is_global_array_generic :: "adios_index_characteristic_dims_struct_v1 \<Rightarrow> bool" where
  "is_global_array_generic dims =
     fold (\<lambda>k is_global. is_global \<or> d_dims dims ! (k * 3 + 1) \<noteq> 0) [0..<unat (d_count dims)] False"

definition is_global_array :: "adios_index_characteristic_struct_v1 \<Rightarrow> bool" where
  "is_global_array ch = is_global_array_generic (ch_dims ch)"

text \<open>
  Local dimensions, global dimensions and offsets. The caller has arrays of 32 elements; with more
  dimensions the code writes behind them, which is \<open>None\<close>.
\<close>

definition bp_get_dimension_generic ::
  "adios_index_characteristic_dims_struct_v1 \<Rightarrow> (bool \<times> u64 list \<times> u64 list \<times> u64 list) option" where
  "bp_get_dimension_generic dims =
     (let ndim = unat (d_count dims) in
      if ndim > 32 then None
      else
        let ldims = map (\<lambda>k. d_dims dims ! (k * 3)) [0..<ndim];
            gdims = map (\<lambda>k. d_dims dims ! (k * 3 + 1)) [0..<ndim];
            offsets = map (\<lambda>k. d_dims dims ! (k * 3 + 2)) [0..<ndim]
        in Some (list_ex (\<lambda>g. g \<noteq> 0) gdims, ldims, gdims, offsets))"

definition bp_get_dimension_characteristics ::
  "adios_index_characteristic_struct_v1 \<Rightarrow> (bool \<times> u64 list \<times> u64 list \<times> u64 list) option" where
  "bp_get_dimension_characteristics ch = bp_get_dimension_generic (ch_dims ch)"

text \<open>
  The same with the time dimension taken out. Without dimensions the code looks in front of the
  arrays, which is \<open>None\<close>. The loops move the elements of an array one place to the front, the last
  one stays or becomes 0.
\<close>

definition to_front :: "u64 list \<Rightarrow> u64 \<Rightarrow> u64 list" where
  "to_front xs x = tl xs @ [x]"

definition bp_get_dimension_generic_notime ::
  "adios_index_characteristic_dims_struct_v1 \<Rightarrow> bool \<Rightarrow> (bool \<times> u64 list \<times> u64 list \<times> u64 list) option" where
  "bp_get_dimension_generic_notime dims file_is_fortran =
     (case bp_get_dimension_generic dims of
        None \<Rightarrow> None
      | Some (is_global, ldims, gdims, offsets) \<Rightarrow>
          let ndim = length ldims in
          if ndim = 0 then None
          else
            let has_time = (if \<not> file_is_fortran then gdims ! (ndim - 1) = 0 \<and> ldims ! 0 = 1
                  else gdims ! (ndim - 1) = 0 \<and> ldims ! (ndim - 1) = 1);
                swap = (\<lambda>xs. if file_is_fortran then fst (swap_order ndim (xs, 0)) else xs);
                (gdims, ldims, offsets) = (swap gdims, swap ldims, swap offsets)
            in if \<not> is_global then
                 (if \<not> has_time then Some (is_global, ldims, ldims, offsets)
                  else Some (is_global, to_front ldims (last ldims), to_front ldims (last gdims), offsets))
               else if has_time then
                 (if \<not> file_is_fortran then Some (is_global, to_front ldims 0, gdims, offsets)
                  else Some (is_global, to_front ldims 0, to_front gdims 0, to_front offsets 0))
               else Some (is_global, ldims, gdims, offsets))"

definition bp_get_dimension_characteristics_notime ::
  "adios_index_characteristic_struct_v1 \<Rightarrow> bool \<Rightarrow> (bool \<times> u64 list \<times> u64 list \<times> u64 list) option" where
  "bp_get_dimension_characteristics_notime ch file_is_fortran =
     bp_get_dimension_generic_notime (ch_dims ch) file_is_fortran"

text \<open>
  The dimensions of a variable. The bound of the loop over the dimensions of a local array
  decreases while it runs.
\<close>

function local_dims_loop :: "u64 list \<Rightarrow> bool \<Rightarrow> nat \<Rightarrow> nat \<Rightarrow> u64 list \<Rightarrow> nat \<times> u64 list" where
  "local_dims_loop ldims many i ndim dims =
     (if i < ndim then
        (if ldims ! i = 1 \<and> many then local_dims_loop ldims many (i + 1) (ndim - 1) dims
         else local_dims_loop ldims many (i + 1) ndim (dims @ [ldims ! i]))
      else (ndim, dims))"
  by pat_completeness auto
termination by (relation "measure (\<lambda>(_, _, i, ndim, _). ndim - i)") auto

declare local_dims_loop.simps [simp del]

text \<open>What the reader keeps of an open file (\<open>core/bp_types.h\<close>), with the file's bytes.\<close>

record BP_FILE =
  fh_file :: "u8 list"
  fh_subfiles :: "u32 \<Rightarrow> u8 list option" \<comment> \<open>those that can be opened\<close>
  fh_fortran :: ADIOS_FLAG \<comment> \<open>of the first process group\<close>
  fh_vars_table :: "adios_index_var_struct_v1 list"
  fh_version :: u32
  fh_change_endianness :: ADIOS_FLAG
  fh_tidx_start :: u32
  fh_tidx_stop :: u32

definition is_fortran_file :: "BP_FILE \<Rightarrow> bool" where
  "is_fortran_file fh \<longleftrightarrow> fh_fortran fh = adios_flag_yes"

definition has_subfiles :: "BP_FILE \<Rightarrow> bool" where
  "has_subfiles fh \<longleftrightarrow> and (fh_version fh) 0x100 \<noteq> 0"

definition bp_find_var_byid :: "BP_FILE \<Rightarrow> nat \<Rightarrow> adios_index_var_struct_v1 option" where
  "bp_find_var_byid fh varid =
     (if varid < length (fh_vars_table fh) then Some (fh_vars_table fh ! varid) else None)"

text \<open>The number of dimensions, the dimensions and the number of steps.\<close>

definition bp_get_dimensions_generic ::
  "BP_FILE \<Rightarrow> bool \<Rightarrow> int \<Rightarrow> adios_index_var_struct_v1 \<Rightarrow> bool \<Rightarrow> (nat \<times> u64 list \<times> int) option" where
  "bp_get_dimensions_generic fh streaming current_step v use_pretransform_dimensions =
     (let chs = take (unat (v_characteristics_count v)) (v_characteristics v);
          dims_of = (\<lambda>ch. if use_pretransform_dimensions then tr_pre_transform_dimensions (ch_transform ch)
                          else ch_dims ch);
          nsteps = (if and (fh_version fh) 0x200 \<noteq> 0 then get_var_nsteps v
                    else sint (fh_tidx_stop fh - fh_tidx_start fh + 1))
      in case (if \<not> streaming then (if chs = [] then None else Some (hd chs))
               else find (\<lambda>ch. ch_time_index ch = word_of_int (current_step + 1)) chs) of
           None \<Rightarrow> None
         | Some ch \<Rightarrow>
             if d_count (dims_of ch) = 0 then Some (0, [], nsteps)
             else case bp_get_dimension_generic (dims_of ch) of
                 None \<Rightarrow> None
               | Some (is_global, ldims, gdims, offsets) \<Rightarrow>
                   let n = length ldims in
                   if \<not> is_global then
                     (let (ndim, dims) = local_dims_loop ldims (v_characteristics_count v > 1) 0 n []
                      in Some (ndim, dims @ replicate (n - length dims) 0, nsteps))
                   else
                     let ndim = (if gdims ! (n - 1) = 0 then n - 1 else n)
                     in Some (ndim, take ndim gdims @ replicate (n - ndim) 0, nsteps))"

definition bp_get_and_swap_dimensions_generic ::
  "BP_FILE \<Rightarrow> bool \<Rightarrow> int \<Rightarrow> adios_index_var_struct_v1 \<Rightarrow> bool \<Rightarrow> bool \<Rightarrow> (nat \<times> u64 list \<times> int) option" where
  "bp_get_and_swap_dimensions_generic fh streaming current_step v swap_flag use_pretransform_dimensions =
     (case bp_get_dimensions_generic fh streaming current_step v use_pretransform_dimensions of
        None \<Rightarrow> None
      | Some (ndim, dims, nsteps) \<Rightarrow>
          Some (ndim, if swap_flag then fst (swap_order ndim (dims, 0)) else dims, nsteps))"

definition bp_get_and_swap_dimensions ::
  "BP_FILE \<Rightarrow> bool \<Rightarrow> int \<Rightarrow> adios_index_var_struct_v1 \<Rightarrow> bool \<Rightarrow> (nat \<times> u64 list \<times> int) option" where
  "bp_get_and_swap_dimensions fh streaming current_step v swap_flag =
     bp_get_and_swap_dimensions_generic fh streaming current_step v swap_flag False"


section \<open>Steps\<close>

text \<open>The runs of equal numbers in a list, without a first one that equals \<open>prev\<close>.\<close>

fun runs :: "'a \<Rightarrow> 'a list \<Rightarrow> 'a list" where
  "runs prev [] = []"
| "runs prev (t # ts) = (if t \<noteq> prev then t # runs t ts else runs prev ts)"

lemma runs_sorted:
  fixes ts :: "'a::linorder list"
  assumes "sorted ts" and "\<forall>t \<in> set ts. prev \<le> t"
  shows "sorted (runs prev ts) \<and> distinct (runs prev ts) \<and> set (runs prev ts) = set ts - {prev}"
  using assms
proof (induction ts arbitrary: prev)
  case (Cons t ts)
  show ?case
  proof (cases "t = prev")
    case True
    with Cons.prems Cons.IH [of prev] show ?thesis by auto
  next
    case False
    then have "prev < t" using Cons.prems(2) by (simp add: less_le)
    with Cons.prems Cons.IH [of t] False show ?thesis by (force simp: less_le_not_le)
  qed
qed simp

lemma get_time_loop_runs:
  "counter \<le> step \<Longrightarrow> get_time_loop ts prev counter step
    = (if nat (step - counter) < length (runs prev ts) then runs prev ts ! nat (step - counter) else -1)"
proof (induction ts arbitrary: prev counter)
  case (Cons t ts)
  show ?case
  proof (cases "t = prev \<or> counter = step")
    case False
    then have "nat (step - counter) = Suc (nat (step - (counter + 1)))" using Cons.prems by arith
    with Cons False show ?thesis by simp
  qed (use Cons in auto)
qed simp

lemma nsteps_loop_runs: "nsteps_loop ts prev n = n + int (length (runs prev ts))"
  by (induction ts arbitrary: prev n) simp_all

lemma nblocks_loop_counts:
  assumes "sorted ts" and "\<forall>t \<in> set ts. prev \<le> t"
  shows "nblocks_loop ts (int (length pre)) prev (pre @ b # replicate (length (runs prev ts)) 0)
    = Some (pre @ (b + int (count_list ts prev)) # map (\<lambda>t. int (count_list ts t)) (runs prev ts))"
  using assms
proof (induction ts arbitrary: prev pre b)
  case (Cons t ts)
  show ?case
  proof (cases "t = prev")
    case True
    have "prev \<notin> set (runs prev ts)" using runs_sorted [of ts prev] Cons.prems by auto
    then have "map (\<lambda>t. int (count_list (prev # ts) t)) (runs prev ts) = map (\<lambda>t. int (count_list ts t)) (runs prev ts)"
      by auto
    with True Cons.IH [of prev pre "b + 1"] Cons.prems show ?thesis by (simp add: nth_append list_update_append)
  next
    case False
    then have less: "prev < t" using Cons.prems(2) by (simp add: less_le)
    then have "prev \<notin> set ts" using Cons.prems(1) by auto
    moreover have "t \<notin> set (runs t ts)" using runs_sorted [of ts t] Cons.prems(1) by auto
    then have "map (\<lambda>x. int (count_list (t # ts) x)) (runs t ts) = map (\<lambda>x. int (count_list ts x)) (runs t ts)" by auto
    moreover have "nblocks_loop (t # ts) (int (length pre)) prev (pre @ b # replicate (length (runs prev (t # ts))) 0)
        = nblocks_loop ts (int (length (pre @ [b]))) t ((pre @ [b]) @ 1 # replicate (length (runs t ts)) 0)"
      (is "?lhs = ?rhs")
    proof -
      have i: "nat (1 + int (length pre)) = Suc (length pre)" by simp
      show ?thesis using False by (simp add: i nth_append list_update_append add.commute)
    qed
    moreover have "?rhs = Some ((pre @ [b]) @ (1 + int (count_list ts t)) # map (\<lambda>t. int (count_list ts t)) (runs t ts))"
      by (rule Cons.IH) (use Cons.prems(1) in auto)
    ultimately show ?thesis using False by simp
  qed
qed simp

lemma get_var_nblocks_counts:
  assumes "sorted (time_indexes v)" and "\<forall>t \<in> set (time_indexes v). t \<noteq> -1"
  shows "get_var_nblocks v (get_var_nsteps v)
    = Some (map (\<lambda>t. int (count_list (time_indexes v) t)) (runs (-1) (time_indexes v)))"
proof (cases "time_indexes v")
  case Nil
  then show ?thesis by (simp add: get_var_nblocks_def get_var_nsteps_def)
next
  case (Cons t ts)
  have t: "t \<noteq> -1" "sorted ts" "\<forall>x \<in> set ts. t \<le> x" using assms Cons by auto
  have "t \<notin> set (runs t ts)" using runs_sorted [OF t(2,3)] by simp
  then have "map (\<lambda>x. int (count_list (t # ts) x)) (runs t ts) = map (\<lambda>x. int (count_list ts x)) (runs t ts)" by auto
  with Cons t nblocks_loop_counts [OF t(2,3), of "[]" 1] show ?thesis
    by (simp add: get_var_nblocks_def get_var_nsteps_def nsteps_loop_runs nat_add_distrib)
qed

lemma start_index_loop: "t \<in> set ts \<Longrightarrow>
  \<exists>k < length ts. start_index_loop ts t i = i + int k \<and> ts ! k = t \<and> (\<forall>j < k. ts ! j \<noteq> t)"
proof (induction ts arbitrary: i)
  case (Cons x ts)
  show ?case
  proof (cases "x = t")
    case False
    with Cons obtain k where "k < length ts" "start_index_loop ts t (i + 1) = i + 1 + int k" "ts ! k = t"
        "\<forall>j < k. ts ! j \<noteq> t" by (metis set_ConsD)
    with False show ?thesis by (intro exI [of _ "Suc k"]) (auto simp: nth_Cons split: nat.split)
  qed auto
qed simp

lemma start_index_loop_none: "t \<notin> set ts \<Longrightarrow> start_index_loop ts t i = -1"
  by (induction ts arbitrary: i) auto

lemma stop_index_loop:
  "j < n \<Longrightarrow> ts ! j = t \<Longrightarrow> \<exists>k < n. stop_index_loop ts t n = int k \<and> ts ! k = t \<and> (\<forall>i. k < i \<and> i < n \<longrightarrow> ts ! i \<noteq> t)"
proof (induction n)
  case (Suc n)
  show ?case
  proof (cases "ts ! n = t")
    case False
    with Suc have "j < n" by (metis less_SucE)
    with Suc False show ?thesis by (fastforce simp: less_Suc_eq)
  qed auto
qed simp

lemma sorted_blocks:
  fixes ts :: "'a::linorder list"
  assumes "sorted ts" and "p < length ts" and "q < length ts" and "ts ! p = t" and "ts ! q = t"
    and "\<forall>j < p. ts ! j \<noteq> t" and "\<forall>i. q < i \<and> i < length ts \<longrightarrow> ts ! i \<noteq> t"
  shows "{i. i < length ts \<and> ts ! i = t} = {p..q}"
proof
  show "{i. i < length ts \<and> ts ! i = t} \<subseteq> {p..q}" using assms(6,7) by (auto simp flip: not_less)
  show "{p..q} \<subseteq> {i. i < length ts \<and> ts ! i = t}"
  proof
    fix i assume i: "i \<in> {p..q}"
    then have "ts ! p \<le> ts ! i" "ts ! i \<le> ts ! q" using assms(1,3) by (auto intro: sorted_nth_mono)
    with i assms(3-5) show "i \<in> {i. i < length ts \<and> ts ! i = t}" by auto
  qed
qed

lemma step_indexes:
  assumes "sorted (time_indexes v)" and "t \<in> set (time_indexes v)"
  obtains p q where "get_var_start_index v t = int p" and "get_var_stop_index v t = int q"
    and "p \<le> q" and "q < length (time_indexes v)"
    and "{i. i < length (time_indexes v) \<and> time_indexes v ! i = t} = {p..q}"
proof -
  let ?ts = "time_indexes v"
  obtain p where p: "p < length ?ts" "get_var_start_index v t = int p" "?ts ! p = t" "\<forall>j < p. ?ts ! j \<noteq> t"
    using start_index_loop [OF assms(2), of 0] by (auto simp: get_var_start_index_def)
  obtain q where q: "q < length ?ts" "get_var_stop_index v t = int q" "?ts ! q = t"
      "\<forall>i. q < i \<and> i < length ?ts \<longrightarrow> ?ts ! i \<noteq> t"
    using stop_index_loop [OF p(1,3)] by (auto simp: get_var_stop_index_def)
  note blocks = sorted_blocks [OF assms(1) p(1) q(1) p(3) q(3) p(4) q(4)]
  have "p \<in> {p..q}" unfolding blocks [symmetric] using p by simp
  then show thesis using p(2) q(1,2) blocks by (intro that) simp_all
qed

section \<open>Dimensions\<close>

lemma swap_order_rev: "length xs = n \<Longrightarrow> fst (swap_order n (xs, t)) = rev xs"
proof -
  assume n: "length xs = n"
  define F where "F k = fold (\<lambda>i a. a[i := a ! (n - 1 - i), n - 1 - i := a ! i]) [0..<k] xs" for k
  have F: "length (F k) = n \<and> (\<forall>j < n. F k ! j = (if j < k \<or> n - k \<le> j then xs ! (n - 1 - j) else xs ! j))"
    if "k \<le> n div 2" for k
    using that
  proof (induction k)
    case (Suc k)
    then have k: "k < n - 1 - k" "n - 1 - k < n" and IH: "length (F k) = n"
        "\<And>j. j < n \<Longrightarrow> F k ! j = (if j < k \<or> n - k \<le> j then xs ! (n - 1 - j) else xs ! j)" by auto
    have step: "F (Suc k) = (F k)[k := xs ! (n - 1 - k), n - 1 - k := xs ! k]"
    proof -
      have "F k ! k = xs ! k" "F k ! (n - 1 - k) = xs ! (n - 1 - k)"
        using k IH(2) [of k] IH(2) [of "n - 1 - k"] by auto
      moreover have "F (Suc k) = (F k)[k := F k ! (n - 1 - k), n - 1 - k := F k ! k]" by (simp add: F_def)
      ultimately show ?thesis by (simp only:)
    qed
    have "F (Suc k) ! j = (if j < Suc k \<or> n - Suc k \<le> j then xs ! (n - 1 - j) else xs ! j)" if "j < n" for j
    proof -
      consider "j = k" | "j = n - 1 - k" | "j \<noteq> k" "j \<noteq> n - 1 - k" by blast
      then show ?thesis
      proof cases
        case 3
        then have "j < Suc k \<or> n - Suc k \<le> j \<longleftrightarrow> j < k \<or> n - k \<le> j" using k by linarith
        moreover have "F (Suc k) ! j = F k ! j" unfolding step using 3 by simp
        ultimately show ?thesis using IH(2) [OF that] by simp
      next
        case 1
        then show ?thesis unfolding step using k IH(1) by simp
      next
        case 2
        then show ?thesis unfolding step using k IH(1) by simp
      qed
    qed
    then show ?case using IH(1) by (simp add: step)
  qed (simp add: n F_def)
  have "F (n div 2) ! j = xs ! (n - 1 - j)" if j: "j < n" for j
  proof -
    have "F (n div 2) ! j = (if j < n div 2 \<or> n - n div 2 \<le> j then xs ! (n - 1 - j) else xs ! j)"
      using F [OF order_refl] j by blast
    moreover have "n - 1 - j = j" if "\<not> (j < n div 2 \<or> n - n div 2 \<le> j)" using j that by linarith
    ultimately show ?thesis by metis
  qed
  moreover have "length (F (n div 2)) = n" using F [OF order_refl] by blast
  ultimately have "F (n div 2) = rev xs" by (intro nth_equalityI) (simp_all add: n rev_nth)
  then show ?thesis by (simp only: swap_order_def F_def prod.case fst_conv)
qed

lemma dims_notime_global:
  assumes "bp_get_dimension_generic dims = Some (True, ldims, gdims, offsets)" and "ldims \<noteq> []" and "last gdims \<noteq> 0"
  shows "bp_get_dimension_generic_notime dims fortran = (if fortran then Some (True, rev ldims, rev gdims, rev offsets)
    else Some (True, ldims, gdims, offsets))"
proof -
  have len: "length gdims = length ldims" "length offsets = length ldims"
    using assms(1) by (auto simp: bp_get_dimension_generic_def Let_def split: if_splits)
  then have "gdims ! (length ldims - 1) \<noteq> 0" using assms(2,3) by (metis last_conv_nth length_0_conv)
  then show ?thesis
    using assms(1,2) len by (simp add: bp_get_dimension_generic_notime_def Let_def swap_order_rev)
qed

text \<open>The steps are the runs of equal time indexes.\<close>

lemma steps_runs:
  assumes "sorted (time_indexes v)" and "0 \<notin> set (time_indexes v)" and "-1 \<notin> set (time_indexes v)"
  obtains rs where "sorted_wrt (<) rs" and "set rs = set (time_indexes v)" and "get_var_nsteps v = int (length rs)"
    and "get_var_nblocks v (get_var_nsteps v) = Some (map (\<lambda>t. int (count_list (time_indexes v) t)) rs)"
    and "\<And>step. 0 \<le> step \<Longrightarrow> get_time v step = (if nat step < length rs then rs ! nat step else -1)"
proof
  let ?ts = "time_indexes v" and ?r = "runs 0 (time_indexes v)"
  have runs: "sorted ?r" "distinct ?r" "set ?r = set ?ts" using runs_sorted [OF assms(1), of 0] assms(2) by auto
  have same: "runs (-1) ?ts = ?r" using assms(2,3) by (cases ?ts) auto
  show "set ?r = set ?ts" by (rule runs(3))
  show "sorted_wrt (<) ?r" using runs(1,2) by (simp add: strict_sorted_iff)
  show "get_var_nsteps v = int (length ?r)" by (simp add: get_var_nsteps_def nsteps_loop_runs same)
  show "get_var_nblocks v (get_var_nsteps v) = Some (map (\<lambda>t. int (count_list ?ts t)) ?r)"
    using get_var_nblocks_counts [OF assms(1)] assms(3) same by metis
  show "get_time v step = (if nat step < length ?r then ?r ! nat step else -1)" if "0 \<le> step" for step
    using get_time_loop_runs [OF that, of ?ts 0] by (simp add: get_time_def)
qed

section \<open>Properties\<close>

text \<open>
  C14. For a variable with sorted time indexes, none of them 0 or -1, the functions on steps agree:
  \<open>get_var_nsteps\<close> counts the different time indexes; \<open>get_time\<close> gives the time index of every step,
  in increasing order, and -1 behind the last step; from \<open>get_var_start_index\<close> to
  \<open>get_var_stop_index\<close> are exactly the blocks with this time index; and \<open>get_var_nblocks\<close> counts them.
\<close>

theorem steps_partition_blocks:
  assumes "sorted (time_indexes v)" and "0 \<notin> set (time_indexes v)" and "-1 \<notin> set (time_indexes v)"
  shows "let n = get_var_nsteps v; times = map (get_time v) [0..n - 1] in
    n = int (card (set (time_indexes v))) \<and> sorted_wrt (<) times \<and> set times = set (time_indexes v)
    \<and> (\<forall>step \<ge> n. get_time v step = -1)
    \<and> (\<forall>t \<in> set times. 0 \<le> get_var_start_index v t
        \<and> {i. i < length (time_indexes v) \<and> time_indexes v ! i = t}
          = {nat (get_var_start_index v t)..nat (get_var_stop_index v t)})
    \<and> get_var_nblocks v n = Some (map (\<lambda>t. int (count_list (time_indexes v) t)) times)"
proof -
  let ?ts = "time_indexes v" and ?n = "get_var_nsteps v"
  from steps_runs [OF assms] obtain rs where rs: "sorted_wrt (<) rs" "set rs = set ?ts" "?n = int (length rs)"
      "get_var_nblocks v ?n = Some (map (\<lambda>t. int (count_list ?ts t)) rs)"
    and time: "\<And>step. 0 \<le> step \<Longrightarrow> get_time v step = (if nat step < length rs then rs ! nat step else -1)" by blast
  have times: "map (get_time v) [0..?n - 1] = rs"
    by (rule nth_equalityI) (auto simp: rs(3) time nth_upto)
  have "?n = int (card (set ?ts))"
    unfolding rs(2) [symmetric] using rs(1,3) by (simp add: distinct_card strict_sorted_iff)
  moreover have "get_time v step = -1" if "?n \<le> step" for step
  proof -
    have "0 \<le> step" "\<not> nat step < length rs" using that unfolding rs(3) by linarith+
    then show ?thesis using time [of step] by simp
  qed
  moreover have "0 \<le> get_var_start_index v t \<and> {i. i < length ?ts \<and> ?ts ! i = t}
      = {nat (get_var_start_index v t)..nat (get_var_stop_index v t)}" if t: "t \<in> set rs" for t
  proof -
    have "t \<in> set ?ts" using t rs(2) by simp
    from step_indexes [OF assms(1) this] show ?thesis by (metis nat_int of_nat_0_le_iff)
  qed
  ultimately show ?thesis unfolding Let_def times using rs by blast
qed


definition steps_example :: adios_index_var_struct_v1 where
  "steps_example = var_example\<lparr>v_characteristics_count := 3, v_characteristics :=
      [ch_example\<lparr>ch_time_index := 3\<rparr>, ch_example\<lparr>ch_time_index := 3\<rparr>, ch_example\<lparr>ch_time_index := 7\<rparr>]\<rparr>"

theorem steps_partition_blocks_witness:
  "get_time steps_example 2 = -1 \<and> get_var_nblocks steps_example 2 = Some [2, 1]
    \<and> {i. i < length (time_indexes steps_example) \<and> time_indexes steps_example ! i = 3}
      = {nat (get_var_start_index steps_example 3)..nat (get_var_stop_index steps_example 3)}"
proof -
  have t: "time_indexes steps_example = [3, 3, 7]" by (simp add: time_indexes_def steps_example_def)
  have n: "get_var_nsteps steps_example = 2" by (simp add: get_var_nsteps_def t)
  have "[0..2 - 1] = [0, 1 :: int]" by (simp add: upto.simps)
  then have times: "map (get_time steps_example) [0..2 - 1] = [3, 7]" by (simp add: get_time_def t)
  have "sorted (time_indexes steps_example)" "0 \<notin> set (time_indexes steps_example)" "-1 \<notin> set (time_indexes steps_example)"
    unfolding t by (simp_all add: word_le_nat_alt)
  from steps_partition_blocks [OF this] show ?thesis
    unfolding Let_def n times by (simp add: t)
qed

text \<open>
  C40. The loop of \<open>bp_get_dimensions_generic\<close> over the dimensions of a local array stops early: for
  an array of several blocks with the dimensions 1 (the time), \<open>a\<close> and \<open>b\<close> it finds two dimensions,
  but the second one is 0 instead of \<open>b\<close>.
\<close>

theorem local_dims_lost:
  assumes "v_characteristics_count v > 1" and "v_characteristics v = ch # chs"
    and "ch_dims ch = \<lparr>d_count = 3, d_dims = [1, 0, 0, a, 0, 0, b, 0, 0]\<rparr>" and "a \<noteq> 1"
  shows "\<exists>nsteps. bp_get_and_swap_dimensions fh False current_step v False = Some (2, [a, 0, 0], nsteps)"
proof -
  have "take (unat (v_characteristics_count v)) (v_characteristics v) \<noteq> []"
      "hd (take (unat (v_characteristics_count v)) (v_characteristics v)) = ch"
    using assms(1,2) by (auto simp: word_less_nat_alt)
  moreover have "bp_get_dimension_generic (ch_dims ch) = Some (False, [1, a, b], [0, 0, 0], [0, 0, 0])"
    unfolding assms(3) by (simp add: bp_get_dimension_generic_def upt_rec Let_def)
  moreover have "local_dims_loop [1, a, b] True 0 (length [1, a, b]) [] = (2, [a])"
    using assms(4) by (simp add: local_dims_loop.simps)
  ultimately show ?thesis using assms(1,3)
    by (simp add: bp_get_and_swap_dimensions_def bp_get_and_swap_dimensions_generic_def
        bp_get_dimensions_generic_def Let_def)
qed


definition fh_example :: BP_FILE where
  "fh_example = \<lparr>fh_file = [], fh_subfiles = \<lambda>_. None, fh_fortran = adios_flag_no, fh_vars_table = [],
     fh_version = 0x203, fh_change_endianness = adios_flag_no, fh_tidx_start = 1, fh_tidx_stop = 1\<rparr>"

theorem local_dims_lost_witness:
  "\<exists>nsteps. bp_get_and_swap_dimensions fh_example False 0
      (var_example\<lparr>v_characteristics_count := 2, v_characteristics :=
        [ch_example\<lparr>ch_dims := \<lparr>d_count = 3, d_dims = [1, 0, 0, 5, 0, 0, 7, 0, 0]\<rparr>\<rparr>, ch_example]\<rparr>) False
    = Some (2, [5, 0, 0], nsteps)"
  by (rule local_dims_lost [where b = 7 and chs = "[ch_example]" and
        ch = "ch_example\<lparr>ch_dims := \<lparr>d_count = 3, d_dims = [1, 0, 0, 5, 0, 0, 7, 0, 0]\<rparr>\<rparr>"])
    (simp_all add: word_less_nat_alt)

end
