(* ===== verification/BP_ReadVar.thy ===== *)
theory BP_ReadVar
  imports BP_Steps BP_Data BP_Merge Subvolume
begin

text \<open>
  Reading a box of a variable out of the blocks that hold it (\<open>read_var_bb\<close> of \<open>read/read_bp.c\<close> and
  \<open>copy_data\<close> of \<open>core/util.c\<close>). Memory is byte-addressed; the file and its subfiles are lists of
  bytes. \<open>None\<close> stands for undefined behaviour, a failed assertion or a loop that does not end.
\<close>

section \<open>Copying between arrays\<close>

text \<open>
  \<open>copy_data\<close>: the lists are those of the C function from the index \<open>idim\<close> on, up to \<open>ndim\<close>. The loop
  counter is an \<open>unsigned int\<close>, so that it never reaches a bound of \<open>2 ^ 32\<close> or more.
\<close>

fun copy_data ::
  "endian \<Rightarrow> u64 \<Rightarrow> u64 \<Rightarrow> u64 list \<Rightarrow> u64 list \<Rightarrow> u64 list \<Rightarrow> u64 \<Rightarrow> u64 \<Rightarrow> u64 \<Rightarrow> u64 \<Rightarrow> u64 \<Rightarrow> u32
    \<Rightarrow> ADIOS_FLAG \<Rightarrow> ADIOS_DATATYPES \<Rightarrow> mem \<Rightarrow> mem option" where
  "copy_data e dst src [n] _ _ dst_stride src_stride dst_offset src_offset ele_num size_of_type
       change_endiness type m =
     (if unat n \<ge> 2 ^ 32 then None
      else let ts = u64_of_int size_of_type in
        Some (fold (\<lambda>i. copy_block e type (change_endiness = adios_flag_yes) (ele_num * ts)
            (dst + (of_nat i * dst_stride + dst_offset) * ts)
            (src + (of_nat i * src_stride + src_offset) * ts)) [0..<unat n] m))"
| "copy_data e dst src (n # n' # ns) (_ # ldims) (_ # readsize) dst_stride src_stride dst_offset src_offset
       ele_num size_of_type change_endiness type m =
     (if unat n \<ge> 2 ^ 32 then None
      else
        let src_step = fold (\<lambda>d s. s * d) (take (length (n' # ns)) ldims) 1;
            dst_step = fold (\<lambda>d s. s * d) (take (length (n' # ns)) readsize) 1
        in fold_opt (\<lambda>i. copy_data e dst src (n' # ns) ldims readsize dst_stride src_stride
             (dst_offset + of_nat i * dst_stride * dst_step) (src_offset + of_nat i * src_stride * src_step)
             ele_num size_of_type change_endiness type) [0..<unat n] m)"
| "copy_data _ _ _ _ _ _ _ _ _ _ _ _ _ _ _ = None"

section \<open>Requests and files\<close>

record read_request =
  rr_sel :: ADIOS_SELECTION
  rr_varid :: nat
  rr_from_steps :: int
  rr_nsteps :: int
  rr_data :: u64 \<comment> \<open>0 is the null pointer\<close>
  rr_datasize :: u64

record ADIOS_VARCHUNK =
  vc_varid :: nat
  vc_type :: ADIOS_DATATYPES
  vc_from_steps :: int
  vc_nsteps :: int
  vc_sel :: ADIOS_SELECTION
  vc_data :: u64

record ADIOS_FILE =
  fp_fh :: BP_FILE
  fp_streaming :: bool
  fp_current_step :: int
  fp_varid_mapping :: "nat list"

text \<open>
  What the reader runs on: the byte order and the compression methods of the machine, what a
  characteristic holds before it is filled, where \<open>bp_realloc_aligned\<close> places a buffer of a given
  size, what the members of a new structure hold, and whether the caller is a Fortran program.
\<close>

record bp_reader =
  rd_endian :: endian
  rd_infos :: plugin_infos
  rd_old :: adios_index_characteristic_struct_v1
  rd_buff :: "u64 \<Rightarrow> u64"
  rd_uninit :: "cstring option"
  rd_called_from_fortran :: bool

text \<open>
  \<open>MPI_File_read\<close> of \<open>core/mpidummy.c\<close>, for bytes: \<open>count\<close> is an \<open>int\<close>, and one \<open>read\<close> is done, which
  transfers at most \<open>read_max\<close> bytes (the limit of Linux for one call) and less at the end of the
  file. A negative count becomes a size that \<open>read\<close> does not define (\<open>None\<close>). The callers convert
  their 64-bit sizes to the \<open>int\<close> and ignore the result.
\<close>

definition read_max :: nat where
  "read_max = 0x7ffff000"

definition MPI_File_read :: "u8 list \<Rightarrow> u64 \<Rightarrow> u32 \<Rightarrow> u8 list option" where
  "MPI_File_read file pos count =
     (if sint count < 0 then None else Some (take (min (unat count) read_max) (drop (unat pos) file)))"

lemma unat_ucast_small:
  "unat n < 2 ^ LENGTH('b) \<Longrightarrow> unat (ucast (n :: 'a::len word) :: 'b::len word) = unat n"
  by (simp add: unsigned_ucast_eq take_bit_nat_eq_self)

lemma MPI_File_read_all:
  assumes "unat n \<le> read_max"
  shows "MPI_File_read file pos (int_of_u64 n) = Some (take (unat n) (drop (unat pos) file))"
proof -
  have n: "unat (int_of_u64 n) = unat n" using assms by (simp add: int_of_u64_def read_max_def unat_ucast_small)
  have "\<not> bit (int_of_u64 n) 31" using not_bit_unat_less [of "int_of_u64 n" 31] n assms by (simp add: read_max_def)
  then have "\<not> sint (int_of_u64 n) < 0" using bit_last_iff [of "int_of_u64 n"] by simp
  with n assms show ?thesis by (simp add: MPI_File_read_def min_absorb1)
qed

text \<open>A size of 2 GB is negative as an \<open>int\<close>; one of 4 GB and 5 bytes reads 5 bytes.\<close>

lemma MPI_File_read_truncates:
  "MPI_File_read file pos (int_of_u64 0x80000000) = None"
  "MPI_File_read file pos (int_of_u64 0x100000005) = Some (take 5 (drop (unat pos) file))"
  by (simp_all add: MPI_File_read_def int_of_u64_def read_max_def)

text \<open>
  \<open>MPI_FILE_READ_OPS1\<close> and \<open>MPI_FILE_READ_OPS2\<close>: a slice of the file, or of a subfile, is read into the
  buffer; \<open>Some None\<close> is the null result for a subfile that cannot be opened. A read that
  transfers less leaves the rest of the buffer as it was.
\<close>

definition read_slice ::
  "bp_reader \<Rightarrow> BP_FILE \<Rightarrow> adios_index_characteristic_struct_v1 \<Rightarrow> u64 \<Rightarrow> u64 \<Rightarrow> mem \<Rightarrow> (u64 \<times> mem) option option" where
  "read_slice rd fh ch slice_offset slice_size m =
     (case (if \<not> has_subfiles fh then Some (fh_file fh) else fh_subfiles fh (ch_file_index ch)) of
        None \<Rightarrow> Some None
      | Some file \<Rightarrow>
          if sint slice_offset < 0 then None
          else let buff = rd_buff rd slice_size
               in case MPI_File_read file slice_offset (int_of_u64 slice_size) of
                    None \<Rightarrow> None
                  | Some bytes \<Rightarrow> Some (Some (buff, store buff bytes m)))"

text \<open>
  \<open>MPI_FILE_READ_OPS3\<close>, for old files without a payload offset: the header of the variable is read and
  parsed, the payload follows it in the buffer. The length in front is not converted to the byte
  order of the machine.
\<close>

definition read_old_slice ::
  "bp_reader \<Rightarrow> BP_FILE \<Rightarrow> adios_index_characteristic_struct_v1 \<Rightarrow> mem \<Rightarrow> (u64 \<times> mem) option option" where
  "read_old_slice rd fh ch m =
     (if sint (ch_offset ch) < 0 then None
      else case MPI_File_read (fh_file fh) (ch_offset ch) 8 of
        None \<Rightarrow> None
      | Some tmpcount \<Rightarrow>
          if length tmpcount < 8 then None
          else
            let n = (dec (rd_endian rd) tmpcount :: u64) + 8;
                buff = rd_buff rd n
            in case MPI_File_read (fh_file fh) (ch_offset ch) (int_of_u64 n) of
                 None \<Rightarrow> None
               | Some bytes \<Rightarrow>
                   case adios_parse_var_data_header_v1 (rd_endian rd) (rd_infos rd) (rd_old rd)
                      ((bp_buffer_of (fh_change_endianness fh) bytes)\<lparr>bp_length := n\<rparr>) of
                     Inl _ \<Rightarrow> None
                   | Inr (_, b) \<Rightarrow> Some (Some (buff + bp_offset b, store buff bytes m)))"

section \<open>One block\<close>

text \<open>
  The overlap of a block with the box in one dimension: its size and where it starts in the block
  and in the box.
\<close>

definition dset_overlap :: "u64 \<Rightarrow> u64 \<Rightarrow> u64 \<Rightarrow> u64 \<Rightarrow> u64 \<times> u64 \<times> u64" where
  "dset_overlap offset ldim start count =
     (let isize = offset + ldim in
      if start \<ge> offset then
        (if start < isize then (if start + count > isize then isize - start else count, start - offset, 0)
         else (0, 0, 0))
      else (if isize < start + count then ldim else count + start - offset, 0, offset - start))"

definition in_reach :: "u64 \<Rightarrow> u64 \<Rightarrow> u64 \<Rightarrow> u64 \<Rightarrow> bool" where
  "in_reach offset ldim start count \<longleftrightarrow>
     (offset \<ge> start \<and> offset < start + count)
     \<or> (offset < start \<and> offset + ldim > start + count)
     \<or> (offset + ldim > start \<and> offset + ldim \<le> start + count)"

text \<open>\<open>hole_break + 1\<close>, for the last dimension in which box and block differ.\<close>

fun hole_break :: "u64 list \<Rightarrow> u64 list \<Rightarrow> u64 list \<Rightarrow> u64 list \<Rightarrow> nat \<Rightarrow> nat" where
  "hole_break offsets start ldims count 0 = 0"
| "hole_break offsets start ldims count (Suc i) =
     (if offsets ! i = start ! i \<and> ldims ! i = count ! i then hole_break offsets start ldims count i else Suc i)"

text \<open>Where the first and the last element of the overlap lie in the payload.\<close>

definition payload_range :: "u64 \<Rightarrow> u64 list \<Rightarrow> u64 list \<Rightarrow> u64 list \<Rightarrow> u64 \<times> u64" where
  "payload_range ts size_in_dset offset_in_dset ldims =
     fst (foldr (\<lambda>(size, off, l) ((start_in_payload, end_in_payload), s).
         ((start_in_payload + s * off * ts, end_in_payload + s * (off + size - 1) * ts), s * l))
       (zip size_in_dset (zip offset_in_dset ldims)) ((0, 0), 1))"

text \<open>
  The copy of the part of a block that lies in the box. \<open>get_slice\<close> is the function that reads from
  the file, given the offset of the slice in the payload and its size.
\<close>

definition copy_from_block ::
  "endian \<Rightarrow> ADIOS_FLAG \<Rightarrow> ADIOS_DATATYPES \<Rightarrow> u32 \<Rightarrow> u64 list \<Rightarrow> u64 list \<Rightarrow> u64 list \<Rightarrow> u64 list
    \<Rightarrow> (u64 \<Rightarrow> u64 \<Rightarrow> mem \<Rightarrow> (u64 \<times> mem) option option) \<Rightarrow> u64 \<Rightarrow> mem \<Rightarrow> mem option option" where
  "copy_from_block e change type size_of_type ldims offsets start count get_slice data m =
     (let ndim = length start;
          ts = u64_of_int size_of_type;
          swap = (change = adios_flag_yes);
          payload_size = fold (\<lambda>l s. s * l) ldims ts;
          h = hole_break offsets start ldims count ndim;
          datasize = fold (\<lambda>l s. s * l) (drop h ldims) 1
      in if h = 0 then
           (case get_slice 0 payload_size m of
              None \<Rightarrow> None
            | Some None \<Rightarrow> Some None
            | Some (Some (src, m)) \<Rightarrow> Some (Some (copy_block e type swap payload_size data src m)))
         else if h = 1 then
           (let (size_in_dset, offset_in_dset, offset_in_var) =
                  dset_overlap (offsets ! 0) (ldims ! 0) (start ! 0) (count ! 0);
                slice_size = size_in_dset * datasize * ts;
                write_offset = offset_in_var * datasize * ts
            in case get_slice (offset_in_dset * datasize * ts) slice_size m of
                 None \<Rightarrow> None
               | Some None \<Rightarrow> Some None
               | Some (Some (src, m)) \<Rightarrow> Some (Some (copy_block e type swap slice_size (data + write_offset) src m)))
         else if ndim > 10 then None
         else
           (let overlap = map (\<lambda>i. dset_overlap (offsets ! i) (ldims ! i) (start ! i) (count ! i)) [0..<ndim];
                size_in_dset = map fst overlap;
                offset_in_dset = map (fst \<circ> snd) overlap;
                offset_in_var = map (snd \<circ> snd) overlap;
                datasize = fold (\<lambda>l s. s * l) (drop (h - 1) size_in_dset) 1;
                dset_stride = fold (\<lambda>l s. s * l) (drop (h - 1) ldims) 1;
                var_stride = fold (\<lambda>l s. s * l) (drop (h - 1) count) 1;
                (start_in_payload, end_in_payload) = payload_range ts size_in_dset offset_in_dset ldims;
                slice_size = end_in_payload - start_in_payload + 1 * ts
            in case get_slice start_in_payload slice_size m of
                 None \<Rightarrow> None
               | Some None \<Rightarrow> Some None
               | Some (Some (src, m)) \<Rightarrow>
                   let offset_in_dset = replicate ndim 0;
                       var_offset = fold (\<lambda>(off, c) v. off + v * c) (zip offset_in_var count) 0;
                       dset_offset = fold (\<lambda>(off, l) d. off + d * l) (zip offset_in_dset ldims) 0
                   in case copy_data e data src (take (h - 1) size_in_dset) ldims count var_stride dset_stride
                             var_offset dset_offset datasize size_of_type change type m of
                        None \<Rightarrow> None
                      | Some m \<Rightarrow> Some (Some m)))"


section \<open>Reading a box\<close>

text \<open>
  The blocks of one step, one after the other. The result is whether the function goes on, the
  memory and the error. The dimensions that are not set are those of uninitialised arrays. Only
  the first block of a local array is read.
\<close>

definition beyond :: "u64 \<Rightarrow> u64 \<Rightarrow> u64 \<Rightarrow> bool" where
  "beyond start count gdim \<longleftrightarrow> count > gdim \<or> start > gdim \<or> start + count > gdim"

fun read_blocks ::
  "bp_reader \<Rightarrow> BP_FILE \<Rightarrow> ADIOS_DATATYPES \<Rightarrow> u32 \<Rightarrow> u64 list \<Rightarrow> u64 list \<Rightarrow> u64
    \<Rightarrow> adios_index_characteristic_struct_v1 list \<Rightarrow> mem \<times> adios_errcode option
    \<Rightarrow> (bool \<times> mem \<times> adios_errcode option) option" where
  "read_blocks rd fh type size_of_type start count data [] (m, errno) = Some (True, m, errno)"
| "read_blocks rd fh type size_of_type start count data (ch # chs) (m, errno) =
     (case bp_get_dimension_characteristics_notime ch (is_fortran_file fh) of
        None \<Rightarrow> None
      | Some (is_global, ldims, gdims, offsets) \<Rightarrow>
          let ndim = length start in
          if ndim > length ldims then None
          else
            let ldims = take ndim ldims; offsets = take ndim offsets;
                gdims = (if \<not> is_global then ldims else take ndim gdims)
            in if list_ex (\<lambda>j. beyond (start ! j) (count ! j) (gdims ! j)) [0..<ndim]
               then Some (False, m, Some err_out_of_bound)
               else
                 case (if list_all (\<lambda>j. in_reach (offsets ! j) (ldims ! j) (start ! j) (count ! j)) [0..<ndim]
                       then copy_from_block (rd_endian rd) (fh_change_endianness fh) type size_of_type
                              ldims offsets start count
                              (\<lambda>off n. if ch_payload_offset ch > 0
                                 then read_slice rd fh ch (ch_payload_offset ch + off) n
                                 else read_old_slice rd fh ch) data m
                       else Some (Some m)) of
                   None \<Rightarrow> None
                 | Some None \<Rightarrow> Some (False, m, errno)
                 | Some (Some m) \<Rightarrow>
                     read_blocks rd fh type size_of_type start count data (if is_global then chs else []) (m, errno))"

record read_state =
  rs_mem :: mem
  rs_data :: u64
  rs_size_of_type :: u32
  rs_errno :: "adios_errcode option"

text \<open>A scalar. The size of a string loses its terminating zero, also for the steps to come.\<close>

definition read_scalar ::
  "bp_reader \<Rightarrow> BP_FILE \<Rightarrow> ADIOS_DATATYPES \<Rightarrow> adios_index_characteristic_struct_v1 \<Rightarrow> read_state
    \<Rightarrow> (bool \<times> read_state) option" where
  "read_scalar rd fh type ch s =
     (let slice_size = u64_of_int (rs_size_of_type s);
          size_of_type = (if type = adios_string then rs_size_of_type s - 1 else rs_size_of_type s);
          n = u64_of_int size_of_type
      in case (if ch_payload_offset ch > 0 then read_slice rd fh ch (ch_payload_offset ch) slice_size (rs_mem s)
               else read_old_slice rd fh ch (rs_mem s)) of
           None \<Rightarrow> None
         | Some None \<Rightarrow> Some (False, s\<lparr>rs_size_of_type := size_of_type\<rparr>)
         | Some (Some (src, m)) \<Rightarrow>
             let m = copy_block (rd_endian rd) type (fh_change_endianness fh = adios_flag_yes) n (rs_data s) src m;
                 m = (if type = adios_string then m(rs_data s + n := 0) else m)
             in Some (True, s\<lparr>rs_mem := m, rs_size_of_type := size_of_type,
                  rs_data := rs_data s + (if type = adios_string then n + 1 else n)\<rparr>))"

text \<open>One step; without data for it the target does not move.\<close>

definition read_step ::
  "bp_reader \<Rightarrow> ADIOS_FILE \<Rightarrow> adios_index_var_struct_v1 \<Rightarrow> u64 list \<Rightarrow> u64 list \<Rightarrow> int \<Rightarrow> read_state
    \<Rightarrow> (bool \<times> read_state) option" where
  "read_step rd fp v start count t s =
     (let fh = fp_fh fp; type = v_type v;
          time = (if \<not> fp_streaming fp then get_time v t else fh_tidx_start fh + of_int t);
          start_idx = get_var_start_index v time;
          stop_idx = get_var_stop_index v time
      in if start_idx < 0 \<or> stop_idx < 0 then Some (True, s\<lparr>rs_errno := Some err_no_data_at_timestep\<rparr>)
         else if start = [] then read_scalar rd fh type (v_characteristics v ! nat start_idx) s
         else
           case read_blocks rd fh type (rs_size_of_type s) start count (rs_data s)
               (map (\<lambda>i. v_characteristics v ! nat i) [start_idx..stop_idx]) (rs_mem s, rs_errno s) of
             None \<Rightarrow> None
           | Some (go_on, m, errno) \<Rightarrow>
               let items_read = fold (\<lambda>c n. n * c) count 1;
                   s = s\<lparr>rs_mem := m, rs_errno := errno\<rparr>
               in Some (go_on, if go_on then s\<lparr>rs_data := rs_data s + items_read * u64_of_int (rs_size_of_type s)\<rparr> else s))"

fun read_steps ::
  "bp_reader \<Rightarrow> ADIOS_FILE \<Rightarrow> adios_index_var_struct_v1 \<Rightarrow> u64 list \<Rightarrow> u64 list \<Rightarrow> int list \<Rightarrow> read_state
    \<Rightarrow> (bool \<times> read_state) option" where
  "read_steps rd fp v start count [] s = Some (True, s)"
| "read_steps rd fp v start count (t # ts) s =
     (case read_step rd fp v start count t s of
        None \<Rightarrow> None
      | Some (False, s) \<Rightarrow> Some (False, s)
      | Some (True, s) \<Rightarrow> read_steps rd fp v start count ts s)"

text \<open>
  \<open>read_var_bb\<close> gives a chunk, or the null pointer, with the memory and the error. A Fortran program
  gives the box in its own order of dimensions; it is swapped in the request.
\<close>

definition first_size :: "adios_index_var_struct_v1 \<Rightarrow> u32" where
  "first_size v = bp_get_type_size (v_type v) (map_option (\<lambda>b. string_of_bytes (takeWhile (\<lambda>x. x \<noteq> 0) b))
     (ch_value (hd (v_characteristics v))))"

definition read_var_bb ::
  "bp_reader \<Rightarrow> ADIOS_FILE \<Rightarrow> read_request \<Rightarrow> mem \<times> adios_errcode option
    \<Rightarrow> (ADIOS_VARCHUNK option \<times> mem \<times> adios_errcode option) option" where
  "read_var_bb rd fp r = (\<lambda>(m, errno).
     let fh = fp_fh fp in
     case (rr_sel r, bp_find_var_byid fh (rr_varid r)) of
       (Sel_boundingbox bb, Some v) \<Rightarrow>
         (case bp_get_and_swap_dimensions fh (fp_streaming fp) (fp_current_step fp) v (is_fortran_file fh) of
            None \<Rightarrow> None
          | Some (ndim, _, _) \<Rightarrow>
              if ndim \<noteq> bb_ndim bb \<or> length (bb_start bb) < ndim \<or> length (bb_count bb) < ndim then None
              else
                let order = (\<lambda>xs. if rd_called_from_fortran rd then fst (swap_order ndim (xs, -1)) else xs);
                    start = order (take ndim (bb_start bb));
                    count = order (take ndim (bb_count bb));
                    first = fp_current_step fp + rr_from_steps r
                in case read_steps rd fp v start count [first..first + rr_nsteps r - 1]
                       \<lparr>rs_mem = m, rs_data = rr_data r, rs_size_of_type = first_size v, rs_errno = errno\<rparr> of
                     None \<Rightarrow> None
                   | Some (done, s) \<Rightarrow>
                       Some (if done then Some \<lparr>vc_varid = rr_varid r, vc_type = v_type v,
                               vc_from_steps = rr_from_steps r, vc_nsteps = rr_nsteps r,
                               vc_sel = copy_selection (rd_uninit rd)
                                 (Sel_boundingbox \<lparr>bb_ndim = ndim, bb_start = start, bb_count = count\<rparr>),
                               vc_data = rr_data r\<rparr> else None, rs_mem s, rs_errno s))
     | _ \<Rightarrow> None)"


section \<open>The loop nest of the copy\<close>

lemma fold_opt_total: "(\<And>x s. x \<in> set xs \<Longrightarrow> f x s = Some (g x s)) \<Longrightarrow> fold_opt f xs s = Some (fold g xs s)"
  by (induction xs arbitrary: s) simp_all

lemma copy_data_fold:
  assumes "ns \<noteq> []" and "length ns \<le> length ls" and "length ns \<le> length rs" and "list_all (\<lambda>n. unat n < 2 ^ 32) ns"
  shows "copy_data e dst src ns ls rs ds ss d s en sz ch type m = Some (fold (\<lambda>(x, y).
      copy_block e type (ch = adios_flag_yes) (en * u64_of_int sz) (dst + d * u64_of_int sz + x) (src + s * u64_of_int sz + y))
      (nest_offsets ns (compute_strides (ds * u64_of_int sz) (take (length ns) rs))
        (compute_strides (ss * u64_of_int sz) (take (length ns) ls))) m)"
  using assms
proof (induction ns arbitrary: ls rs d s m)
  case (Cons n ns)
  obtain l ls' r rs' where lr: "ls = l # ls'" "rs = r # rs'" using Cons.prems(2,3) by (cases ls; cases rs) auto
  show ?case
  proof (cases ns)
    case Nil
    then show ?thesis using Cons.prems(4) lr
      by (simp add: fold_map o_def case_prod_unfold algebra_simps Let_def)
  next
    case (Cons n' ns')
    let ?ts = "u64_of_int sz"
    let ?R = "of_nat (prod_list (map unat (take (length ns) rs'))) :: u64"
    let ?L = "of_nat (prod_list (map unat (take (length ns) ls'))) :: u64"
    let ?inner = "nest_offsets ns (compute_strides (ds * ?ts) (take (length ns) rs')) (compute_strides (ss * ?ts) (take (length ns) ls'))"
    let ?g = "\<lambda>i. fold (\<lambda>(x, y). copy_block e type (ch = adios_flag_yes) (en * ?ts)
        (dst + (d + of_nat i * ds * ?R) * ?ts + x) (src + (s + of_nat i * ss * ?L) * ?ts + y)) ?inner"
    have inner: "copy_data e dst src ns ls' rs' ds ss (d + of_nat i * ds * ?R) (s + of_nat i * ss * ?L) en sz ch type m
        = Some (?g i m)" for i m
      using Cons.IH [of ls' rs' "d + of_nat i * ds * ?R" "s + of_nat i * ss * ?L" m] \<open>ns = n' # ns'\<close> Cons.prems lr by simp
    have "copy_data e dst src (n # ns) ls rs ds ss d s en sz ch type m
        = fold_opt (\<lambda>i. copy_data e dst src ns ls' rs' ds ss (d + of_nat i * ds * ?R) (s + of_nat i * ss * ?L) en sz ch type)
            [0..<unat n] m"
      using Cons.prems(4) \<open>ns = n' # ns'\<close> lr by (simp add: fold_times)
    also have "\<dots> = Some (fold ?g [0..<unat n] m)" by (rule fold_opt_total) (rule inner)
    also have "fold ?g [0..<unat n] m = fold (\<lambda>(x, y).
        copy_block e type (ch = adios_flag_yes) (en * ?ts) (dst + d * ?ts + x) (src + s * ?ts + y))
      (nest_offsets (n # ns) (compute_strides (ds * ?ts) (take (length (n # ns)) rs))
        (compute_strides (ss * ?ts) (take (length (n # ns)) ls))) m"
      by (simp add: lr fold_concat_map fold_map o_def case_prod_unfold algebra_simps)
    finally show ?thesis .
  qed
qed simp


section \<open>The overlap of a block and a box\<close>

abbreviation no_wrap :: "u64 \<Rightarrow> u64 \<Rightarrow> bool" where
  "no_wrap s c \<equiv> 0 < unat c \<and> unat s + unat c < 2 ^ 64"

abbreviation common :: "nat \<Rightarrow> nat \<Rightarrow> nat \<Rightarrow> nat \<Rightarrow> bool" where
  "common off l s c \<equiv> max s off < min (s + c) (off + l)"

lemma in_reach_common:
  assumes "no_wrap off l" and "no_wrap s c"
  shows "in_reach off l s c \<longleftrightarrow> common (unat off) (unat l) (unat s) (unat c)"
proof -
  have "unat (off + l) = unat off + unat l" "unat (s + c) = unat s + unat c"
    using assms by (simp_all add: unat_add_no_wrap)
  then show ?thesis using assms unfolding in_reach_def word_less_nat_alt word_le_nat_alt by auto
qed

lemma dset_overlap_values:
  assumes "no_wrap off l" and "no_wrap s c" and "common (unat off) (unat l) (unat s) (unat c)"
    and "dset_overlap off l s c = (sz, od, ov)"
  shows "unat sz = min (unat s + unat c) (unat off + unat l) - max (unat s) (unat off)"
    and "unat od = unat s - unat off" and "unat ov = unat off - unat s"
proof -
  have sum: "unat (off + l) = unat off + unat l" "unat (s + c) = unat s + unat c"
    using assms(1,2) by (simp_all add: unat_add_no_wrap)
  have sub: "unat (x - y) = unat x - unat y" if "unat y \<le> unat x" for x y :: u64
    using that by (simp add: unat_diff_no_wrap)
  consider "s \<ge> off" "s < off + l" | "\<not> s \<ge> off" using assms(3) sum by (fastforce simp: word_le_nat_alt word_less_nat_alt)
  then have "unat sz = min (unat s + unat c) (unat off + unat l) - max (unat s) (unat off)
      \<and> unat od = unat s - unat off \<and> unat ov = unat off - unat s"
  proof cases
    case 1
    then have le: "unat off \<le> unat s" "unat s < unat off + unat l" using sum by (simp_all add: word_le_nat_alt word_less_nat_alt)
    from 1 assms(4) have "sz = (if s + c > off + l then off + l - s else c)" "od = s - off" "ov = 0"
      by (auto simp: dset_overlap_def Let_def)
    with le sum sub [of s "off + l"] sub [of off s] show ?thesis
      by (auto simp: word_less_nat_alt)
  next
    case 2
    then have le: "unat s < unat off" by (simp add: word_le_nat_alt)
    from 2 assms(4) have "sz = (if off + l < s + c then l else c + s - off)" "od = 0" "ov = off - s"
      by (auto simp: dset_overlap_def Let_def)
    moreover have "unat (c + s - off) = unat s + unat c - unat off"
      using sub [of off "s + c"] assms(3) sum by (simp add: add.commute)
    ultimately show ?thesis using le sum sub [of s off] assms(3)
      by (auto simp: word_less_nat_alt)
  qed
  then show "unat sz = min (unat s + unat c) (unat off + unat l) - max (unat s) (unat off)"
    and "unat od = unat s - unat off" and "unat ov = unat off - unat s" by simp_all
qed


section \<open>Positions in a block\<close>

lemma fold_horner:
  "length os = length ds \<Longrightarrow>
   fold (\<lambda>(off, d) v. off + v * d) (zip os ds) v = v * of_nat (prod_list (map unat ds)) + of_nat (rm ds os)" for v :: u64
proof (induction os ds arbitrary: v rule: list_induct2)
  case (Cons x os d ds)
  have "d = of_nat (unat d)" "x = of_nat (unat x)" by simp_all
  with Cons show ?case by (simp add: algebra_simps)
qed simp

lemma payload_range_row_major:
  assumes "length od = length sizes" and "length ldims = length sizes" and "list_all (\<lambda>d. 0 < unat d) sizes"
  shows "payload_range ts sizes od ldims
    = (of_nat (rm ldims od) * ts, of_nat (rm ldims od + row_major (map unat ldims) (map (\<lambda>d. unat d - 1) sizes)) * ts)"
proof -
  have "foldr (\<lambda>(size, off, l) ((a, b), s). ((a + s * off * ts, b + s * (off + size - 1) * ts), s * l))
       (zip sizes (zip od ldims)) ((0, 0), 1)
     = ((of_nat (rm ldims od) * ts, of_nat (rm ldims od + row_major (map unat ldims) (map (\<lambda>d. unat d - 1) sizes)) * ts),
        of_nat (prod_list (map unat ldims)))"
    using assms
  proof (induction sizes arbitrary: od ldims)
    case (Cons d sizes)
    then obtain x od' l ldims' where lists: "od = x # od'" "ldims = l # ldims'" by (cases od; cases ldims) auto
    obtain k where k: "unat d = Suc k" using Cons.prems(3) by (cases "unat d") auto
    have "d = of_nat (unat d)" by simp
    then have "d = of_nat k + 1" unfolding k by simp
    with Cons lists k show ?case by (simp add: algebra_simps)
  qed simp
  then show ?thesis by (simp add: payload_range_def)
qed

text \<open>Block copies in a loop nest over the leading dimensions move the elements one by one.\<close>

lemma blocks_moves:
  assumes k: "k < length sizes" "drop (Suc k) dd = drop (Suc k) sizes" "drop (Suc k) sd = drop (Suc k) sizes"
    and len: "length dd = length sizes" "length sd = length sizes"
    and type: "sized_type type" and c: "unat c = prod_list (map unat (drop k sizes)) * elem_size type"
    and mvs: "mvs = map (\<lambda>q. (D + of_nat (rm dd q * elem_size type), S + of_nat (rm sd q * elem_size type))) (box_points sizes)"
    and order: "in_order (elem_size type) mvs"
  shows "fold (\<lambda>(x, y). copy_block e type swap c (D + x) (S + y))
      (nest_offsets (take k sizes) (take k (compute_strides (of_nat (elem_size type)) dd))
        (take k (compute_strides (of_nat (elem_size type)) sd))) m
    = fold (elem_copy type swap) mvs m"
proof -
  let ?z = "elem_size type"
  define t :: u64 where "t = of_nat ?z"
  define n where "n = prod_list (map unat (drop k sizes))"
  let ?outer = "nest_offsets (take k sizes) (take k (compute_strides t dd)) (take k (compute_strides t sd))"
  have "mvs = map (\<lambda>(x, y). (D + x, S + y)) (nest_offsets sizes (compute_strides t dd) (compute_strides t sd))"
    unfolding mvs using len by (simp add: nest_offsets_points dot_row_major t_def)
  also have "\<dots> = concat (map (\<lambda>(x, y). block_moves ?z (D + x) (S + y) n) ?outer)"
    unfolding nest_offsets_split [OF k len]
    by (simp add: block_moves_def n_def map_concat o_def case_prod_unfold algebra_simps t_def)
  finally have moves: "mvs = concat (map (\<lambda>(x, y). block_moves ?z (D + x) (S + y) n) ?outer)" .
  have block: "copy_block e type swap c (D + fst p) (S + snd p) m
      = fold (elem_copy type swap) (block_moves ?z (D + fst p) (S + snd p) n) m"
    if "p \<in> set ?outer" for p m
  proof (rule copy_block_moves)
    show "in_order ?z (block_moves ?z (D + fst p) (S + snd p) n)"
      by (rule sorted_wrt_concat_part [OF order [unfolded moves]])
        (simp add: case_prod_unfold image_iff, rule bexI [OF refl that])
  qed (use type c n_def in simp_all)
  show ?thesis unfolding moves fold_concat_map t_def [symmetric]
    by (auto intro!: fold_cong block simp: case_prod_unfold)
qed


section \<open>The copy of one block\<close>

definition block_in_box :: "u64 list \<Rightarrow> u64 list \<Rightarrow> u64 list \<Rightarrow> u64 list \<Rightarrow> bool" where
  "block_in_box ldims offsets start count \<longleftrightarrow>
     length ldims = length start \<and> length offsets = length start \<and> length count = length start
     \<and> (\<forall>i < length start. no_wrap (offsets ! i) (ldims ! i) \<and> no_wrap (start ! i) (count ! i)
          \<and> common (unat (offsets ! i)) (unat (ldims ! i)) (unat (start ! i)) (unat (count ! i)))"

definition overlap :: "u64 list \<Rightarrow> u64 list \<Rightarrow> u64 list \<Rightarrow> u64 list \<Rightarrow> (u64 \<times> u64 \<times> u64) list" where
  "overlap ldims offsets start count =
     map (\<lambda>i. dset_overlap (offsets ! i) (ldims ! i) (start ! i) (count ! i)) [0..<length start]"

abbreviation ov_size :: "u64 list \<Rightarrow> u64 list \<Rightarrow> u64 list \<Rightarrow> u64 list \<Rightarrow> u64 list" where
  "ov_size ldims offsets start count \<equiv> map fst (overlap ldims offsets start count)"
abbreviation ov_dset :: "u64 list \<Rightarrow> u64 list \<Rightarrow> u64 list \<Rightarrow> u64 list \<Rightarrow> u64 list" where
  "ov_dset ldims offsets start count \<equiv> map (fst \<circ> snd) (overlap ldims offsets start count)"
abbreviation ov_var :: "u64 list \<Rightarrow> u64 list \<Rightarrow> u64 list \<Rightarrow> u64 list \<Rightarrow> u64 list" where
  "ov_var ldims offsets start count \<equiv> map (snd \<circ> snd) (overlap ldims offsets start count)"

lemma length_overlap [simp]: "length (overlap ldims offsets start count) = length start"
  by (simp add: overlap_def)

lemma overlap_nth:
  assumes "block_in_box ldims offsets start count" and "i < length start"
  shows "unat (ov_size ldims offsets start count ! i)
      = min (unat (start ! i) + unat (count ! i)) (unat (offsets ! i) + unat (ldims ! i)) - max (unat (start ! i)) (unat (offsets ! i))"
    and "unat (ov_dset ldims offsets start count ! i) = unat (start ! i) - unat (offsets ! i)"
    and "unat (ov_var ldims offsets start count ! i) = unat (offsets ! i) - unat (start ! i)"
proof -
  have b: "no_wrap (offsets ! i) (ldims ! i)" "no_wrap (start ! i) (count ! i)"
      "common (unat (offsets ! i)) (unat (ldims ! i)) (unat (start ! i)) (unat (count ! i))"
    using assms unfolding block_in_box_def by blast+
  obtain s d v where o: "dset_overlap (offsets ! i) (ldims ! i) (start ! i) (count ! i) = (s, d, v)" by (metis prod_cases3)
  note vals = dset_overlap_values [OF b o]
  have "ov_size ldims offsets start count ! i = s" "ov_dset ldims offsets start count ! i = d" "ov_var ldims offsets start count ! i = v"
    using assms(2) by (simp_all add: overlap_def o)
  then show "unat (ov_size ldims offsets start count ! i)
      = min (unat (start ! i) + unat (count ! i)) (unat (offsets ! i) + unat (ldims ! i)) - max (unat (start ! i)) (unat (offsets ! i))"
    and "unat (ov_dset ldims offsets start count ! i) = unat (start ! i) - unat (offsets ! i)"
    and "unat (ov_var ldims offsets start count ! i) = unat (offsets ! i) - unat (start ! i)"
    by (simp_all only: vals)
qed

lemma hole_break_tail:
  "hole_break offsets start ldims count n \<le> n"
  "hole_break offsets start ldims count n \<le> i \<Longrightarrow> i < n \<Longrightarrow> offsets ! i = start ! i \<and> ldims ! i = count ! i"
  by (induction n) (auto simp: less_Suc_eq split: if_splits)

lemma overlap_tail:
  assumes "block_in_box ldims offsets start count" and "hole_break offsets start ldims count (length start) \<le> k"
  shows "drop k (ov_size ldims offsets start count) = drop k ldims" and "drop k count = drop k ldims"
    and "drop k (ov_dset ldims offsets start count) = replicate (length start - k) 0"
    and "drop k (ov_var ldims offsets start count) = replicate (length start - k) 0"
proof -
  have len: "length ldims = length start" "length offsets = length start" "length count = length start"
    using assms(1) by (simp_all add: block_in_box_def)
  have eq: "offsets ! i = start ! i" "ldims ! i = count ! i" if "k \<le> i" "i < length start" for i
    using hole_break_tail(2) [of offsets start ldims count "length start" i] that assms(2) by auto
  have "unat (ov_size ldims offsets start count ! i) = unat (ldims ! i)"
      "unat (ov_dset ldims offsets start count ! i) = 0" "unat (ov_var ldims offsets start count ! i) = 0"
    if "k \<le> i" "i < length start" for i
    using overlap_nth [OF assms(1) that(2)] eq [OF that] by simp_all
  then have nth: "ov_size ldims offsets start count ! i = ldims ! i" "ov_dset ldims offsets start count ! i = 0"
      "ov_var ldims offsets start count ! i = 0" if "k \<le> i" "i < length start" for i
    using that by (simp_all only: word_unat_eq_iff) auto
  show "drop k (ov_size ldims offsets start count) = drop k ldims" "drop k count = drop k ldims"
    "drop k (ov_dset ldims offsets start count) = replicate (length start - k) 0"
    "drop k (ov_var ldims offsets start count) = replicate (length start - k) 0"
    using len eq(2) nth by (auto intro!: nth_equalityI)
qed

lemma overlap_fits:
  assumes "block_in_box ldims offsets start count"
  shows "fits_in (ov_dset ldims offsets start count) (ov_size ldims offsets start count) ldims"
    and "fits_in (ov_var ldims offsets start count) (ov_size ldims offsets start count) count"
    and "list_all (\<lambda>d. 0 < unat d) (ov_size ldims offsets start count)"
proof -
  have len: "length ldims = length start" "length count = length start"
    and b: "\<And>i. i < length start \<Longrightarrow> common (unat (offsets ! i)) (unat (ldims ! i)) (unat (start ! i)) (unat (count ! i))"
    using assms by (simp_all add: block_in_box_def)
  have fits: "fits_in off sizes dims" if "length off = n" "length sizes = n" "length dims = n"
      "\<And>i. i < n \<Longrightarrow> unat (off ! i) + unat (sizes ! i) \<le> unat (dims ! i)" for off sizes dims :: "u64 list" and n
    using that by (simp add: fits_in_def list_all2_conv_all_nth)
  show "fits_in (ov_dset ldims offsets start count) (ov_size ldims offsets start count) ldims"
  proof (rule fits)
    fix i assume i: "i < length start"
    show "unat (ov_dset ldims offsets start count ! i) + unat (ov_size ldims offsets start count ! i) \<le> unat (ldims ! i)"
      unfolding overlap_nth [OF assms i] using b [OF i] by linarith
  qed (simp_all add: len)
  show "fits_in (ov_var ldims offsets start count) (ov_size ldims offsets start count) count"
  proof (rule fits)
    fix i assume i: "i < length start"
    show "unat (ov_var ldims offsets start count ! i) + unat (ov_size ldims offsets start count ! i) \<le> unat (count ! i)"
      unfolding overlap_nth [OF assms i] using b [OF i] by linarith
  qed (simp_all add: len)
  show "list_all (\<lambda>d. 0 < unat d) (ov_size ldims offsets start count)"
    unfolding list_all_length using overlap_nth(1) [OF assms] b by fastforce
qed


lemma strides_prefix:
  "compute_strides (t * of_nat (prod_list (map unat (drop k dims)))) (take k dims) = take k (compute_strides t dims)"
proof (induction dims arbitrary: k)
  case (Cons d dims)
  show ?case
  proof (cases k)
    case (Suc k')
    have "prod_list (map unat dims) = prod_list (map unat (take k' dims)) * prod_list (map unat (drop k' dims))"
      by (metis append_take_drop_id map_append prod_list.append)
    with Suc Cons show ?thesis by (simp add: mult.assoc mult.commute)
  qed simp
qed simp

text \<open>The slice that is read: it starts at the first element of the overlap and ends behind the last one.\<close>

definition slice_start :: "nat \<Rightarrow> u64 list \<Rightarrow> u64 list \<Rightarrow> u64 list \<Rightarrow> u64 list \<Rightarrow> nat" where
  "slice_start z ldims offsets start count = rm ldims (ov_dset ldims offsets start count) * z"

definition slice_length :: "nat \<Rightarrow> u64 list \<Rightarrow> u64 list \<Rightarrow> u64 list \<Rightarrow> u64 list \<Rightarrow> nat" where
  "slice_length z ldims offsets start count =
     (row_major (map unat ldims) (map (\<lambda>d. unat d - 1) (ov_size ldims offsets start count)) + 1) * z"

definition slice_moves ::
  "nat \<Rightarrow> u64 list \<Rightarrow> u64 list \<Rightarrow> u64 list \<Rightarrow> u64 list \<Rightarrow> u64 \<Rightarrow> u64 \<Rightarrow> (u64 \<times> u64) list" where
  "slice_moves z ldims offsets start count data src =
     map (\<lambda>q. (data + of_nat (rm count (ov_var ldims offsets start count) * z) + of_nat (rm count q * z),
               src + of_nat (rm ldims q * z))) (box_points (ov_size ldims offsets start count))"

lemma slice_full_tail:
  assumes "block_in_box ldims offsets start count" and "start \<noteq> []"
    and "hole_break offsets start ldims count (length start) \<le> 1"
  shows "slice_length z ldims offsets start count = prod_list (map unat (ov_size ldims offsets start count)) * z"
    and "slice_start z ldims offsets start count
      = unat (ov_dset ldims offsets start count ! 0) * prod_list (map unat (tl ldims)) * z"
    and "rm count (ov_var ldims offsets start count)
      = unat (ov_var ldims offsets start count ! 0) * prod_list (map unat (tl ldims))"
    and "tl (ov_size ldims offsets start count) = tl ldims" and "tl count = tl ldims"
proof -
  note tail = overlap_tail [OF assms(1,3)]
  let ?S = "ov_size ldims offsets start count" and ?D = "ov_dset ldims offsets start count" and ?V = "ov_var ldims offsets start count"
  have len: "length ldims = length start" "length count = length start" using assms(1) by (simp_all add: block_in_box_def)
  have ne: "?S \<noteq> []" "?D \<noteq> []" "?V \<noteq> []" "ldims \<noteq> []" "count \<noteq> []"
    using len assms(2) by (auto simp: overlap_def)
  show t: "tl ?S = tl ldims" "tl count = tl ldims" using tail(1,2) by (simp_all only: drop_Suc One_nat_def drop0)
  have S: "?S = ?S ! 0 # tl ldims" using ne(1) t(1) by (metis hd_Cons_tl hd_conv_nth)
  have L: "ldims = ldims ! 0 # tl ldims" "count = count ! 0 # tl ldims" using ne t(2) by (metis hd_Cons_tl hd_conv_nth)+
  have "tl ?D = replicate (length start - 1) 0" "tl ?V = replicate (length start - 1) 0"
    using tail(3,4) by (simp_all only: drop_Suc drop0 One_nat_def)
  then have D: "?D = ?D ! 0 # replicate (length start - 1) 0" "?V = ?V ! 0 # replicate (length start - 1) 0"
    using ne by (metis hd_Cons_tl hd_conv_nth)+
  have "list_all (\<lambda>d. 0 < d) (map unat ?S)" using overlap_fits(3) [OF assms(1)] by (simp add: list_all_iff)
  then have pos: "0 < unat (?S ! 0)" "list_all (\<lambda>d. 0 < d) (map unat (tl ldims))" by (subst (asm) S, simp)+
  from row_major_last [OF pos(2)] have last: "row_major (map unat (tl ldims)) (map (\<lambda>d. d - 1) (map unat (tl ldims))) + 1
      = prod_list (map unat (tl ldims))" .
  obtain s where s: "unat (?S ! 0) = Suc s" using pos(1) by (cases "unat (?S ! 0)") auto
  have "row_major (map unat ldims) (map (\<lambda>d. unat d - 1) ?S) + 1 = prod_list (map unat ?S)"
    by (subst (1 2) S, subst L) (use last s in \<open>simp add: o_def\<close>)
  then show "slice_length z ldims offsets start count = prod_list (map unat ?S) * z" by (simp only: slice_length_def)
  show "slice_start z ldims offsets start count = unat (?D ! 0) * prod_list (map unat (tl ldims)) * z"
    unfolding slice_start_def by (subst D, subst L) (simp add: row_major_zero)
  show "rm count ?V = unat (?V ! 0) * prod_list (map unat (tl ldims))"
    by (subst D(2), subst L(2)) (simp add: row_major_zero)
qed


lemma prod_list_pos: "list_all (\<lambda>d. 0 < d) ds \<Longrightarrow> 0 < prod_list ds" for ds :: "nat list"
  by (induction ds) simp_all

lemma block_volume_pos:
  assumes "block_in_box ldims offsets start count"
  shows "0 < prod_list (map unat ldims)" and "0 < prod_list (map unat count)"
  using assms by (auto intro!: prod_list_pos simp: block_in_box_def list_all_length)

lemma copy_from_block_moves:
  assumes b: "block_in_box ldims offsets start count" and n: "start \<noteq> []" "length start \<le> 10"
    and small: "list_all (\<lambda>c. unat c < 2 ^ 32) count"
    and type: "sized_type type" and ts: "u64_of_int sz = of_nat (elem_size type)"
    and vol: "prod_list (map unat ldims) * elem_size type < 2 ^ 64"
    and get: "get_slice (of_nat (slice_start (elem_size type) ldims offsets start count))
        (of_nat (slice_length (elem_size type) ldims offsets start count)) m = Some (Some (src, m1))"
    and order: "in_order (elem_size type) (slice_moves (elem_size type) ldims offsets start count data src)"
  shows "copy_from_block e ch type sz ldims offsets start count get_slice data m
    = Some (Some (fold (elem_copy type (ch = adios_flag_yes)) (slice_moves (elem_size type) ldims offsets start count data src) m1))"
proof -
  let ?z = "elem_size type"
  let ?S = "ov_size ldims offsets start count" and ?D = "ov_dset ldims offsets start count" and ?V = "ov_var ldims offsets start count"
  let ?h = "hole_break offsets start ldims count (length start)"
  let ?base = "data + of_nat (rm count ?V * ?z)"
  define t :: u64 where "t = of_nat ?z"
  then have ts': "u64_of_int sz = t" using ts by simp
  have len: "length ldims = length start" "length count = length start" using b by (simp_all add: block_in_box_def)
  have tail: "drop k ?S = drop k ldims" "drop k count = drop k ldims" if "?h \<le> k" for k
    using overlap_tail [OF b that] by simp_all
  have fit: "prod_list (map unat (drop k ?S)) * ?z < 2 ^ 64" for k
  proof -
    have "prod_list (map unat ldims) * ?z < 2 ^ 64 \<and> 0 < prod_list (map unat ldims)"
      using vol block_volume_pos [OF b] by simp
    then show ?thesis
      using contiguous_volume_fits [OF overlap_fits(1) [OF b], of ?z k] elem_size_small [of type] type by simp
  qed
  have moves: "fold (\<lambda>(x, y). copy_block e type (ch = adios_flag_yes) c (?base + x) (src + y))
      (nest_offsets (take k ?S) (take k (compute_strides t count)) (take k (compute_strides t ldims))) m1
      = fold (elem_copy type (ch = adios_flag_yes)) (slice_moves ?z ldims offsets start count data src) m1"
    if k: "k < length start" "?h \<le> Suc k" and c: "unat c = prod_list (map unat (drop k ?S)) * ?z" for k c
    unfolding t_def
    by (rule blocks_moves [OF _ _ _ _ _ type c _ order])
      (use k len tail [OF k(2)] in \<open>simp_all add: slice_moves_def\<close>)
  have unat: "unat (of_nat (prod_list (map unat (drop k ?S)) * ?z) :: u64) = prod_list (map unat (drop k ?S)) * ?z" for k
    using fit [of k] by (intro unat_of_nat_small) simp
  show ?thesis
  proof (cases "?h \<le> 1")
    case True
    note full = slice_full_tail [OF b n(1) True]
    have c: "unat (of_nat (slice_length ?z ldims offsets start count) :: u64) = prod_list (map unat (drop 0 ?S)) * ?z"
      using unat [of 0] by (simp add: full(1))
    have whole: "copy_block e type (ch = adios_flag_yes) (of_nat (slice_length ?z ldims offsets start count)) ?base src m1
        = fold (elem_copy type (ch = adios_flag_yes)) (slice_moves ?z ldims offsets start count data src) m1"
      using moves [OF _ _ c] n(1) True by simp
    have ldims: "ldims = ldims ! 0 # tl ldims" using len n(1) by (cases ldims) auto
    have S: "?S = ?S ! 0 # tl ldims" using full(4) len n(1) by (cases ?S) (auto simp: overlap_def)
    show ?thesis
    proof (cases "?h = 0")
      case h: True
      have "?S = ldims" using tail(1) [of 0] h by simp
      moreover have "?D ! 0 = 0" "?V ! 0 = 0"
        using overlap_tail(3,4) [OF b, of 0] h n(1) by (simp_all del: nth_map)
      ultimately have "of_nat (slice_length ?z ldims offsets start count) = fold (\<lambda>l s. s * l) ldims t"
          "slice_start ?z ldims offsets start count = 0" "rm count ?V = 0"
        using full by (simp_all add: t_def fold_times)
      with get whole h show ?thesis by (simp add: copy_from_block_def Let_def ts')
    next
      case False
      then have h: "?h = 1" using True by simp
      have o: "dset_overlap (offsets ! 0) (ldims ! 0) (start ! 0) (count ! 0) = (?S ! 0, ?D ! 0, ?V ! 0)"
        using n(1) by (simp add: overlap_def)
      have "fold (\<lambda>l s. s * l) (drop 1 ldims) 1 = (of_nat (prod_list (map unat (tl ldims))) :: u64)"
        by (simp add: fold_times drop_Suc)
      moreover have "of_nat (slice_length ?z ldims offsets start count) = ?S ! 0 * of_nat (prod_list (map unat (tl ldims))) * t"
        unfolding full(1) by (subst S) (simp add: t_def)
      moreover have "of_nat (slice_start ?z ldims offsets start count) = ?D ! 0 * of_nat (prod_list (map unat (tl ldims))) * t"
        unfolding full(2) by (simp add: t_def)
      moreover have "of_nat (rm count ?V * ?z) = ?V ! 0 * of_nat (prod_list (map unat (tl ldims))) * t"
        unfolding full(3) by (simp add: t_def)
      ultimately show ?thesis using get whole h o
        by (simp add: copy_from_block_def Let_def ts')
    qed
  next
    case False
    then have h: "\<not> ?h = 0" "\<not> ?h = 1" "\<not> 10 < length start" "?h - 1 < length start" "?h \<le> Suc (?h - 1)"
      using hole_break_tail(1) [of offsets start ldims count "length start"] n(2) by auto
    let ?k = "?h - 1"
    have S: "map (\<lambda>i. dset_overlap (offsets ! i) (ldims ! i) (start ! i) (count ! i)) [0..<length start] = overlap ldims offsets start count"
      by (simp add: overlap_def)
    obtain sp ep where range: "payload_range t ?S ?D ldims = (sp, ep)"
        and sp: "sp = of_nat (slice_start ?z ldims offsets start count)"
        and ep: "ep - sp + t = of_nat (slice_length ?z ldims offsets start count)"
    proof (rule that)
      show "payload_range t ?S ?D ldims = (of_nat (rm ldims ?D) * t,
          of_nat (rm ldims ?D + row_major (map unat ldims) (map (\<lambda>d. unat d - 1) ?S)) * t)"
        by (rule payload_range_row_major) (use len overlap_fits(3) [OF b] in simp_all)
    qed (simp_all add: slice_start_def slice_length_def t_def algebra_simps)
    define vo :: u64 where "vo = of_nat (rm count ?V)"
    have var: "fold (\<lambda>(off, c) v. off + v * c) (zip ?V count) 0 = vo"
      using fold_horner [of ?V count 0] len by (simp add: vo_def)
    have dset: "fold (\<lambda>(off, c) v. off + v * c) (zip (replicate (length start) 0) ldims) 0 = (0 :: u64)"
      using fold_horner [of "replicate (length start) 0" ldims 0] len by (simp add: row_major_zero)
    have prods: "fold (\<lambda>l s. s * l) xs 1 = (of_nat (prod_list (map unat xs)) :: u64)" for xs by (simp add: fold_times)
    have strides: "compute_strides (of_nat (prod_list (map unat (drop ?k xs))) * t) (take ?k xs) = take ?k (compute_strides t xs)" for xs
      using strides_prefix [of t ?k xs] by (simp only: mult.commute)
    have "list_all (\<lambda>d. unat d < 2 ^ 32) (take ?k ?S)"
    proof -
      have "unat (?S ! i) < 2 ^ 32" if i: "i < length start" for i
      proof -
        have "unat (?S ! i) \<le> unat (count ! i)"
          using overlap_nth(1) [OF b i] b i by (fastforce simp: block_in_box_def)
        also have "\<dots> < 2 ^ 32" using small len(2) i by (simp only: list_all_length)
        finally show ?thesis .
      qed
      moreover have "length ?S = length start" by simp
      ultimately have "\<forall>d \<in> set ?S. unat d < 2 ^ 32" by (metis in_set_conv_nth)
      then show ?thesis unfolding list_all_iff by (blast dest: in_set_takeD)
    qed
    moreover have ne: "take ?k ?S \<noteq> []" and lenk: "length (take ?k ?S) = ?k"
      using h n(1) by (auto simp: overlap_def)
    moreover have "?k \<le> length ldims" "?k \<le> length count" using len h(4) by simp_all
    moreover have c: "of_nat (prod_list (map unat (drop ?k ?S))) * t = of_nat (prod_list (map unat (drop ?k ?S)) * ?z)"
      and base: "data + vo * t = ?base"
      unfolding t_def vo_def by simp_all
    ultimately have "copy_data e data src (take ?k ?S) ldims count (of_nat (prod_list (map unat (drop ?k count))))
        (of_nat (prod_list (map unat (drop ?k ldims)))) vo 0
        (of_nat (prod_list (map unat (drop ?k ?S)))) sz ch type m1
      = Some (fold (\<lambda>(x, y). copy_block e type (ch = adios_flag_yes) (of_nat (prod_list (map unat (drop ?k ?S)) * ?z)) (?base + x) (src + y))
          (nest_offsets (take ?k ?S) (take ?k (compute_strides t count)) (take ?k (compute_strides t ldims))) m1)"
      by (subst copy_data_fold) (simp_all only: ts' lenk strides c base mult_zero_left add_0_right not_False_eq_True)
    also have "\<dots> = Some (fold (elem_copy type (ch = adios_flag_yes)) (slice_moves ?z ldims offsets start count data src) m1)"
      using moves [OF h(4,5) unat] by (simp only:)
    finally show ?thesis
      using get h(1-3) range
      by (simp add: copy_from_block_def Let_def S ts' var dset prods sp ep [unfolded sp])
  qed
qed


section \<open>What the copy of a block leaves in memory\<close>

definition covers :: "u64 list \<Rightarrow> u64 list \<Rightarrow> u64 list \<Rightarrow> u64 list \<Rightarrow> bool" where
  "covers ldims offsets start p \<longleftrightarrow> (\<forall>i < length start.
     unat (offsets ! i) \<le> unat (start ! i) + unat (p ! i)
     \<and> unat (start ! i) + unat (p ! i) < unat (offsets ! i) + unat (ldims ! i))"

definition block_index :: "u64 list \<Rightarrow> u64 list \<Rightarrow> u64 list \<Rightarrow> u64 list \<Rightarrow> nat" where
  "block_index ldims offsets start p =
     row_major (map unat ldims) (map (\<lambda>i. unat (start ! i) + unat (p ! i) - unat (offsets ! i)) [0..<length start])"

abbreviation box_addr :: "nat \<Rightarrow> u64 \<Rightarrow> u64 list \<Rightarrow> u64 list \<Rightarrow> u64" where
  "box_addr z data count p \<equiv> data + of_nat (rm count p * z)"

lemma load_store_part:
  assumes "i + z \<le> length bs" and "length bs \<le> 2 ^ 64"
  shows "load (a + of_nat i) z (store a bs m) = take z (drop i bs)"
proof (rule nth_equalityI)
  fix v assume "v < length (load (a + of_nat i) z (store a bs m))"
  then have v: "v < z" by simp
  then have "i + v < 2 ^ 64" using assms by simp
  then have "unat (a + of_nat i + of_nat v - a) = i + v"
    by (simp add: of_nat_add [symmetric] add.assoc del: of_nat_add)
  with v assms show "load (a + of_nat i) z (store a bs m) ! v = take z (drop i bs) ! v"
    by (simp add: store_def)
qed (use assms in simp)

text \<open>The points of the box that a block covers are those of the overlap.\<close>

lemma covered_point:
  assumes "block_in_box ldims offsets start count" and "list_all2 (<) p count" and "covers ldims offsets start p"
  obtains q where "list_all2 (<) q (ov_size ldims offsets start count)"
    and "p = vector_add (ov_var ldims offsets start count) q"
proof -
  define S where "S = ov_size ldims offsets start count"
  define V where "V = ov_var ldims offsets start count"
  have len: "length p = length start" "length S = length start" "length V = length start"
    using assms(1,2) by (auto simp: block_in_box_def S_def V_def dest: list_all2_lengthD)
  define q where "q = map (\<lambda>i. p ! i - V ! i) [0..<length start]"
  have i: "V ! i \<le> p ! i \<and> unat (p ! i - V ! i) < unat (S ! i)" if "i < length start" for i
  proof -
    have "unat (p ! i) < unat (count ! i)"
      using assms(2) that len by (simp add: list_all2_conv_all_nth word_less_nat_alt)
    moreover have "unat (offsets ! i) \<le> unat (start ! i) + unat (p ! i)"
        "unat (start ! i) + unat (p ! i) < unat (offsets ! i) + unat (ldims ! i)"
      using assms(3) that by (simp_all add: covers_def)
    moreover have "unat (p ! i - V ! i) = unat (p ! i) - unat (V ! i)" if "unat (V ! i) \<le> unat (p ! i)"
      using that by (rule unat_diff_no_wrap)
    ultimately show ?thesis using overlap_nth [OF assms(1) that, folded S_def V_def]
      by (simp only: word_le_nat_alt) linarith
  qed
  show thesis
  proof (rule that [of q], fold S_def V_def)
    show "list_all2 (<) q S" using i len by (simp add: q_def list_all2_conv_all_nth word_less_nat_alt)
    show "p = vector_add V q" by (rule nth_equalityI) (simp_all add: q_def len vector_add_def)
  qed
qed

lemma overlap_point:
  assumes "block_in_box ldims offsets start count" and "list_all2 (<) q (ov_size ldims offsets start count)"
    and "p = vector_add (ov_var ldims offsets start count) q"
  shows "list_all2 (<) p count" and "covers ldims offsets start p"
    and "block_index ldims offsets start p = rm ldims (ov_dset ldims offsets start count) + rm ldims q"
    and "block_index ldims offsets start p < prod_list (map unat ldims)"
    and "rm count p = rm count (ov_var ldims offsets start count) + rm count q"
proof -
  define S where "S = ov_size ldims offsets start count"
  define D where "D = ov_dset ldims offsets start count"
  define V where "V = ov_var ldims offsets start count"
  note defs = S_def [symmetric] D_def [symmetric] V_def [symmetric]
  have len: "length q = length start" "length ldims = length start" "length count = length start"
      "length D = length start" "length V = length start"
    using assms(1) list_all2_lengthD [OF assms(2)] by (simp_all add: block_in_box_def D_def V_def)
  note fitV = fits_in_point [OF overlap_fits(2) [OF assms(1)] assms(2), unfolded defs]
  note fitD = fits_in_point [OF overlap_fits(1) [OF assms(1)] assms(2), unfolded defs]
  note ov = overlap_nth [OF assms(1), unfolded defs]
  have p: "map unat p = map2 (+) (map unat V) (map unat q)" using fitV(2) by (simp only: assms(3) defs)
  then have pi: "unat (p ! i) = unat (V ! i) + unat (q ! i)" if "i < length start" for i
  proof -
    have "length p = length start" using len arg_cong [OF p, of length] by simp
    then have "unat (p ! i) = map unat p ! i" using that by simp
    also have "\<dots> = unat (V ! i) + unat (q ! i)" unfolding p using that len by simp
    finally show ?thesis .
  qed
  show "list_all2 (<) p count" using fitV(1) unfolding p [symmetric]
    by (auto simp: list_all2_conv_all_nth word_less_nat_alt)
  have qi: "unat (q ! i) < unat (S ! i)" if "i < length start" for i
    using assms(2) [unfolded defs] that len by (simp add: list_all2_conv_all_nth word_less_nat_alt)
  show "covers ldims offsets start p"
    unfolding covers_def using pi qi ov by fastforce
  have "map (\<lambda>i. unat (start ! i) + unat (p ! i) - unat (offsets ! i)) [0..<length start] = map2 (+) (map unat D) (map unat q)"
    (is "?l = ?r")
  proof (rule nth_equalityI)
    fix i assume "i < length ?l"
    then have i: "i < length start" by simp
    then show "?l ! i = ?r ! i" using len ov [OF i] pi [OF i] by simp
  qed (simp add: len)
  then have index: "block_index ldims offsets start p = row_major (map unat ldims) (map2 (+) (map unat D) (map unat q))"
    by (simp only: block_index_def)
  then show "block_index ldims offsets start p = rm ldims (ov_dset ldims offsets start count) + rm ldims q"
    unfolding defs using len by (simp add: row_major_add)
  show "block_index ldims offsets start p < prod_list (map unat ldims)"
    unfolding index by (rule row_major_less [OF fitD(1)])
  show "rm count p = rm count (ov_var ldims offsets start count) + rm count q"
    unfolding defs p using len by (simp add: row_major_add)
qed


text \<open>The buffer, wherever it is placed, and the target have no byte in common.\<close>

definition buffers_apart :: "bp_reader \<Rightarrow> nat \<Rightarrow> u64 \<Rightarrow> nat \<Rightarrow> bool" where
  "buffers_apart rd room data n \<longleftrightarrow>
     (\<forall>k. unat k \<le> room \<longrightarrow> (\<forall>u < n. \<forall>v < unat k. data + of_nat u \<noteq> rd_buff rd k + of_nat v))"

definition in_buffer :: "bp_reader \<Rightarrow> nat \<Rightarrow> u64 \<Rightarrow> bool" where
  "in_buffer rd room x \<longleftrightarrow> (\<exists>k. unat k \<le> room \<and> (\<exists>v < unat k. x = rd_buff rd k + of_nat v))"

definition block_file :: "BP_FILE \<Rightarrow> adios_index_characteristic_struct_v1 \<Rightarrow> u8 list option" where
  "block_file fh ch = (if \<not> has_subfiles fh then Some (fh_file fh) else fh_subfiles fh (ch_file_index ch))"

lemma slice_moves_addr:
  assumes "block_in_box ldims offsets start count"
  shows "slice_moves z ldims offsets start count data src
    = map (\<lambda>q. (elem_addr z data count (ov_var ldims offsets start count) 0 q, src + of_nat (rm ldims q * z)))
        (box_points (ov_size ldims offsets start count))"
proof -
  have "elem_addr z data count (ov_var ldims offsets start count) 0 q
      = data + of_nat (rm count (ov_var ldims offsets start count) * z) + of_nat (rm count q * z)"
    if "list_all2 (<) q (ov_size ldims offsets start count)" for q
  proof -
    have "length q = length start" using list_all2_lengthD [OF that] by simp
    moreover have "length count = length start" using assms by (simp add: block_in_box_def)
    ultimately have "row_major (map unat count) (map2 (+) (map unat (ov_var ldims offsets start count)) (map unat q))
        = rm count (ov_var ldims offsets start count) + rm count q"
      by (intro row_major_add) simp_all
    then show ?thesis unfolding elem_addr_row_major(1) [OF overlap_fits(2) [OF assms] that]
      by (simp only: mult_zero_left diff_zero of_nat_add distrib_right add.assoc)
  qed
  then show ?thesis by (simp add: slice_moves_def set_box_points)
qed

text \<open>The slice holds every element of the overlap and lies inside the payload.\<close>

lemma slice_bounds:
  assumes "block_in_box ldims offsets start count"
  shows "list_all2 (<) q (ov_size ldims offsets start count) \<Longrightarrow> rm ldims q * z + z \<le> slice_length z ldims offsets start count"
    and "slice_start z ldims offsets start count + slice_length z ldims offsets start count \<le> prod_list (map unat ldims) * z"
proof -
  let ?S = "ov_size ldims offsets start count" and ?D = "ov_dset ldims offsets start count"
  define l where "l = map (\<lambda>d. unat d - 1) ?S"
  have pos: "list_all (\<lambda>d. 0 < unat d) ?S" by (rule overlap_fits(3) [OF assms])
  have len: "length ldims = length start" using assms by (simp add: block_in_box_def)
  show "rm ldims q * z + z \<le> slice_length z ldims offsets start count" if q: "list_all2 (<) q ?S"
  proof -
    have "unat (q ! i) \<le> unat (?S ! i) - 1" if "i < length q" for i
      using list_all2_nthD [OF q that] by (simp add: word_less_nat_alt)
    then have "list_all2 (\<le>) (map unat q) l"
      using list_all2_lengthD [OF q] by (auto simp: list_all2_conv_all_nth l_def)
    from mult_le_mono1 [OF add_le_mono1 [OF row_major_le [OF this]], of "map unat ldims" 1 z] show ?thesis
      by (simp add: slice_length_def l_def algebra_simps)
  qed
  define last where "last = map (\<lambda>d. d - 1) ?S"
  have last: "list_all2 (<) last ?S" and l': "l = map unat last"
  proof -
    have "d - 1 < d \<and> unat (d - 1) = unat d - 1" if "d \<in> set ?S" for d :: u64
    proof -
      have "0 < unat d" using pos that unfolding list_all_iff by blast
      moreover from this have "unat (d - 1) = unat d - 1" by (subst unat_diff_no_wrap) simp_all
      ultimately show ?thesis by (simp add: word_less_nat_alt)
    qed
    moreover have "\<forall>d \<in> set xs. d - 1 < d \<and> unat (d - 1) = unat d - 1 \<Longrightarrow>
      list_all2 (<) (map (\<lambda>d. d - 1) xs) xs \<and> map (\<lambda>d. unat d - 1) xs = map unat (map (\<lambda>d. d - 1) xs)" for xs :: "u64 list"
      by (induction xs) simp_all
    ultimately show "list_all2 (<) last ?S" "l = map unat last" unfolding last_def l_def by blast+
  qed
  note p = overlap_point [OF assms last refl]
  have "rm ldims ?D + rm ldims last + 1 \<le> prod_list (map unat ldims)" using p(3,4) by simp
  from mult_le_mono1 [OF this, of z]
  show "slice_start z ldims offsets start count + slice_length z ldims offsets start count \<le> prod_list (map unat ldims) * z"
    unfolding slice_start_def slice_length_def l_def [symmetric] l' by (simp add: algebra_simps)
qed


text \<open>The bytes of an element of a block in its file.\<close>

definition stored_element ::
  "nat \<Rightarrow> u8 list \<Rightarrow> u64 \<Rightarrow> u64 list \<Rightarrow> u64 list \<Rightarrow> u64 list \<Rightarrow> u64 list \<Rightarrow> u8 list" where
  "stored_element z file payload ldims offsets start p =
     take z (drop (unat payload + block_index ldims offsets start p * z) file)"

lemma below_unat: "list_all2 (<) (map unat p) (map unat c) \<longleftrightarrow> list_all2 (<) p (c :: u64 list)"
  by (auto simp: list_all2_conv_all_nth word_less_nat_alt)

lemma sint_small: "unat w < 2 ^ 63 \<Longrightarrow> \<not> sint (w :: u64) < 0"
  using bit_last_iff [of w] not_bit_unat_less [of w 63] by simp

lemma read_block_result:
  assumes b: "block_in_box ldims offsets start count" and n: "start \<noteq> []" "length start \<le> 10"
    and small: "list_all (\<lambda>c. unat c < 2 ^ 32) count"
    and type: "sized_type type" and ts: "u64_of_int sz = of_nat (elem_size type)"
    and fl: "block_file fh ch = Some file" "length file < 2 ^ 63"
      "unat payload + prod_list (map unat ldims) * elem_size type \<le> length file"
    and data: "prod_list (map unat count) * elem_size type < 2 ^ 64"
    and apart: "buffers_apart rd room a (prod_list (map unat count) * elem_size type)"
      "prod_list (map unat ldims) * elem_size type \<le> room"
    and max: "prod_list (map unat ldims) * elem_size type \<le> read_max"
  shows "\<exists>m'. copy_from_block e change type sz ldims offsets start count (\<lambda>off k. read_slice rd fh ch (payload + off) k) a m
      = Some (Some m')
    \<and> (\<forall>p. list_all2 (<) p count \<and> covers ldims offsets start p \<longrightarrow>
        load (box_addr (elem_size type) a count p) (elem_size type) m'
        = elem_fun type (change = adios_flag_yes) (stored_element (elem_size type) file payload ldims offsets start p))
    \<and> (\<forall>x. \<not> in_buffer rd room x \<and> (\<forall>p. list_all2 (<) p count \<and> covers ldims offsets start p \<longrightarrow>
          (\<forall>u < elem_size type. x \<noteq> box_addr (elem_size type) a count p + of_nat u)) \<longrightarrow> m' x = m x)"
proof -
  let ?z = "elem_size type" and ?swap = "change = adios_flag_yes"
  let ?S = "ov_size ldims offsets start count" and ?V = "ov_var ldims offsets start count"
  define P where "P = slice_start ?z ldims offsets start count"
  define N where "N = slice_length ?z ldims offsets start count"
  define src where "src = rd_buff rd (of_nat N)"
  define bytes where "bytes = take N (drop (unat payload + P) file)"
  let ?mvs = "slice_moves ?z ldims offsets start count a src"
  note bound = slice_bounds [OF b, where z = ?z, folded P_def N_def]
  have vol: "prod_list (map unat ldims) * ?z < 2 ^ 63" "unat payload + (P + N) \<le> length file" using fl bound(2) by linarith+
  have N: "unat (of_nat N :: u64) = N" "unat (of_nat N :: u64) \<le> room" "N < 2 ^ 63"
    using bound(2) vol apart(2) by (auto simp: unat_of_nat_small)
  have len: "length bytes = N" using vol(2) by (simp add: bytes_def)
  have "unat (payload + of_nat P) = unat payload + P"
    using vol(2) fl(2) by (subst unat_add_no_wrap) (simp_all add: unat_of_nat_small)
  then have get: "read_slice rd fh ch (payload + of_nat P) (of_nat N) m = Some (Some (src, store src bytes m))"
    using fl(1,2) vol(2) N(1) MPI_File_read_all [of "of_nat N" "file" "payload + of_nat P"] bound(2) max
    by (simp add: read_slice_def block_file_def src_def bytes_def Let_def sint_small)
  define P' where "P' q = vector_add ?V q" for q
  have mvs: "?mvs = map (\<lambda>q. (box_addr ?z a count (P' q), src + of_nat (rm ldims q * ?z))) (box_points ?S)"
    unfolding slice_moves_def P'_def using overlap_point(5) [OF b _ refl] by (auto simp: set_box_points algebra_simps)
  have in_data: "rm count (P' q) * ?z + u < prod_list (map unat count) * ?z" if "list_all2 (<) q ?S" "u < ?z" for q u
  proof -
    have "list_all2 (<) (map unat (P' q)) (map unat count)"
      using overlap_point(1) [OF b that(1) refl] by (simp add: P'_def below_unat)
    from radix_less [OF row_major_less [OF this] that(2)] show ?thesis .
  qed
  have separate: "apart ?z (box_addr ?z a count (P' q)) (src + of_nat (rm ldims q' * ?z))"
    if q: "list_all2 (<) q ?S" "list_all2 (<) q' ?S" for q q'
    unfolding apart_def
  proof (intro allI impI)
    fix u v assume uv: "u < ?z" "v < ?z"
    have "rm ldims q' * ?z + v < unat (of_nat N :: u64)" using bound(1) [OF q(2)] uv(2) unfolding N(1) by linarith
    from apart(1) [unfolded buffers_apart_def, rule_format, OF N(2) in_data [OF q(1) uv(1)] this]
    have "a + of_nat (rm count (P' q) * ?z + u) \<noteq> src + of_nat (rm ldims q' * ?z + v)" unfolding src_def .
    then show "box_addr ?z a count (P' q) + of_nat u \<noteq> src + of_nat (rm ldims q' * ?z) + of_nat v"
      by (simp only: of_nat_add add.assoc) simp
  qed
  have order: "in_order ?z ?mvs" unfolding mvs sorted_wrt_map
    by (rule sorted_wrt_distinct [OF distinct_box_points]) (use separate in \<open>simp add: set_box_points\<close>)
  have dst: "sorted_wrt (\<lambda>x y. apart ?z (fst x) (fst y)) ?mvs"
    unfolding slice_moves_addr [OF b] by (rule addr_sorted_apart [OF overlap_fits(2) [OF b] data])
  have whole: "copy_from_block e change type sz ldims offsets start count (\<lambda>off k. read_slice rd fh ch (payload + off) k) a m
      = Some (Some (fold (elem_copy type ?swap) ?mvs (store src bytes m)))"
    by (rule copy_from_block_moves [where get_slice = "\<lambda>off k. read_slice rd fh ch (payload + off) k",
        OF b n small type ts _ get [unfolded P_def N_def] order]) (use vol(1) in simp)
  have elem: "load (box_addr ?z a count (P' q)) ?z (fold (elem_copy type ?swap) ?mvs (store src bytes m))
      = elem_fun type ?swap (stored_element ?z file payload ldims offsets start (P' q))" if q: "list_all2 (<) q ?S" for q
  proof -
    have "load (src + of_nat (rm ldims q * ?z)) ?z (store src bytes m) = take ?z (drop (rm ldims q * ?z) bytes)"
      by (rule load_store_part) (use bound(1) [OF q] len N(3) in simp_all)
    also have "\<dots> = stored_element ?z file payload ldims offsets start (P' q)"
      using bound(1) [OF q] overlap_point(3) [OF b q refl]
      by (simp add: stored_element_def P'_def bytes_def P_def slice_start_def drop_take min_absorb1 algebra_simps)
    finally show ?thesis
      using fold_elem_copy_load [OF _ order dst, of "(box_addr ?z a count (P' q), src + of_nat (rm ldims q * ?z))"] type q
      by (simp add: mvs set_box_points)
  qed
  have frame: "fold (elem_copy type ?swap) ?mvs (store src bytes m) x = m x"
    if x: "\<not> in_buffer rd room x" "\<forall>p. list_all2 (<) p count \<and> covers ldims offsets start p \<longrightarrow> (\<forall>u < ?z. x \<noteq> box_addr ?z a count p + of_nat u)" for x
  proof -
    have "fold (elem_copy type ?swap) ?mvs (store src bytes m) x = store src bytes m x"
      by (rule fold_elem_copy_frame) (use x(2) overlap_point(1,2) [OF b _ refl] in \<open>auto simp: mvs set_box_points P'_def\<close>)
    also have "\<not> unat (x - src) < N"
    proof
      assume "unat (x - src) < N"
      moreover have "x = src + of_nat (unat (x - src))" by simp
      ultimately have "in_buffer rd room x" unfolding in_buffer_def src_def using N(1,2) by metis
      with x(1) show False ..
    qed
    then have "store src bytes m x = m x" by (simp add: store_out len)
    finally show ?thesis .
  qed
  have "load (box_addr ?z a count p) ?z (fold (elem_copy type ?swap) ?mvs (store src bytes m))
      = elem_fun type ?swap (stored_element ?z file payload ldims offsets start p)"
    if p: "list_all2 (<) p count" "covers ldims offsets start p" for p
  proof -
    obtain q where "list_all2 (<) q ?S" "p = P' q" using covered_point [OF b p] unfolding P'_def by metis
    then show ?thesis using elem by simp
  qed
  with whole frame show ?thesis by blast
qed


section \<open>All blocks of a step\<close>

text \<open>The local dimensions and offsets of a block, without the time dimension.\<close>

definition block_of :: "BP_FILE \<Rightarrow> nat \<Rightarrow> adios_index_characteristic_struct_v1 \<Rightarrow> u64 list \<times> u64 list" where
  "block_of fh n ch = (case bp_get_dimension_characteristics_notime ch (is_fortran_file fh) of
     None \<Rightarrow> ([], []) | Some (_, ldims, _, offsets) \<Rightarrow> (take n ldims, take n offsets))"

text \<open>
  A block of a global array that holds the box, with its payload in a file that can be opened.
  \<open>room\<close> bounds the bytes of its payload, which one \<open>MPI_File_read\<close> can transfer (at most
  \<open>0x7ffff000\<close>, just below 2 GB).
\<close>

definition good_block ::
  "BP_FILE \<Rightarrow> nat \<Rightarrow> nat \<Rightarrow> u64 list \<Rightarrow> u64 list \<Rightarrow> adios_index_characteristic_struct_v1 \<Rightarrow> bool" where
  "good_block fh z room start count ch \<longleftrightarrow>
     (case bp_get_dimension_characteristics_notime ch (is_fortran_file fh) of
        None \<Rightarrow> False
      | Some (is_global, ldims, gdims, offsets) \<Rightarrow>
          is_global \<and> length start \<le> length ldims \<and> length start \<le> length offsets
          \<and> (\<forall>i < length start. no_wrap (offsets ! i) (ldims ! i)
               \<and> unat (start ! i) + unat (count ! i) \<le> unat (gdims ! i))
          \<and> prod_list (map unat (take (length start) ldims)) * z \<le> room
          \<and> prod_list (map unat (take (length start) ldims)) * z \<le> read_max
          \<and> (case block_file fh ch of None \<Rightarrow> False | Some file \<Rightarrow> length file < 2 ^ 63
               \<and> unat (ch_payload_offset ch) + prod_list (map unat (take (length start) ldims)) * z \<le> length file))
     \<and> 0 < ch_payload_offset ch"

text \<open>What a block holds at a point of the box, and what several blocks leave there: the last one that holds it wins.\<close>

definition block_value ::
  "BP_FILE \<Rightarrow> ADIOS_DATATYPES \<Rightarrow> u64 list \<Rightarrow> u64 list \<Rightarrow> adios_index_characteristic_struct_v1 \<Rightarrow> u8 list option" where
  "block_value fh type start p ch =
     (let (ldims, offsets) = block_of fh (length start) ch in
      if covers ldims offsets start p
      then Some (elem_fun type (fh_change_endianness fh = adios_flag_yes)
             (stored_element (elem_size type) (the (block_file fh ch)) (ch_payload_offset ch) ldims offsets start p))
      else None)"

definition blocks_value ::
  "BP_FILE \<Rightarrow> ADIOS_DATATYPES \<Rightarrow> u64 list \<Rightarrow> u64 list \<Rightarrow> adios_index_characteristic_struct_v1 list \<Rightarrow> u8 list \<Rightarrow> u8 list" where
  "blocks_value fh type start p chs old =
     fold (\<lambda>ch v. case block_value fh type start p ch of None \<Rightarrow> v | Some bytes \<Rightarrow> bytes) chs old"

definition box_ok :: "u64 list \<Rightarrow> u64 list \<Rightarrow> bool" where
  "box_ok start count \<longleftrightarrow> start \<noteq> [] \<and> length start \<le> 10 \<and> length count = length start
     \<and> list_all (\<lambda>c. unat c < 2 ^ 32) count \<and> (\<forall>i < length start. no_wrap (start ! i) (count ! i))"

abbreviation box_volume :: "ADIOS_DATATYPES \<Rightarrow> u64 list \<Rightarrow> nat" where
  "box_volume type count \<equiv> prod_list (map unat count) * elem_size type"

lemma box_byte:
  assumes "list_all2 (<) p count" and "u < z"
  shows "rm count p * z + u < prod_list (map unat count) * z"
  using assms below_unat [of p count] by (intro radix_less row_major_less) simp_all

lemma load_eqI: "(\<And>u. u < z \<Longrightarrow> m' (a + of_nat u) = m (a + of_nat u)) \<Longrightarrow> load a z m' = load a z m"
  by (rule nth_equalityI) simp_all

lemma box_addr_inj:
  assumes "list_all2 (<) p count" and "list_all2 (<) q count" and "u < z" and "v < z"
    and "prod_list (map unat count) * z \<le> 2 ^ 64"
    and "box_addr z a count p + of_nat u = box_addr z a count q + of_nat v"
  shows "p = q"
proof -
  have "(of_nat (rm count p * z + u) :: u64) = of_nat (rm count q * z + v)"
    using assms(6) by (simp add: add.assoc)
  then have eq: "rm count p * z + u = rm count q * z + v"
    using box_byte [OF assms(1,3)] box_byte [OF assms(2,4)] assms(5) by (subst (asm) of_nat_u64_eq) simp_all
  have "rm count p = (rm count p * z + u) div z" using assms(3) by simp
  also have "\<dots> = rm count q" unfolding eq using assms(4) by simp
  finally have "map unat p = map unat q"
    using assms(1,2) by (intro row_major_inj [of _ "map unat count"]) (simp_all add: below_unat)
  then show ?thesis by (simp add: map_unat_inject)
qed

lemma box_not_buffer:
  assumes "buffers_apart rd room a (prod_list (map unat count) * z)" and "list_all2 (<) p count" and "u < z"
  shows "\<not> in_buffer rd room (box_addr z a count p + of_nat u)"
proof
  assume "in_buffer rd room (box_addr z a count p + of_nat u)"
  then obtain k v where kv: "unat k \<le> room" "v < unat k" "box_addr z a count p + of_nat u = rd_buff rd k + of_nat v"
    unfolding in_buffer_def by blast
  have "a + of_nat (rm count p * z + u) \<noteq> rd_buff rd k + of_nat v"
    using assms(1) box_byte [OF assms(2,3)] kv(1,2) unfolding buffers_apart_def by blast
  with kv(3) show False by (simp add: add.assoc)
qed

lemma box_window:
  assumes "list_all2 (<) p count" and "u < z" and "prod_list (map unat count) * z \<le> 2 ^ 64"
  shows "unat (box_addr z a count p + of_nat u - a) = rm count p * z + u"
proof -
  have "unat (of_nat (rm count p * z + u) :: u64) = rm count p * z + u"
    using box_byte [OF assms(1,2)] assms(3) by (intro unat_of_nat_small) simp
  moreover have "box_addr z a count p + of_nat u - a = of_nat (rm count p * z + u)" by simp
  ultimately show ?thesis by simp
qed

text \<open>One block: the points it holds are read, everything else but the buffer stays.\<close>

lemma good_block_result:
  assumes good: "good_block fh (elem_size type) room start count ch" and box: "box_ok start count"
    and type: "sized_type type" and ts: "u64_of_int sz = of_nat (elem_size type)"
    and data: "box_volume type count < 2 ^ 64" and apart: "buffers_apart rd room a (box_volume type count)"
  shows "\<exists>m'. read_blocks rd fh type sz start count a (ch # chs) (m, errno)
        = read_blocks rd fh type sz start count a chs (m', errno)
    \<and> (\<forall>p. list_all2 (<) p count \<longrightarrow> load (box_addr (elem_size type) a count p) (elem_size type) m'
        = blocks_value fh type start p [ch] (load (box_addr (elem_size type) a count p) (elem_size type) m))
    \<and> (\<forall>x. \<not> in_buffer rd room x \<and> \<not> unat (x - a) < box_volume type count \<longrightarrow> m' x = m x)"
proof -
  let ?z = "elem_size type" and ?n = "length start"
  obtain ldims0 gdims offsets0 f where
    dims: "bp_get_dimension_characteristics_notime ch (is_fortran_file fh) = Some (True, ldims0, gdims, offsets0)"
    and len: "?n \<le> length ldims0" "?n \<le> length offsets0"
    and wrap: "\<And>i. i < ?n \<Longrightarrow> no_wrap (offsets0 ! i) (ldims0 ! i) \<and> unat (start ! i) + unat (count ! i) \<le> unat (gdims ! i)"
    and room: "prod_list (map unat (take ?n ldims0)) * ?z \<le> room" "prod_list (map unat (take ?n ldims0)) * ?z \<le> read_max"
    and fl: "block_file fh ch = Some f" "length f < 2 ^ 63"
      "unat (ch_payload_offset ch) + prod_list (map unat (take ?n ldims0)) * ?z \<le> length f"
    and payload: "0 < ch_payload_offset ch"
    using good unfolding good_block_def by (auto split: option.splits)
  define ldims where "ldims = take ?n ldims0"
  define offsets where "offsets = take ?n offsets0"
  have nth: "ldims ! i = ldims0 ! i" "offsets ! i = offsets0 ! i" if "i < ?n" for i
    using that by (simp_all add: ldims_def offsets_def)
  have len': "length ldims = ?n" "length offsets = ?n" "length count = ?n"
    using len box by (simp_all add: ldims_def offsets_def box_ok_def)
  have box': "start \<noteq> []" "?n \<le> 10" "list_all (\<lambda>c. unat c < 2 ^ 32) count" "\<And>i. i < ?n \<Longrightarrow> no_wrap (start ! i) (count ! i)"
    using box by (simp_all add: box_ok_def)
  have inside: "\<not> beyond (start ! i) (count ! i) (take ?n gdims ! i)" if i: "i < ?n" for i
  proof -
    have "unat (start ! i + count ! i) = unat (start ! i) + unat (count ! i)"
      using box'(4) [OF i] by (simp add: unat_add_no_wrap)
    then show ?thesis using wrap [OF i] i by (simp add: beyond_def word_less_nat_alt)
  qed
  define reach where "reach \<longleftrightarrow> list_all (\<lambda>j. in_reach (offsets ! j) (ldims ! j) (start ! j) (count ! j)) [0..<?n]"
  have reach: "reach \<longleftrightarrow> (\<forall>i < ?n. common (unat (offsets ! i)) (unat (ldims ! i)) (unat (start ! i)) (unat (count ! i)))"
    unfolding reach_def list_all_iff using in_reach_common wrap box'(4) nth by auto
  let ?read = "if reach then copy_from_block (rd_endian rd) (fh_change_endianness fh) type sz ldims offsets start count
      (\<lambda>off k. read_slice rd fh ch (ch_payload_offset ch + off) k) a m else Some (Some m)"
  have step: "read_blocks rd fh type sz start count a (ch # chs) (m, errno)
      = read_blocks rd fh type sz start count a chs (m', errno)" if "?read = Some (Some m')" for m'
    using that dims len payload inside
    by (cases reach) (simp_all add: Let_def list_ex_iff ldims_def [symmetric] offsets_def [symmetric] reach_def [symmetric])
  have val: "block_value fh type start p ch = (if covers ldims offsets start p
      then Some (elem_fun type (fh_change_endianness fh = adios_flag_yes) (stored_element ?z f (ch_payload_offset ch) ldims offsets start p))
      else None)" for p
    by (simp add: block_value_def block_of_def dims ldims_def offsets_def fl(1))
  show ?thesis
  proof (cases reach)
    case True
    then have b: "block_in_box ldims offsets start count"
      using reach len' wrap box'(4) nth by (simp add: block_in_box_def)
    obtain m' where m': "copy_from_block (rd_endian rd) (fh_change_endianness fh) type sz ldims offsets start count
          (\<lambda>off k. read_slice rd fh ch (ch_payload_offset ch + off) k) a m = Some (Some m')"
      and elem: "\<And>p. list_all2 (<) p count \<Longrightarrow> covers ldims offsets start p \<Longrightarrow> load (box_addr ?z a count p) ?z m'
          = elem_fun type (fh_change_endianness fh = adios_flag_yes) (stored_element ?z f (ch_payload_offset ch) ldims offsets start p)"
      and frame: "\<And>x. \<not> in_buffer rd room x \<Longrightarrow> (\<And>p u. list_all2 (<) p count \<Longrightarrow> covers ldims offsets start p \<Longrightarrow>
          u < ?z \<Longrightarrow> x \<noteq> box_addr ?z a count p + of_nat u) \<Longrightarrow> m' x = m x"
      using read_block_result [OF b box'(1-3) type ts fl [folded ldims_def] data apart room [folded ldims_def],
          of "rd_endian rd" "fh_change_endianness fh" m] by blast
    have "load (box_addr ?z a count p) ?z m' = load (box_addr ?z a count p) ?z m"
      if p: "list_all2 (<) p count" "\<not> covers ldims offsets start p" for p
    proof (rule load_eqI)
      fix u assume u: "u < ?z"
      show "m' (box_addr ?z a count p + of_nat u) = m (box_addr ?z a count p + of_nat u)"
        by (rule frame) (use box_not_buffer [OF apart p(1) u] box_addr_inj [OF p(1) _ u] p data in \<open>auto dest: less_imp_le\<close>)
    qed
    moreover have "m' x = m x" if "\<not> in_buffer rd room x" "\<not> unat (x - a) < box_volume type count" for x
      by (rule frame [OF that(1)]) (use that(2) box_window box_byte data in \<open>metis less_imp_le\<close>)
    ultimately show ?thesis using step m' True elem val
      by (intro exI [of _ m']) (auto simp: blocks_value_def)
  next
    case False
    have "\<not> covers ldims offsets start p" if "list_all2 (<) p count" for p
    proof
      assume c: "covers ldims offsets start p"
      have "common (unat (offsets ! i)) (unat (ldims ! i)) (unat (start ! i)) (unat (count ! i))" if i: "i < ?n" for i
      proof -
        have "unat (p ! i) < unat (count ! i)"
          using list_all2_nthD2 [OF \<open>list_all2 (<) p count\<close>] i len' by (simp add: word_less_nat_alt)
        then show ?thesis using c i unfolding covers_def by fastforce
      qed
      with reach False show False by blast
    qed
    then show ?thesis using step [of m] False val
      by (intro exI [of _ m]) (auto simp: blocks_value_def)
  qed
qed


lemma good_blocks_result:
  assumes good: "list_all (good_block fh (elem_size type) room start count) chs" and box: "box_ok start count"
    and type: "sized_type type" and ts: "u64_of_int sz = of_nat (elem_size type)"
    and data: "box_volume type count < 2 ^ 64" and apart: "buffers_apart rd room a (box_volume type count)"
  shows "\<exists>m'. read_blocks rd fh type sz start count a chs (m, errno) = Some (True, m', errno)
    \<and> (\<forall>p. list_all2 (<) p count \<longrightarrow> load (box_addr (elem_size type) a count p) (elem_size type) m'
        = blocks_value fh type start p chs (load (box_addr (elem_size type) a count p) (elem_size type) m))
    \<and> (\<forall>x. \<not> in_buffer rd room x \<and> \<not> unat (x - a) < box_volume type count \<longrightarrow> m' x = m x)"
  using good
proof (induction chs arbitrary: m)
  case Nil
  then show ?case by (simp add: blocks_value_def)
next
  case (Cons ch chs)
  from Cons.prems have ch: "good_block fh (elem_size type) room start count ch" by simp
  obtain m1 where m1: "read_blocks rd fh type sz start count a (ch # chs) (m, errno)
        = read_blocks rd fh type sz start count a chs (m1, errno)"
      "\<And>p. list_all2 (<) p count \<Longrightarrow> load (box_addr (elem_size type) a count p) (elem_size type) m1
        = blocks_value fh type start p [ch] (load (box_addr (elem_size type) a count p) (elem_size type) m)"
      "\<And>x. \<not> in_buffer rd room x \<Longrightarrow> \<not> unat (x - a) < box_volume type count \<Longrightarrow> m1 x = m x"
    using good_block_result [OF ch box type ts data apart, where m = m and errno = errno and chs = chs] by blast
  from Cons.IH [of m1] Cons.prems obtain m2 where
    "read_blocks rd fh type sz start count a chs (m1, errno) = Some (True, m2, errno)"
      "\<And>p. list_all2 (<) p count \<Longrightarrow> load (box_addr (elem_size type) a count p) (elem_size type) m2
        = blocks_value fh type start p chs (load (box_addr (elem_size type) a count p) (elem_size type) m1)"
      "\<And>x. \<not> in_buffer rd room x \<Longrightarrow> \<not> unat (x - a) < box_volume type count \<Longrightarrow> m2 x = m1 x"
    by auto
  with m1 show ?case by (intro exI [of _ m2]) (simp add: blocks_value_def)
qed

text \<open>The time index of a step, and the blocks written at it.\<close>

definition step_time :: "ADIOS_FILE \<Rightarrow> adios_index_var_struct_v1 \<Rightarrow> int \<Rightarrow> u32" where
  "step_time fp v t = (if \<not> fp_streaming fp then get_time v t else fh_tidx_start (fp_fh fp) + of_int t)"

definition step_blocks :: "ADIOS_FILE \<Rightarrow> adios_index_var_struct_v1 \<Rightarrow> int \<Rightarrow> adios_index_characteristic_struct_v1 list" where
  "step_blocks fp v t = filter (\<lambda>ch. ch_time_index ch = step_time fp v t) (v_characteristics v)"

lemma filter_range:
  assumes "{i. i < length xs \<and> P (xs ! i)} = {p..q}" and "q < length xs"
  shows "filter P xs = map ((!) xs) [p..<Suc q]"
proof -
  have "filter P xs = map ((!) xs) (filter (\<lambda>i. P (xs ! i)) [0..<length xs])"
  proof -
    have "filter P (map ((!) xs) [0..<length xs]) = map ((!) xs) (filter (P \<circ> (!) xs) [0..<length xs])" by (rule filter_map)
    then show ?thesis by (simp only: map_nth comp_def)
  qed
  also have "filter (\<lambda>i. P (xs ! i)) [0..<length xs] = [p..<Suc q]"
  proof (rule sorted_distinct_set_unique)
    have "set (filter (\<lambda>i. P (xs ! i)) [0..<length xs]) = {i. i < length xs \<and> P (xs ! i)}" by auto
    also have "\<dots> = {p..q}" by (rule assms(1))
    also have "\<dots> = set [p..<Suc q]" by auto
    finally show "set (filter (\<lambda>i. P (xs ! i)) [0..<length xs]) = set [p..<Suc q]" .
  qed (simp_all add: sorted_wrt_filter del: upt_Suc)
  finally show ?thesis .
qed

lemma step_blocks_range:
  assumes "sorted (time_indexes v)" and "good_var v" and "step_time fp v t \<in> set (time_indexes v)"
  shows "0 \<le> get_var_start_index v (step_time fp v t)" and "0 \<le> get_var_stop_index v (step_time fp v t)"
    and "map (\<lambda>i. v_characteristics v ! nat i)
        [get_var_start_index v (step_time fp v t)..get_var_stop_index v (step_time fp v t)] = step_blocks fp v t"
proof -
  let ?t = "step_time fp v t"
  have ts: "time_indexes v = map ch_time_index (v_characteristics v)"
    using assms(2) by (simp add: time_indexes_def good_var_def)
  obtain p q where pq: "get_var_start_index v ?t = int p" "get_var_stop_index v ?t = int q" "p \<le> q"
      "q < length (time_indexes v)" "{i. i < length (time_indexes v) \<and> time_indexes v ! i = ?t} = {p..q}"
    using step_indexes [OF assms(1,3)] .
  then show "0 \<le> get_var_start_index v ?t" "0 \<le> get_var_stop_index v ?t" by simp_all
  have "step_blocks fp v t = map ((!) (v_characteristics v)) [p..<Suc q]"
    unfolding step_blocks_def by (rule filter_range) (use pq(4,5) ts in \<open>auto cong: conj_cong\<close>)
  also have "\<dots> = map (\<lambda>i. v_characteristics v ! nat i) (map int [p..<Suc q])" by simp
  also have "map int [p..<Suc q] = [int p..int q]" 
    using pq(3) by (intro nth_equalityI) (simp_all add: nth_upto nat_diff_distrib' del: upt_Suc)
  finally show "map (\<lambda>i. v_characteristics v ! nat i) [get_var_start_index v ?t..get_var_stop_index v ?t] = step_blocks fp v t"
    by (simp add: pq(1,2))
qed


lemma read_step_result:
  assumes v: "sorted (time_indexes v)" "good_var v" "step_time fp v t \<in> set (time_indexes v)"
    and good: "list_all (good_block (fp_fh fp) (elem_size (v_type v)) room start count) (step_blocks fp v t)"
    and box: "box_ok start count" and type: "sized_type (v_type v)"
    and ts: "u64_of_int (rs_size_of_type s) = of_nat (elem_size (v_type v))"
    and data: "box_volume (v_type v) count < 2 ^ 64"
    and apart: "buffers_apart rd room (rs_data s) (box_volume (v_type v) count)"
  shows "\<exists>m'. read_step rd fp v start count t s
      = Some (True, s\<lparr>rs_mem := m', rs_data := rs_data s + of_nat (box_volume (v_type v) count)\<rparr>)
    \<and> (\<forall>p. list_all2 (<) p count \<longrightarrow> load (box_addr (elem_size (v_type v)) (rs_data s) count p) (elem_size (v_type v)) m'
        = blocks_value (fp_fh fp) (v_type v) start p (step_blocks fp v t)
            (load (box_addr (elem_size (v_type v)) (rs_data s) count p) (elem_size (v_type v)) (rs_mem s)))
    \<and> (\<forall>x. \<not> in_buffer rd room x \<and> \<not> unat (x - rs_data s) < box_volume (v_type v) count \<longrightarrow> m' x = rs_mem s x)"
proof -
  note range = step_blocks_range [OF v]
  obtain m' where m': "read_blocks rd (fp_fh fp) (v_type v) (rs_size_of_type s) start count (rs_data s) (step_blocks fp v t)
        (rs_mem s, rs_errno s) = Some (True, m', rs_errno s)"
      "\<forall>p. list_all2 (<) p count \<longrightarrow> load (box_addr (elem_size (v_type v)) (rs_data s) count p) (elem_size (v_type v)) m'
        = blocks_value (fp_fh fp) (v_type v) start p (step_blocks fp v t)
            (load (box_addr (elem_size (v_type v)) (rs_data s) count p) (elem_size (v_type v)) (rs_mem s))"
      "\<forall>x. \<not> in_buffer rd room x \<and> \<not> unat (x - rs_data s) < box_volume (v_type v) count \<longrightarrow> m' x = rs_mem s x"
    using good_blocks_result [OF good box type ts data apart, of "rs_mem s" "rs_errno s"] by blast
  have "start \<noteq> []" using box by (simp add: box_ok_def)
  moreover have "fold (\<lambda>c n. n * c) count 1 * of_nat (elem_size (v_type v)) = (of_nat (box_volume (v_type v) count) :: u64)"
    by (simp only: fold_times mult_1 of_nat_mult)
  ultimately have "read_step rd fp v start count t s
      = Some (True, s\<lparr>rs_mem := m', rs_data := rs_data s + of_nat (box_volume (v_type v) count)\<rparr>)"
    using range m'(1) by (simp add: read_step_def Let_def step_time_def [symmetric] ts del: of_nat_mult)
  with m'(2,3) show ?thesis by blast
qed

lemma apart_window:
  assumes "buffers_apart rd room a n" and "unat (x - a) < n"
  shows "\<not> in_buffer rd room x"
proof
  assume "in_buffer rd room x"
  then obtain k v where "unat k \<le> room" "v < unat k" "x = rd_buff rd k + of_nat v" unfolding in_buffer_def by blast
  moreover have "x = a + of_nat (unat (x - a))" by simp
  ultimately show False using assms unfolding buffers_apart_def by metis
qed

lemma step_byte:
  assumes "list_all2 (<) p count" and "u < z" and "k < n" and "V = prod_list (map unat count) * z" and "n * V < 2 ^ 64"
  shows "unat (box_addr z (a + of_nat (k * V)) count p + of_nat u - a) = k * V + (rm count p * z + u)"
    and "k * V + (rm count p * z + u) < n * V"
proof -
  have "rm count p * z + u < V" using box_byte [OF assms(1,2)] assms(4) by simp
  from radix_less [OF assms(3) this] show less: "k * V + (rm count p * z + u) < n * V" .
  then have "unat (of_nat (k * V + (rm count p * z + u)) :: u64) = k * V + (rm count p * z + u)"
    using assms(5) by (intro unat_of_nat_small) simp
  moreover have "box_addr z (a + of_nat (k * V)) count p + of_nat u - a = of_nat (k * V + (rm count p * z + u))"
    by simp
  ultimately show "unat (box_addr z (a + of_nat (k * V)) count p + of_nat u - a) = k * V + (rm count p * z + u)" by simp
qed

text \<open>All steps: their boxes lie one behind the other.\<close>

lemma read_steps_result:
  assumes v: "sorted (time_indexes v)" "good_var v"
    and steps: "\<And>t. t \<in> set ts \<Longrightarrow> step_time fp v t \<in> set (time_indexes v)
        \<and> list_all (good_block (fp_fh fp) (elem_size (v_type v)) room start count) (step_blocks fp v t)"
    and box: "box_ok start count" and type: "sized_type (v_type v)"
    and ts: "u64_of_int (rs_size_of_type s) = of_nat (elem_size (v_type v))"
    and data: "length ts * box_volume (v_type v) count < 2 ^ 64"
    and apart: "buffers_apart rd room (rs_data s) (length ts * box_volume (v_type v) count)"
  shows "\<exists>s'. read_steps rd fp v start count ts s = Some (True, s') \<and> rs_errno s' = rs_errno s
    \<and> (\<forall>k < length ts. \<forall>p. list_all2 (<) p count \<longrightarrow>
        load (box_addr (elem_size (v_type v)) (rs_data s + of_nat (k * box_volume (v_type v) count)) count p) (elem_size (v_type v)) (rs_mem s')
        = blocks_value (fp_fh fp) (v_type v) start p (step_blocks fp v (ts ! k))
            (load (box_addr (elem_size (v_type v)) (rs_data s + of_nat (k * box_volume (v_type v) count)) count p) (elem_size (v_type v)) (rs_mem s)))
    \<and> (\<forall>x. \<not> in_buffer rd room x \<and> \<not> unat (x - rs_data s) < length ts * box_volume (v_type v) count \<longrightarrow> rs_mem s' x = rs_mem s x)"
  using steps ts data apart
proof (induction ts arbitrary: s)
  case (Cons t ts)
  let ?V = "box_volume (v_type v) count" and ?z = "elem_size (v_type v)"
  have V: "?V + length ts * ?V < 2 ^ 64" using Cons.prems(3) by simp
  have apart1: "buffers_apart rd room (rs_data s) ?V"
    using Cons.prems(4) unfolding buffers_apart_def by (auto intro: less_le_trans)
  obtain m1 where m1: "read_step rd fp v start count t s = Some (True, s\<lparr>rs_mem := m1, rs_data := rs_data s + of_nat ?V\<rparr>)"
      "\<And>p. list_all2 (<) p count \<Longrightarrow> load (box_addr ?z (rs_data s) count p) ?z m1
        = blocks_value (fp_fh fp) (v_type v) start p (step_blocks fp v t) (load (box_addr ?z (rs_data s) count p) ?z (rs_mem s))"
      "\<And>x. \<not> in_buffer rd room x \<Longrightarrow> \<not> unat (x - rs_data s) < ?V \<Longrightarrow> m1 x = rs_mem s x"
    using read_step_result [OF v _ _ box type Cons.prems(2) _ apart1, where t = t and fp = fp] Cons.prems(1) [of t] V by auto
  let ?a = "rs_data s" and ?s1 = "s\<lparr>rs_mem := m1, rs_data := rs_data s + of_nat ?V\<rparr>" and ?n = "Suc (length ts)"
  have later: "unat (x - (?a + of_nat ?V)) < length ts * ?V \<longleftrightarrow> ?V \<le> unat (x - ?a) \<and> unat (x - ?a) < ?n * ?V" for x
    using window_iff [of ?V "length ts * ?V" x ?a] V by simp
  have apart2: "buffers_apart rd room (?a + of_nat ?V) (length ts * ?V)"
    unfolding buffers_apart_def
  proof (intro allI impI)
    fix k :: u64 and u v assume "unat k \<le> room" "u < length ts * ?V" "v < unat k"
    then have "?a + of_nat (?V + u) \<noteq> rd_buff rd k + of_nat v"
      using Cons.prems(4) [unfolded buffers_apart_def, rule_format, of k "?V + u" v] by simp
    then show "?a + of_nat ?V + of_nat u \<noteq> rd_buff rd k + of_nat v" by (simp only: of_nat_add add.assoc) simp
  qed
  obtain s2 where s2: "read_steps rd fp v start count ts ?s1 = Some (True, s2)" "rs_errno s2 = rs_errno s"
      "\<And>k p. k < length ts \<Longrightarrow> list_all2 (<) p count \<Longrightarrow>
        load (box_addr ?z (?a + of_nat ?V + of_nat (k * ?V)) count p) ?z (rs_mem s2)
        = blocks_value (fp_fh fp) (v_type v) start p (step_blocks fp v (ts ! k))
            (load (box_addr ?z (?a + of_nat ?V + of_nat (k * ?V)) count p) ?z m1)"
      "\<And>x. \<not> in_buffer rd room x \<Longrightarrow> \<not> unat (x - (?a + of_nat ?V)) < length ts * ?V \<Longrightarrow> rs_mem s2 x = m1 x"
    using Cons.IH [of ?s1] Cons.prems(1,2) V apart2 by (auto simp del: of_nat_mult)
  have byte: "unat (box_addr ?z (?a + of_nat (k * ?V)) count p + of_nat u - ?a) = k * ?V + (rm count p * ?z + u)
      \<and> \<not> in_buffer rd room (box_addr ?z (?a + of_nat (k * ?V)) count p + of_nat u)"
    if "list_all2 (<) p count" "u < ?z" "k < ?n" for k p u
  proof -
    have "?n * ?V < 2 ^ 64" using Cons.prems(3) by simp
    note b = step_byte(1) [OF that refl this, of ?a] step_byte(2) [OF that refl this]
    have "buffers_apart rd room ?a (?n * ?V)" using Cons.prems(4) by simp
    from apart_window [OF this] b show ?thesis by simp
  qed
  have "load (box_addr ?z (?a + of_nat (k * ?V)) count p) ?z (rs_mem s2)
      = blocks_value (fp_fh fp) (v_type v) start p (step_blocks fp v ((t # ts) ! k))
          (load (box_addr ?z (?a + of_nat (k * ?V)) count p) ?z (rs_mem s))"
    if k: "k < ?n" and p: "list_all2 (<) p count" for k p
  proof (cases k)
    case 0
    have "load (box_addr ?z ?a count p) ?z (rs_mem s2) = load (box_addr ?z ?a count p) ?z m1"
    proof (rule load_eqI, rule s2(4))
      fix u assume u: "u < ?z"
      note b = byte [OF p u, of 0, simplified]
      show "\<not> in_buffer rd room (box_addr ?z ?a count p + of_nat u)" using b by simp
      show "\<not> unat (box_addr ?z ?a count p + of_nat u - (?a + of_nat ?V)) < length ts * ?V"
        unfolding later using b box_byte [OF p u] by simp
    qed
    then show ?thesis using 0 m1(2) [OF p] by simp
  next
    case (Suc k')
    have addr: "?a + of_nat (k * ?V) = ?a + of_nat ?V + of_nat (k' * ?V)" by (simp add: Suc algebra_simps)
    have "load (box_addr ?z (?a + of_nat (k * ?V)) count p) ?z m1 = load (box_addr ?z (?a + of_nat (k * ?V)) count p) ?z (rs_mem s)"
    proof (rule load_eqI, rule m1(3))
      fix u assume u: "u < ?z"
      note b = byte [OF p u k]
      show "\<not> in_buffer rd room (box_addr ?z (?a + of_nat (k * ?V)) count p + of_nat u)" using b by simp
      show "\<not> unat (box_addr ?z (?a + of_nat (k * ?V)) count p + of_nat u - ?a) < ?V" using b Suc by simp
    qed
    moreover have "k' < length ts" and nth: "(t # ts) ! k = ts ! k'" using k Suc by simp_all
    note s2(3) [OF this(1) p, folded addr]
    ultimately show ?thesis by (simp only: nth)
  qed
  moreover have "rs_mem s2 x = rs_mem s x" if "\<not> in_buffer rd room x" "\<not> unat (x - ?a) < ?n * ?V" for x
  proof -
    have "rs_mem s2 x = m1 x" by (rule s2(4)) (use that later in auto)
    moreover have "m1 x = rs_mem s x" by (rule m1(3)) (use that in auto)
    ultimately show ?thesis by simp
  qed
  ultimately show ?case using m1(1) s2(1,2) by auto
qed simp


section \<open>Properties\<close>

lemma first_size_sized: "sized_type (v_type v) \<Longrightarrow> u64_of_int (first_size v) = of_nat (elem_size (v_type v))"
  unfolding first_size_def by (cases "v_type v") (simp_all add: u64_of_int_of_u64 u64_of_int_def)

text \<open>The box that a request asks for, in the order of dimensions of the file.\<close>

definition wanted :: "bp_reader \<Rightarrow> ADIOS_SELECTION_BOUNDINGBOX_STRUCT \<Rightarrow> u64 list \<times> u64 list" where
  "wanted rd bb = (if rd_called_from_fortran rd then (rev (bb_start bb), rev (bb_count bb)) else (bb_start bb, bb_count bb))"

definition box_chunk :: "read_request \<Rightarrow> adios_index_var_struct_v1 \<Rightarrow> u64 list \<Rightarrow> u64 list \<Rightarrow> ADIOS_VARCHUNK" where
  "box_chunk r v start count =
     \<lparr>vc_varid = rr_varid r, vc_type = v_type v, vc_from_steps = rr_from_steps r, vc_nsteps = rr_nsteps r,
      vc_sel = Sel_boundingbox \<lparr>bb_ndim = length start, bb_start = start, bb_count = count\<rparr>, vc_data = rr_data r\<rparr>"

lemma read_var_bb_result:
  assumes r: "rr_sel r = Sel_boundingbox bb" "bb_wf bb" "wanted rd bb = (start, count)"
    and v: "bp_find_var_byid (fp_fh fp) (rr_varid r) = Some v" "sorted (time_indexes v)" "good_var v" "sized_type (v_type v)"
    and dims: "bp_get_and_swap_dimensions (fp_fh fp) (fp_streaming fp) (fp_current_step fp) v (is_fortran_file (fp_fh fp))
        = Some (bb_ndim bb, dims, ns)"
    and box: "box_ok start count"
    and steps: "\<forall>k < nat (rr_nsteps r). step_time fp v (fp_current_step fp + rr_from_steps r + int k) \<in> set (time_indexes v)
        \<and> list_all (good_block (fp_fh fp) (elem_size (v_type v)) room start count)
            (step_blocks fp v (fp_current_step fp + rr_from_steps r + int k))"
    and data: "nat (rr_nsteps r) * box_volume (v_type v) count < 2 ^ 64"
      "buffers_apart rd room (rr_data r) (nat (rr_nsteps r) * box_volume (v_type v) count)"
  shows "\<exists>m'. read_var_bb rd fp r (m, errno) = Some (Some (box_chunk r v start count), m', errno)
    \<and> (\<forall>k < nat (rr_nsteps r). \<forall>p. list_all2 (<) p count \<longrightarrow>
        load (box_addr (elem_size (v_type v)) (rr_data r + of_nat (k * box_volume (v_type v) count)) count p) (elem_size (v_type v)) m'
        = blocks_value (fp_fh fp) (v_type v) start p (step_blocks fp v (fp_current_step fp + rr_from_steps r + int k))
            (load (box_addr (elem_size (v_type v)) (rr_data r + of_nat (k * box_volume (v_type v) count)) count p) (elem_size (v_type v)) m))
    \<and> (\<forall>x. \<not> in_buffer rd room x \<and> \<not> unat (x - rr_data r) < nat (rr_nsteps r) * box_volume (v_type v) count \<longrightarrow> m' x = m x)"
proof -
  define first where "first = fp_current_step fp + rr_from_steps r"
  let ?ts = "[first..first + rr_nsteps r - 1]"
  let ?s = "\<lparr>rs_mem = m, rs_data = rr_data r, rs_size_of_type = first_size v, rs_errno = errno\<rparr>"
  have len: "length (bb_start bb) = bb_ndim bb" "length (bb_count bb) = bb_ndim bb" using r(2) by (simp_all add: bb_wf_def)
  have n: "length ?ts = nat (rr_nsteps r)" by simp
  have nth: "?ts ! k = first + int k" if "k < nat (rr_nsteps r)" for k using that by (simp add: nth_upto)
  have "step_time fp v t \<in> set (time_indexes v)
      \<and> list_all (good_block (fp_fh fp) (elem_size (v_type v)) room start count) (step_blocks fp v t)" if "t \<in> set ?ts" for t
    using steps [rule_format, of "nat (t - first)"] that by (simp add: first_def)
  from read_steps_result [OF v(2,3) this box v(4), of ?ts ?s rd] obtain s' where s':
    "read_steps rd fp v start count ?ts ?s = Some (True, s')" "rs_errno s' = errno"
      "\<forall>k < nat (rr_nsteps r). \<forall>p. list_all2 (<) p count \<longrightarrow>
        load (box_addr (elem_size (v_type v)) (rr_data r + of_nat (k * box_volume (v_type v) count)) count p) (elem_size (v_type v)) (rs_mem s')
        = blocks_value (fp_fh fp) (v_type v) start p (step_blocks fp v (?ts ! k))
            (load (box_addr (elem_size (v_type v)) (rr_data r + of_nat (k * box_volume (v_type v) count)) count p) (elem_size (v_type v)) m)"
      "\<forall>x. \<not> in_buffer rd room x \<and> \<not> unat (x - rr_data r) < nat (rr_nsteps r) * box_volume (v_type v) count \<longrightarrow> rs_mem s' x = m x"
    using data first_size_sized [OF v(4)] unfolding n by auto
  have "length start = bb_ndim bb" "length count = bb_ndim bb"
    using r(3) len by (auto simp: wanted_def split: if_splits)
  then have "read_var_bb rd fp r (m, errno) = Some (Some (box_chunk r v start count), rs_mem s', errno)"
    using r v(1) dims len s'(1,2)
    by (auto simp: read_var_bb_def Let_def wanted_def swap_order_rev first_def box_chunk_def copy_selection_def split: if_splits)
  then show ?thesis using s'(3,4) nth by (auto simp: first_def)
qed

text \<open>
  C4. Reading a box of a global array: \<open>read_var_bb\<close> succeeds, and for every step asked for and every
  point of the box the target holds the element of the last block of that step that covers the
  point, taken from the place in the payload of that block that belongs to the point, in the byte
  order of the reader. Points that no block covers keep what was there, and outside the target
  and the buffer nothing changes. This holds for every way the box may cut through the blocks
  (the three cases of the code), with and without subfiles, for all byte orders and callers. It is
  stated for blocks whose payload one \<open>MPI_File_read\<close> can transfer, at most \<open>0x7ffff000\<close> bytes: the
  size of a slice becomes an \<open>int\<close> and the result of the read is ignored (\<open>good_block\<close>). The blocks
  have a payload offset, the steps exist, and the buffer lies apart from the target.
\<close>

theorem read_var_bb_correct:
  assumes r: "rr_sel r = Sel_boundingbox bb" "bb_wf bb" "wanted rd bb = (start, count)"
    and v: "bp_find_var_byid (fp_fh fp) (rr_varid r) = Some v" "sorted (time_indexes v)" "good_var v" "sized_type (v_type v)"
    and dims: "bp_get_and_swap_dimensions (fp_fh fp) (fp_streaming fp) (fp_current_step fp) v (is_fortran_file (fp_fh fp))
        = Some (bb_ndim bb, dims, ns)"
    and box: "box_ok start count"
    and steps: "\<forall>k < nat (rr_nsteps r). step_time fp v (fp_current_step fp + rr_from_steps r + int k) \<in> set (time_indexes v)
        \<and> list_all (good_block (fp_fh fp) (elem_size (v_type v)) room start count)
            (step_blocks fp v (fp_current_step fp + rr_from_steps r + int k))"
    and data: "nat (rr_nsteps r) * box_volume (v_type v) count < 2 ^ 64"
      "buffers_apart rd room (rr_data r) (nat (rr_nsteps r) * box_volume (v_type v) count)"
  shows "\<exists>c m'. read_var_bb rd fp r (m, errno) = Some (Some c, m', errno)
    \<and> vc_data c = rr_data r \<and> vc_type c = v_type v
    \<and> (\<forall>k < nat (rr_nsteps r). \<forall>p. list_all2 (<) p count \<longrightarrow>
        load (box_addr (elem_size (v_type v)) (rr_data r + of_nat (k * box_volume (v_type v) count)) count p) (elem_size (v_type v)) m'
        = blocks_value (fp_fh fp) (v_type v) start p (step_blocks fp v (fp_current_step fp + rr_from_steps r + int k))
            (load (box_addr (elem_size (v_type v)) (rr_data r + of_nat (k * box_volume (v_type v) count)) count p) (elem_size (v_type v)) m))
    \<and> (\<forall>x. \<not> in_buffer rd room x \<and> \<not> unat (x - rr_data r) < nat (rr_nsteps r) * box_volume (v_type v) count \<longrightarrow> m' x = m x)"
proof -
  have "vc_data (box_chunk r v start count) = rr_data r" "vc_type (box_chunk r v start count) = v_type v"
    by (simp_all add: box_chunk_def)
  with read_var_bb_result [OF assms, of m errno] show ?thesis by blast
qed

text \<open>A 2 by 3 array in two blocks of one row each; the second and the third column are read.\<close>

definition grid_block :: "u64 \<Rightarrow> u64 \<Rightarrow> adios_index_characteristic_struct_v1" where
  "grid_block row payload = ch_example\<lparr>ch_dims := \<lparr>d_count = 2, d_dims = [1, 2, row, 3, 3, 0]\<rparr>, ch_payload_offset := payload\<rparr>"

definition grid_var :: adios_index_var_struct_v1 where
  "grid_var = var_example\<lparr>v_type := adios_byte, v_characteristics_count := 2,
     v_characteristics := [grid_block 0 8, grid_block 1 11]\<rparr>"

definition grid_file :: ADIOS_FILE where
  "grid_file = \<lparr>fp_fh = fh_example\<lparr>fh_file := map of_nat [0..<14], fh_vars_table := [grid_var], fh_version := 0x203\<rparr>,
     fp_streaming = False, fp_current_step = 0, fp_varid_mapping = [0]\<rparr>"

definition grid_reader :: "bp_reader" where
  "grid_reader = \<lparr>rd_endian = Little, rd_infos = [], rd_old = ch_example, rd_buff = (\<lambda>_. 5000), rd_uninit = None,
     rd_called_from_fortran = False\<rparr>"

definition grid_box :: ADIOS_SELECTION_BOUNDINGBOX_STRUCT where
  "grid_box = \<lparr>bb_ndim = 2, bb_start = [0, 1], bb_count = [2, 2]\<rparr>"

definition grid_request :: read_request where
  "grid_request = \<lparr>rr_sel = Sel_boundingbox grid_box, rr_varid = 0, rr_from_steps = 0, rr_nsteps = 1, rr_data = 1000, rr_datasize = 4\<rparr>"


lemma grid_var_times: "time_indexes grid_var = [1, 1]"
  by (simp add: time_indexes_def grid_var_def grid_block_def ch_example_def)

lemma grid_find: "bp_find_var_byid (fp_fh grid_file) 0 = Some grid_var"
  by (simp add: bp_find_var_byid_def grid_file_def)

lemma grid_var_fields: "sorted (time_indexes grid_var)" "good_var grid_var" "v_type grid_var = adios_byte"
  by (simp_all add: grid_var_times) (simp_all add: good_var_def grid_var_def)

lemma grid_block_shape: "bp_get_dimension_generic \<lparr>d_count = 2, d_dims = [1, 2, r, 3, 3, 0]\<rparr> = Some (True, [1, 3], [2, 3], [r, 0])"
  by (simp add: bp_get_dimension_generic_def upt_rec Let_def)

lemma grid_dims: "bp_get_and_swap_dimensions (fp_fh grid_file) False 0 grid_var False
    = Some (2, [2, 3], get_var_nsteps grid_var)"
proof -
  have v: "and (0x203 :: u32) 0x200 \<noteq> 0" by code_simp
  show ?thesis
  by (simp add: bp_get_and_swap_dimensions_def bp_get_and_swap_dimensions_generic_def grid_file_def v
        bp_get_dimensions_generic_def Let_def grid_var_def grid_block_def grid_block_shape)
qed

lemma grid_blocks: "step_blocks grid_file grid_var 0 = [grid_block 0 8, grid_block 1 11]"
proof -
  have "step_time grid_file grid_var 0 = 1" 
    by (simp add: step_time_def grid_file_def get_time_def grid_var_times)
  then show ?thesis by (simp add: step_blocks_def grid_var_def grid_block_def ch_example_def)
qed

lemma grid_block_dims: "bp_get_dimension_characteristics_notime (grid_block r p) False = Some (True, [1, 3], [2, 3], [r, 0])"
  by (simp add: grid_block_def bp_get_dimension_characteristics_notime_def bp_get_dimension_generic_notime_def
      grid_block_shape ch_example_def)

lemma grid_open: "is_fortran_file (fp_fh grid_file) = False" "fh_change_endianness (fp_fh grid_file) = adios_flag_no"
  "block_file (fp_fh grid_file) ch = Some (map of_nat [0..<14])"
proof -
  have "and (0x203 :: u32) 0x100 = 0" by code_simp
  then show "block_file (fp_fh grid_file) ch = Some (map of_nat [0..<14])"
    by (simp add: block_file_def has_subfiles_def grid_file_def)
qed (simp_all add: is_fortran_file_def grid_file_def fh_example_def)

lemma grid_good:
  "r \<le> 1 \<Longrightarrow> 0 < p \<Longrightarrow> unat p \<le> 11 \<Longrightarrow> unat s0 + unat c0 \<le> 2 \<Longrightarrow> unat s1 + unat c1 \<le> 3
    \<Longrightarrow> good_block (fp_fh grid_file) (Suc 0) 3 [s0, s1] [c0, c1] (grid_block r p)"
  by (simp add: good_block_def read_max_def grid_block_dims grid_open All_less_Suc word_le_nat_alt word_less_nat_alt)
    (simp add: grid_block_def)

lemma grid_value:
  assumes "unat s0 + unat r < 2" and "unat s1 + unat c < 3"
  shows "blocks_value (fp_fh grid_file) adios_byte [s0, s1] [r, c] [grid_block 0 8, grid_block 1 11] old
    = [of_nat (8 + 3 * (unat s0 + unat r) + (unat s1 + unat c))]"
proof -
  define x y where "x = unat s0 + unat r" and "y = unat s1 + unat c"
  then have "x = 0 \<or> x = 1" "y = 0 \<or> y = 1 \<or> y = 2" using assms by auto
  moreover have "blocks_value (fp_fh grid_file) adios_byte [s0, s1] [r, c] [grid_block 0 8, grid_block 1 11] old
      = [of_nat (8 + 3 * x + y)]" if "x = 0 \<or> x = 1" "y = 0 \<or> y = 1 \<or> y = 2"
    using that
    by (auto simp: blocks_value_def block_value_def grid_block_dims grid_open block_of_def stored_element_def
        covers_def block_index_def All_less_Suc upt_rec elem_fun_def simp flip: x_def y_def) (simp_all add: grid_block_def)
  ultimately show ?thesis unfolding x_def y_def by blast
qed

lemma grid_points:
  assumes "\<And>p. list_all2 (<) p [2, 2] \<Longrightarrow> load (box_addr 1 1000 [2, 2] p) 1 m
      = blocks_value (fp_fh grid_file) adios_byte [0, 1] p [grid_block 0 8, grid_block 1 11] [0]"
  shows "load 1000 4 m = [9, 10, 12, 13]"
proof -
  have "m (1000 + of_nat (2 * unat r + unat c)) = of_nat (9 + 3 * unat r + unat c)"
    if "unat r < 2" "unat c < 2" for r c :: u64
    using assms [of "[r, c]"] that by (simp add: grid_value load_def word_less_nat_alt algebra_simps)
  from this [of 0 0] this [of 0 1] this [of 1 0] this [of 1 1] show ?thesis by (simp add: load_def upt_rec)
qed

lemma grid_far:
  assumes "u < 6" "v < 3" shows "1000 + of_nat u \<noteq> (5000 + of_nat v :: u64)"
proof
  assume "1000 + of_nat u = (5000 + of_nat v :: u64)"
  then have "(of_nat (1000 + u) :: u64) = of_nat (5000 + v)" by simp
  then have "unat (of_nat (1000 + u) :: u64) = unat (of_nat (5000 + v) :: u64)" by (rule arg_cong)
  moreover have "unat (of_nat (1000 + u) :: u64) = 1000 + u" using assms by (intro unat_of_nat_small) simp
  moreover have "unat (of_nat (5000 + v) :: u64) = 5000 + v" using assms by (intro unat_of_nat_small) simp
  ultimately show False using assms by linarith
qed

lemma grid_apart: "n \<le> 6 \<Longrightarrow> buffers_apart grid_reader 3 1000 n"
  using grid_far by (simp add: buffers_apart_def grid_reader_def)

lemma grid_request_fields:
  "rr_sel grid_request = Sel_boundingbox grid_box" "rr_varid grid_request = 0" "rr_from_steps grid_request = 0"
  "rr_nsteps grid_request = 1" "rr_data grid_request = 1000" "fp_streaming grid_file = False" "fp_current_step grid_file = 0"
  "bb_ndim grid_box = 2" "fp_varid_mapping grid_file = [0]"
  by (simp_all add: grid_request_def grid_file_def grid_box_def)

lemma grid_time: "step_time grid_file grid_var 0 = 1"
  by (simp add: step_time_def grid_file_def get_time_def grid_var_times)

lemma grid_box_ok: "bb_wf grid_box" "wanted grid_reader grid_box = ([0, 1], [2, 2])" "box_ok [0, 1] [2, 2]" "box_ok [0, 0] [2, 3]"
  by (simp_all add: bb_wf_def wanted_def grid_box_def grid_reader_def box_ok_def All_less_Suc)

theorem read_var_bb_correct_witness:
  "\<exists>c m. read_var_bb grid_reader grid_file grid_request ((\<lambda>_. 0), None) = Some (Some c, m, None)
    \<and> vc_data c = 1000 \<and> load 1000 4 m = [9, 10, 12, 13] \<and> m 1004 = 0"
proof -
  have "\<not> in_buffer grid_reader 3 1004" using grid_far [of 4] by (auto simp: in_buffer_def grid_reader_def)
  from read_var_bb_correct [of grid_request grid_box grid_reader "[0, 1]" "[2, 2]" grid_file grid_var
   "[2, 3]" "get_var_nsteps grid_var" 3 "\<lambda>_. 0" None] this
  obtain c m where cm: "read_var_bb grid_reader grid_file grid_request ((\<lambda>_. 0), None) = Some (Some c, m, None)"
      "vc_data c = 1000" "m 1004 = 0"
    and points: "\<And>p. list_all2 (<) p [2, 2] \<Longrightarrow> load (box_addr 1 1000 [2, 2] p) 1 m
        = blocks_value (fp_fh grid_file) adios_byte [0, 1] p [grid_block 0 8, grid_block 1 11]
            (load (box_addr 1 1000 [2, 2] p) 1 (\<lambda>_. 0))"
    by (auto simp: grid_open grid_var_fields grid_var_times grid_find grid_request_fields grid_time grid_box_ok
        grid_blocks grid_dims grid_apart grid_good)
  have "load 1000 4 m = [9, 10, 12, 13]" by (rule grid_points) (use points in \<open>simp add: load_def\<close>)
  with cm show ?thesis by blast
qed

end
