(* ===== verification/BP_Request.thy ===== *)
theory BP_Request
  imports BP_ReadVar "HOL-Library.Signed_Division"
begin

text \<open>
  The requests of the BP reader (\<open>read/read_bp.c\<close> and the lists of \<open>core/util.c\<close>): scheduling a read,
  performing all of them, delivering them chunk by chunk, and reading points and write blocks.
  \<open>None\<close> stands for undefined behaviour, a failed assertion or a loop that does not end.
\<close>

section \<open>Lists of requests\<close>

text \<open>
  A request that stands in a list is linked through its field \<open>next\<close>; the model has the list. The null
  pointer is the empty list. Requests are not shared between lists.
\<close>

definition list_insert_read_request_tail :: "read_request list \<Rightarrow> read_request \<Rightarrow> read_request list" where
  "list_insert_read_request_tail h q = (if h = [] then [q] else h @ [q])"

definition list_append_read_request_list :: "read_request list \<Rightarrow> read_request list \<Rightarrow> read_request list" where
  "list_append_read_request_list h q = (if h = [] then q else h @ q)"

definition list_insert_read_request_next :: "read_request list \<Rightarrow> read_request \<Rightarrow> read_request list" where
  "list_insert_read_request_next h q = (if h = [] then [q] else q # h)"

primrec list_get_length :: "read_request list \<Rightarrow> nat \<Rightarrow> nat" where
  "list_get_length [] l = l"
| "list_get_length (_ # h) l = list_get_length h (l + 1)"

definition copy_read_request :: "cstring option \<Rightarrow> read_request \<Rightarrow> read_request" where
  "copy_read_request uninit r =
     \<lparr>rr_sel = copy_selection uninit (rr_sel r), rr_varid = rr_varid r, rr_from_steps = rr_from_steps r,
      rr_nsteps = rr_nsteps r, rr_data = rr_data r, rr_datasize = rr_datasize r\<rparr>"

section \<open>Write blocks\<close>

text \<open>
  Steps and times. \<open>adios_step_to_time\<close> maps its variable, although its caller here has mapped it
  already; it also clears the error.
\<close>

definition adios_step_to_time_of :: "ADIOS_FILE \<Rightarrow> adios_index_var_struct_v1 \<Rightarrow> int \<Rightarrow> u32" where
  "adios_step_to_time_of fp v from_steps =
     (let t = fp_current_step fp + from_steps
      in if \<not> fp_streaming fp then get_time v t else of_int (t + 1))"

definition adios_step_to_time :: "ADIOS_FILE \<Rightarrow> nat \<Rightarrow> int \<Rightarrow> u32 option" where
  "adios_step_to_time fp varid from_steps =
     (if varid < length (fp_varid_mapping fp) then
        (case bp_find_var_byid (fp_fh fp) (fp_varid_mapping fp ! varid) of
           None \<Rightarrow> None
         | Some v \<Rightarrow> Some (adios_step_to_time_of fp v from_steps))
      else None)"

text \<open>
  The index of a block of a step among all blocks of the variable, with the error that is left
  behind. Without a block of that time the search starts in front of the array.
\<close>

function wbidx_loop :: "u32 list \<Rightarrow> u32 \<Rightarrow> int \<Rightarrow> int \<Rightarrow> int \<Rightarrow> int \<Rightarrow> int option" where
  "wbidx_loop ts time ridx stop_idx idx c =
     (if idx \<le> stop_idx then
        (if idx < 0 then None
         else let c = (if ts ! nat idx = time then c + 1 else c)
              in if c < ridx then wbidx_loop ts time ridx stop_idx (idx + 1) c else Some idx)
      else Some idx)"
  by pat_completeness auto
termination by (relation "measure (\<lambda>(_, _, _, stop_idx, idx, _). nat (stop_idx + 1 - idx))") auto

declare wbidx_loop.simps [simp del]

definition adios_wbidx_to_pgidx ::
  "ADIOS_FILE \<Rightarrow> read_request \<Rightarrow> int \<Rightarrow> adios_errcode option \<Rightarrow> (int \<times> adios_errcode option) option" where
  "adios_wbidx_to_pgidx fp r step_offset errno =
     (case rr_sel r of
        Sel_writeblock wb \<Rightarrow>
          (case (adios_step_to_time fp (rr_varid r) (rr_from_steps r + step_offset),
                 bp_find_var_byid (fp_fh fp) (rr_varid r)) of
             (Some time, Some v) \<Rightarrow>
               let start_idx = get_var_start_index v time;
                   stop_idx = get_var_stop_index v time;
                   errno = (if start_idx < 0 \<or> stop_idx < 0 then Some err_no_data_at_timestep else None)
               in map_option (\<lambda>idx. (idx, errno))
                    (wbidx_loop (time_indexes v) time (wb_index wb) stop_idx start_idx (-1))
           | _ \<Rightarrow> None)
      | _ \<Rightarrow> Some (-1, errno))"

definition wb_pgidx ::
  "ADIOS_FILE \<Rightarrow> read_request \<Rightarrow> ADIOS_SELECTION_WRITEBLOCK_STRUCT \<Rightarrow> int \<Rightarrow> adios_errcode option
    \<Rightarrow> (int \<times> adios_errcode option) option" where
  "wb_pgidx fp r wb step_offset errno =
     (if wb_is_absolute_index wb \<and> \<not> fp_streaming fp then Some (wb_index wb, errno)
      else adios_wbidx_to_pgidx fp r step_offset errno)"

text \<open>The characteristic with an index; outside the array the behaviour is undefined.\<close>

definition characteristic_at :: "adios_index_var_struct_v1 \<Rightarrow> int \<Rightarrow> adios_index_characteristic_struct_v1 option" where
  "characteristic_at v idx =
     (let chs = take (unat (v_characteristics_count v)) (v_characteristics v)
      in if 0 \<le> idx \<and> nat idx < length chs then Some (chs ! nat idx) else None)"

text \<open>The size of what a request reads, for one step.\<close>

definition get_req_datasize ::
  "ADIOS_FILE \<Rightarrow> read_request \<Rightarrow> adios_index_var_struct_v1 \<Rightarrow> adios_errcode option
    \<Rightarrow> (u64 \<times> adios_errcode option) option" where
  "get_req_datasize fp r v errno =
     (let datasize = u64_of_int (bp_get_type_size (v_type v) (Some '''')) in
      case rr_sel r of
        Sel_boundingbox bb \<Rightarrow> Some (fold (\<lambda>c d. d * c) (take (bb_ndim bb) (bb_count bb)) datasize, errno)
      | Sel_points pts \<Rightarrow> Some (datasize * pts_npoints pts, errno)
      | Sel_writeblock wb \<Rightarrow>
          (case wb_pgidx fp r wb 0 errno of
             None \<Rightarrow> None
           | Some (pgidx, errno) \<Rightarrow>
               if wb_is_sub_pg_selection wb then Some (wb_nelements wb, errno)
               else
                 (case characteristic_at v pgidx of
                    None \<Rightarrow> None
                  | Some ch \<Rightarrow>
                      Some (fold (\<lambda>i d. d * d_dims (ch_dims ch) ! (i * 3)) [0..<unat (d_count (ch_dims ch))] datasize,
                        errno)))
      | Sel_auto _ \<Rightarrow> Some (datasize, errno))"

text \<open>\<open>MPI_FILE_READ_OPS1_BUF\<close> and \<open>MPI_FILE_READ_OPS2_BUF\<close>: a slice is read to where it belongs, by an
  \<open>MPI_File_read\<close> of an \<open>int\<close> count.\<close>

definition read_slice_buf ::
  "BP_FILE \<Rightarrow> adios_index_characteristic_struct_v1 \<Rightarrow> u64 \<Rightarrow> u64 \<Rightarrow> u64 \<Rightarrow> mem \<Rightarrow> mem option option" where
  "read_slice_buf fh ch slice_offset slice_size buf m =
     (case (if \<not> has_subfiles fh then Some (fh_file fh) else fh_subfiles fh (ch_file_index ch)) of
        None \<Rightarrow> Some None
      | Some file \<Rightarrow>
          if sint slice_offset < 0 then None
          else map_option (\<lambda>bytes. Some (store buf bytes m)) (MPI_File_read file slice_offset (int_of_u64 slice_size)))"

text \<open>
  One step of \<open>read_var_wb\<close>. The result is the memory and the place for the next step, which moves
  for scalars only, with the size that is left in the request; \<open>Inl\<close> is the null result.
\<close>

definition read_wb_scalar ::
  "bp_reader \<Rightarrow> BP_FILE \<Rightarrow> ADIOS_DATATYPES \<Rightarrow> adios_index_characteristic_struct_v1 \<Rightarrow> u64 \<Rightarrow> mem
    \<Rightarrow> u64 \<times> (mem \<times> u64) option option" where
  "read_wb_scalar rd fh type ch data m =
     (let size_of_type = bp_get_type_size type (map_option (\<lambda>b. string_of_bytes (takeWhile (\<lambda>x. x \<noteq> 0) b)) (ch_value ch));
          slice_size = u64_of_int size_of_type;
          n = u64_of_int (if type = adios_string then size_of_type - 1 else size_of_type)
      in (slice_size,
          case read_slice rd fh ch (ch_payload_offset ch) slice_size m of
            None \<Rightarrow> None
          | Some None \<Rightarrow> Some None
          | Some (Some (src, m)) \<Rightarrow>
              let m = copy_block (rd_endian rd) type (fh_change_endianness fh = adios_flag_yes) n data src m
              in Some (Some (if type = adios_string then m(data + n := 0) else m, data + n))))"

definition read_wb_array ::
  "bp_reader \<Rightarrow> BP_FILE \<Rightarrow> ADIOS_DATATYPES \<Rightarrow> ADIOS_SELECTION_WRITEBLOCK_STRUCT
    \<Rightarrow> adios_index_characteristic_struct_v1 \<Rightarrow> u64 \<Rightarrow> mem \<Rightarrow> (u64 \<times> (mem \<times> u64) option option) option" where
  "read_wb_array rd fh type wb ch data m =
     (let size_of_type = u64_of_int (bp_get_type_size type
            (map_option (\<lambda>b. string_of_bytes (takeWhile (\<lambda>x. x \<noteq> 0) b)) (ch_value ch)))
      in case (if wb_is_sub_pg_selection wb then Some (wb_nelements wb * size_of_type)
               else map_option (\<lambda>(_, ldims, _, _). fold (\<lambda>l s. s * l) ldims size_of_type)
                      (bp_get_dimension_characteristics ch)) of
           None \<Rightarrow> None
         | Some slice_size \<Rightarrow>
             let slice_offset = ch_payload_offset ch
                   + (if wb_is_sub_pg_selection wb then wb_element_offset wb * size_of_type else 0)
             in Some (slice_size,
                  case read_slice_buf fh ch slice_offset slice_size data m of
                    None \<Rightarrow> None
                  | Some None \<Rightarrow> Some None
                  | Some (Some m) \<Rightarrow>
                      Some (Some (if fh_change_endianness fh = adios_flag_yes
                        then change_endianness (rd_endian rd) data slice_size type m else m, data))))"

text \<open>
  \<open>read_var_wb\<close>: the chunk or the null pointer, the request with its new size, the memory and the
  error.
\<close>

fun read_wb_steps ::
  "bp_reader \<Rightarrow> ADIOS_FILE \<Rightarrow> adios_index_var_struct_v1 \<Rightarrow> ADIOS_SELECTION_WRITEBLOCK_STRUCT \<Rightarrow> int list
    \<Rightarrow> read_request \<Rightarrow> u64 \<Rightarrow> mem \<times> adios_errcode option
    \<Rightarrow> (u64 option \<times> read_request \<times> mem \<times> adios_errcode option) option" where
  "read_wb_steps rd fp v wb [] r data (m, errno) = Some (Some data, r, m, errno)"
| "read_wb_steps rd fp v wb (i # steps) r data (m, errno) =
     (case wb_pgidx fp r wb i errno of
        None \<Rightarrow> None
      | Some (idx, errno) \<Rightarrow>
          case characteristic_at v idx of
            None \<Rightarrow> None
          | Some ch \<Rightarrow>
              case (if d_count (ch_dims ch) = 0 then Some (read_wb_scalar rd (fp_fh fp) (v_type v) ch data m)
                    else read_wb_array rd (fp_fh fp) (v_type v) wb ch data m) of
                None \<Rightarrow> None
              | Some (datasize, result) \<Rightarrow>
                  case result of
                    None \<Rightarrow> None
                  | Some None \<Rightarrow> Some (None, r\<lparr>rr_datasize := datasize\<rparr>, m, errno)
                  | Some (Some (m, data)) \<Rightarrow>
                      read_wb_steps rd fp v wb steps (r\<lparr>rr_datasize := datasize\<rparr>) data (m, errno))"

definition read_var_wb ::
  "bp_reader \<Rightarrow> ADIOS_FILE \<Rightarrow> read_request \<Rightarrow> mem \<times> adios_errcode option
    \<Rightarrow> (ADIOS_VARCHUNK option \<times> read_request \<times> mem \<times> adios_errcode option) option" where
  "read_var_wb rd fp r = (\<lambda>(m, errno).
     case (rr_sel r, bp_find_var_byid (fp_fh fp) (rr_varid r)) of
       (Sel_writeblock wb, Some v) \<Rightarrow>
         (case read_wb_steps rd fp v wb [0..rr_nsteps r - 1] r (rr_data r) (m, None) of
            None \<Rightarrow> None
          | Some (None, r, m, errno) \<Rightarrow> Some (None, r, m, errno)
          | Some (Some data, r, m, errno) \<Rightarrow>
              Some (Some \<lparr>vc_varid = rr_varid r, vc_type = v_type v, vc_from_steps = rr_from_steps r,
                vc_nsteps = rr_nsteps r, vc_sel = copy_selection (rd_uninit rd) (rr_sel r), vc_data = data\<rparr>,
                r, m, errno))
     | _ \<Rightarrow> None)"


section \<open>Any selection\<close>

text \<open>
  A read of a box by a Fortran program leaves the box of the request in the other order, also when it
  fails. The points are read one by one; whether a read of them fails is not looked at, and the
  target moves by one element per point. An automatic selection gives an undefined result.
\<close>

definition swapped_request :: "bp_reader \<Rightarrow> read_request \<Rightarrow> ADIOS_SELECTION_BOUNDINGBOX_STRUCT \<Rightarrow> read_request" where
  "swapped_request rd r bb =
     (let order = (\<lambda>xs. if rd_called_from_fortran rd then fst (swap_order (bb_ndim bb) (xs, -1)) else xs)
      in r\<lparr>rr_sel := Sel_boundingbox (bb\<lparr>bb_start := order (bb_start bb), bb_count := order (bb_count bb)\<rparr>)\<rparr>)"

fun read_points ::
  "bp_reader \<Rightarrow> ADIOS_FILE \<Rightarrow> u32 \<Rightarrow> nat \<Rightarrow> u64 list list \<Rightarrow> read_request \<Rightarrow> mem \<times> adios_errcode option
    \<Rightarrow> (mem \<times> adios_errcode option) option" where
  "read_points rd fp size_of_type ndim [] nr (m, errno) = Some (m, errno)"
| "read_points rd fp size_of_type ndim (p # ps) nr (m, errno) =
     (case read_var_bb rd fp
         (nr\<lparr>rr_sel := Sel_boundingbox \<lparr>bb_ndim = ndim, bb_start = p, bb_count = replicate ndim 1\<rparr>\<rparr>) (m, errno) of
        None \<Rightarrow> None
      | Some (_, m, errno) \<Rightarrow>
          read_points rd fp size_of_type ndim ps (nr\<lparr>rr_data := rr_data nr + u64_of_int size_of_type\<rparr>) (m, errno))"

definition read_var ::
  "bp_reader \<Rightarrow> ADIOS_FILE \<Rightarrow> read_request \<Rightarrow> mem \<times> adios_errcode option
    \<Rightarrow> (ADIOS_VARCHUNK option \<times> read_request \<times> mem \<times> adios_errcode option) option" where
  "read_var rd fp r = (\<lambda>(m, errno).
     case rr_sel r of
       Sel_boundingbox bb \<Rightarrow>
         map_option (\<lambda>(chunk, m, errno). (chunk, swapped_request rd r bb, m, errno)) (read_var_bb rd fp r (m, errno))
     | Sel_points pts \<Rightarrow>
         (case bp_find_var_byid (fp_fh fp) (rr_varid r) of
            None \<Rightarrow> None
          | Some v \<Rightarrow>
              let n = unat (pts_npoints pts); k = pts_ndim pts in
              if length (pts_points pts) < n * k \<or> v_characteristics v = [] then None
              else
                (case read_points rd fp (first_size v) k (map (\<lambda>i. take k (drop (i * k) (pts_points pts))) [0..<n])
                    (r\<lparr>rr_datasize := u64_of_int (first_size v)\<rparr>) (m, errno) of
                   None \<Rightarrow> None
                 | Some (m, errno) \<Rightarrow>
                     Some (Some \<lparr>vc_varid = rr_varid r, vc_type = v_type v, vc_from_steps = rr_from_steps r,
                       vc_nsteps = rr_nsteps r, vc_sel = copy_selection (rd_uninit rd) (rr_sel r), vc_data = rr_data r\<rparr>,
                       r, m, errno)))
     | Sel_writeblock _ \<Rightarrow> read_var_wb rd fp r (m, errno)
     | Sel_auto _ \<Rightarrow> None)"

section \<open>Scheduling and performing reads\<close>

text \<open>
  Without a selection the whole variable is read, in the order of dimensions of the caller. In a
  stream the request is for the current step.
\<close>

definition whole_variable ::
  "bp_reader \<Rightarrow> ADIOS_FILE \<Rightarrow> adios_index_var_struct_v1 \<Rightarrow> ADIOS_SELECTION option" where
  "whole_variable rd fp v =
     map_option (\<lambda>(ndim, dims, _). Sel_boundingbox \<lparr>bb_ndim = ndim, bb_start = replicate ndim 0, bb_count = take ndim dims\<rparr>)
       (bp_get_and_swap_dimensions (fp_fh fp) (fp_streaming fp) (fp_current_step fp) v
         (is_fortran_file (fp_fh fp) \<noteq> rd_called_from_fortran rd))"

definition adios_read_bp_schedule_read_byid ::
  "bp_reader \<Rightarrow> ADIOS_FILE \<Rightarrow> ADIOS_SELECTION option \<Rightarrow> nat \<Rightarrow> int \<Rightarrow> int \<Rightarrow> u64
    \<Rightarrow> read_request list \<times> adios_errcode option \<Rightarrow> (read_request list \<times> adios_errcode option) option" where
  "adios_read_bp_schedule_read_byid rd fp sel varid from_steps nsteps data = (\<lambda>(requests, errno).
     if varid \<ge> length (fp_varid_mapping fp) then None
     else
       let mapped_varid = fp_varid_mapping fp ! varid in
       case bp_find_var_byid (fp_fh fp) mapped_varid of
         None \<Rightarrow> None
       | Some v \<Rightarrow>
           case (case sel of None \<Rightarrow> whole_variable rd fp v
                 | Some sel \<Rightarrow> Some (copy_selection (rd_uninit rd) sel)) of
             None \<Rightarrow> None
           | Some sel \<Rightarrow>
               let r = \<lparr>rr_sel = sel, rr_varid = mapped_varid,
                     rr_from_steps = (if \<not> fp_streaming fp then from_steps else 0),
                     rr_nsteps = (if \<not> fp_streaming fp then nsteps else 1), rr_data = data, rr_datasize = 0\<rparr>
               in case get_req_datasize fp r v errno of
                    None \<Rightarrow> None
                  | Some (datasize, errno) \<Rightarrow>
                      Some (list_insert_read_request_next requests (r\<lparr>rr_datasize := datasize\<rparr>), errno))"

text \<open>
  All requests are read, from the head of the list; \<open>adios_read_bp_perform_reads\<close> returns 0, which is
  \<open>None\<close>, also if a read fails.
\<close>

fun perform_loop ::
  "bp_reader \<Rightarrow> ADIOS_FILE \<Rightarrow> read_request list \<Rightarrow> mem \<times> adios_errcode option \<Rightarrow> (mem \<times> adios_errcode option) option" where
  "perform_loop rd fp [] s = Some s"
| "perform_loop rd fp (r # requests) s =
     (case read_var rd fp r s of
        None \<Rightarrow> None
      | Some (_, _, m, errno) \<Rightarrow> perform_loop rd fp requests (m, errno))"

definition adios_read_bp_perform_reads ::
  "bp_reader \<Rightarrow> ADIOS_FILE \<Rightarrow> bool \<Rightarrow> read_request list \<times> mem \<times> adios_errcode option
    \<Rightarrow> (adios_errcode option \<times> read_request list \<times> mem \<times> adios_errcode option) option" where
  "adios_read_bp_perform_reads rd fp blocking = (\<lambda>(requests, m, errno).
     if \<not> blocking then Some (None, requests, m, errno)
     else if list_ex (\<lambda>r. rr_data r = 0) requests then
       Some (Some err_operation_not_supported, requests, m, Some err_operation_not_supported)
     else map_option (\<lambda>(m, errno). (None, [], m, errno)) (perform_loop rd fp requests (m, errno)))"


section \<open>Splitting a request\<close>

text \<open>The position in the box of the element that does not fit into the buffer any more.\<close>

fun chunk_position :: "u64 list \<Rightarrow> u32 \<Rightarrow> (u64 list \<times> u32) option" where
  "chunk_position [] n = Some ([], n)"
| "chunk_position (c # counts) n =
     (case chunk_position counts n of
        None \<Rightarrow> None
      | Some (pos, n) \<Rightarrow>
          if c = 0 then None else Some ((u64_of_int n mod c) # pos, int_of_u64 (u64_of_int n div c)))"

text \<open>
  The size of a part of the box, from the dimension \<open>i - 1\<close> on. What lies in front of the first
  position that is not 0 gets the size 0.
\<close>

fun sub_box :: "u64 list \<Rightarrow> u64 list \<Rightarrow> nat \<Rightarrow> u64 list \<Rightarrow> u64 list" where
  "sub_box pos count 0 subbb = subbb"
| "sub_box pos count (Suc i) subbb =
     (if pos ! i \<noteq> count ! i - 1 then
        let z = length (takeWhile (\<lambda>p. p = 0) (take (Suc i) pos))
        in map (\<lambda>j. if j < z then 0 else if j = z then pos ! j else count ! j) [0..<Suc i] @ drop (Suc i) subbb
      else sub_box pos count i (subbb[i := count ! i]))"

text \<open>
  The next part: from the last dimension on, a dimension that is finished starts again; without one
  that is not finished all is done.
\<close>

fun next_start :: "u64 list \<Rightarrow> u64 list \<Rightarrow> u64 list \<Rightarrow> u64 list \<Rightarrow> bool \<times> u64 list" where
  "next_start (s # ss) (c # cs) (bs # bss) (bc # bcs) =
     (let (done, ss) = next_start ss cs bss bcs
      in if \<not> done then (False, s # ss)
         else if s + c = bs + bc then (True, bs # ss)
         else (False, (s + c) # ss))"
| "next_start _ _ _ _ = (True, [])"

definition part_count :: "ADIOS_SELECTION_BOUNDINGBOX_STRUCT \<Rightarrow> u64 list \<Rightarrow> u64 list \<Rightarrow> u64 list" where
  "part_count bb subbb start =
     map (\<lambda>i. if start ! i + subbb ! i > bb_start bb ! i + bb_count bb ! i
              then bb_start bb ! i + bb_count bb ! i - start ! i else subbb ! i) [0..<bb_ndim bb]"

definition part_request ::
  "read_request \<Rightarrow> ADIOS_SELECTION_BOUNDINGBOX_STRUCT \<Rightarrow> u32 \<Rightarrow> u64 list \<Rightarrow> u64 list \<Rightarrow> read_request" where
  "part_request r bb type_size start count =
     r\<lparr>rr_sel := Sel_boundingbox \<lparr>bb_ndim = bb_ndim bb, bb_start = start, bb_count = count\<rparr>,
       rr_datasize := fold (\<lambda>c d. d * c) count (u64_of_int type_size)\<rparr>"

partial_function (option) split_box ::
  "read_request \<Rightarrow> ADIOS_SELECTION_BOUNDINGBOX_STRUCT \<Rightarrow> u32 \<Rightarrow> u64 list \<Rightarrow> u64 list \<Rightarrow> read_request list
    \<Rightarrow> read_request list option" where
  "split_box r bb type_size subbb start h =
     (let count = part_count bb subbb start;
          (done, start') = next_start start count (bb_start bb) (bb_count bb);
          h = list_insert_read_request_next h (part_request r bb type_size start count)
      in if done then Some h else split_box r bb type_size subbb start' h)"

text \<open>
  The points of a request; \<open>remain\<close> is an \<open>int\<close>. When it gets negative the code asks for more points
  than there are.
\<close>

partial_function (option) split_points ::
  "read_request \<Rightarrow> ADIOS_SELECTION_POINTS_STRUCT \<Rightarrow> u32 \<Rightarrow> u32 \<Rightarrow> u32 \<Rightarrow> read_request list
    \<Rightarrow> read_request list option" where
  "split_points r pts type_size n_elements remain h =
     (if remain = 0 then Some h
      else
        let npoints = u64_of_int (if sint remain > sint n_elements then n_elements else remain);
            first = unat (pts_npoints pts - u64_of_int remain) * pts_ndim pts
        in if first + unat npoints * pts_ndim pts > length (pts_points pts) then None
           else
             let q = r\<lparr>rr_sel := Sel_points \<lparr>pts_ndim = pts_ndim pts, pts_npoints = npoints,
                   pts_points = take (unat npoints * pts_ndim pts) (drop first (pts_points pts))\<rparr>,
                   rr_datasize := u64_of_int type_size * npoints\<rparr>
             in split_points r pts type_size n_elements (remain - n_elements) (list_insert_read_request_next h q))"

text \<open>
  The arrays of positions have 32 elements. The dimensions that are not set are those of
  uninitialised arrays (\<open>uninit\<close>), which the loop over the dimensions sets in all cases. A write block
  or an automatic selection is not split and gives the empty list.
\<close>

definition split_req ::
  "(nat \<Rightarrow> u64) \<Rightarrow> ADIOS_FILE \<Rightarrow> read_request \<Rightarrow> u32 \<Rightarrow> read_request list option" where
  "split_req uninit fp r buffer_size =
     (case bp_find_var_byid (fp_fh fp) (rr_varid r) of
        None \<Rightarrow> None
      | Some v \<Rightarrow>
          let type_size = bp_get_type_size (v_type v) (Some '''');
              n_elements = word_of_int (sint buffer_size sdiv sint type_size)
          in case rr_sel r of
               Sel_boundingbox bb \<Rightarrow>
                 if bb_ndim bb > 32 \<or> length (bb_start bb) < bb_ndim bb \<or> length (bb_count bb) < bb_ndim bb then None
                 else
                   (case chunk_position (take (bb_ndim bb) (bb_count bb)) n_elements of
                      None \<Rightarrow> None
                    | Some (pos, _) \<Rightarrow>
                        split_box r bb type_size (sub_box pos (bb_count bb) (bb_ndim bb) (map uninit [0..<bb_ndim bb]))
                          (take (bb_ndim bb) (bb_start bb)) [])
             | Sel_points pts \<Rightarrow> split_points r pts type_size n_elements (int_of_u64 (pts_npoints pts)) []
             | _ \<Rightarrow> Some [])"

section \<open>Delivering chunks\<close>

text \<open>
  What a process keeps for reading, with the memory and the error. \<open>realloc\<close> of the buffer of the
  process and the size that it may have are those of the system and of the parameters of the method.
\<close>

record bp_proc =
  pr_requests :: "read_request list"
  pr_b :: u64
  pr_mem :: mem
  pr_errno :: "adios_errcode option"

record bp_client = bp_reader +
  cl_realloc :: "u64 \<Rightarrow> u64 \<Rightarrow> mem \<Rightarrow> u64 \<times> mem"
  cl_chunk_buffer_size :: u32
  cl_uninit_subbb :: "nat \<Rightarrow> u64"

text \<open>
  \<open>check_reads\<close> returns a chunk (1), or the error, which is 0 (\<open>None\<close>) if nothing is left to read, and
  also if a read gives nothing and leaves no error.
\<close>

definition deliver ::
  "bp_client \<Rightarrow> ADIOS_FILE \<Rightarrow> bp_proc \<Rightarrow> ((adios_errcode option + ADIOS_VARCHUNK) \<times> bp_proc) option" where
  "deliver cl fp p =
     (case pr_requests p of
        [] \<Rightarrow> None
      | r # requests \<Rightarrow>
          case read_var (bp_reader.truncate cl) fp r (pr_mem p, pr_errno p) of
            None \<Rightarrow> None
          | Some (Some chunk, r, m, errno) \<Rightarrow>
              Some (Inr chunk, p\<lparr>pr_requests := requests, pr_mem := m, pr_errno := errno\<rparr>)
          | Some (None, r, m, errno) \<Rightarrow>
              Some (Inl errno, p\<lparr>pr_requests := r # requests, pr_mem := m, pr_errno := errno\<rparr>))"

definition give_buffer :: "bp_client \<Rightarrow> bp_proc \<Rightarrow> bp_proc" where
  "give_buffer cl p =
     (case pr_requests p of
        [] \<Rightarrow> p
      | r # requests \<Rightarrow>
          let (b, m) = cl_realloc cl (pr_b p) (rr_datasize r) (pr_mem p)
          in p\<lparr>pr_requests := r\<lparr>rr_data := b\<rparr> # requests, pr_b := b, pr_mem := m\<rparr>)"

definition adios_read_bp_check_reads ::
  "bp_client \<Rightarrow> ADIOS_FILE \<Rightarrow> bp_proc \<Rightarrow> ((adios_errcode option + ADIOS_VARCHUNK) \<times> bp_proc) option" where
  "adios_read_bp_check_reads cl fp p =
     (case pr_requests p of
        [] \<Rightarrow> Some (Inl None, p)
      | r # requests \<Rightarrow>
          if rr_data r \<noteq> 0 then deliver cl fp p
          else if u64_of_int (cl_chunk_buffer_size cl) \<ge> rr_datasize r then
            (if rr_datasize r = 0 then None else deliver cl fp (give_buffer cl p))
          else
            case split_req (cl_uninit_subbb cl) fp r (cl_chunk_buffer_size cl) of
              None \<Rightarrow> None
            | Some [] \<Rightarrow> None
            | Some subreqs \<Rightarrow> deliver cl fp (give_buffer cl (p\<lparr>pr_requests := subreqs @ requests\<rparr>)))"

end
