(* ===== verification/BP_Split.thy ===== *)
theory BP_Split
  imports BP_Request
begin

text \<open>
  Splitting a request for a box that does not fit into the chunk buffer (\<open>split_req\<close> of \<open>read/read_bp.c\<close>):
  when the parts make up the box, and when the loop does not end.
\<close>

section \<open>The parts of a split request\<close>

lemma u64_of_int_nonneg:
  fixes n :: u32
  assumes "unat n < 2 ^ 31"
  shows "unat (u64_of_int n) = unat n"
proof -
  have up: "unat (ucast n :: u64) = unat n" using assms by (intro unat_ucast_small) simp
  then have "u64_of_int (int_of_u64 (ucast n)) = ucast n" using assms by simp
  moreover have "int_of_u64 (ucast n) = n" by (simp add: int_of_u64_def ucast_down_ucast_id is_down)
  ultimately show ?thesis using up by simp
qed

lemma chunk_position_digits:
  assumes "list_all (\<lambda>c. 0 < c) counts" and "unat n < 2 ^ 31"
  shows "\<exists>pos n'. chunk_position counts n = Some (pos, n') \<and> list_all2 (<) pos counts
    \<and> unat n = rm counts pos + unat n' * prod_list (map unat counts)"
  using assms
proof (induction counts)
  case (Cons c counts)
  then obtain pos n' where *: "chunk_position counts n = Some (pos, n')" "list_all2 (<) pos counts"
    "unat n = rm counts pos + unat n' * prod_list (map unat counts)" by auto
  have c: "0 < unat c" using Cons.prems(1) by (simp add: word_less_nat_alt)
  have "prod_list (map unat counts) \<noteq> 0" using Cons.prems(1) by (induction counts) (auto simp: word_less_nat_alt)
  then have le: "unat n' \<le> unat n" using *(3) by (simp add: trans_le_add2)
  then have n': "unat (u64_of_int n') = unat n'" using Cons.prems(2) by (intro u64_of_int_nonneg) simp
  let ?q = "u64_of_int n' div c"
  have q: "unat ?q = unat n' div unat c" by (simp add: unat_div n')
  have "unat n' div unat c \<le> unat n'" by (rule div_le_dividend)
  then have "unat ?q < 2 ^ LENGTH(32)"
    unfolding q by (rule le_less_trans) (use le Cons.prems(2) in simp)
  then have "unat (int_of_u64 ?q) = unat n' div unat c" unfolding int_of_u64_def q [symmetric] by (rule unat_ucast_small)
  moreover have m: "unat (u64_of_int n' mod c) = unat n' mod unat c" by (simp add: unat_mod n')
  moreover have "unat n' mod unat c * P + (unat n' div unat c) * (unat c * P) = unat n' * P" for P
    by (metis add_mult_distrib mod_div_mult_eq mult.assoc)
  from this [of "prod_list (map unat counts)"] have "unat n = rm (c # counts) ((u64_of_int n' mod c) # pos)
      + unat n' div unat c * prod_list (map unat (c # counts))" using *(3) m by simp
  moreover have "u64_of_int n' mod c < c" using c m by (simp add: word_less_nat_alt)
  moreover have "c \<noteq> 0" using c by auto
  ultimately show ?case using *(1,2) by simp
qed simp

lemma sub_box_max:
  assumes "\<forall>j < i. pos ! j = count ! j - 1" "length subbb = length count" "drop i subbb = drop i count" "i \<le> length count"
  shows "sub_box pos count i subbb = count"
  using assms
proof (induction i arbitrary: subbb)
  case (Suc i)
  have "drop i (subbb[i := count ! i]) = drop i count"
    using Suc.prems by (metis Cons_nth_drop_Suc Suc_le_eq drop_update_cancel length_list_update lessI nth_list_update_eq)
  with Suc show ?case by simp
qed simp

lemma sub_box_slab:
  assumes "\<exists>j < i. pos ! j \<noteq> count ! j - 1" "length subbb = length count" "drop i subbb = drop i count" "i \<le> length count"
    and "length pos = length count"
  shows "if pos ! 0 = 0 then length (sub_box pos count i subbb) = length count \<and> sub_box pos count i subbb ! 0 = 0
    else sub_box pos count i subbb = pos ! 0 # tl count"
  using assms
proof (induction i arbitrary: subbb)
  case (Suc i)
  show ?case
  proof (cases "pos ! i = count ! i - 1")
    case True
    have "drop i (subbb[i := count ! i]) = drop i count"
      using Suc.prems by (metis Cons_nth_drop_Suc Suc_le_eq drop_update_cancel length_list_update lessI nth_list_update_eq)
    moreover have "\<exists>j < i. pos ! j \<noteq> count ! j - 1" using Suc.prems(1) True by (auto simp: less_Suc_eq)
    ultimately show ?thesis using Suc.IH [of "subbb[i := count ! i]"] Suc.prems True by simp
  next
    case False
    obtain p ps where pos: "pos = p # ps" using Suc.prems by (cases pos) auto
    obtain c cs where count: "count = c # cs" using Suc.prems by (cases count) auto
    let ?z = "length (takeWhile (\<lambda>p. p = 0) (take (Suc i) pos))"
    show ?thesis
    proof (cases "p = 0")
      case True
      then have "0 < ?z" by (simp add: pos)
      moreover have "sub_box pos count (Suc i) subbb
          = map (\<lambda>j. if j < ?z then 0 else if j = ?z then pos ! j else count ! j) [0..<Suc i] @ drop (Suc i) subbb"
        using False by (simp add: Let_def del: upt_Suc)
      ultimately show ?thesis using True Suc.prems by (simp add: pos nth_append del: upt_Suc) 
    next
      case nz: False
      then have "?z = 0" by (simp add: pos)
      then have "sub_box pos count (Suc i) subbb = map (\<lambda>j. if j = 0 then p else count ! j) [0..<Suc i] @ drop (Suc i) count"
        using False Suc.prems(3) by (simp add: pos)
      also have "map (\<lambda>j. if j = 0 then p else count ! j) [0..<Suc i] = p # take i cs"
        using Suc.prems(4) by (intro nth_equalityI) (auto simp: count nth_Cons' simp del: upt_Suc)
      finally show ?thesis using nz by (simp add: pos count)
    qed
  qed
qed simp

lemma next_start_all: "length ss = length cs \<Longrightarrow> next_start ss cs ss cs = (True, ss)"
  by (induction ss cs rule: list_induct2) simp_all

text \<open>The slabs of a box that are \<open>q\<close> thick in the first dimension.\<close>

definition slab_request :: "read_request \<Rightarrow> ADIOS_SELECTION_BOUNDINGBOX_STRUCT \<Rightarrow> u32 \<Rightarrow> nat \<Rightarrow> nat \<Rightarrow> read_request" where
  "slab_request r bb type_size q k =
     part_request r bb type_size ((hd (bb_start bb) + of_nat (k * q)) # tl (bb_start bb))
       (of_nat (min q (unat (hd (bb_count bb)) - k * q)) # tl (bb_count bb))"

definition slab_number :: "ADIOS_SELECTION_BOUNDINGBOX_STRUCT \<Rightarrow> nat \<Rightarrow> nat" where
  "slab_number bb q = (unat (hd (bb_count bb)) + q - 1) div q"

lemma slab_number_iff: "0 < q \<Longrightarrow> k < slab_number bb q \<longleftrightarrow> k * q < unat (hd (bb_count bb))"
  unfolding slab_number_def Suc_le_eq [symmetric] by (simp add: less_eq_div_iff_mult_less_eq) arith

lemma split_box_step:
  assumes bb: "bb_wf bb" "bb_start bb = s # ss" "bb_count bb = c # cs"
    and fit: "unat s + unat c < 2 ^ 63" "list_all2 (\<lambda>s c. unat s + unat c < 2 ^ 64) ss cs"
    and q: "0 < unat q" "unat q \<le> unat c" and k: "k * unat q < unat c"
    and st: "st = (\<lambda>k. s + of_nat (k * unat q))"
  shows "split_box r bb ts (q # cs) (st k # ss) h
    = (if unat c \<le> Suc k * unat q then Some (slab_request r bb ts (unat q) k # h)
       else split_box r bb ts (q # cs) (st (Suc k) # ss) (slab_request r bb ts (unat q) k # h))"
proof -
  let ?d = "min (unat q) (unat c - k * unat q)"
  have len: "bb_ndim bb = Suc (length ss)" "length ss = length cs" using bb by (simp_all add: bb_wf_def)
  have st_k: "unat (st k) = unat s + k * unat q"
    unfolding st using k fit(1) by (subst unat_add_no_wrap) (simp_all del: of_nat_mult)
  have sc: "unat (s + c) = unat s + unat c" using fit(1) by (intro unat_add_no_wrap) simp
  have stq: "unat (st k + q) = unat s + Suc k * unat q"
    using st_k k q(2) fit(1) by (subst unat_add_no_wrap) simp_all
  have d: "(if st k + q > s + c then s + c - st k else q) = of_nat ?d"
  proof (rule word_unat_eq_iff [THEN iffD2])
    have "unat (of_nat ?d :: u64) = ?d" using unat_u64_less [of q] by (intro unat_of_nat_small) simp
    then show "unat (if st k + q > s + c then s + c - st k else q) = unat (of_nat ?d :: u64)"
      using k by (auto simp: word_less_nat_alt stq sc st_k unat_sub_if' min_def)
  qed
  have ss: "ss ! i + cs ! i \<ge> ss ! i" if "i < length ss" for i
    using list_all2_nthD [OF fit(2)] that by (simp add: word_le_nat_alt unat_add_no_wrap)
  have "part_count bb (q # cs) (st k # ss) = of_nat ?d # cs"
    using d len by (intro nth_equalityI) (auto simp: part_count_def bb nth_Cons' simp del: upt_Suc)
  moreover have "unat (st k + of_nat ?d) = unat s + k * unat q + ?d"
    using st_k k fit(1) q(2) unat_u64_less [of q] by (subst unat_add_no_wrap) simp_all
  then have "st k + of_nat ?d = s + c \<longleftrightarrow> unat c \<le> Suc k * unat q"
    unfolding word_unat_eq_iff sc using k by (auto simp: min_def)
  moreover have "st k + of_nat ?d = st (Suc k)" if "\<not> unat c \<le> Suc k * unat q"
  proof -
    have "?d = unat q" using that by simp
    then show ?thesis by (simp add: st algebra_simps)
  qed
  moreover have "part_request r bb ts (st k # ss) (of_nat ?d # cs) = slab_request r bb ts (unat q) k"
    by (simp add: slab_request_def bb st)
  ultimately obtain e where "part_count bb (q # cs) (st k # ss) = e # cs"
      "st k + e = s + c \<longleftrightarrow> unat c \<le> Suc k * unat q" "\<not> unat c \<le> Suc k * unat q \<Longrightarrow> st k + e = st (Suc k)"
      "part_request r bb ts (st k # ss) (e # cs) = slab_request r bb ts (unat q) k" by blast
  then show ?thesis
    by (subst split_box.simps) (simp add: bb Let_def list_insert_read_request_next_def next_start_all len(2))
qed

lemma split_box_slabs:
  assumes bb: "bb_wf bb" "bb_start bb = s # ss" "bb_count bb = c # cs"
    and fit: "unat s + unat c < 2 ^ 63" "list_all2 (\<lambda>s c. unat s + unat c < 2 ^ 64) ss cs"
    and q: "0 < unat q" "unat q \<le> unat c"
    and k: "k < slab_number bb (unat q)"
    and st: "st = (\<lambda>k. s + of_nat (k * unat q))"
  shows "split_box r bb ts (q # cs) (st k # ss) h
    = Some (rev (map (slab_request r bb ts (unat q)) [k..<slab_number bb (unat q)]) @ h)"
  using k
proof (induction "slab_number bb (unat q) - k" arbitrary: k h)
  case (Suc n)
  let ?N = "slab_number bb (unat q)"
  have less: "j < ?N \<longleftrightarrow> j * unat q < unat c" for j using slab_number_iff [OF q(1), of j bb] bb by simp
  note step = split_box_step [OF bb fit q less [THEN iffD1, OF Suc.prems] st]
  show ?case
  proof (cases "Suc k < ?N")
    case True
    then have "\<not> unat c \<le> Suc k * unat q" using less [of "Suc k"] by simp
    moreover have "n = ?N - Suc k" using Suc.hyps(2) by simp
    ultimately show ?thesis unfolding step using Suc.hyps(1) [OF _ True] Suc.prems by (simp add: upt_conv_Cons)
  next
    case False
    then have "unat c \<le> Suc k * unat q" "?N = Suc k" using less [of "Suc k"] Suc.prems by simp_all
    then show ?thesis unfolding step by simp
  qed
qed simp

lemma split_box_never_done:
  assumes bb: "bb_wf bb" "bb_start bb = s # ss" "bb_count bb = c # cs" and c: "0 < unat c" "unat s + unat c < 2 ^ 64"
  shows "split_box r bb ts (0 # q) (s # ss') h = None"
proof (rule ccontr)
  have c0: "s + c \<noteq> s" using c(1) by auto
  have zero: "hd (part_count bb (0 # q) (s # st)) = 0" "part_count bb (0 # q) (s # st) \<noteq> []" for st
  proof -
    have "bb_ndim bb = Suc (length ss)" using bb by (simp add: bb_wf_def)
    moreover have "\<not> s > s + c" using c(2) by (simp add: word_less_nat_alt unat_add_no_wrap)
    ultimately show "hd (part_count bb (0 # q) (s # st)) = 0" "part_count bb (0 # q) (s # st) \<noteq> []"
      by (simp_all add: part_count_def bb upt_conv_Cons del: upt_Suc)
  qed
  assume "split_box r bb ts (0 # q) (s # ss') h \<noteq> None"
  then obtain y where y: "split_box r bb ts (0 # q) (s # ss') h = Some y" by blast
  have "b = bb \<longrightarrow> sub = 0 # q \<longrightarrow> start \<noteq> [] \<longrightarrow> hd start \<noteq> s" if "split_box r b ts sub start h = Some y"
    for r b ts sub start h y
  proof (rule split_box.raw_induct [OF _ that])
    fix F r b ts sub start h y
    assume IH: "\<And>r b ts sub start h y. F r b ts sub start h = Some y \<Longrightarrow> b = bb \<longrightarrow> sub = 0 # q \<longrightarrow> start \<noteq> [] \<longrightarrow> hd start \<noteq> s"
      and eq: "(let count = part_count b sub start; (done, start') = next_start start count (bb_start b) (bb_count b);
          h = list_insert_read_request_next h (part_request r b ts start count)
        in if done then Some h else F r b ts sub start' h) = Some y"
    show "b = bb \<longrightarrow> sub = 0 # q \<longrightarrow> start \<noteq> [] \<longrightarrow> hd start \<noteq> s"
    proof (intro impI notI)
      assume *: "b = bb" "sub = 0 # q" "start \<noteq> []" "hd start = s"
      then obtain st where st: "start = s # st" by (cases start) auto
      obtain cs' where "part_count bb (0 # q) (s # st) = 0 # cs'" using zero [of st] by (metis list.collapse)
      moreover obtain st' where "next_start (s # st) (0 # cs') (s # ss) (c # cs) = (False, s # st')"
        using c0 by (cases "next_start st cs' ss cs"; cases "fst (next_start st cs' ss cs)") auto
      ultimately show False using eq IH [of r bb ts "0 # q" "s # st'"] by (simp add: * st bb Let_def)
    qed
  qed
  with y show False by fastforce
qed

lemma buffer_elements:
  fixes b :: u32
  assumes "sized_type type" and b: "unat b < 2 ^ 31"
  shows "word_of_int (sint b sdiv sint (bp_get_type_size type (Some ''''))) = (of_nat (unat b div elem_size type) :: u32)"
proof -
  have small: "sint w = int (unat w)" if "unat w < 2 ^ 31" for w :: u32
  proof -
    have "int (unat w) < int (2 ^ 31)" using that by (simp only: of_nat_less_iff)
    then have "uint w < 2 ^ 31" by simp
    moreover have "- (2 ^ 31) \<le> uint w" by (rule order_trans [of _ 0]) simp_all
    ultimately have "signed_take_bit 31 (uint w) = uint w" by (intro signed_take_bit_int_eq_self)
    then show ?thesis by (simp add: sint_uint)
  qed
  have "unat (bp_get_type_size type (Some '''')) = elem_size type" using assms(1) by (cases type) simp_all
  moreover have "elem_size type < 2 ^ 31"
    by (rule le_less_trans [of _ 16]) (use elem_size_small [of type] assms(1) in simp_all)
  ultimately have ts: "sint (bp_get_type_size type (Some '''')) = int (elem_size type)" using small by simp
  have div: "int x sdiv int y = int (x div y)" for x y
    by (cases "x = 0"; cases "y = 0") (simp_all add: signed_divide_int_def zdiv_int)
  show ?thesis unfolding small [OF b] ts div by simp
qed

text \<open>The position of the first element that does not fit, when the whole box does not fit.\<close>

lemma position_of_rest:
  assumes pos: "list_all (\<lambda>c. 0 < c) (c # cs)" and n: "n < 2 ^ 31" "n < unat c * prod_list (map unat cs)"
  shows "\<exists>p ps n'. chunk_position (c # cs) (of_nat n) = Some (p # ps, n') \<and> length ps = length cs
    \<and> unat p = n div prod_list (map unat cs) \<and> unat p < unat c
    \<and> ((\<forall>j < Suc (length cs). (p # ps) ! j = (c # cs) ! j - 1) \<longleftrightarrow> n + 1 = unat c * prod_list (map unat cs))"
proof -
  let ?slab = "prod_list (map unat cs)"
  have n_w: "unat (of_nat n :: u32) = n" using n(1) by (intro unat_of_nat_small) simp
  from chunk_position_digits [OF pos, of "of_nat n"] n(1) obtain pos' n' where
    *: "chunk_position (c # cs) (of_nat n) = Some (pos', n')" "list_all2 (<) pos' (c # cs)"
      "n = rm (c # cs) pos' + unat n' * prod_list (map unat (c # cs))" unfolding n_w by auto
  then have n': "n = rm (c # cs) pos'" using n(2) by (cases "unat n'") auto
  from *(2) obtain p ps where pos': "pos' = p # ps" "p < c" "list_all2 (<) ps cs" by (auto simp: list_all2_Cons2)
  have "list_all2 (<) (map unat ps) (map unat cs)" using pos'(3) below_unat by blast
  then have less: "rm cs ps < ?slab" by (rule row_major_less)
  have n_eq: "n = unat p * ?slab + rm cs ps" using n' pos'(1) by simp
  then have p: "unat p = n div ?slab" using less by simp
  let ?last = "map (\<lambda>c. c - 1) (c # cs)"
  have last: "list_all2 (<) ?last (c # cs)" "rm (c # cs) ?last + 1 = unat c * ?slab"
  proof -
    have m1: "unat (d - 1) = unat d - 1" if "0 < d" for d :: u64 using that by (simp add: unat_sub word_le_nat_alt unat_gt_0 Suc_leI)
    show "list_all2 (<) ?last (c # cs)"
      using pos by (auto simp: list_all2_conv_all_nth list_all_length word_less_nat_alt m1 nth_Cons' )
    have lm: "map unat ?last = map (\<lambda>d. d - 1) (map unat (c # cs))" using pos m1 by (auto simp: list_all_iff)
    show "rm (c # cs) ?last + 1 = unat c * ?slab"
      unfolding lm using row_major_last [of "map unat (c # cs)"] pos by (simp add: list_all_iff word_less_nat_alt)
  qed
  have "(\<forall>j < Suc (length cs). (p # ps) ! j = (c # cs) ! j - 1) \<longleftrightarrow> p # ps = ?last"
    using list_all2_lengthD [OF pos'(3)] by (simp add: list_eq_iff_nth_eq All_less_Suc2)
  also have "\<dots> \<longleftrightarrow> n + 1 = unat c * ?slab"
  proof
    assume "p # ps = ?last" then show "n + 1 = unat c * ?slab" using last(2) n' pos'(1) by simp
  next
    assume "n + 1 = unat c * ?slab"
    then have "rm (c # cs) (p # ps) = rm (c # cs) ?last" using last(2) n' pos'(1) by simp
    then have "map unat (p # ps) = map unat ?last"
      using row_major_inj [of "map unat (p # ps)" "map unat (c # cs)" "map unat ?last"] *(2) last(1) pos'(1) below_unat by blast
    then show "p # ps = ?last" by (rule map_injective) (simp add: inj_def word_unat_eq_iff)
  qed
  finally show ?thesis
    using *(1) [unfolded pos'(1)] pos'(2) [unfolded word_less_nat_alt] p list_all2_lengthD [OF pos'(3)] by blast
qed

text \<open>A request for a box of which the buffer does not hold everything.\<close>

definition too_big ::
  "ADIOS_FILE \<Rightarrow> read_request \<Rightarrow> u32 \<Rightarrow> adios_index_var_struct_v1 \<Rightarrow> ADIOS_SELECTION_BOUNDINGBOX_STRUCT \<Rightarrow> bool" where
  "too_big fp r buffer_size v bb \<longleftrightarrow>
     rr_sel r = Sel_boundingbox bb \<and> bb_wf bb \<and> 0 < bb_ndim bb \<and> bb_ndim bb \<le> 32
     \<and> bp_find_var_byid (fp_fh fp) (rr_varid r) = Some v \<and> sized_type (v_type v)
     \<and> list_all (\<lambda>c. 0 < c) (bb_count bb) \<and> list_all2 (\<lambda>s c. unat s + unat c < 2 ^ 63) (bb_start bb) (bb_count bb)
     \<and> unat buffer_size < 2 ^ 31
     \<and> unat buffer_size div elem_size (v_type v) < prod_list (map unat (bb_count bb))"

abbreviation slab_volume :: "ADIOS_SELECTION_BOUNDINGBOX_STRUCT \<Rightarrow> nat" where
  "slab_volume bb \<equiv> prod_list (map unat (tl (bb_count bb)))"

lemma split_req_cases:
  assumes "too_big fp r b v bb" and n: "n = unat b div elem_size (v_type v)"
    and N: "N = prod_list (map unat (bb_count bb))" and ts: "ts = bp_get_type_size (v_type v) (Some '''')"
  shows "n + 1 = N \<Longrightarrow> split_req uninit fp r b = Some [slab_request r bb ts (unat (hd (bb_count bb))) 0]"
    and "n + 1 < N \<Longrightarrow> slab_volume bb \<le> n \<Longrightarrow> split_req uninit fp r b
      = Some (rev (map (slab_request r bb ts (n div slab_volume bb)) [0..<slab_number bb (n div slab_volume bb)]))"
    and "n + 1 < N \<Longrightarrow> n < slab_volume bb \<Longrightarrow> split_req uninit fp r b = None"
proof -
  have r: "rr_sel r = Sel_boundingbox bb" "bb_wf bb" "bb_ndim bb \<le> 32" "bp_find_var_byid (fp_fh fp) (rr_varid r) = Some v"
      "sized_type (v_type v)" "unat b < 2 ^ 31" "n < N"
    using assms(1) by (auto simp: too_big_def n N)
  obtain s ss c cs where bb: "bb_start bb = s # ss" "bb_count bb = c # cs" "bb_ndim bb = Suc (length cs)" "length ss = length cs"
    using assms(1) by (cases "bb_start bb"; cases "bb_count bb") (auto simp: too_big_def bb_wf_def)
  have fit: "unat s + unat c < 2 ^ 63" "list_all2 (\<lambda>s c. unat s + unat c < 2 ^ 64) ss cs"
    using assms(1) by (auto simp: too_big_def bb elim: list_all2_mono)
  have c0: "list_all (\<lambda>c. 0 < c) (c # cs)" using assms(1) by (simp add: too_big_def bb)
  have n31: "n < 2 ^ 31" using r(6) n div_le_dividend [of "unat b" "elem_size (v_type v)"] by linarith
  have v: "slab_volume bb = prod_list (map unat cs)" "N = unat c * prod_list (map unat cs)" by (simp_all add: bb N)
  from position_of_rest [OF c0 n31] r(7) obtain p ps n' where
    p: "chunk_position (c # cs) (of_nat n) = Some (p # ps, n')" "length ps = length cs"
      "unat p = n div slab_volume bb" "unat p < unat c"
    and max: "(\<forall>j < Suc (length cs). (p # ps) ! j = (c # cs) ! j - 1) \<longleftrightarrow> n + 1 = N"
    unfolding v by blast
  let ?subbb = "sub_box (p # ps) (c # cs) (Suc (length cs)) (map uninit [0..<Suc (length cs)])"
  have split: "split_req uninit fp r b = split_box r bb ts ?subbb (s # ss) []"
    using r p(1) buffer_elements [OF r(5,6)] by (simp add: split_req_def Let_def bb ts flip: n del: sub_box.simps)
  note box = split_box_slabs [OF r(2) bb(1,2) fit, where r = r and ts = ts and h = "[]" and k = 0, OF _ _ _ refl]
  note slab = sub_box_slab [of "Suc (length cs)" "p # ps" "c # cs" "map uninit [0..<Suc (length cs)]"]
  show "split_req uninit fp r b = Some [slab_request r bb ts (unat (hd (bb_count bb))) 0]" if "n + 1 = N"
  proof -
    have "?subbb = c # cs" using max that by (intro sub_box_max) simp_all
    moreover have "slab_number bb (unat c) = 1" using p(4) by (simp add: slab_number_def bb div_nat_eqI)
    ultimately show ?thesis using split box [of c] p(4) bb by simp
  qed
  show "split_req uninit fp r b = Some (rev (map (slab_request r bb ts (n div slab_volume bb)) [0..<slab_number bb (n div slab_volume bb)]))"
    if "n + 1 < N" "slab_volume bb \<le> n"
  proof -
    have "0 < slab_volume bb" using c0 by (simp add: v prod_list_pos list_all_iff word_less_nat_alt)
    then have q: "0 < unat p" using p(3) that(2) by (simp add: div_greater_zero_iff)
    then have "p \<noteq> 0" by auto
    then have "?subbb = p # cs" using slab that(1) max p(2) by simp
    moreover have "0 < slab_number bb (unat p)" using slab_number_iff [OF q, of 0 bb] p(4) bb by simp
    ultimately show ?thesis using split box [of p] q p(3,4) by simp
  qed
  show "split_req uninit fp r b = None" if "n + 1 < N" "n < slab_volume bb"
  proof -
    have "unat p = 0" using p(3) that(2) by simp
    then have "p = 0" by (simp add: word_unat_eq_iff)
    then have "length ?subbb = Suc (length cs)" "?subbb ! 0 = 0" using slab that(1) max p(2) by simp_all
    then obtain q where "?subbb = 0 # q" by (metis length_Suc_conv nth_Cons_0)
    then show ?thesis using split split_box_never_done [OF r(2) bb(1,2)] fit(1) p(4) by simp
  qed
qed

text \<open>The points that a request asks for, and the length of a list in which one element has a property.\<close>

definition in_request :: "read_request \<Rightarrow> nat list \<Rightarrow> bool" where
  "in_request q p = (case rr_sel q of Sel_boundingbox bb \<Rightarrow> in_box (bb_start bb) (bb_count bb) p | _ \<Rightarrow> False)"

lemma length_filter_upt: "length (filter P [0..<n]) = card {k. k < n \<and> P k}"
proof -
  have "card (set (filter P [0..<n])) = length (filter P [0..<n])" by (intro distinct_card distinct_filter distinct_upt)
  moreover have "set (filter P [0..<n]) = {k. k < n \<and> P k}" by auto
  ultimately show ?thesis by simp
qed

lemma slab_in_request:
  assumes bb: "bb_start bb = s # ss" "bb_count bb = c # cs" and fit: "unat s + unat c < 2 ^ 64"
    and q: "q \<le> unat c" and k: "k * q < unat c"
  shows "in_request (slab_request r bb ts q k) (p # ps)
    \<longleftrightarrow> in_box ss cs ps \<and> unat s + k * q \<le> p \<and> p < unat s + unat c \<and> p < unat s + Suc k * q"
proof -
  have "unat (s + of_nat (k * q)) = unat s + k * q"
    using k fit by (subst unat_add_no_wrap) (simp_all del: of_nat_mult)
  moreover have "unat (of_nat (min q (unat c - k * q)) :: u64) = min q (unat c - k * q)"
    using unat_u64_less [of c] by (intro unat_of_nat_small) simp
  ultimately show ?thesis
    using k by (auto simp: in_request_def slab_request_def part_request_def bb simp del: of_nat_mult of_nat_min)
qed

lemma slabs_partition:
  assumes bb: "bb_start bb = s # ss" "bb_count bb = c # cs" and fit: "unat s + unat c < 2 ^ 64"
    and q: "0 < q" "q \<le> unat c"
  shows "length (filter (\<lambda>r. in_request r p) (map (slab_request r bb ts q) [0..<slab_number bb q]))
    = (if in_box (bb_start bb) (bb_count bb) p then 1 else 0)"
proof (cases p)
  case Nil
  then show ?thesis by (simp add: filter_map bb in_request_def slab_request_def part_request_def comp_def)
next
  case (Cons x ps)
  let ?k = "(x - unat s) div q"
  have "{k. k < slab_number bb q \<and> in_request (slab_request r bb ts q k) (x # ps)}
      = (if in_box ss cs ps \<and> unat s \<le> x \<and> x < unat s + unat c then {?k} else {})"
  proof -
    have "k < slab_number bb q \<and> in_request (slab_request r bb ts q k) (x # ps)
        \<longleftrightarrow> in_box ss cs ps \<and> unat s \<le> x \<and> x < unat s + unat c \<and> k = ?k" for k
    proof
      assume "k < slab_number bb q \<and> in_request (slab_request r bb ts q k) (x # ps)"
      then have "in_box ss cs ps" "unat s + k * q \<le> x" "x < unat s + unat c" "x < unat s + Suc k * q"
        using slab_number_iff [OF q(1), of k bb] slab_in_request [OF bb fit q(2)] by (auto simp: bb)
      moreover from this have "?k = k" by (intro div_nat_eqI) (auto simp: algebra_simps)
      ultimately show "in_box ss cs ps \<and> unat s \<le> x \<and> x < unat s + unat c \<and> k = ?k" by simp
    next
      assume *: "in_box ss cs ps \<and> unat s \<le> x \<and> x < unat s + unat c \<and> k = ?k"
      then have k: "k * q \<le> x - unat s" "x - unat s < Suc k * q"
        using q(1) by (simp_all add: dividend_less_div_times)
      then have "k * q < unat c" "unat s + k * q \<le> x" "x < unat s + Suc k * q" using * by linarith+
      then show "k < slab_number bb q \<and> in_request (slab_request r bb ts q k) (x # ps)"
        using slab_number_iff [OF q(1), of k bb] slab_in_request [OF bb fit q(2), of k r ts x ps] * by (simp add: bb)
    qed
    then show ?thesis by auto
  qed
  then show ?thesis by (simp add: filter_map comp_def length_filter_upt Cons bb)
qed

lemma slab_request_size:
  assumes bb: "bb_wf bb" "bb_start bb = s # ss" "bb_count bb = c # cs"
    and ts: "u64_of_int ts = of_nat z"
    and count_def: "count = of_nat (min q (unat c - k * q)) # cs"
  shows "slab_request r bb ts q k = r\<lparr>rr_sel := Sel_boundingbox \<lparr>bb_ndim = bb_ndim bb,
      bb_start = (s + of_nat (k * q)) # ss, bb_count = count\<rparr>, rr_datasize := of_nat (prod_list (map unat count) * z)\<rparr>"
    and "prod_list (map unat count) * z \<le> q * prod_list (map unat cs) * z"
proof -
  have "unat (of_nat (min q (unat c - k * q)) :: u64) = min q (unat c - k * q)"
    using unat_u64_less [of c] by (intro unat_of_nat_small) simp
  then show "prod_list (map unat count) * z \<le> q * prod_list (map unat cs) * z" by (simp add: count_def del: of_nat_min)
  show "slab_request r bb ts q k = r\<lparr>rr_sel := Sel_boundingbox \<lparr>bb_ndim = bb_ndim bb,
      bb_start = (s + of_nat (k * q)) # ss, bb_count = count\<rparr>, rr_datasize := of_nat (prod_list (map unat count) * z)\<rparr>"
    unfolding slab_request_def part_request_def fold_times ts by (simp add: bb count_def mult.commute del: of_nat_min)
qed

lemma split_req_slabs:
  assumes "too_big fp r buffer_size v bb"
    and "slab_volume bb \<le> unat buffer_size div elem_size (v_type v)"
    and "unat buffer_size div elem_size (v_type v) + 1 < prod_list (map unat (bb_count bb))"
  obtains s ss c cs q where "bb_start bb = s # ss" and "bb_count bb = c # cs" and "length ss = length cs" and "bb_wf bb"
    and "unat s + unat c < 2 ^ 64" and "0 < q" and "q \<le> unat c"
    and "q * prod_list (map unat cs) * elem_size (v_type v) \<le> unat buffer_size"
    and "u64_of_int (bp_get_type_size (v_type v) (Some '''')) = of_nat (elem_size (v_type v))"
    and "\<forall>uninit. split_req uninit fp r buffer_size
      = Some (rev (map (slab_request r bb (bp_get_type_size (v_type v) (Some '''')) q) [0..<slab_number bb q]))"
proof -
  let ?ts = "bp_get_type_size (v_type v) (Some '''')" and ?z = "elem_size (v_type v)"
  define n where "n = unat buffer_size div ?z"
  define q where "q = n div slab_volume bb"
  obtain s ss c cs where bb: "bb_start bb = s # ss" "bb_count bb = c # cs" "length ss = length cs" "bb_wf bb"
    using assms(1) by (cases "bb_start bb"; cases "bb_count bb") (auto simp: too_big_def bb_wf_def)
  have "sized_type (v_type v)" using assms(1) by (simp add: too_big_def)
  then have ts: "u64_of_int ?ts = of_nat ?z" by (cases "v_type v") (simp_all add: u64_of_int_def)
  have v: "slab_volume bb = prod_list (map unat cs)" "prod_list (map unat (bb_count bb)) = unat c * slab_volume bb"
    by (simp_all add: bb)
  have "0 < slab_volume bb" using assms(3) v(2) by (cases "slab_volume bb") simp_all
  then have q: "0 < q" "q \<le> unat c" "q * slab_volume bb \<le> n"
    using assms(2,3) unfolding v(2) n_def [symmetric] q_def
    by (simp_all add: div_greater_zero_iff less_imp_le div_less_iff_less_mult)
  have fit: "unat s + unat c < 2 ^ 64" using assms(1) by (simp add: too_big_def bb)
  have "n * ?z \<le> unat buffer_size" by (simp add: n_def)
  then have size: "q * prod_list (map unat cs) * ?z \<le> unat buffer_size"
    using mult_le_mono1 [OF q(3), of ?z] unfolding v(1) by linarith
  have "split_req uninit fp r buffer_size = Some (rev (map (slab_request r bb ?ts q) [0..<slab_number bb q]))" for uninit
    using split_req_cases(2) [OF assms(1) refl refl refl] assms(2,3) by (simp add: n_def q_def)
  then show ?thesis using that [OF bb fit q(1,2) size ts] by blast
qed

text \<open>
  C12. A request for a box that is larger than the chunk buffer is split into parts that fit, when the buffer
  holds at least one slab (all of the box at one index of its first dimension): every part is a box
  with the other fields of the request unchanged, its recorded size is the size of its box and is at
  most the size of the buffer, and every point is in exactly one part if it is in the box and in no
  part otherwise. The case that the buffer holds all of the box but one element is left out: there
  the box stays in one part, one element larger than the buffer (\<open>split_req_cases\<close>).
\<close>

theorem split_req_partitions:
  assumes "too_big fp r buffer_size v bb"
    and "slab_volume bb \<le> unat buffer_size div elem_size (v_type v)"
    and "unat buffer_size div elem_size (v_type v) + 1 < prod_list (map unat (bb_count bb))"
  shows "\<exists>parts. split_req uninit fp r buffer_size = Some parts
    \<and> (\<forall>q \<in> set parts. \<exists>part. bb_wf part
        \<and> q = r\<lparr>rr_sel := Sel_boundingbox part, rr_datasize := of_nat (prod_list (map unat (bb_count part)) * elem_size (v_type v))\<rparr>
        \<and> prod_list (map unat (bb_count part)) * elem_size (v_type v) \<le> unat buffer_size)
    \<and> (\<forall>p. length (filter (\<lambda>q. in_request q p) parts) = (if in_box (bb_start bb) (bb_count bb) p then 1 else 0))"
proof -
  let ?ts = "bp_get_type_size (v_type v) (Some '''')" and ?z = "elem_size (v_type v)"
  obtain s ss c cs q where
    bb: "bb_start bb = s # ss" "bb_count bb = c # cs" "length ss = length cs" "bb_wf bb" and fit: "unat s + unat c < 2 ^ 64"
    and q: "0 < q" "q \<le> unat c" and size: "q * prod_list (map unat cs) * ?z \<le> unat buffer_size" and ts: "u64_of_int ?ts = of_nat ?z"
    and split: "\<forall>uninit. split_req uninit fp r buffer_size = Some (rev (map (slab_request r bb ?ts q) [0..<slab_number bb q]))"
    by (rule split_req_slabs [OF assms]) blast
  let ?parts = "map (slab_request r bb ?ts q) [0..<slab_number bb q]"
  note split [rule_format, of uninit]
  moreover have "\<exists>part. bb_wf part \<and> x = r\<lparr>rr_sel := Sel_boundingbox part, rr_datasize := of_nat (prod_list (map unat (bb_count part)) * ?z)\<rparr>
      \<and> prod_list (map unat (bb_count part)) * ?z \<le> unat buffer_size" if "x \<in> set (rev ?parts)" for x
  proof -
    from that obtain k where x: "x = slab_request r bb ?ts q k" by auto
    let ?part = "\<lparr>bb_ndim = bb_ndim bb, bb_start = (s + of_nat (k * q)) # ss, bb_count = of_nat (min q (unat c - k * q)) # cs\<rparr>"
    show ?thesis
      using slab_request_size(1) [OF bb(4,1,2) ts refl, where r = r and q = q and k = k]
        order_trans [OF slab_request_size(2) [OF bb(4,1,2) ts refl, where q = q and k = k] size] bb(3,4)
      by (intro exI [of _ ?part] conjI) (auto simp: x bb_wf_def bb simp del: of_nat_min of_nat_mult)
  qed
  moreover have "length (filter (\<lambda>q. in_request q p) (rev ?parts)) = (if in_box (bb_start bb) (bb_count bb) p then 1 else 0)" for p
    using slabs_partition [OF bb(1,2) fit q(1,2)] by (simp flip: rev_filter)
  ultimately show ?thesis by blast
qed

definition big_request :: "read_request" where
  "big_request = grid_request\<lparr>rr_sel := Sel_boundingbox \<lparr>bb_ndim = 2, bb_start = [5, 0], bb_count = [4, 3]\<rparr>, rr_data := 0\<rparr>"

lemma big_request_too_big:
  "unat b < 12 \<Longrightarrow> too_big grid_file big_request b grid_var \<lparr>bb_ndim = 2, bb_start = [5, 0], bb_count = [4, 3]\<rparr>"
  using grid_find by (simp add: too_big_def big_request_def grid_request_def bb_wf_def grid_var_fields)

theorem split_req_partitions_witness:
  "\<exists>parts. split_req (\<lambda>_. 0) grid_file big_request 7 = Some parts
    \<and> length (filter (\<lambda>q. in_request q [7, 1]) parts) = 1 \<and> length (filter (\<lambda>q. in_request q [7, 3]) parts) = 0"
  using split_req_partitions [OF big_request_too_big, of 7 "\<lambda>_. 0"] by (auto simp: grid_var_fields simp del: length_0_conv)

text \<open>
  C39. When the chunk buffer does not hold a slab of the box, so that the split would have to cut the
  first dimension into single indexes, \<open>split_req\<close> never returns: the size of the parts in the first
  dimension is 0 and the loop adds empty parts again and again. No assertion fails and
  nothing else stops it.
\<close>

theorem split_req_never_returns:
  assumes "too_big fp r buffer_size v bb"
    and "unat buffer_size div elem_size (v_type v) < slab_volume bb"
    and "unat buffer_size div elem_size (v_type v) + 1 < prod_list (map unat (bb_count bb))"
  shows "split_req uninit fp r buffer_size = None"
  using split_req_cases(3) [OF assms(1) refl refl refl assms(3,2)] .

theorem split_req_never_returns_witness: "split_req (\<lambda>_. 0) grid_file big_request 2 = None"
  by (rule split_req_never_returns [OF big_request_too_big]) (simp_all add: grid_var_fields)

end
