(* ===== verification/BP_Deliver.thy ===== *)
theory BP_Deliver
  imports BP_Split
begin

text \<open>
  What the program gets that reads with the BP reader (\<open>read/read_bp.c\<close>): the data of all requests
  after a blocking \<open>adios_read_bp_perform_reads\<close>, the whole variable without a selection, the data of
  points and write blocks, and the chunks of \<open>adios_read_bp_check_reads\<close>, one per call.
\<close>

section \<open>Requests for boxes\<close>

text \<open>A request for a box of a global array, of which all blocks are good, and its target in memory.\<close>

definition box_request ::
  "bp_reader \<Rightarrow> nat \<Rightarrow> ADIOS_FILE \<Rightarrow> read_request \<Rightarrow> adios_index_var_struct_v1 \<Rightarrow> u64 list \<Rightarrow> u64 list \<Rightarrow> bool" where
  "box_request rd room fp r v start count \<longleftrightarrow>
     (\<exists>bb dims ns. rr_sel r = Sel_boundingbox bb \<and> bb_wf bb \<and> wanted rd bb = (start, count)
       \<and> bp_find_var_byid (fp_fh fp) (rr_varid r) = Some v \<and> sorted (time_indexes v) \<and> good_var v \<and> sized_type (v_type v)
       \<and> bp_get_and_swap_dimensions (fp_fh fp) (fp_streaming fp) (fp_current_step fp) v (is_fortran_file (fp_fh fp))
         = Some (bb_ndim bb, dims, ns)
       \<and> box_ok start count
       \<and> (\<forall>k < nat (rr_nsteps r). step_time fp v (fp_current_step fp + rr_from_steps r + int k) \<in> set (time_indexes v)
           \<and> list_all (good_block (fp_fh fp) (elem_size (v_type v)) room start count)
               (step_blocks fp v (fp_current_step fp + rr_from_steps r + int k))))"

abbreviation target_size :: "read_request \<Rightarrow> adios_index_var_struct_v1 \<Rightarrow> u64 list \<Rightarrow> nat" where
  "target_size r v count \<equiv> nat (rr_nsteps r) * box_volume (v_type v) count"

definition in_target :: "read_request \<Rightarrow> adios_index_var_struct_v1 \<Rightarrow> u64 list \<Rightarrow> u64 \<Rightarrow> bool" where
  "in_target r v count x \<longleftrightarrow> unat (x - rr_data r) < target_size r v count"

text \<open>The place of a point of the box, for a step of the request, and what it has to hold.\<close>

abbreviation point_addr :: "read_request \<Rightarrow> adios_index_var_struct_v1 \<Rightarrow> u64 list \<Rightarrow> nat \<Rightarrow> u64 list \<Rightarrow> u64" where
  "point_addr r v count k p \<equiv>
     box_addr (elem_size (v_type v)) (rr_data r + of_nat (k * box_volume (v_type v) count)) count p"

abbreviation point_value ::
  "ADIOS_FILE \<Rightarrow> read_request \<Rightarrow> adios_index_var_struct_v1 \<Rightarrow> u64 list \<Rightarrow> nat \<Rightarrow> u64 list \<Rightarrow> u8 list \<Rightarrow> u8 list" where
  "point_value fp r v start k p \<equiv>
     blocks_value (fp_fh fp) (v_type v) start p (step_blocks fp v (fp_current_step fp + rr_from_steps r + int k))"

definition box_delivered ::
  "ADIOS_FILE \<Rightarrow> read_request \<Rightarrow> adios_index_var_struct_v1 \<Rightarrow> u64 list \<Rightarrow> u64 list \<Rightarrow> mem \<Rightarrow> mem \<Rightarrow> bool" where
  "box_delivered fp r v start count m m' \<longleftrightarrow>
     (\<forall>k < nat (rr_nsteps r). \<forall>p. list_all2 (<) p count \<longrightarrow>
        load (point_addr r v count k p) (elem_size (v_type v)) m'
        = point_value fp r v start k p (load (point_addr r v count k p) (elem_size (v_type v)) m))"

lemma read_box:
  assumes "box_request rd room fp r v start count"
    and "target_size r v count < 2 ^ 64" and "buffers_apart rd room (rr_data r) (target_size r v count)"
  shows "\<exists>r' m'. read_var rd fp r (m, errno) = Some (Some (box_chunk r v start count), r', m', errno)
    \<and> box_delivered fp r v start count m m'
    \<and> (\<forall>x. \<not> in_buffer rd room x \<and> \<not> in_target r v count x \<longrightarrow> m' x = m x)"
proof -
  from assms(1) obtain bb dims ns where r: "rr_sel r = Sel_boundingbox bb" "bb_wf bb" "wanted rd bb = (start, count)"
    and v: "bp_find_var_byid (fp_fh fp) (rr_varid r) = Some v" "sorted (time_indexes v)" "good_var v" "sized_type (v_type v)"
    and dims: "bp_get_and_swap_dimensions (fp_fh fp) (fp_streaming fp) (fp_current_step fp) v (is_fortran_file (fp_fh fp))
        = Some (bb_ndim bb, dims, ns)"
    and box: "box_ok start count"
    and steps: "\<forall>k < nat (rr_nsteps r). step_time fp v (fp_current_step fp + rr_from_steps r + int k) \<in> set (time_indexes v)
        \<and> list_all (good_block (fp_fh fp) (elem_size (v_type v)) room start count)
            (step_blocks fp v (fp_current_step fp + rr_from_steps r + int k))"
    unfolding box_request_def by blast
  from read_var_bb_result [OF r v dims box steps assms(2,3), of m errno]
  obtain m' where m': "read_var_bb rd fp r (m, errno) = Some (Some (box_chunk r v start count), m', errno)"
      "box_delivered fp r v start count m m'" "\<forall>x. \<not> in_buffer rd room x \<and> \<not> in_target r v count x \<longrightarrow> m' x = m x"
    unfolding box_delivered_def in_target_def by blast
  then have "read_var rd fp r (m, errno) = Some (Some (box_chunk r v start count), swapped_request rd r bb, m', errno)"
    by (simp add: read_var_def r(1))
  with m' show ?thesis by blast
qed

section \<open>Blocking reads\<close>

text \<open>The data of a request depend on memory at its target only.\<close>

lemma point_in_target:
  assumes "k < nat (rr_nsteps r)" and "list_all2 (<) p count" and "u < elem_size (v_type v)" and "target_size r v count < 2 ^ 64"
  shows "in_target r v count (point_addr r v count k p + of_nat u)"
  unfolding in_target_def using step_byte [OF assms(2,3,1) refl assms(4)] by simp

lemma box_delivered_cong:
  assumes "target_size r v count < 2 ^ 64" and "\<And>x. in_target r v count x \<Longrightarrow> m x = n x \<and> m' x = n' x"
  shows "box_delivered fp r v start count m m' \<longleftrightarrow> box_delivered fp r v start count n n'"
proof -
  have "load (point_addr r v count k p) (elem_size (v_type v)) m = load (point_addr r v count k p) (elem_size (v_type v)) n
      \<and> load (point_addr r v count k p) (elem_size (v_type v)) m' = load (point_addr r v count k p) (elem_size (v_type v)) n'"
    if "k < nat (rr_nsteps r)" "list_all2 (<) p count" for k p
    using assms(2) [OF point_in_target [OF that _ assms(1)]] by (auto intro!: load_eqI)
  then show ?thesis unfolding box_delivered_def by auto
qed

text \<open>Requests with their variables and boxes, ready to be performed.\<close>

definition performable ::
  "bp_reader \<Rightarrow> nat \<Rightarrow> ADIOS_FILE \<Rightarrow> (read_request \<times> adios_index_var_struct_v1 \<times> u64 list \<times> u64 list) list \<Rightarrow> bool" where
  "performable rd room fp xs \<longleftrightarrow>
     (\<forall>(r, v, start, count) \<in> set xs. rr_data r \<noteq> 0 \<and> box_request rd room fp r v start count
       \<and> target_size r v count < 2 ^ 64 \<and> buffers_apart rd room (rr_data r) (target_size r v count))
     \<and> sorted_wrt (\<lambda>(r, v, _, count) (r', v', _, count'). \<forall>x. \<not> (in_target r v count x \<and> in_target r' v' count' x)) xs"

lemma perform_loop_delivers:
  assumes "performable rd room fp xs"
  shows "\<exists>m'. perform_loop rd fp (map fst xs) (m, errno) = Some (m', errno)
    \<and> (\<forall>(r, v, start, count) \<in> set xs. box_delivered fp r v start count m m')
    \<and> (\<forall>x. \<not> in_buffer rd room x \<and> (\<forall>(r, v, start, count) \<in> set xs. \<not> in_target r v count x) \<longrightarrow> m' x = m x)"
  using assms
proof (induction xs arbitrary: m)
  case (Cons y xs)
  obtain r v start count where y: "y = (r, v, start, count)" by (cases y)
  have r: "box_request rd room fp r v start count" "target_size r v count < 2 ^ 64"
      "buffers_apart rd room (rr_data r) (target_size r v count)" and xs: "performable rd room fp xs"
    using Cons.prems by (auto simp: performable_def y)
  from read_box [OF r, of m errno] obtain r' m1 where
    1: "read_var rd fp r (m, errno) = Some (Some (box_chunk r v start count), r', m1, errno)"
      "box_delivered fp r v start count m m1" "\<forall>x. \<not> in_buffer rd room x \<and> \<not> in_target r v count x \<longrightarrow> m1 x = m x" by blast
  from Cons.IH [OF xs, of m1] obtain m' where
    2: "perform_loop rd fp (map fst xs) (m1, errno) = Some (m', errno)"
      "\<forall>(r, v, start, count) \<in> set xs. box_delivered fp r v start count m1 m'"
      "\<forall>x. \<not> in_buffer rd room x \<and> (\<forall>(r, v, start, count) \<in> set xs. \<not> in_target r v count x) \<longrightarrow> m' x = m1 x" by blast
  have apart: "\<not> in_target q w c x" "\<not> in_buffer rd room x" if "(q, w, s, c) \<in> set xs" "in_target r v count x" for q w s c x
    using Cons.prems that apart_window [OF r(3)] unfolding in_target_def performable_def y by auto
  have "box_delivered fp r v start count m m'"
  proof (rule box_delivered_cong [OF r(2), THEN iffD1, OF _ 1(2)])
    fix x assume x: "in_target r v count x"
    have "\<not> in_buffer rd room x" using apart_window [OF r(3)] x unfolding in_target_def by blast
    moreover have "\<forall>(q, w, s, c) \<in> set xs. \<not> in_target q w c x" using apart(1) x by blast
    ultimately show "m x = m x \<and> m1 x = m' x" using 2(3) by simp
  qed
  moreover have "box_delivered fp q w s c m m'" if q: "(q, w, s, c) \<in> set xs" for q w s c
  proof (rule box_delivered_cong [THEN iffD1])
    show "target_size q w c < 2 ^ 64" using xs q by (auto simp: performable_def)
    show "box_delivered fp q w s c m1 m'" using 2(2) q by auto
    fix x assume "in_target q w c x"
    moreover have "buffers_apart rd room (rr_data q) (target_size q w c)" using xs q by (auto simp: performable_def)
    ultimately show "m1 x = m x \<and> m' x = m' x"
      using 1(3) apart(1) [OF q] apart_window unfolding in_target_def by blast
  qed
  ultimately show ?case using 1 2 by (auto simp: y)
qed simp

text \<open>
  C8. A blocking \<open>adios_read_bp_perform_reads\<close> on any list of requests for boxes with targets that do not
  overlap: all of them are read, the list is empty afterwards, the result is 0, and every target
  holds its box: for every step and every point the element of the last block that covers the
  point. Outside the targets and the buffer of the reader memory does not change. The blocks have
  payloads of at most \<open>0x7ffff000\<close> bytes, what one \<open>MPI_File_read\<close> transfers (\<open>good_block\<close>).
\<close>

theorem perform_reads_delivers:
  assumes "performable rd room fp xs"
  shows "\<exists>m'. adios_read_bp_perform_reads rd fp True (map fst xs, m, errno) = Some (None, [], m', errno)
    \<and> (\<forall>(r, v, start, count) \<in> set xs. box_delivered fp r v start count m m')
    \<and> (\<forall>x. \<not> in_buffer rd room x \<and> (\<forall>(r, v, start, count) \<in> set xs. \<not> in_target r v count x) \<longrightarrow> m' x = m x)"
proof -
  have "\<not> list_ex (\<lambda>r. rr_data r = 0) (map fst xs)" using assms by (auto simp: performable_def list_ex_iff)
  then show ?thesis using perform_loop_delivers [OF assms, of m errno] by (auto simp: adios_read_bp_perform_reads_def)
qed

section \<open>Reading a whole variable\<close>

lemma length_swap_order [simp]: "length (fst (swap_order n (xs, t))) = length xs"
proof -
  have "length (fold (\<lambda>i a. a[i := a ! (n - 1 - i), n - 1 - i := a ! i]) is xs) = length xs" for "is" and xs :: "u64 list"
    by (induction "is" arbitrary: xs) simp_all
  then show ?thesis by (simp add: swap_order_def)
qed

lemma swap_order_append: "length xs = n \<Longrightarrow> fst (swap_order n (xs @ ys, t)) = rev xs @ ys"
proof -
  assume n: "length xs = n"
  have "fold (\<lambda>i a. a[i := a ! (n - 1 - i), n - 1 - i := a ! i]) is (a @ ys)
      = fold (\<lambda>i a. a[i := a ! (n - 1 - i), n - 1 - i := a ! i]) is a @ ys"
    if "\<forall>i \<in> set is. i < n" "length a = n" for "is" and a :: "u64 list"
    using that by (induction "is" arbitrary: a) (simp_all add: nth_append list_update_append)
  moreover have "\<forall>i \<in> set [0..<n div 2]. i < n" by auto
  ultimately show ?thesis using swap_order_rev [OF n, of t] n unfolding swap_order_def by simp
qed

lemma swap_order_take:
  assumes "n \<le> length xs"
  shows "take n (fst (swap_order n (xs, t))) = rev (take n xs)"
  using swap_order_append [of "take n xs" n "drop n xs" t] assms by simp

lemma whole_variable_box:
  assumes "bp_get_and_swap_dimensions (fp_fh fp) (fp_streaming fp) (fp_current_step fp) v (is_fortran_file (fp_fh fp))
      = Some (ndim, dims, ns)" and "ndim \<le> length dims"
  shows "\<exists>bb. whole_variable rd fp v = Some (Sel_boundingbox bb) \<and> bb_wf bb \<and> bb_ndim bb = ndim
    \<and> wanted rd bb = (replicate ndim 0, take ndim dims)"
proof -
  let ?f = "is_fortran_file (fp_fh fp)" and ?g = "rd_called_from_fortran rd"
  obtain dims0 where 0: "bp_get_dimensions_generic (fp_fh fp) (fp_streaming fp) (fp_current_step fp) v False = Some (ndim, dims0, ns)"
      "dims = (if ?f then fst (swap_order ndim (dims0, 0)) else dims0)"
    using assms(1) by (auto simp: bp_get_and_swap_dimensions_def bp_get_and_swap_dimensions_generic_def split: option.splits if_splits)
  then have len: "ndim \<le> length dims0"
    using assms(2) length_swap_order [of ndim dims0 0] by (auto split: if_splits)
  let ?bb = "\<lparr>bb_ndim = ndim, bb_start = replicate ndim 0,
      bb_count = take ndim (if ?f \<noteq> ?g then fst (swap_order ndim (dims0, 0)) else dims0)\<rparr>"
  have "whole_variable rd fp v = Some (Sel_boundingbox ?bb)"
    using 0(1) by (simp add: whole_variable_def bp_get_and_swap_dimensions_def bp_get_and_swap_dimensions_generic_def)
  moreover have "bb_wf ?bb" using len length_swap_order [of ndim dims0 0] by (simp add: bb_wf_def)
  moreover have "wanted rd ?bb = (replicate ndim 0, take ndim dims)"
    using len by (auto simp: wanted_def 0(2) swap_order_take)
  ultimately show ?thesis by (intro exI [of _ ?bb]) simp
qed

text \<open>
  C6. Reading a whole global array of a file: scheduled without a selection, by a program in C or in
  Fortran, whatever the file was written by, and performed, every element of every step asked for
  is at its place in the target, in the order of dimensions of the file, and nothing is left to
  read. The blocks have payloads of at most \<open>0x7ffff000\<close> bytes, what one \<open>MPI_File_read\<close> transfers
  (\<open>good_block\<close>).
\<close>

theorem read_whole_variable:
  assumes varid: "varid < length (fp_varid_mapping fp)" "\<not> fp_streaming fp"
    and v: "bp_find_var_byid (fp_fh fp) (fp_varid_mapping fp ! varid) = Some v" "sorted (time_indexes v)" "good_var v"
      "sized_type (v_type v)"
    and dims: "bp_get_and_swap_dimensions (fp_fh fp) False (fp_current_step fp) v (is_fortran_file (fp_fh fp))
        = Some (length dims, dims @ rest, ns)" "box_ok (replicate (length dims) 0) dims"
    and steps: "\<forall>k < nat nsteps. step_time fp v (fp_current_step fp + from_steps + int k) \<in> set (time_indexes v)
        \<and> list_all (good_block (fp_fh fp) (elem_size (v_type v)) room (replicate (length dims) 0) dims)
            (step_blocks fp v (fp_current_step fp + from_steps + int k))"
    and data: "data \<noteq> 0" "nat nsteps * box_volume (v_type v) dims < 2 ^ 64"
      "buffers_apart rd room data (nat nsteps * box_volume (v_type v) dims)"
  shows "\<exists>requests m'. adios_read_bp_schedule_read_byid rd fp None varid from_steps nsteps data ([], errno) = Some (requests, errno)
    \<and> adios_read_bp_perform_reads rd fp True (requests, m, errno) = Some (None, [], m', errno)
    \<and> (\<forall>k < nat nsteps. \<forall>p. list_all2 (<) p dims \<longrightarrow>
        load (box_addr (elem_size (v_type v)) (data + of_nat (k * box_volume (v_type v) dims)) dims p) (elem_size (v_type v)) m'
        = blocks_value (fp_fh fp) (v_type v) (replicate (length dims) 0) p
            (step_blocks fp v (fp_current_step fp + from_steps + int k))
            (load (box_addr (elem_size (v_type v)) (data + of_nat (k * box_volume (v_type v) dims)) dims p) (elem_size (v_type v)) m))"
proof -
  from whole_variable_box [of fp v "length dims" "dims @ rest" ns rd] dims(1) varid(2) obtain bb where
    bb: "whole_variable rd fp v = Some (Sel_boundingbox bb)" "bb_wf bb" "bb_ndim bb = length dims"
      "wanted rd bb = (replicate (length dims) 0, dims)" by auto
  let ?q = "\<lparr>rr_sel = Sel_boundingbox bb, rr_varid = fp_varid_mapping fp ! varid, rr_from_steps = from_steps,
      rr_nsteps = nsteps, rr_data = data, rr_datasize = 0\<rparr>"
  obtain size where "get_req_datasize fp ?q v errno = Some (size, errno)" by (simp add: get_req_datasize_def)
  then have "adios_read_bp_schedule_read_byid rd fp None varid from_steps nsteps data ([], errno)
      = Some ([?q\<lparr>rr_datasize := size\<rparr>], errno)"
    using varid v(1) bb(1) by (simp add: adios_read_bp_schedule_read_byid_def Let_def list_insert_read_request_next_def)
  moreover have "performable rd room fp [(?q\<lparr>rr_datasize := size\<rparr>, v, replicate (length dims) 0, dims)]"
    using v bb(2-4) dims steps data varid(2) by (auto simp: performable_def box_request_def)
  from perform_loop_delivers [OF this, of m errno] obtain m' where
    "adios_read_bp_perform_reads rd fp True ([?q\<lparr>rr_datasize := size\<rparr>], m, errno) = Some (None, [], m', errno)"
    "box_delivered fp (?q\<lparr>rr_datasize := size\<rparr>) v (replicate (length dims) 0) dims m m'"
    using data(1) by (auto simp: adios_read_bp_perform_reads_def simp del: perform_loop.simps)
  ultimately show ?thesis unfolding box_delivered_def by auto
qed

theorem perform_reads_delivers_witness:
  "\<exists>m. adios_read_bp_perform_reads grid_reader grid_file True ([grid_request], (\<lambda>_. 0), None) = Some (None, [], m, None)
    \<and> load 1000 4 m = [9, 10, 12, 13]"
proof -
  have "performable grid_reader 3 grid_file [(grid_request, grid_var, [0, 1], [2, 2])]"
    by (auto simp: performable_def box_request_def grid_open grid_var_fields grid_var_times grid_find grid_request_fields
        grid_time grid_box_ok grid_blocks grid_dims grid_apart grid_good)
  from perform_reads_delivers [OF this, of "\<lambda>_. 0" None] obtain m where
    m: "adios_read_bp_perform_reads grid_reader grid_file True ([grid_request], (\<lambda>_. 0), None) = Some (None, [], m, None)"
      "box_delivered grid_file grid_request grid_var [0, 1] [2, 2] (\<lambda>_. 0) m" by auto
  have "load 1000 4 m = [9, 10, 12, 13]"
    by (rule grid_points) (use m(2) in \<open>simp add: box_delivered_def grid_request_fields grid_var_fields grid_blocks load_def\<close>)
  with m(1) show ?thesis by blast
qed

theorem read_whole_variable_witness:
  "\<exists>requests m. adios_read_bp_schedule_read_byid grid_reader grid_file None 0 0 1 1000 ([], None) = Some (requests, None)
    \<and> adios_read_bp_perform_reads grid_reader grid_file True (requests, (\<lambda>_. 0), None) = Some (None, [], m, None)
    \<and> load 1000 6 m = [8, 9, 10, 11, 12, 13]"
proof -
  have steps: "\<forall>k < nat 1. step_time grid_file grid_var (fp_current_step grid_file + 0 + int k) \<in> set (time_indexes grid_var)
      \<and> list_all (good_block (fp_fh grid_file) (elem_size (v_type grid_var)) 3 (replicate (length [2, 3 :: u64]) 0) [2, 3])
          (step_blocks grid_file grid_var (fp_current_step grid_file + 0 + int k))"
    by (simp add: grid_var_fields grid_var_times grid_request_fields grid_time grid_blocks grid_good)
  have "\<exists>requests m'. adios_read_bp_schedule_read_byid grid_reader grid_file None 0 0 1 1000 ([], None) = Some (requests, None)
    \<and> adios_read_bp_perform_reads grid_reader grid_file True (requests, \<lambda>_. 0, None) = Some (None, [], m', None)
    \<and> (\<forall>k < nat 1. \<forall>p. list_all2 (<) p [2, 3] \<longrightarrow>
        load (box_addr (elem_size (v_type grid_var)) (1000 + of_nat (k * box_volume (v_type grid_var) [2, 3])) [2, 3] p) (elem_size (v_type grid_var)) m'
        = blocks_value (fp_fh grid_file) (v_type grid_var) (replicate (length [2, 3 :: u64]) 0) p
            (step_blocks grid_file grid_var (fp_current_step grid_file + 0 + int k))
            (load (box_addr (elem_size (v_type grid_var)) (1000 + of_nat (k * box_volume (v_type grid_var) [2, 3])) [2, 3] p) (elem_size (v_type grid_var)) (\<lambda>_. 0)))"
    by (rule read_whole_variable [where rest = "[]" and ns = "get_var_nsteps grid_var" and room = 3, OF _ _ _ _ _ _ _ _ steps])
      (simp_all add: grid_var_fields grid_find grid_request_fields grid_box_ok grid_open grid_dims grid_apart)
  then obtain requests m where
    m: "adios_read_bp_schedule_read_byid grid_reader grid_file None 0 0 1 1000 ([], None) = Some (requests, None)"
      "adios_read_bp_perform_reads grid_reader grid_file True (requests, (\<lambda>_. 0), None) = Some (None, [], m, None)"
    and points: "\<And>p. list_all2 (<) p [2, 3] \<Longrightarrow> load (box_addr 1 1000 [2, 3] p) 1 m
        = blocks_value (fp_fh grid_file) adios_byte [0, 0] p [grid_block 0 8, grid_block 1 11]
            (load (box_addr 1 1000 [2, 3] p) 1 (\<lambda>_. 0))"
    by (auto simp: grid_var_fields grid_request_fields grid_blocks)
  have "m (1000 + of_nat (rm [2, 3] [r, c])) = of_nat (8 + 3 * unat r + unat c)"
    if "unat r < 2" "unat c < 3" for r c :: u64
    using points [of "[r, c]"] that by (simp add: grid_value load_def word_less_nat_alt)
  from this [of 0 0] this [of 0 1] this [of 0 2] this [of 1 0] this [of 1 1] this [of 1 2]
  have "load 1000 6 m = [8, 9, 10, 11, 12, 13]" by (simp add: load_def upt_rec)
  with m show ?thesis by blast
qed

section \<open>Chunks\<close>

text \<open>Calling \<open>adios_read_bp_check_reads\<close> again and again, with the memory as it is after each call.\<close>

primrec check_calls ::
  "nat \<Rightarrow> bp_client \<Rightarrow> ADIOS_FILE \<Rightarrow> bp_proc \<Rightarrow> (((adios_errcode option + ADIOS_VARCHUNK) \<times> mem) list \<times> bp_proc) option" where
  "check_calls 0 cl fp p = Some ([], p)"
| "check_calls (Suc n) cl fp p =
     (case adios_read_bp_check_reads cl fp p of
        None \<Rightarrow> None
      | Some (result, p) \<Rightarrow> map_option (\<lambda>(results, q). ((result, pr_mem p) # results, q)) (check_calls n cl fp p))"

text \<open>
  The allocator gives, for every size up to that of the chunk buffer, a block away from the buffer
  of the reader.
\<close>

definition realloc_ok :: "bp_client \<Rightarrow> nat \<Rightarrow> bool" where
  "realloc_ok cl room \<longleftrightarrow>
     (\<forall>b n m. unat n \<le> unat (u64_of_int (cl_chunk_buffer_size cl)) \<longrightarrow>
        fst (cl_realloc cl b n m) \<noteq> 0 \<and> buffers_apart (bp_reader.truncate cl) room (fst (cl_realloc cl b n m)) (unat n))"

text \<open>A request without memory of the program that fits into the chunk buffer.\<close>

definition chunk_ready ::
  "bp_client \<Rightarrow> nat \<Rightarrow> ADIOS_FILE \<Rightarrow> adios_index_var_struct_v1 \<Rightarrow> read_request \<times> u64 list \<times> u64 list \<Rightarrow> bool" where
  "chunk_ready cl room fp v = (\<lambda>(r, start, count).
     rr_data r = 0 \<and> rr_nsteps r = 1 \<and> box_request (bp_reader.truncate cl) room fp r v start count
     \<and> unat (rr_datasize r) = box_volume (v_type v) count \<and> rr_datasize r \<noteq> 0
     \<and> rr_datasize r \<le> u64_of_int (cl_chunk_buffer_size cl))"

definition chunk_result ::
  "ADIOS_FILE \<Rightarrow> adios_index_var_struct_v1 \<Rightarrow> read_request \<times> u64 list \<times> u64 list
    \<Rightarrow> (adios_errcode option + ADIOS_VARCHUNK) \<times> mem \<Rightarrow> bool" where
  "chunk_result fp v = (\<lambda>(r, start, count) (result, m).
     \<exists>b m0. result = Inr (box_chunk (r\<lparr>rr_data := b\<rparr>) v start count)
       \<and> box_delivered fp (r\<lparr>rr_data := b\<rparr>) v start count m0 m)"

lemma box_request_data: "box_request rd room fp (r\<lparr>rr_data := b\<rparr>) v start count = box_request rd room fp r v start count"
  by (simp add: box_request_def)

lemma deliver_chunk:
  assumes "chunk_ready cl room fp v (r, start, count)" and "realloc_ok cl room" and "pr_requests p = r # requests"
  shows "\<exists>result p'. deliver cl fp (give_buffer cl p) = Some (result, p') \<and> chunk_result fp v (r, start, count) (result, pr_mem p')
    \<and> pr_requests p' = requests"
proof -
  let ?rd = "bp_reader.truncate cl"
  obtain b m0 where b: "cl_realloc cl (pr_b p) (rr_datasize r) (pr_mem p) = (b, m0)" by fastforce
  have r: "rr_nsteps r = 1" "box_request ?rd room fp (r\<lparr>rr_data := b\<rparr>) v start count"
      "unat (rr_datasize r) = box_volume (v_type v) count" "rr_datasize r \<le> u64_of_int (cl_chunk_buffer_size cl)"
    using assms(1) by (simp_all add: chunk_ready_def box_request_data)
  have apart: "buffers_apart ?rd room b (unat (rr_datasize r))"
    using assms(2) [unfolded realloc_ok_def, rule_format, of "rr_datasize r" "pr_b p" "pr_mem p"] r(4) b
    by (simp add: word_le_nat_alt)
  have "target_size (r\<lparr>rr_data := b\<rparr>) v count = unat (rr_datasize r)" using r(1,3) by simp
  with read_box [OF r(2), of m0 "pr_errno p"] apart unat_u64_less [of "rr_datasize r"] obtain r' m' where
    read: "read_var ?rd fp (r\<lparr>rr_data := b\<rparr>) (m0, pr_errno p)
      = Some (Some (box_chunk (r\<lparr>rr_data := b\<rparr>) v start count), r', m', pr_errno p)"
      "box_delivered fp (r\<lparr>rr_data := b\<rparr>) v start count m0 m'" by auto
  then show ?thesis by (auto simp: deliver_def give_buffer_def assms(3) b chunk_result_def)
qed

lemma check_reads_chunk:
  assumes "chunk_ready cl room fp v (r, start, count)" and "realloc_ok cl room" and "pr_requests p = r # requests"
  shows "\<exists>result p'. adios_read_bp_check_reads cl fp p = Some (result, p') \<and> chunk_result fp v (r, start, count) (result, pr_mem p')
    \<and> pr_requests p' = requests"
  using deliver_chunk [OF assms] assms(1,3) by (simp add: adios_read_bp_check_reads_def chunk_ready_def)

lemma check_calls_chunks:
  assumes "\<forall>x \<in> set xs. chunk_ready cl room fp v x" and "realloc_ok cl room" and "pr_requests p = map fst xs @ rest"
  shows "\<exists>results p'. check_calls (length xs) cl fp p = Some (results, p') \<and> list_all2 (chunk_result fp v) xs results
    \<and> pr_requests p' = rest"
  using assms(1,3)
proof (induction xs arbitrary: p)
  case (Cons x xs)
  obtain r start count where x: "x = (r, start, count)" by (cases x)
  from check_reads_chunk [OF _ assms(2), of fp v r start count p "map fst xs @ rest"] Cons.prems obtain result p1 where
    1: "adios_read_bp_check_reads cl fp p = Some (result, p1)" "chunk_result fp v x (result, pr_mem p1)" "pr_requests p1 = map fst xs @ rest"
    by (auto simp: x)
  with Cons.IH [of p1] Cons.prems show ?case by fastforce
qed simp

text \<open>The parts of a request are requests for smaller boxes.\<close>

lemma good_block_sub:
  assumes "good_block fh z room start count ch" and "length start' = length start"
    and "\<And>i. i < length start \<Longrightarrow> unat (start' ! i) + unat (count' ! i) \<le> unat (start ! i) + unat (count ! i)"
  shows "good_block fh z room start' count' ch"
  using assms by (fastforce simp: good_block_def split: option.splits)

lemma slab_box_request:
  assumes req: "box_request rd room fp r v start count" and c: "\<not> rd_called_from_fortran rd"
    and bb: "rr_sel r = Sel_boundingbox bb" "bb_start bb = s # ss" "bb_count bb = c # cs" and wf: "bb_wf bb"
    and q: "0 < q" "q \<le> unat c" and k: "k * q < unat c"
  shows "box_request rd room fp (slab_request r bb ts q k) v ((s + of_nat (k * q)) # ss) (of_nat (min q (unat c - k * q)) # cs)"
proof -
  let ?rd = rd and ?z = "elem_size (v_type v)"
  have sc: "start = s # ss" "count = c # cs" using req c bb by (auto simp: box_request_def wanted_def)
  have ok: "box_ok (s # ss) (c # cs)" using req unfolding box_request_def sc by blast
  have fit: "unat s + unat c < 2 ^ 64" using ok by (fastforce simp: box_ok_def)
  let ?d = "min q (unat c - k * q)" and ?st = "(s + of_nat (k * q)) # ss" and ?ct = "of_nat (min q (unat c - k * q)) # cs"
  have st: "unat (s + of_nat (k * q)) = unat s + k * q"
    using k fit by (subst unat_add_no_wrap) (simp_all del: of_nat_mult)
  have d: "unat (of_nat ?d :: u64) = ?d" "0 < ?d" "?d + k * q \<le> unat c"
    using unat_u64_less [of c] q(1) k by (auto intro!: unat_of_nat_small)
  have at: "unat (?st ! i) + unat (?ct ! i) \<le> unat ((s # ss) ! i) + unat ((c # cs) ! i)" if "i < length (s # ss)" for i
    using d st by (cases i) simp_all
  have "box_ok ?st ?ct"
    using ok d st fit by (auto simp: box_ok_def nth_Cons' simp del: of_nat_mult of_nat_min)
  moreover have "list_all (good_block (fp_fh fp) ?z room ?st ?ct) chs"
    if "list_all (good_block (fp_fh fp) ?z room (s # ss) (c # cs)) chs" for chs
    using that good_block_sub [OF _ _ at] by (auto simp: list_all_iff)
  ultimately show ?thesis
    using req c wf bb unfolding box_request_def sc
    by (auto simp: slab_request_def part_request_def bb_wf_def wanted_def simp del: of_nat_mult of_nat_min)
qed

text \<open>The slabs as requests with their boxes.\<close>

definition slab_part ::
  "read_request \<Rightarrow> ADIOS_SELECTION_BOUNDINGBOX_STRUCT \<Rightarrow> u32 \<Rightarrow> nat \<Rightarrow> nat \<Rightarrow> read_request \<times> u64 list \<times> u64 list" where
  "slab_part r bb ts q k =
     (slab_request r bb ts q k, (hd (bb_start bb) + of_nat (k * q)) # tl (bb_start bb),
      of_nat (min q (unat (hd (bb_count bb)) - k * q)) # tl (bb_count bb))"

lemma slab_part_ready:
  assumes env: "\<not> rd_called_from_fortran cl" and bb: "bb_start bb = s # ss" "bb_count bb = c # cs" "bb_wf bb"
    and req: "rr_sel r = Sel_boundingbox bb" "rr_data r = 0" "rr_nsteps r = 1"
      "box_request (bp_reader.truncate cl) room fp r v (bb_start bb) (bb_count bb)"
    and pos: "list_all (\<lambda>c. 0 < c) cs" "0 < elem_size (v_type v)" and q: "0 < q" "q \<le> unat c" and k: "k * q < unat c"
    and ts: "u64_of_int ts = of_nat (elem_size (v_type v))"
    and size: "q * prod_list (map unat cs) * elem_size (v_type v) \<le> unat (cl_chunk_buffer_size cl)" "unat (cl_chunk_buffer_size cl) < 2 ^ 31"
  shows "chunk_ready cl room fp v (slab_part r bb ts q k)"
proof -
  let ?z = "elem_size (v_type v)" and ?B = "cl_chunk_buffer_size cl"
  let ?d = "min q (unat c - k * q)" and ?ct = "of_nat (min q (unat c - k * q)) # cs"
  have "unat (of_nat ?d :: u64) = ?d" using unat_u64_less [of c] by (intro unat_of_nat_small) simp
  then have "0 < prod_list (map unat ?ct)"
    using q(1) k pos(1) by (auto simp: list_all_iff word_less_nat_alt intro!: prod_list_pos simp del: of_nat_min)
  then have pos': "0 < box_volume (v_type v) ?ct" using pos(2) by simp
  have le: "box_volume (v_type v) ?ct \<le> unat ?B"
    using order_trans [OF slab_request_size(2) [OF bb(3,1,2) ts refl] size(1)] .
  note slab = slab_request_size(1) [OF bb(3,1,2) ts refl, of r q k]
  have "unat (rr_datasize (slab_request r bb ts q k)) = box_volume (v_type v) ?ct"
    unfolding slab using le size(2) by (simp del: of_nat_mult of_nat_min add: unat_of_nat_small)
  moreover have "rr_data (slab_request r bb ts q k) = 0" "rr_nsteps (slab_request r bb ts q k) = 1"
    unfolding slab using req(2,3) by simp_all
  moreover have "box_request (bp_reader.truncate cl) room fp (slab_request r bb ts q k) v ((s + of_nat (k * q)) # ss) ?ct"
    using slab_box_request [OF req(4) _ req(1) bb q k] env by (simp add: bp_reader.defs)
  ultimately show ?thesis
    using pos' le u64_of_int_nonneg [OF size(2)] by (auto simp: chunk_ready_def slab_part_def bb word_le_nat_alt)
qed

lemma slab_part_points:
  assumes bb: "bb_start bb = s # ss" "bb_count bb = c # cs" and fit: "unat s + unat c < 2 ^ 64" and q: "0 < q" "q \<le> unat c"
  shows "length (filter (\<lambda>(_, start, count). in_box start count x) (rev (map (slab_part r bb ts q) [0..<slab_number bb q])))
    = (if in_box (bb_start bb) (bb_count bb) x then 1 else 0)"
proof -
  have "(\<lambda>(_, start, count). in_box start count x) (slab_part r bb ts q k) = in_request (slab_request r bb ts q k) x" for k
    by (simp add: slab_part_def in_request_def slab_request_def part_request_def bb)
  then show ?thesis using slabs_partition [OF bb fit q, of x r ts] by (simp add: filter_map comp_def flip: rev_filter)
qed

text \<open>
  C5. Reading without memory of the program: a request for one step of a box that does not fit into the chunk
  buffer, but of which the buffer holds a slab (all of the box at one index of its first dimension),
  and more than one element of which does not fit. Calling \<open>adios_read_bp_check_reads\<close> repeatedly gives
  the box in chunks, one per call, each with the data of its box in the buffer of the process; every
  point of the box is in exactly one chunk; and after the last chunk the result is 0 and nothing
  is left to read. Without the slab nothing is ever delivered (\<open>split_req_never_returns\<close>); with one
  element too many the part is larger than the buffer. The blocks have payloads of at most
  \<open>0x7ffff000\<close> bytes, what one \<open>MPI_File_read\<close> transfers (\<open>good_block\<close>).
\<close>

theorem big_read_in_chunks:
  assumes env: "realloc_ok cl room" "\<not> rd_called_from_fortran cl"
    and big: "too_big fp r (cl_chunk_buffer_size cl) v bb"
      "slab_volume bb \<le> unat (cl_chunk_buffer_size cl) div elem_size (v_type v)"
      "unat (cl_chunk_buffer_size cl) div elem_size (v_type v) + 1 < prod_list (map unat (bb_count bb))"
    and req: "rr_data r = 0" "rr_nsteps r = 1" "unat (rr_datasize r) = box_volume (v_type v) (bb_count bb)"
      "box_request (bp_reader.truncate cl) room fp r v (bb_start bb) (bb_count bb)"
    and p: "pr_requests p = [r]"
  shows "\<exists>parts results p'. check_calls (length parts) cl fp p = Some (results, p')
    \<and> list_all2 (chunk_result fp v) parts results
    \<and> (\<forall>x. length (filter (\<lambda>(_, start, count). in_box start count x) parts)
        = (if in_box (bb_start bb) (bb_count bb) x then 1 else 0))
    \<and> adios_read_bp_check_reads cl fp p' = Some (Inl None, p')"
proof -
  let ?ts = "bp_get_type_size (v_type v) (Some '''')" and ?z = "elem_size (v_type v)" and ?B = "cl_chunk_buffer_size cl"
  obtain s ss c cs q where
    bb: "bb_start bb = s # ss" "bb_count bb = c # cs" "length ss = length cs" "bb_wf bb" and fit: "unat s + unat c < 2 ^ 64"
    and q: "0 < q" "q \<le> unat c" and size: "q * prod_list (map unat cs) * ?z \<le> unat ?B" and ts: "u64_of_int ?ts = of_nat ?z"
    and split: "\<forall>uninit. split_req uninit fp r ?B = Some (rev (map (slab_request r bb ?ts q) [0..<slab_number bb q]))"
    by (rule split_req_slabs [OF big]) blast
  let ?parts = "rev (map (slab_part r bb ?ts q) [0..<slab_number bb q])"
  have fst_part: "map fst ?parts = rev (map (slab_request r bb ?ts q) [0..<slab_number bb q])"
    by (simp add: slab_part_def rev_map comp_def)
  have B: "unat ?B < 2 ^ 31" "unat (u64_of_int ?B) = unat ?B" "0 < ?z"
    using big(1) elem_size_small [of "v_type v"] by (auto simp: too_big_def u64_of_int_nonneg)
  have ready: "chunk_ready cl room fp v x" if x: "x \<in> set ?parts" for x
  proof -
    obtain k where k: "x = slab_part r bb ?ts q k" "k * q < unat c" using x slab_number_iff [OF q(1), of _ bb] bb by auto
    show ?thesis unfolding k(1)
      by (rule slab_part_ready [OF env(2) bb(1,2,4) _ req(1,2,4) _ B(3) q k(2) ts size B(1)])
        (use big(1) in \<open>simp_all add: too_big_def bb\<close>)
  qed
  note points = slab_part_points [OF bb(1,2) fit q, of _ r ?ts]
  have "?parts \<noteq> []" using q slab_number_iff [OF q(1), of 0 bb] bb by auto
  then obtain y ys where parts: "?parts = y # ys" by (cases ?parts) auto
  have "unat ?B < unat (rr_datasize r)"
  proof -
    have "unat ?B < (unat ?B div ?z + 1) * ?z" using B(3) by (simp add: dividend_less_div_times)
    also have "\<dots> \<le> prod_list (map unat (bb_count bb)) * ?z" using big(3) by (intro mult_le_mono1) simp
    finally show ?thesis using req(3) by simp
  qed
  then have "adios_read_bp_check_reads cl fp p = adios_read_bp_check_reads cl fp (p\<lparr>pr_requests := map fst ?parts @ []\<rparr>)"
    using ready [of y] req(1) split B(2) unfolding fst_part [symmetric]
    by (cases y) (simp add: adios_read_bp_check_reads_def p parts chunk_ready_def word_le_nat_alt)
  moreover obtain results p' where
    "check_calls (length ?parts) cl fp (p\<lparr>pr_requests := map fst ?parts @ []\<rparr>) = Some (results, p')"
    "list_all2 (chunk_result fp v) ?parts results" "pr_requests p' = []"
    using check_calls_chunks [of ?parts cl room fp v "p\<lparr>pr_requests := map fst ?parts @ []\<rparr>" "[]"] ready env(1) by auto
  ultimately show ?thesis using points
    by (intro exI [of _ ?parts] exI [of _ results] exI [of _ p']) (auto simp: parts adios_read_bp_check_reads_def)
qed

text \<open>The example with a chunk buffer of three bytes.\<close>

definition chunk_client :: bp_client where
  "chunk_client = bp_reader.extend grid_reader
     \<lparr>cl_realloc = \<lambda>_ _ m. (1000, m), cl_chunk_buffer_size = 3, cl_uninit_subbb = \<lambda>_. 0\<rparr>"

definition whole_box :: ADIOS_SELECTION_BOUNDINGBOX_STRUCT where
  "whole_box = \<lparr>bb_ndim = 2, bb_start = [0, 0], bb_count = [2, 3]\<rparr>"

definition chunk_proc :: bp_proc where
  "chunk_proc = \<lparr>pr_requests = [grid_request\<lparr>rr_sel := Sel_boundingbox whole_box, rr_data := 0, rr_datasize := 6\<rparr>],
     pr_b = 0, pr_mem = (\<lambda>_. 0), pr_errno = None\<rparr>"

theorem big_read_in_chunks_witness:
  "\<exists>parts results p. check_calls (length parts) chunk_client grid_file chunk_proc = Some (results, p)
    \<and> list_all2 (chunk_result grid_file grid_var) parts results \<and> length (filter (\<lambda>(_, start, count). in_box start count [1, 2]) parts) = 1
    \<and> adios_read_bp_check_reads chunk_client grid_file p = Some (Inl None, p)"
proof -
  let ?r = "grid_request\<lparr>rr_sel := Sel_boundingbox whole_box, rr_data := 0, rr_datasize := 6\<rparr>"
  have rd: "bp_reader.truncate chunk_client = grid_reader" "rd_called_from_fortran chunk_client = False"
    "cl_chunk_buffer_size chunk_client = 3" "cl_realloc chunk_client = (\<lambda>_ _ m. (1000, m))"
    by (simp_all add: chunk_client_def bp_reader.defs grid_reader_def)
  have small: "unat (u64_of_int 3) = 3" using u64_of_int_nonneg [of 3] by simp
  have "realloc_ok chunk_client 3" by (auto simp: realloc_ok_def rd small intro!: grid_apart)
  moreover have "too_big grid_file ?r 3 grid_var whole_box"
    by (simp add: too_big_def bb_wf_def whole_box_def grid_request_fields grid_find grid_var_fields)
  moreover have "box_request grid_reader 3 grid_file ?r grid_var [0, 0] [2, 3]"
    by (auto simp: box_request_def whole_box_def bb_wf_def wanted_def grid_reader_def grid_open grid_var_fields grid_var_times
        grid_find grid_request_fields grid_time grid_box_ok grid_blocks grid_dims grid_good)
  ultimately obtain parts results p where
    *: "check_calls (length parts) chunk_client grid_file chunk_proc = Some (results, p)"
    "list_all2 (chunk_result grid_file grid_var) parts results"
    "\<And>x. length (filter (\<lambda>(_, start, count). in_box start count x) parts) = (if in_box [0, 0] [2, 3] x then 1 else 0)"
    "adios_read_bp_check_reads chunk_client grid_file p = Some (Inl None, p)"
    using big_read_in_chunks [of chunk_client 3 grid_file ?r grid_var whole_box chunk_proc]
    by (auto simp: rd whole_box_def grid_var_fields grid_request_fields chunk_proc_def)
  have "length (filter (\<lambda>(_, start, count). in_box start count [1, 2]) parts) = 1" using *(3) [of "[1, 2]"] by simp
  with * show ?thesis by blast
qed

end
