(* ===== verification/BP_Blocks.thy ===== *)
theory BP_Blocks
  imports BP_Request
begin

text \<open>
  Reading write blocks with the BP reader (\<open>read_var_wb\<close> and \<open>adios_wbidx_to_pgidx\<close> of \<open>read/read_bp.c\<close>): the
  data of a block, and the number of a block of a step among all blocks of its variable.
\<close>

section \<open>The data of a write block\<close>

lemma store_swap_elements:
  assumes "type \<noteq> adios_unknown" and "length bs = n * elem_size type" and "unat sz = length bs"
    and m'_def: "m' = (if swap then change_endianness e a sz type (store a bs m) else store a bs m)"
  shows "i < n \<Longrightarrow> load (a + of_nat (i * elem_size type)) (elem_size type) m'
      = elem_fun type swap (take (elem_size type) (drop (i * elem_size type) bs))"
    and "\<not> unat (x - a) < length bs \<Longrightarrow> m' x = m x"
proof -
  let ?z = "elem_size type"
  have z: "0 < ?z" using elem_size_small assms(1) by blast
  have len: "length bs < 2 ^ 64" using assms(3) unat_u64_less [of sz] by simp
  have n: "unat sz div ?z = n" using assms(2,3) z by simp
  have loaded: "load (a + of_nat (i * ?z)) ?z (store a bs m) = take ?z (drop (i * ?z) bs)" if "i < n"
  proof -
    have "i * ?z + ?z \<le> n * ?z" using that by (metis add.commute mult_Suc mult_le_mono1 Suc_leI)
    then show ?thesis using len assms(2) by (intro load_store_part) simp_all
  qed
  show "load (a + of_nat (i * ?z)) ?z m' = elem_fun type swap (take ?z (drop (i * ?z) bs))" if "i < n"
    using load_change_endianness [OF assms(1), of i sz a e "store a bs m"] loaded [OF that] that n
    by (simp add: m'_def elem_fun_def del: of_nat_mult)
  show "m' x = m x" if "\<not> unat (x - a) < length bs"
    using that map_elems_apply [of ?z "swap_bytes type" n a "store a bs m" x] len assms(2)
    by (simp add: m'_def change_endianness_map_elems [OF assms(1)] n store_out)
qed

lemma read_wb_array_slice:
  assumes ts: "\<And>s. u64_of_int (bp_get_type_size type s) = of_nat z"
    and block: "bp_get_dimension_characteristics ch = Some (is_global, ldims, gdims, offsets)"
    and part: "n = (if wb_is_sub_pg_selection wb then unat (wb_nelements wb) else prod_list (map unat ldims))"
      "first = (if wb_is_sub_pg_selection wb then unat (wb_element_offset wb) else 0)"
    and payload: "block_file fh ch = Some file" "length file < 2 ^ 63"
      "unat (ch_payload_offset ch) + (first + n) * z \<le> length file" "n * z \<le> read_max"
  obtains size where "unat size = n * z"
    and "read_wb_array rd fh type wb ch data m = Some (size, Some (Some
      (let m = store data (take (n * z) (drop (unat (ch_payload_offset ch) + first * z) file)) m
       in if fh_change_endianness fh = adios_flag_yes then change_endianness (rd_endian rd) data size type m else m, data)))"
proof -
  have le: "n * z \<le> length file" "first * z + n * z + unat (ch_payload_offset ch) \<le> length file"
    using payload(3) by (simp_all add: algebra_simps)
  define size where "size = (of_nat (n * z) :: u64)"
  define off where "off = ch_payload_offset ch + of_nat (first * z)"
  have size: "unat size = n * z" unfolding size_def using le(1) payload(2) by (intro unat_of_nat_small) simp
  have off: "unat off = unat (ch_payload_offset ch) + first * z"
    unfolding off_def using le(2) payload(2) by (subst unat_add_no_wrap) (simp_all del: of_nat_mult)
  have "\<not> sint off < 0" using off le(2) payload(2) by (intro sint_small) linarith
  moreover have "(if wb_is_sub_pg_selection wb then Some (wb_nelements wb * of_nat z)
      else map_option (\<lambda>(_, ldims, _, _). fold (\<lambda>l s. s * l) ldims (of_nat z)) (bp_get_dimension_characteristics ch)) = Some size"
    unfolding size_def part(1) fold_times block by (simp add: mult.commute)
  moreover have "ch_payload_offset ch + (if wb_is_sub_pg_selection wb then wb_element_offset wb * of_nat z else 0) = off"
    using part(2) by (simp add: off_def)
  ultimately have "read_wb_array rd fh type wb ch data m = Some (size, Some (Some
      (let m = store data (take (n * z) (drop (unat (ch_payload_offset ch) + first * z) file)) m
       in if fh_change_endianness fh = adios_flag_yes then change_endianness (rd_endian rd) data size type m else m, data)))"
    using payload(1,4) MPI_File_read_all [of size "file" off]
    unfolding off [symmetric] size [symmetric] read_wb_array_def ts Let_def read_slice_buf_def block_file_def
    by (simp split: if_splits)
  with size show ?thesis by (rule that)
qed

text \<open>
  C15. Reading a write block of an array for one step (\<open>nsteps = 1\<close>: for more, each step overwrites the
  one before) and of at most \<open>0x7ffff000\<close> bytes (what one \<open>MPI_File_read\<close> transfers), by its index in the step or by its absolute index:
  the target gets the elements of the block, or those that a selection within the block asks for,
  from their places in the payload, in the byte order of the reader, and nothing else changes. The
  size that is recorded in the request is the size of these elements.
\<close>

theorem read_var_wb_correct:
  assumes r: "rr_sel r = Sel_writeblock wb" "rr_nsteps r = 1"
    and v: "bp_find_var_byid (fp_fh fp) (rr_varid r) = Some v" "sized_type (v_type v)"
    and block: "wb_pgidx fp r wb 0 None = Some (idx, errno')" "characteristic_at v idx = Some ch"
      "bp_get_dimension_characteristics ch = Some (is_global, ldims, gdims, offsets)" "ldims \<noteq> []"
    and part: "n = (if wb_is_sub_pg_selection wb then unat (wb_nelements wb) else prod_list (map unat ldims))"
      "first = (if wb_is_sub_pg_selection wb then unat (wb_element_offset wb) else 0)"
    and payload: "block_file (fp_fh fp) ch = Some file" "length file < 2 ^ 63"
      "unat (ch_payload_offset ch) + (first + n) * elem_size (v_type v) \<le> length file"
      "n * elem_size (v_type v) \<le> read_max"
  shows "\<exists>c r' m'. read_var_wb rd fp r (m, errno) = Some (Some c, r', m', errno')
    \<and> vc_data c = rr_data r \<and> vc_type c = v_type v \<and> unat (rr_datasize r') = n * elem_size (v_type v)
    \<and> (\<forall>i < n. load (rr_data r + of_nat (i * elem_size (v_type v))) (elem_size (v_type v)) m'
        = elem_fun (v_type v) (fh_change_endianness (fp_fh fp) = adios_flag_yes)
            (take (elem_size (v_type v)) (drop (unat (ch_payload_offset ch) + (first + i) * elem_size (v_type v)) file)))
    \<and> (\<forall>x. \<not> unat (x - rr_data r) < n * elem_size (v_type v) \<longrightarrow> m' x = m x)"
proof -
  let ?z = "elem_size (v_type v)" and ?swap = "fh_change_endianness (fp_fh fp) = adios_flag_yes"
  have d: "d_count (ch_dims ch) \<noteq> 0" 
    using block(3,4) by (auto simp: bp_get_dimension_characteristics_def bp_get_dimension_generic_def Let_def split: if_splits)
  have ts: "u64_of_int (bp_get_type_size (v_type v) s) = of_nat ?z" for s
    using v(2) by (cases "v_type v") (simp_all add: u64_of_int_def)
  from read_wb_array_slice [OF ts block(3) part payload, of rd "rr_data r" m] obtain size where
    size: "unat size = n * ?z" and read: "read_wb_array rd (fp_fh fp) (v_type v) wb ch (rr_data r) m = Some (size, Some (Some
      (let m = store (rr_data r) (take (n * ?z) (drop (unat (ch_payload_offset ch) + first * ?z) file)) m
       in if ?swap then change_endianness (rd_endian rd) (rr_data r) size (v_type v) m else m, rr_data r)))" .
  let ?bs = "take (n * ?z) (drop (unat (ch_payload_offset ch) + first * ?z) file)"
  let ?m = "if ?swap then change_endianness (rd_endian rd) (rr_data r) size (v_type v) (store (rr_data r) ?bs m) else store (rr_data r) ?bs m"
  have bs: "length ?bs = n * ?z" using payload(3) by (simp add: algebra_simps)
  have "read_var_wb rd fp r (m, errno) = Some (Some \<lparr>vc_varid = rr_varid r, vc_type = v_type v, vc_from_steps = rr_from_steps r,
      vc_nsteps = rr_nsteps r, vc_sel = copy_selection (rd_uninit rd) (rr_sel r), vc_data = rr_data r\<rparr>,
      r\<lparr>rr_datasize := size\<rparr>, ?m, errno')"
    using r v(1) block(1,2) d read by (simp add: read_var_wb_def upto.simps Let_def)
  moreover have "load (rr_data r + of_nat (i * ?z)) ?z ?m
      = elem_fun (v_type v) ?swap (take ?z (drop (unat (ch_payload_offset ch) + (first + i) * ?z) file))" if "i < n" for i
  proof -
    have "i * ?z + ?z \<le> n * ?z" using that by (metis add.commute mult_Suc mult_le_mono1 Suc_leI)
    then have "take ?z (drop (i * ?z) ?bs) = take ?z (drop (unat (ch_payload_offset ch) + (first + i) * ?z) file)"
      by (simp add: drop_take min_def algebra_simps)
    then show ?thesis using store_swap_elements(1) [OF _ bs _ refl that] v(2) bs size by simp
  qed
  moreover have "?m x = m x" if "\<not> unat (x - rr_data r) < n * ?z" for x
    using store_swap_elements(2) [OF _ bs _ refl, of size] that v(2) bs size by simp
  ultimately show ?thesis using size by fastforce
qed

section \<open>The numbers of write blocks\<close>

lemma wbidx_loop_run:
  assumes "\<And>i. start \<le> i \<Longrightarrow> i \<le> stop \<Longrightarrow> ts ! nat i = time" and "0 \<le> start" and "start \<le> idx" and "idx \<le> stop + 1"
  shows "wbidx_loop ts time ridx stop idx (idx - start - 1) = Some (max idx (min (start + ridx) (stop + 1)))"
  using assms(3,4)
proof (induction "nat (stop + 1 - idx)" arbitrary: idx)
  case 0
  then show ?case by (subst wbidx_loop.simps) simp
next
  case (Suc n)
  then have step: "ts ! nat idx = time" "0 \<le> idx" "idx \<le> stop" using assms(1,2) by auto
  have "wbidx_loop ts time ridx stop (idx + 1) (idx + 1 - start - 1) = Some (max (idx + 1) (min (start + ridx) (stop + 1)))"
    using Suc step by (intro Suc.hyps) auto
  then show ?case using step by (subst wbidx_loop.simps) (auto simp: Let_def)
qed

lemma sum_count_list:
  "distinct rs \<Longrightarrow> sum_list (map (count_list ts) rs) = length (filter (\<lambda>x. x \<in> set rs) ts)"
proof (induction rs)
  case (Cons r rs)
  then have "r \<notin> set rs" by simp
  then have "count_list ts r + length (filter (\<lambda>x. x \<in> set rs) ts) = length (filter (\<lambda>x. x \<in> set (r # rs)) ts)"
    by (induction ts) auto
  with Cons show ?case by simp
qed simp

lemma start_index_counts:
  fixes ts :: "u32 list"
  assumes "sorted ts" and "sorted_wrt (<) rs" and "set rs = set ts" and "t < length rs"
    and "{i. i < length ts \<and> ts ! i = rs ! t} = {p..q}" and "p \<le> q"
  shows "p = sum_list (map (count_list ts) (take t rs))" and "q + 1 - p = count_list ts (rs ! t)"
proof -
  have "p \<in> {p..q}" using assms(6) by simp
  then have p: "p < length ts" "ts ! p = rs ! t" unfolding assms(5) [symmetric] by simp_all
  have "set (take t rs) = {x \<in> set ts. x < rs ! t}"
  proof -
    have less: "rs ! i < rs ! j" if "i < j" "j < length rs" for i j
      using assms(2) that by (rule sorted_wrt_nth_less)
    have "x < rs ! t" if "x \<in> set (take t rs)" for x
    proof -
      from that obtain i where "i < length (take t rs)" "x = take t rs ! i" by (metis in_set_conv_nth)
      then have "i < t" "x = rs ! i" using assms(4) by simp_all
      then show ?thesis using less assms(4) by simp
    qed
    moreover have "x \<in> set (take t rs)" if x: "x \<in> set ts" "x < rs ! t" for x
    proof -
      obtain i where i: "i < length rs" "x = rs ! i" using x(1) assms(3) by (metis in_set_conv_nth)
      then have "i < t" using x(2) less [of t i] by (cases i t rule: linorder_cases) auto
      then show ?thesis using i assms(4) by (auto simp: in_set_conv_nth)
    qed
    ultimately show ?thesis using assms(3) set_take_subset [of t rs] by blast
  qed
  then have "sum_list (map (count_list ts) (take t rs)) = length (filter (\<lambda>x. x < rs ! t) ts)"
    using assms(2) by (subst sum_count_list) (auto simp: strict_sorted_iff intro!: arg_cong [where f = length] filter_cong)
  also have "\<dots> = card {i. i < length ts \<and> ts ! i < rs ! t}" by (simp add: length_filter_conv_card)
  also have "{i. i < length ts \<and> ts ! i < rs ! t} = {0..<p}"
  proof -
    have "i < p" if "i < length ts" "ts ! i < rs ! t" for i
      using sorted_nth_mono [OF assms(1), of p i] that p by (metis not_le order_less_le_trans order_less_irrefl)
    moreover have "ts ! i < rs ! t" if "i < p" for i
    proof -
      have "i \<notin> {p..q}" using that by simp
      then have "ts ! i \<noteq> rs ! t" unfolding assms(5) [symmetric] using that p(1) by simp
      then show ?thesis using sorted_nth_mono [OF assms(1), of i p] that p by simp
    qed
    ultimately show ?thesis using p(1) by auto
  qed
  finally show "p = sum_list (map (count_list ts) (take t rs))" by simp
  have "count_list ts (rs ! t) = card {i. i < length ts \<and> ts ! i = rs ! t}"
    by (simp add: count_list_eq_length_filter length_filter_conv_card eq_commute)
  then show "q + 1 - p = count_list ts (rs ! t)" using assms(5) by simp
qed

lemma fold_blocks: "fold (\<lambda>i a. a + xs ! i) [0..<t] b = b + sum_list (take t xs)" if "t \<le> length xs" for xs :: "int list"
  using that
proof (induction t arbitrary: b)
  case (Suc t)
  then show ?case by (simp add: take_Suc_conv_app_nth)
qed simp

text \<open>
  C16. The number of a write block: for a file, a step of the variable and an index in it,
  \<open>adios_wbidx_to_pgidx\<close> of the BP reader finds the block that \<open>adios_get_absolute_writeblock_index\<close> of
  the selections computes from the numbers of blocks, without an error. An index behind the last
  block of the step is not refused: it gives the first block of the next step.
\<close>

theorem wbidx_is_absolute_index:
  assumes v: "sorted (time_indexes v)" "0 \<notin> set (time_indexes v)" "-1 \<notin> set (time_indexes v)"
    and r: "rr_sel r = Sel_writeblock wb" "bp_find_var_byid (fp_fh fp) (rr_varid r) = Some v"
    and mapped: "rr_varid r < length (fp_varid_mapping fp)" "bp_find_var_byid (fp_fh fp) (fp_varid_mapping fp ! rr_varid r) = Some v"
    and fp: "\<not> fp_streaming fp" "t = fp_current_step fp + rr_from_steps r + step_offset" "0 \<le> t" "t < get_var_nsteps v"
    and vi: "vi_nsteps vi = get_var_nsteps v" "get_var_nblocks v (get_var_nsteps v) = Some (vi_nblocks vi)" "vi_blockinfo vi \<noteq> None"
    and index: "0 \<le> wb_index wb"
  shows "adios_wbidx_to_pgidx fp r step_offset errno
    = Some (if wb_index wb < vi_nblocks vi ! nat t then snd (adios_get_absolute_writeblock_index vi (wb_index wb) t)
        else sum_list (take (nat t + 1) (vi_nblocks vi)), None)"
proof -
  let ?ts = "time_indexes v" and ?t = "nat t"
  from steps_runs [OF v] obtain rs where rs: "sorted_wrt (<) rs" "set rs = set ?ts" "get_var_nsteps v = int (length rs)"
      "get_var_nblocks v (get_var_nsteps v) = Some (map (\<lambda>t. int (count_list ?ts t)) rs)"
      "\<And>step. 0 \<le> step \<Longrightarrow> get_time v step = (if nat step < length rs then rs ! nat step else -1)" by blast
  have t: "?t < length rs" using fp(3,4) rs(3) by linarith
  have time: "get_time v t = rs ! ?t" using rs(5) [OF fp(3)] t by simp
  have nb: "vi_nblocks vi = map (\<lambda>t. int (count_list ?ts t)) rs" using rs(4) vi(2) by simp
  have "rs ! ?t \<in> set ?ts" using rs(2) t nth_mem by blast
  from step_indexes [OF v(1) this] obtain p q where pq: "get_var_start_index v (rs ! ?t) = int p" "get_var_stop_index v (rs ! ?t) = int q"
    "p \<le> q" "q < length ?ts" "{i. i < length ?ts \<and> ?ts ! i = rs ! ?t} = {p..q}" by blast
  note counts = start_index_counts [OF v(1) rs(1,2) t pq(5,3)]
  have before: "sum_list (take ?t (vi_nblocks vi)) = int p"
  proof -
    have "sum_list (map (\<lambda>t. int (f t)) xs) = int (sum_list (map f xs))" for f and xs :: "u32 list"
      by (induction xs) simp_all
    then show ?thesis unfolding nb take_map counts(1) .
  qed
  have here: "vi_nblocks vi ! ?t = int q + 1 - int p"
    unfolding nb using t counts(2) pq(3) by simp
  have "?ts ! nat i = rs ! ?t" if "int p \<le> i" "i \<le> int q" for i
  proof -
    have "nat i \<in> {p..q}" using that by auto
    then show ?thesis unfolding pq(5) [symmetric] by simp
  qed
  from wbidx_loop_run [where start = "int p" and stop = "int q" and idx = "int p" and ridx = "wb_index wb", OF this] pq(3)
  have "wbidx_loop ?ts (rs ! ?t) (wb_index wb) (int q) (int p) (-1) = Some (max (int p) (min (int p + wb_index wb) (int q + 1)))" by simp
  moreover have "adios_step_to_time fp (rr_varid r) (rr_from_steps r + step_offset) = Some (rs ! ?t)"
    using mapped fp(1,2) time by (simp add: adios_step_to_time_def adios_step_to_time_of_def add.assoc)
  ultimately have "adios_wbidx_to_pgidx fp r step_offset errno = Some (max (int p) (min (int p + wb_index wb) (int q + 1)), None)"
    using r pq(1,2) by (simp add: adios_wbidx_to_pgidx_def Let_def)
  moreover have "snd (adios_get_absolute_writeblock_index vi (wb_index wb) t) = wb_index wb + int p"
    if "wb_index wb < vi_nblocks vi ! ?t"
    using that fp(3,4) vi index before t nb by (simp add: adios_get_absolute_writeblock_index_def fold_blocks)
  moreover have "sum_list (take (?t + 1) (vi_nblocks vi)) = int q + 1"
    using before here t nb by (simp add: take_Suc_conv_app_nth)
  ultimately show ?thesis using here index pq(3) by simp
qed

text \<open>The second row of the example, read as a write block.\<close>

definition row_block :: "int \<Rightarrow> ADIOS_SELECTION_WRITEBLOCK_STRUCT" where
  "row_block i = \<lparr>wb_index = i, wb_is_absolute_index = False, wb_is_sub_pg_selection = False, wb_element_offset = 0,
     wb_nelements = 0\<rparr>"

definition row_request :: "int \<Rightarrow> read_request" where
  "row_request i = grid_request\<lparr>rr_sel := Sel_writeblock (row_block i)\<rparr>"

lemma row_request_fields:
  "rr_sel (row_request i) = Sel_writeblock (row_block i)" "rr_varid (row_request i) = 0" "rr_nsteps (row_request i) = 1"
  "rr_from_steps (row_request i) = 0" "rr_data (row_request i) = 1000"
  by (simp_all add: row_request_def grid_request_fields)

lemma grid_nblocks: "get_var_nsteps grid_var = 1" "get_var_nblocks grid_var 1 = Some [2]"
  by (simp_all add: get_var_nsteps_def get_var_nblocks_def grid_var_times Let_def)

theorem wbidx_is_absolute_index_witness:
  "adios_wbidx_to_pgidx grid_file (row_request 1) 0 None = Some (1, None)
    \<and> adios_wbidx_to_pgidx grid_file (row_request 5) 0 None = Some (2, None)"
proof -
  have "adios_wbidx_to_pgidx grid_file (row_request i) 0 None
      = Some (if i < 2 then i else 2, None)" if "0 \<le> i" for i
    using that wbidx_is_absolute_index [of grid_var "row_request i" "row_block i" grid_file 0 0
        "\<lparr>vi_nsteps = 1, vi_nblocks = [2], vi_blockinfo = Some []\<rparr>" None]
    by (simp add: grid_var_times grid_var_fields row_request_fields grid_find grid_request_fields grid_nblocks row_block_def
        adios_get_absolute_writeblock_index_def)
  from this [of 1] this [of 5] show ?thesis by simp
qed

theorem read_var_wb_correct_witness:
  "\<exists>c r m. read_var_wb grid_reader grid_file (row_request 1) ((\<lambda>_. 0), None) = Some (Some c, r, m, None)
    \<and> load 1000 1 m = [11] \<and> load 1001 1 m = [12] \<and> load 1002 1 m = [13] \<and> m 1003 = 0"
proof -
  have "wb_pgidx grid_file (row_request 1) (row_block 1) 0 None = Some (1, None)"
    by (simp add: wb_pgidx_def adios_wbidx_to_pgidx_def row_request_fields grid_request_fields adios_step_to_time_def
        adios_step_to_time_of_def grid_find get_time_def grid_var_times get_var_start_index_def get_var_stop_index_def
        wbidx_loop.simps row_block_def Let_def)
  moreover have "characteristic_at grid_var 1 = Some (grid_block 1 11)"
    by (simp add: characteristic_at_def grid_var_def)
  moreover have "bp_get_dimension_characteristics (grid_block 1 11) = Some (True, [1, 3], [2, 3], [1, 0])"
    by (simp add: bp_get_dimension_characteristics_def grid_block_def grid_block_shape ch_example_def)
  moreover have "unat (ch_payload_offset (grid_block 1 11)) = 11" by (simp add: grid_block_def)
  ultimately obtain c r m where
    m: "read_var_wb grid_reader grid_file (row_request 1) ((\<lambda>_. 0), None) = Some (Some c, r, m, None)"
    and bytes: "\<And>i. i < 3 \<Longrightarrow> load (1000 + of_nat i) 1 m = elem_fun adios_byte False (take 1 (drop (11 + i) (map of_nat [0..<14])))"
    and rest: "\<And>x. \<not> unat (x - 1000) < 3 \<Longrightarrow> m x = 0"
    using read_var_wb_correct [of "row_request 1" "row_block 1" grid_file grid_var 1 None "grid_block 1 11" True "[1, 3]" "[2, 3]" "[1, 0]"
        3 0 "map of_nat [0..<14]" grid_reader "\<lambda>_. 0" None]
    by (auto simp: row_request_fields grid_find grid_var_fields grid_open row_block_def read_max_def)
  show ?thesis using m bytes [of 0] bytes [of 1] bytes [of 2] rest [of 1003] by (simp add: elem_fun_def upt_rec)
qed

end
