(* ===== verification/BP_Build.thy ===== *)
theory BP_Build
  imports BP_Data BP_Merge
begin

text \<open>
  The index that a process builds of what it has written (\<open>core/adios_internals.c\<close>): the sizes that
  are computed in advance (\<open>adios_calc_var_overhead_v1\<close> and others), the list of written variables
  (\<open>adios_copy_var_written\<close>, called by \<open>common_adios_write_byid\<close> of \<open>core/common_adios.c\<close>), and
  \<open>adios_build_index_v1\<close>. Theorems: the sizes are those of what is written, and the index
  points at the headers and data that are in the buffer.
\<close>

section \<open>Sizes\<close>

definition adios_calc_var_characteristics_dims_overhead :: "adios_dimension_struct list \<Rightarrow> u16" where
  "adios_calc_var_characteristics_dims_overhead d = fold (\<lambda>_ overhead. overhead + (8 + 8 + 8)) d (1 + 2)"

text \<open>
  The size of one statistic, where only a histogram is looked at. \<open>None\<close> is an access through a null
  pointer or to something else than a histogram.
\<close>

definition stat_size_of :: "ADIOS_DATATYPES \<Rightarrow> stat_data option \<Rightarrow> nat \<Rightarrow> u64 option" where
  "stat_size_of type data j =
     (if j = 5 \<and> adios_get_stat_set_count type = 1 then
        (case data of Some (Stat_Hist h) \<Rightarrow> Some (adios_get_stat_size (h_num_breaks h) type adios_statistic_hist)
         | _ \<Rightarrow> None)
      else Some (stat_size type j))"

fun stat_overhead_loop :: "ADIOS_DATATYPES \<Rightarrow> u32 \<Rightarrow> stat_data option list \<Rightarrow> nat \<Rightarrow> nat list \<Rightarrow> u16 \<Rightarrow> u16 option" where
  "stat_overhead_loop type bitmap row i [] overhead = Some overhead"
| "stat_overhead_loop type bitmap row i (j # js) overhead =
     (if drop_bit j bitmap = 0 then Some overhead
      else if bit bitmap j then
        if i \<ge> length row then None
        else (case stat_size_of type (row ! i) j of
                None \<Rightarrow> None
              | Some n \<Rightarrow> stat_overhead_loop type bitmap row (i + 1) js (overhead + ucast n))
      else stat_overhead_loop type bitmap row i js overhead)"

definition adios_calc_var_characteristics_stat_overhead :: "adios_var_struct \<Rightarrow> u16 option" where
  "adios_calc_var_characteristics_stat_overhead var =
     stat_overhead_loop (adios_transform_get_var_original_type_var var) (av_bitmap var)
       (case av_stats var of Some (row # _) \<Rightarrow> row | _ \<Rightarrow> []) 0 [0..<32] 0"

text \<open>The plugin of the transform must be there.\<close>

definition calc_transform_uid_overhead :: "plugin_infos \<Rightarrow> adios_var_struct \<Rightarrow> u64 option" where
  "calc_transform_uid_overhead infos var =
     map_option (\<lambda>transform_uid. 1 + of_nat (length transform_uid))
       (adios_transform_plugin_uid infos (uint (av_transform_type var)))"

definition adios_transform_calc_transform_characteristic_overhead :: "plugin_infos \<Rightarrow> adios_var_struct \<Rightarrow> u64 option" where
  "adios_transform_calc_transform_characteristic_overhead infos var =
     (if av_transform_type var = 0 then Some 0
      else map_option (\<lambda>n. 1 + n + 1 + ucast (adios_calc_var_characteristics_dims_overhead (av_pre_transform_dimensions var))
             + 2 + ucast (av_transform_metadata_len var)) (calc_transform_uid_overhead infos var))"

definition adios_calc_var_characteristics_overhead :: "plugin_infos \<Rightarrow> adios_var_struct \<Rightarrow> u16 option" where
  "adios_calc_var_characteristics_overhead infos v =
     (let original_var_type = adios_transform_get_var_original_type_var v
      in if original_var_type \<noteq> adios_string \<and> av_dimensions v \<noteq> [] then
           (case (adios_calc_var_characteristics_stat_overhead v,
                  adios_transform_calc_transform_characteristic_overhead infos v) of
              (Some stat, Some transform) \<Rightarrow>
                Some (1 + 4 + 1 + 4 + 1 + ucast (adios_get_stat_set_count original_var_type) * stat + ucast transform
                  + 1 + adios_calc_var_characteristics_dims_overhead (av_dimensions v))
            | _ \<Rightarrow> None)
         else Some (1 + 4))"

text \<open>A flag and a number, or the id of a variable.\<close>

definition item_overhead :: "adios_dimension_item_struct \<Rightarrow> u16" where
  "item_overhead item =
     1 + (if di_var item = None \<and> di_attr item = None \<and> di_time_index item = adios_flag_no then 8 else 4)"

definition adios_calc_var_overhead_v1 :: "plugin_infos \<Rightarrow> adios_var_struct \<Rightarrow> u16 option" where
  "adios_calc_var_overhead_v1 infos v =
     map_option (\<lambda>chars.
         fold (\<lambda>d overhead. overhead + item_overhead (dm_dimension d) + item_overhead (dm_global_dimension d)
             + item_overhead (dm_local_offset d)) (av_dimensions v)
           (8 + 4 + 2 + of_nat (length (av_name v)) + 2 + of_nat (length (av_path v)) + 1 + 1 + 1 + 2)
         + chars)
       (adios_calc_var_characteristics_overhead infos v)"

definition adios_calc_attribute_overhead_v1 :: "adios_attribute_struct \<Rightarrow> u32" where
  "adios_calc_attribute_overhead_v1 a =
     4 + 4 + 2 + of_nat (length (aa_name a)) + 2 + of_nat (length (aa_path a)) + 1
     + (if aa_var a \<noteq> None then 4
        else 1 + 4 + ucast (adios_get_type_size (aa_type a) (map_option string_of_bytes (aa_value a))))"

text \<open>The size of a whole process group without its data.\<close>

definition adios_calc_overhead_v1 ::
  "plugin_infos \<Rightarrow> adios_group_struct \<Rightarrow> adios_var_struct list \<Rightarrow> adios_attribute_struct list \<Rightarrow> u64 option" where
  "adios_calc_overhead_v1 infos g vars attributes =
     (let size0 = 8 + 1 + 2 + of_nat (length (g_name g)) + 4 + 2
            + (case g_time_index_name g of Some name \<Rightarrow> of_nat (length name) | None \<Rightarrow> 0) + 4 + 1 + 2;
          size1 = fold (\<lambda>(_, parameters) n. n + 1 + 2 + of_nat (length parameters)) (g_methods g) size0 + 4 + 8
      in map_option (\<lambda>size2. fold (\<lambda>a n. n + ucast (adios_calc_attribute_overhead_v1 a)) attributes (size2 + 4 + 8))
           (fold_opt (\<lambda>v n. map_option (\<lambda>x. n + ucast x) (adios_calc_var_overhead_v1 infos v)) vars size1))"

section \<open>The written variables\<close>

text \<open>
  The group of an open file: its variables, those written so far, each with the position of the
  variable it is a copy of (\<open>parent_var\<close>), and its attributes.
\<close>

record adios_write_group = adios_group_struct +
  g_process_id :: u32
  g_vars :: "adios_var_struct list"
  g_vars_written :: "(nat \<times> adios_var_struct) list"
  g_attributes :: "adios_attribute_struct list"

text \<open>
  The copy of one set of statistics, which is also the copy into the index. A null pointer is passed
  over without a place in the new set; \<open>None\<close> is an access out of bounds.
\<close>

definition copy_stat :: "ADIOS_DATATYPES \<Rightarrow> nat \<Rightarrow> stat_data \<Rightarrow> stat_data option" where
  "copy_stat type j d =
     (case d of
        Stat_Hist h \<Rightarrow>
          if j = 5 \<and> unat (h_num_breaks h + 1) \<le> length (h_frequencies h) \<and> unat (h_num_breaks h) \<le> length (h_breaks h)
          then Some (Stat_Hist (h\<lparr>h_frequencies := take (unat (h_num_breaks h + 1)) (h_frequencies h),
                 h_breaks := take (unat (h_num_breaks h)) (h_breaks h)\<rparr>))
          else None
      | Stat_Bytes bs \<Rightarrow>
          if j \<noteq> 5 \<and> unat (stat_size type j) \<le> length bs then Some (Stat_Bytes (take (unat (stat_size type j)) bs))
          else None)"

fun copy_stats_row ::
  "ADIOS_DATATYPES \<Rightarrow> u32 \<Rightarrow> stat_data option list \<Rightarrow> nat list \<Rightarrow> nat \<Rightarrow> stat_data option list
    \<Rightarrow> stat_data option list option" where
  "copy_stats_row type bitmap row [] idx new = Some new"
| "copy_stats_row type bitmap row (j # js) idx new =
     (if drop_bit j bitmap = 0 then Some new
      else if bit bitmap j then
        if idx \<ge> length row then None
        else (case row ! idx of
                None \<Rightarrow> copy_stats_row type bitmap row js idx new
              | Some d \<Rightarrow>
                  (case copy_stat type j d of
                     None \<Rightarrow> None
                   | Some d' \<Rightarrow> copy_stats_row type bitmap row js (idx + 1) (new[idx := Some d'])))
      else copy_stats_row type bitmap row js idx new)"

fun all_some :: "'a option list \<Rightarrow> 'a list option" where
  "all_some [] = Some []"
| "all_some (x # xs) = (case (x, all_some xs) of (Some y, Some ys) \<Rightarrow> Some (y # ys) | _ \<Rightarrow> None)"

definition copy_stats :: "ADIOS_DATATYPES \<Rightarrow> u32 \<Rightarrow> stat_data option list list option \<Rightarrow> stat_data option list list option" where
  "copy_stats type bitmap stats =
     (let rows = (case stats of Some rows \<Rightarrow> rows | None \<Rightarrow> [])
      in all_some (map (\<lambda>c. copy_stats_row type bitmap (if c < length rows then rows ! c else []) [0..<32] 0 (replicate 7 None))
           [0..<unat (adios_get_stat_set_count type)]))"

text \<open>
  Dimensions with their values in place of the references, and the last error of a value. The copy
  goes through \<open>count_dimensions\<close>, which counts in 8 bits.
\<close>

definition dereference_dimension_item ::
  "endian \<Rightarrow> (ADIOS_DATATYPES \<Rightarrow> u8 list \<Rightarrow> u64) \<Rightarrow> adios_dimension_item_struct
    \<Rightarrow> adios_errcode option \<times> adios_dimension_item_struct" where
  "dereference_dimension_item e fv src =
     (let (err, v) = adios_get_dim_value e fv src
      in (err, \<lparr>di_rank = v, di_var = None, di_attr = None, di_time_index = di_time_index src\<rparr>))"

definition last_error :: "adios_errcode option \<Rightarrow> adios_errcode option \<Rightarrow> adios_errcode option" where
  "last_error old new = (case new of None \<Rightarrow> old | Some c \<Rightarrow> Some c)"

fun dereference_dims ::
  "endian \<Rightarrow> (ADIOS_DATATYPES \<Rightarrow> u8 list \<Rightarrow> u64) \<Rightarrow> adios_dimension_struct list
    \<Rightarrow> adios_errcode option \<times> adios_dimension_struct list" where
  "dereference_dims e fv [] = (None, [])"
| "dereference_dims e fv (d # ds) =
     (let (e1, x) = dereference_dimension_item e fv (dm_dimension d);
          (e2, y) = dereference_dimension_item e fv (dm_global_dimension d);
          (e3, z) = dereference_dimension_item e fv (dm_local_offset d);
          (err, ds) = dereference_dims e fv ds
      in (last_error (last_error (last_error e1 e2) e3) err,
          \<lparr>dm_dimension = x, dm_global_dimension = y, dm_local_offset = z\<rparr> # ds))"

definition dereference_dimensions_var ::
  "endian \<Rightarrow> (ADIOS_DATATYPES \<Rightarrow> u8 list \<Rightarrow> u64) \<Rightarrow> adios_dimension_struct list
    \<Rightarrow> adios_errcode option \<times> adios_dimension_struct list" where
  "dereference_dimensions_var e fv dims = dereference_dims e fv (take (unat (count_dimensions dims)) dims)"

definition adios_transform_init_transform_var :: "adios_var_struct \<Rightarrow> adios_var_struct" where
  "adios_transform_init_transform_var var =
     var\<lparr>av_transform_type := 0, av_pre_transform_dimensions := [], av_pre_transform_type := adios_unknown,
       av_transform_metadata_len := 0, av_transform_metadata := None\<rparr>"

text \<open>The specification of the transform, which nothing here reads, is left out.\<close>

definition adios_transform_copy_var_transform ::
  "endian \<Rightarrow> (ADIOS_DATATYPES \<Rightarrow> u8 list \<Rightarrow> u64) \<Rightarrow> adios_var_struct \<Rightarrow> adios_var_struct
    \<Rightarrow> (adios_errcode option \<times> adios_var_struct) option" where
  "adios_transform_copy_var_transform e fv dst src =
     (let (err, dims) = dereference_dimensions_var e fv (av_pre_transform_dimensions src);
          n = av_transform_metadata_len src
      in case av_transform_metadata src of
           Some md \<Rightarrow>
             if unat n > length md then None
             else Some (err, dst\<lparr>av_transform_type := av_transform_type src, av_pre_transform_type := av_pre_transform_type src,
               av_pre_transform_dimensions := dims, av_transform_metadata_len := n,
               av_transform_metadata := if n = 0 then None else Some (take (unat n) md)\<rparr>)
         | None \<Rightarrow> Some (err, dst\<lparr>av_transform_type := av_transform_type src, av_pre_transform_type := av_pre_transform_type src,
               av_pre_transform_dimensions := dims, av_transform_metadata_len := n, av_transform_metadata := None\<rparr>))"

text \<open>
  The fields that every copy gets. \<open>bitmap\<close> is not set here (\<open>uninit\<close>); for an unknown type the fields of
  the transform are not set either, and the model keeps those of the variable.
\<close>

definition new_copy :: "u32 \<Rightarrow> adios_var_struct \<Rightarrow> adios_var_struct" where
  "new_copy uninit var =
     var\<lparr>av_dimensions := [], av_stats := None, av_data := None, av_bitmap := uninit\<rparr>"

text \<open>The copy of a variable, with the error that is reported.\<close>

definition copy_of_var ::
  "endian \<Rightarrow> (ADIOS_DATATYPES \<Rightarrow> u8 list \<Rightarrow> u64) \<Rightarrow> u32 \<Rightarrow> adios_var_struct
    \<Rightarrow> (adios_errcode option \<times> adios_var_struct) option" where
  "copy_of_var e fv uninit var =
     (let new = new_copy uninit var;
          size = unat (adios_get_type_size (av_type var) (map_option string_of_bytes (av_data var)));
          data = (case av_data var of
                    None \<Rightarrow> if size = 0 then Some [] else None
                  | Some bs \<Rightarrow> if size \<le> length bs then Some (take size bs) else None)
      in if av_type var = adios_unknown then Some (Some err_unspecified, new)
         else if av_type var \<noteq> adios_string \<and> av_dimensions var \<noteq> [] then
           (case (copy_stats (adios_transform_get_var_original_type_var var) (av_bitmap var) (av_stats var),
                  adios_transform_copy_var_transform e fv (adios_transform_init_transform_var new) var) of
              (Some rows, Some (err1, new)) \<Rightarrow>
                let (err2, dims) = dereference_dimensions_var e fv (av_dimensions var)
                in Some (last_error err1 err2, new\<lparr>av_bitmap := av_bitmap var, av_stats := Some rows, av_dimensions := dims\<rparr>)
            | _ \<Rightarrow> None)
         else map_option (\<lambda>bs. (None, (adios_transform_init_transform_var new)\<lparr>av_data := Some bs\<rparr>)) data)"

definition adios_copy_var_written ::
  "endian \<Rightarrow> (ADIOS_DATATYPES \<Rightarrow> u8 list \<Rightarrow> u64) \<Rightarrow> u32 \<Rightarrow> nat \<Rightarrow> adios_write_group
    \<Rightarrow> (adios_errcode option \<times> adios_write_group) option" where
  "adios_copy_var_written e fv uninit i g =
     (if i \<ge> length (g_vars g) then None
      else map_option (\<lambda>(err, new). (err, g\<lparr>g_vars_written := g_vars_written g @ [(i, new)]\<rparr>))
             (copy_of_var e fv uninit (g_vars g ! i)))"

text \<open>
  What \<open>common_adios_write\<close> does with a variable without a transform after it has written it into the
  buffer and told the transports: the data of an array belong to the program.
\<close>

definition release_data :: "adios_var_struct \<Rightarrow> adios_var_struct" where
  "release_data v = (if av_dimensions v \<noteq> [] then v\<lparr>av_data := None\<rparr> else v)"

text \<open>
  \<open>common_adios_write_byid\<close> for a variable without a transform, with the shared buffer, in a file that is
  open to be written. The bytes \<open>var\<close> of the program are taken over for an array and copied for a
  scalar or a string. \<open>stats\<close> stands for \<open>adios_generate_var_characteristics_v1\<close>, which computes the
  statistics in floating point.
\<close>

definition common_adios_write_byid ::
  "endian \<Rightarrow> (ADIOS_DATATYPES \<Rightarrow> u8 list \<Rightarrow> u64) \<Rightarrow> (nat \<Rightarrow> bool) \<Rightarrow> plugin_infos
    \<Rightarrow> (adios_var_struct \<Rightarrow> adios_var_struct) \<Rightarrow> u32 \<Rightarrow> nat \<Rightarrow> u8 list
    \<Rightarrow> adios_write_group \<times> adios_file_struct \<Rightarrow> (adios_write_group \<times> adios_file_struct) option" where
  "common_adios_write_byid e fv realloc_ok infos stats uninit i var = (\<lambda>(g, fd).
     let fd = fd\<lparr>fd_w := (fd_w fd)\<lparr>w_errno := None\<rparr>\<rparr> in
     if list_all (\<lambda>(m, _). m = -1) (g_methods g) \<and> length (g_methods g) = 1 then Some (g, fd)
     else if i \<ge> length (g_vars g) then None
     else
       let v = g_vars g ! i;
           element_size = unat (adios_get_type_size (av_type v) (Some (string_of_bytes var)))
       in if av_dimensions v = [] \<and> av_type v \<noteq> adios_unknown \<and> element_size > length var then None
          else
            let v = v\<lparr>av_data := (if av_dimensions v \<noteq> [] then Some var
                      else if av_type v = adios_unknown then None else Some (take element_size var))\<rparr>;
                (_, v, fd) = adios_write_var_header_v1 e fv realloc_ok infos (stats v) fd;
                fd = adios_write_var_payload_v1 e realloc_ok v fd;
                g = g\<lparr>g_vars := (g_vars g)[i := release_data v]\<rparr>
            in if w_errno (fd_w fd) \<noteq> None then Some (g, fd)
               else map_option (\<lambda>(err, g). (g, fd\<lparr>fd_w := report err (fd_w fd)\<rparr>))
                      (adios_copy_var_written e fv uninit i g))"

section \<open>The index\<close>

text \<open>
  The characteristic of a written variable. The block from \<open>malloc\<close> has the contents \<open>uninit\<close>: the id of a
  variable is not set, nor are the dimensions of a variable without any.
\<close>

definition adios_transform_copy_transform_characteristic ::
  "endian \<Rightarrow> (ADIOS_DATATYPES \<Rightarrow> u8 list \<Rightarrow> u64) \<Rightarrow> adios_var_struct
    \<Rightarrow> (adios_errcode option \<times> adios_index_characteristic_transform_struct) option" where
  "adios_transform_copy_transform_characteristic e fv v =
     (let (err, dims) = adios_transform_dereference_dimensions_characteristic e fv (av_pre_transform_dimensions v);
          n = av_transform_metadata_len v;
          tr = (\<lambda>md. \<lparr>tr_transform_type = av_transform_type v, tr_pre_transform_type = av_pre_transform_type v,
             tr_pre_transform_dimensions = dims, tr_transform_metadata_len = n, tr_transform_metadata = md\<rparr>)
      in if n = 0 then Some (err, tr None)
         else (case av_transform_metadata v of
                 Some md \<Rightarrow> if unat n > length md then None else Some (err, tr (Some (take (unat n) md)))
               | None \<Rightarrow> None))"

definition index_dims ::
  "endian \<Rightarrow> (ADIOS_DATATYPES \<Rightarrow> u8 list \<Rightarrow> u64) \<Rightarrow> adios_var_struct \<Rightarrow> adios_index_characteristic_struct_v1
    \<Rightarrow> (adios_errcode option \<times> adios_index_characteristic_struct_v1) option" where
  "index_dims e fv v ch =
     (case (copy_stats (adios_transform_get_var_original_type_var v) (av_bitmap v) (av_stats v),
            adios_transform_copy_transform_characteristic e fv v) of
        (Some rows, Some (err1, tr)) \<Rightarrow>
          let (err2, dims) = adios_transform_dereference_dimensions_characteristic e fv (av_dimensions v)
          in Some (last_error err1 err2, ch\<lparr>ch_bitmap := av_bitmap v, ch_stats := Some rows, ch_transform := tr,
               ch_dims := dims, ch_value := None\<rparr>)
      | _ \<Rightarrow> None)"

definition index_value ::
  "ADIOS_DATATYPES \<Rightarrow> u8 list \<Rightarrow> adios_index_characteristic_struct_v1 \<Rightarrow> adios_index_characteristic_struct_v1 option" where
  "index_value type data ch =
     (let size = unat (adios_get_type_size type (Some (string_of_bytes data)))
      in if size > length data then None
         else if type = adios_string then Some (ch\<lparr>ch_value := Some (take size data)\<rparr>)
         else Some (ch\<lparr>ch_bitmap := 0, ch_stats := None,
                ch_transform := adios_transform_clear_transform_characteristic (ch_transform ch),
                ch_value := Some (take size data), ch_dims := \<lparr>d_count = 0, d_dims = []\<rparr>\<rparr>))"

definition index_characteristic ::
  "endian \<Rightarrow> (ADIOS_DATATYPES \<Rightarrow> u8 list \<Rightarrow> u64) \<Rightarrow> plugin_infos \<Rightarrow> adios_index_characteristic_struct_v1 \<Rightarrow> u32 \<Rightarrow> u32
    \<Rightarrow> adios_var_struct \<Rightarrow> adios_var_struct
    \<Rightarrow> (adios_errcode option \<times> adios_index_characteristic_struct_v1) option" where
  "index_characteristic e fv infos uninit subfile_index time_index old_var v =
     (case adios_calc_var_overhead_v1 infos old_var of
        None \<Rightarrow> None
      | Some overhead \<Rightarrow>
          let ch = uninit\<lparr>ch_offset := av_write_offset v,
                ch_payload_offset := av_write_offset v + ucast overhead - of_nat (length (av_path old_var))
                  + of_nat (length (av_path v)),
                ch_file_index := subfile_index, ch_time_index := time_index, ch_value := None,
                ch_dims := (ch_dims uninit)\<lparr>d_count := 0\<rparr>, ch_bitmap := 0, ch_stats := None,
                ch_transform := adios_transform_init_transform_characteristic\<rparr>
          in if av_type v = adios_unknown then Some (Some err_unspecified, ch)
             else if av_type v = adios_string then
               map_option (\<lambda>ch. (None, ch)) (index_value (av_type v) (case av_data v of Some bs \<Rightarrow> bs | None \<Rightarrow> []) ch)
             else
               case (if av_dimensions v \<noteq> [] then index_dims e fv v ch else Some (None, ch)) of
                 None \<Rightarrow> None
               | Some (err, ch) \<Rightarrow>
                   (case av_data v of
                      None \<Rightarrow> Some (err, ch)
                    | Some bs \<Rightarrow> map_option (\<lambda>ch. (err, ch)) (index_value (av_type v) bs ch)))"

text \<open>The entries of the index.\<close>

definition index_item ::
  "adios_write_group \<Rightarrow> adios_var_struct \<Rightarrow> adios_index_characteristic_struct_v1 \<Rightarrow> adios_index_var_struct_v1" where
  "index_item g v ch =
     \<lparr>v_id = av_id v, v_group_name = g_name g, v_var_name = av_name v, v_var_path = av_path v, v_type = av_type v,
      v_characteristics_count = 1, v_characteristics_allocated = 1, v_characteristics = [ch]\<rparr>"

definition build_attr :: "adios_write_group \<Rightarrow> u32 \<Rightarrow> adios_attribute_struct \<Rightarrow> adios_index_attribute_struct_v1 option" where
  "build_attr g subfile_index a =
     (let size = unat (adios_get_type_size (aa_type a) (map_option string_of_bytes (aa_value a)));
          item = (\<lambda>value. \<lparr>a_id = aa_id a, a_group_name = g_name g, a_attr_name = aa_name a, a_attr_path = aa_path a,
            a_type = aa_type a, a_characteristics_count = 1, a_characteristics_allocated = 1, a_characteristics =
              [\<lparr>ch_offset = aa_write_offset a, ch_dims = \<lparr>d_count = 0, d_dims = []\<rparr>,
                ch_var_id = (case aa_var a of Some var \<Rightarrow> vr_id var | None \<Rightarrow> 0), ch_value = value,
                ch_payload_offset = aa_write_offset a + ucast (adios_calc_attribute_overhead_v1 a),
                ch_file_index = subfile_index, ch_time_index = 0, ch_bitmap = 0, ch_stats = None,
                ch_transform = adios_transform_init_transform_characteristic\<rparr>]\<rparr>)
      in case aa_value a of
           None \<Rightarrow> Some (item None)
         | Some bs \<Rightarrow> if size > length bs then None else Some (item (Some (take size bs))))"

definition build_var ::
  "endian \<Rightarrow> (ADIOS_DATATYPES \<Rightarrow> u8 list \<Rightarrow> u64) \<Rightarrow> (nat \<Rightarrow> bool) \<Rightarrow> bool \<Rightarrow> plugin_infos
    \<Rightarrow> adios_index_characteristic_struct_v1 \<Rightarrow> u32 \<Rightarrow> adios_write_group \<Rightarrow> nat \<times> adios_var_struct
    \<Rightarrow> merge_state \<Rightarrow> merge_state option" where
  "build_var e fv realloc_ok malloc_ok infos uninit subfile_index g = (\<lambda>(i, v) s.
     if av_write_offset v = 0 then Some s
     else if i \<ge> length (g_vars g) then None
     else
       case index_characteristic e fv infos uninit subfile_index (g_time_index g) (g_vars g ! i) v of
         None \<Rightarrow> None
       | Some (err, ch) \<Rightarrow>
           index_append_var_v1 e realloc_ok malloc_ok (index_item g v ch) (s\<lparr>ms_errno := last_error (ms_errno s) err\<rparr>))"

definition build_attribute ::
  "(nat \<Rightarrow> bool) \<Rightarrow> u32 \<Rightarrow> adios_write_group \<Rightarrow> adios_attribute_struct \<Rightarrow> merge_state \<Rightarrow> merge_state option" where
  "build_attribute realloc_ok subfile_index g a s =
     (if aa_write_offset a = 0 then Some s
      else map_option (\<lambda>item.
             let (err, attrs) = index_append_attribute_v1 realloc_ok (ix_attrs_root (ms_index s)) item
             in s\<lparr>ms_index := (ms_index s)\<lparr>ix_attrs_root := attrs\<rparr>, ms_errno := last_error (ms_errno s) err\<rparr>)
             (build_attr g subfile_index a))"

text \<open>\<open>fd->pg_start_in_file\<close> and \<open>fd->subfile_index\<close> are arguments.\<close>

definition adios_build_index_v1 ::
  "endian \<Rightarrow> (ADIOS_DATATYPES \<Rightarrow> u8 list \<Rightarrow> u64) \<Rightarrow> (nat \<Rightarrow> bool) \<Rightarrow> bool \<Rightarrow> plugin_infos
    \<Rightarrow> adios_index_characteristic_struct_v1 \<Rightarrow> u64 \<Rightarrow> u32 \<Rightarrow> adios_write_group \<Rightarrow> merge_state \<Rightarrow> merge_state option" where
  "adios_build_index_v1 e fv realloc_ok malloc_ok infos uninit pg_start_in_file subfile_index g s =
     (let index = ms_index s;
          g_item = \<lparr>pg_group_name = g_name g, pg_adios_host_language_fortran = g_adios_host_language_fortran g,
            pg_process_id = g_process_id g, pg_time_index_name = g_time_index_name g, pg_time_index = g_time_index g,
            pg_offset_in_file = pg_start_in_file\<rparr>;
          s = s\<lparr>ms_index := index\<lparr>ix_pg_root := index_append_process_group_v1 (ix_pg_root index) [g_item]\<rparr>\<rparr>
      in case fold_opt (build_var e fv realloc_ok malloc_ok infos uninit subfile_index g) (g_vars_written g) s of
           None \<Rightarrow> None
         | Some s \<Rightarrow> fold_opt (build_attribute realloc_ok subfile_index g) (g_attributes g) s)"

section \<open>The sizes are those of what is written\<close>

lemma stat_size_written:
  assumes "stat_ok type k d" and "k = 5 \<longrightarrow> adios_get_stat_set_count type = 1"
  shows "stat_size_of type (Some d) k = Some (of_nat (length (stat_bytes e d)))"
proof (cases d)
  case (Stat_Hist h)
  with assms have h: "k = 5" "hist_ok h" "adios_get_stat_set_count type = 1" by simp_all
  then have ty: "type \<noteq> adios_complex" "type \<noteq> adios_double_complex" by (auto simp: adios_get_stat_set_count_def)
  obtain m where m: "unat (h_num_breaks h) = m" by blast
  then have n: "m < 2 ^ 28" using h(2) by (simp add: hist_ok_def)
  then have "unat (h_num_breaks h + 1) = m + 1" using m by (subst unat_add_no_wrap) simp_all
  note up = ucast_eq_of_nat [OF this, where 'b = 64] ucast_eq_of_nat [OF m, where 'b = 64]
  have len: "length (hist_bytes e h) = 20 + 4 * (m + 1) + 8 * m"
    using h(2) m by (simp add: hist_bytes_def hist_ok_def)
  show ?thesis using h(1,3) ty by (simp add: Stat_Hist stat_size_of_def up len)
next
  case (Stat_Bytes bs)
  with assms show ?thesis by (auto simp: stat_size_of_def)
qed

lemma stat_overhead_row:
  assumes "k \<le> 32" and "list_all2 (stat_ok type) (stat_bits bitmap k) ds"
    and "take (length ds) (drop i row) = map Some ds"
    and "5 \<in> set (stat_bits bitmap k) \<longrightarrow> adios_get_stat_set_count type = 1"
  shows "stat_overhead_loop type bitmap row i [k..<32] n = Some (n + of_nat (length (concat (map (stat_bytes e) ds))))"
  using assms
proof (induction "32 - k" arbitrary: k ds i n)
  case 0
  then have "ds = []" by (simp add: stat_bits_def)
  with 0 show ?case by simp
next
  case (Suc m)
  then have k: "k < 32" "m = 32 - Suc k" by simp_all
  have l: "[k..<32] = k # [Suc k..<32]" using k(1) by (rule upt_conv_Cons)
  show ?case
  proof (cases "drop_bit k bitmap = 0")
    case True
    then have "ds = []" using Suc.prems(2) by (simp add: stat_bits_stop)
    with True show ?thesis by (simp add: l)
  next
    case nz: False
    show ?thesis
    proof (cases "bit bitmap k")
      case True
      then obtain d ds' where ds: "ds = d # ds'" "stat_ok type k d" "list_all2 (stat_ok type) (stat_bits bitmap (Suc k)) ds'"
        using Suc.prems(2) k(1) by (auto simp: stat_bits_rec list_all2_Cons1)
      have five: "k = 5 \<or> 5 \<in> set (stat_bits bitmap (Suc k)) \<longrightarrow> adios_get_stat_set_count type = 1"
        using Suc.prems(4) True k(1) by (auto simp: stat_bits_rec)
      have i: "i < length row" using Suc.prems(3) ds(1) by (cases "i < length row") simp_all
      have row: "row ! i = Some d" "take (length ds') (drop (i + 1) row) = map Some ds'"
        using Suc.prems(3) unfolding ds(1) Cons_nth_drop_Suc [OF i, symmetric] by simp_all
      have size: "stat_size_of type (Some d) k = Some (of_nat (length (stat_bytes e d)))"
        using stat_size_written [OF ds(2)] five by blast
      have "stat_overhead_loop type bitmap row (i + 1) [Suc k..<32] (n + of_nat (length (stat_bytes e d)))
          = Some (n + of_nat (length (stat_bytes e d)) + of_nat (length (concat (map (stat_bytes e) ds'))))"
        using Suc.hyps(1) [OF k(2), of ds' "i + 1"] k(1) ds(3) row(2) five by simp
      then show ?thesis
        using nz True i row(1) size ucast_of_nat_down [of "length (stat_bytes e d)", where 'a = 64 and 'b = 16]
        by (simp add: l ds(1) add.assoc)
    next
      case False
      then show ?thesis
        using Suc.hyps(1) [OF k(2), of ds i n] Suc.prems k(1) nz by (simp add: l stat_bits_rec)
    qed
  qed
qed

lemma row_overhead:
  assumes "row_ok type bitmap row" and "bit bitmap 5 \<longrightarrow> adios_get_stat_set_count type = 1"
  shows "stat_overhead_loop type bitmap row 0 [0..<32] 0 = Some (of_nat (length (row_bytes e row)))"
proof -
  have "take (length (row_data row)) (drop 0 row) = map Some (row_data row)"
    using assms(1) unfolding row_ok_def by (metis append_eq_conv_conj drop_0 length_map)
  from stat_overhead_row [OF _ _ this, of 0 type bitmap 0 e] show ?thesis
    using assms by (simp add: row_ok_def row_bytes_def stat_bits_def del: upt_Suc)
qed

lemma row_length:
  assumes "row_ok type bitmap row" and "\<not> bit bitmap 5"
  shows "length (row_bytes e row) = (\<Sum>k\<leftarrow>stat_bits bitmap 0. unat (stat_size type k))"
proof -
  have "length (concat (map (stat_bytes e) ds)) = (\<Sum>k\<leftarrow>ks. unat (stat_size type k))"
    if "list_all2 (stat_ok type) ks ds" "5 \<notin> set ks" for ks ds
    using that
  proof (induction rule: list_all2_induct)
    case (Cons k ks d ds)
    then show ?case by (cases d) simp_all
  qed simp
  moreover have "5 \<notin> set (stat_bits bitmap 0)" using assms(2) by (simp add: stat_bits_def)
  ultimately show ?thesis using assms(1) by (simp add: row_ok_def row_bytes_def)
qed


lemma dims_overhead: "adios_calc_var_characteristics_dims_overhead d = of_nat (3 + 24 * length d)"
proof -
  have "fold (\<lambda>_ overhead. overhead + (8 + 8 + 8)) d n = n + of_nat (24 * length d)" for n :: u16
    by (induction d arbitrary: n) (simp_all add: algebra_simps)
  from this [of "1 + 2"] show ?thesis
    by (simp add: adios_calc_var_characteristics_dims_overhead_def)
qed

lemma transform_overhead:
  assumes "plugins_ok infos" and "var_array_ok e fv infos v"
  shows "\<exists>n. adios_transform_calc_transform_characteristic_overhead infos v = Some n
    \<and> ucast n = (of_nat (length (transform_item_bytes e infos (var_transform e fv v))) :: u16)"
proof (cases "av_transform_type v = 0")
  case True
  then show ?thesis
    by (simp add: adios_transform_calc_transform_characteristic_overhead_def var_transform_def transform_item_bytes_def)
next
  case False
  let ?tr = "var_transform e fv v" and ?dims = "av_pre_transform_dimensions v"
  have ty: "tr_transform_type ?tr = av_transform_type v" using False by (simp add: var_transform_def)
  then have "?tr \<noteq> zero_transform" using False by (auto simp: zero_transform_def)
  with assms(2) have tr: "transform_ok infos ?tr" by (auto simp: var_array_ok_def array_ok_def var_ch_def)
  then obtain uid where uid: "adios_transform_plugin_uid infos (uint (av_transform_type v)) = Some uid"
    using plugin_uid [OF assms(1), of "av_transform_type v"] ty by (auto simp: transform_ok_def)
  have dims: "length ?dims < 2 ^ 8" using assms(2) False by (simp add: var_array_ok_def)
  have md: "(case av_transform_metadata v of None \<Rightarrow> 0 | Some md \<Rightarrow> length md) = unat (av_transform_metadata_len v)"
    using tr False by (auto simp: transform_ok_def var_transform_def split: option.splits)
  have "length (transform_item_bytes e infos ?tr)
      = 1 + (1 + length uid) + 1 + (3 + 24 * length ?dims) + 2 + unat (av_transform_metadata_len v)"
    using \<open>?tr \<noteq> zero_transform\<close> False uid md
    by (simp add: transform_item_bytes_def transform_bytes_def transform_uid_def ty length_dim_values)
      (simp add: var_transform_def length_dim_values bytes_of_string_def split: option.splits)
  moreover have "ucast (adios_calc_var_characteristics_dims_overhead ?dims) = (of_nat (3 + 24 * length ?dims) :: u64)"
    unfolding dims_overhead using dims by (intro ucast_eq_of_nat unat_of_nat_small) simp
  moreover obtain n where n: "unat (av_transform_metadata_len v) = n" by blast
  note ucast_eq_of_nat [OF n, where 'b = 64]
  ultimately have "adios_transform_calc_transform_characteristic_overhead infos v
      = Some (of_nat (length (transform_item_bytes e infos ?tr)))"
    using False uid by (simp add: adios_transform_calc_transform_characteristic_overhead_def calc_transform_uid_overhead_def n)
  then show ?thesis by (simp add: ucast_of_nat_down)
qed

lemma stats_overhead:
  assumes "var_array_ok e fv infos v"
    and "bit (av_bitmap v) 5 \<longrightarrow> adios_get_stat_set_count (adios_transform_get_var_original_type_var v) = 1"
  shows "\<exists>n. adios_calc_var_characteristics_stat_overhead v = Some n
    \<and> ucast (adios_get_stat_set_count (adios_transform_get_var_original_type_var v)) * n
      = of_nat (length (concat (map (row_bytes e) (case av_stats v of Some rows \<Rightarrow> rows | None \<Rightarrow> []))))"
proof -
  let ?type = "adios_transform_get_var_original_type_var v"
  obtain rows where rows: "av_stats v = Some rows" "length rows = unat (adios_get_stat_set_count ?type)"
    "list_all (row_ok ?type (av_bitmap v)) rows"
    using assms(1) by (auto simp: var_array_ok_def array_ok_def var_ch_def split: option.splits)
  have "0 < unat (adios_get_stat_set_count ?type)" by (simp add: adios_get_stat_set_count_def)
  then obtain row rest where r: "rows = row # rest" using rows(2) by (cases rows) auto
  have loop: "adios_calc_var_characteristics_stat_overhead v = Some (of_nat (length (row_bytes e row)))"
    using row_overhead [of ?type "av_bitmap v" row e] rows(1,3) r assms(2)
    by (simp add: adios_calc_var_characteristics_stat_overhead_def)
  moreover have "length (concat (map (row_bytes e) rows)) = unat (adios_get_stat_set_count ?type) * length (row_bytes e row)"
  proof (cases "bit (av_bitmap v) 5")
    case True
    then have "length rows = 1" using assms(2) rows(2) by simp
    then show ?thesis using rows(2) r by simp
  next
    case False
    have "length (concat (map (row_bytes e) rs)) = length rs * length (row_bytes e row)" if "set rs \<subseteq> set rows" for rs
      using that row_length [OF _ False, of ?type] rows(3) r
      by (induction rs) (auto simp: list_all_iff)
    from this [of rows] rows(2) show ?thesis by simp
  qed
  moreover have "ucast (adios_get_stat_set_count ?type) = (of_nat (unat (adios_get_stat_set_count ?type)) :: u16)"
    by (simp add: adios_get_stat_set_count_def)
  ultimately show ?thesis using rows(1) by simp
qed


text \<open>
  The sizes are computed from the type before the transform, and the histograms of complex numbers, which
  are not made, are not counted.
\<close>

definition sizes_known :: "adios_var_struct \<Rightarrow> bool" where
  "sizes_known v \<longleftrightarrow>
     (is_array v \<and> bit (av_bitmap v) 5 \<longrightarrow> adios_get_stat_set_count (adios_transform_get_var_original_type_var v) = 1)
     \<and> (av_type v = adios_string \<longleftrightarrow> adios_transform_get_var_original_type_var v = adios_string)"

lemma characteristics_overhead:
  assumes "var_data_ok e fv infos v" and "sizes_known v"
  shows "adios_calc_var_characteristics_overhead infos v = Some (of_nat (length (chars_bytes e fv infos v)))"
proof (cases "is_array v")
  case False
  then show ?thesis
    using assms by (auto simp: adios_calc_var_characteristics_overhead_def chars_bytes_def set_bytes_def is_array_def
        sizes_known_def var_data_ok_def)
next
  case True
  with assms have ok: "plugins_ok infos" "var_array_ok e fv infos v" by (simp_all add: var_data_ok_def)
  obtain tr where tr: "adios_transform_calc_transform_characteristic_overhead infos v = Some tr"
    "ucast tr = (of_nat (length (transform_item_bytes e infos (var_transform e fv v))) :: u16)"
    using transform_overhead [OF ok] by blast
  obtain st where st: "adios_calc_var_characteristics_stat_overhead v = Some st"
    "ucast (adios_get_stat_set_count (adios_transform_get_var_original_type_var v)) * st
      = of_nat (length (concat (map (row_bytes e) (case av_stats v of Some rows \<Rightarrow> rows | None \<Rightarrow> []))))"
    using stats_overhead [OF ok(2)] assms(2) True by (auto simp: sizes_known_def)
  have "d_count (ch_dims (var_ch e fv v)) \<noteq> 0" using ok(2) by (simp add: var_array_ok_def array_ok_def)
  then have "length (chars_bytes e fv infos v) = 5 + (1 + (3 + 24 * length (av_dimensions v))
      + length (transform_item_bytes e infos (var_transform e fv v)) + 5 + 1
      + length (concat (map (row_bytes e) (case av_stats v of Some rows \<Rightarrow> rows | None \<Rightarrow> []))))"
    using True by (simp add: chars_bytes_def set_bytes_def array_bytes_def) (simp add: var_ch_def length_dim_values)
  then show ?thesis
    using True assms(2) tr(1) st(1)
    by (simp add: adios_calc_var_characteristics_overhead_def Let_def sizes_known_def is_array_def tr(2) st(2) dims_overhead)
qed

lemma item_overhead_written: "item_overhead item = of_nat (length (item_bytes e item))"
  by (simp add: item_overhead_def item_bytes_def is_number_def)

lemma var_overhead_bytes:
  assumes "var_data_ok e fv infos v" and "sizes_known v"
  shows "adios_calc_var_overhead_v1 infos v = Some (of_nat (length (header_bytes e fv infos v)))"
proof -
  have "fold (\<lambda>d overhead. overhead + item_overhead (dm_dimension d) + item_overhead (dm_global_dimension d)
      + item_overhead (dm_local_offset d)) ds n = n + of_nat (length (concat (map (dim_bytes e) ds)))" for ds n
    by (induction ds arbitrary: n) (simp_all add: item_overhead_written [of _ e] dim_bytes_def add.assoc)
  then show ?thesis
    unfolding adios_calc_var_overhead_v1_def characteristics_overhead [OF assms]
    by (simp add: header_bytes_def header_body_def enc_string_def dims_bytes_def bytes_of_string_def)
qed

text \<open>
  C34. The size of a variable without its data, which \<open>adios_calc_var_overhead_v1\<close> computes in advance, is
  exactly the number of bytes that \<open>adios_write_var_header_v1\<close> writes: the names, the dimensions as
  numbers or as references, and the characteristics with their statistics, histograms and
  transform, for every type and machine. The headers are shorter than 65536 bytes, as the result
  has 16 bits.
\<close>

theorem var_overhead_exact:
  assumes "var_data_ok e fv infos v" and "sizes_known v" and "length (header_bytes e fv infos v) < 2 ^ 16"
    and "\<And>n. ok n"
  shows "\<exists>overhead. adios_calc_var_overhead_v1 infos v = Some overhead
    \<and> w_off (fd_w (snd (snd (adios_write_var_header_v1 e fv ok infos v fd)))) = w_off (fd_w fd) + unat overhead"
proof -
  obtain V where "emits V (header_bytes e fv infos v)"
    and "\<And>fd. adios_write_var_header_v1 e fv ok infos v fd =
      (of_nat (8 + length (header_body e fv infos v)) + payload_size e v,
       v\<lparr>av_write_offset := of_nat (w_off (fd_w fd)) + fd_base_offset fd\<rparr>,
       bytes_written (fd\<lparr>fd_w := V (fd_w fd), fd_vars_written := fd_vars_written fd + 1\<rparr>))"
    using var_header_written [of ok, OF assms(4,1)] by blast
  then show ?thesis using var_overhead_bytes [OF assms(1,2)] assms(3) by (simp add: emits_def)
qed


section \<open>Copies\<close>

lemma copy_stat_same:
  assumes "stat_ok type k d"
  shows "copy_stat type k d = Some d"
proof (cases d)
  case (Stat_Hist h)
  with assms hist_counts(3) [of h] show ?thesis by (simp add: copy_stat_def hist_ok_def)
qed (use assms in \<open>simp add: copy_stat_def\<close>)

lemma copy_row_loop:
  assumes "k \<le> 32" and "list_all2 (stat_ok type) (stat_bits bitmap k) ds"
    and "row = map Some (pre @ ds) @ rest" and "length new = length row"
    and "take (length pre) new = map Some pre" and "drop (length (pre @ ds)) new = rest"
  shows "copy_stats_row type bitmap row [k..<32] (length pre) new = Some row"
  using assms
proof (induction "32 - k" arbitrary: k ds pre new)
  case 0
  then have "ds = []" by (simp add: stat_bits_def)
  with 0 have "new = row" using append_take_drop_id [of "length pre" new] by simp
  with 0 show ?case by simp
next
  case (Suc m)
  then have k: "k < 32" "m = 32 - Suc k" by simp_all
  have l: "[k..<32] = k # [Suc k..<32]" using k(1) by (rule upt_conv_Cons)
  show ?case
  proof (cases "drop_bit k bitmap = 0")
    case True
    then have "ds = []" using Suc.prems(2) by (simp add: stat_bits_stop)
    with Suc.prems have "new = row" using append_take_drop_id [of "length pre" new] by simp
    with True show ?thesis by (simp add: l)
  next
    case nz: False
    show ?thesis
    proof (cases "bit bitmap k")
      case True
      then obtain d ds' where ds: "ds = d # ds'" "stat_ok type k d" "list_all2 (stat_ok type) (stat_bits bitmap (Suc k)) ds'"
        using Suc.prems(2) k(1) by (auto simp: stat_bits_rec list_all2_Cons1)
      have i: "length pre < length new" using Suc.prems(3,4) ds(1) by simp
      have "copy_stats_row type bitmap row [Suc k..<32] (length (pre @ [d])) (new[length pre := Some d]) = Some row"
      proof (rule Suc.hyps(1) [OF k(2), of ds'])
        show "take (length (pre @ [d])) (new[length pre := Some d]) = map Some (pre @ [d])"
          using Suc.prems(5) i by (simp add: take_Suc_conv_app_nth)
      qed (use Suc.prems k(1) ds in simp_all)
      moreover have "row ! length pre = Some d" "length pre < length row" using Suc.prems(3) ds(1) by (simp_all add: nth_append)
      ultimately show ?thesis using nz True copy_stat_same [OF ds(2)] by (simp add: l)
    next
      case False
      then show ?thesis
        using Suc.hyps(1) [OF k(2), of ds pre new] Suc.prems k(1) nz by (simp add: l stat_bits_rec)
    qed
  qed
qed

lemma copy_row_same:
  assumes "row_ok type bitmap row"
  shows "copy_stats_row type bitmap row [0..<32] 0 (replicate 7 None) = Some row"
proof -
  define rest :: "stat_data option list" where "rest = replicate (7 - length (row_data row)) None"
  have *: "row = map Some ([] @ row_data row) @ rest" "length (row_data row) \<le> 7" "list_all2 (stat_ok type) (stat_bits bitmap 0) (row_data row)"
    using assms by (simp_all add: row_ok_def rest_def)
  then have len: "length row = 7" by (metis add_diff_inverse_nat append_Nil length_append length_map length_replicate not_less rest_def)
  from copy_row_loop [OF _ *(3,1), of "replicate 7 None"] show ?thesis
    by (simp add: len rest_def drop_replicate del: upt_Suc)
qed

lemma all_some_map: "(\<forall>x \<in> set xs. f x = Some (g x)) \<Longrightarrow> all_some (map f xs) = Some (map g xs)"
  by (induction xs) auto

lemma copy_stats_same:
  assumes "list_all (row_ok type bitmap) rows" and "length rows = unat (adios_get_stat_set_count type)"
  shows "copy_stats type bitmap (Some rows) = Some rows"
proof -
  have "all_some (map (\<lambda>c. copy_stats_row type bitmap (if c < length rows then rows ! c else []) [0..<32] 0 (replicate 7 None))
      [0..<length rows]) = Some (map ((!) rows) [0..<length rows])"
    using assms(1) copy_row_same by (intro all_some_map) (auto simp: list_all_length simp del: upt_Suc)
  then show ?thesis by (simp only: copy_stats_def Let_def option.case assms(2) [symmetric] map_nth)
qed


text \<open>Dimensions that are numbers have a value without an error.\<close>

definition plain_item :: "adios_dimension_item_struct \<Rightarrow> bool" where
  "plain_item item \<longleftrightarrow> di_var item = None \<and> di_attr item = None"

definition plain_dims :: "adios_dimension_struct list \<Rightarrow> bool" where
  "plain_dims = list_all (\<lambda>d. plain_item (dm_dimension d) \<and> plain_item (dm_global_dimension d) \<and> plain_item (dm_local_offset d))"

lemma plain_value: "plain_item item \<Longrightarrow> fst (adios_get_dim_value e fv item) = None"
  by (simp add: plain_item_def adios_get_dim_value_def)

lemma dereferenced_plain: "plain_dims (snd (dereference_dimensions_var e fv dims))"
proof -
  have "plain_dims (snd (dereference_dims e fv ds))" for ds
    by (induction ds) (auto simp: plain_dims_def plain_item_def dereference_dimension_item_def split: prod.splits)
  then show ?thesis by (simp add: dereference_dimensions_var_def)
qed

lemma characteristic_no_error:
  assumes "plain_dims dims"
  shows "fst (adios_transform_dereference_dimensions_characteristic e fv dims) = None"
proof -
  have "fold (\<lambda>(err, _) old. case err of None \<Rightarrow> old | Some x \<Rightarrow> Some x) (map (adios_get_dim_value e fv) items) None = None"
    if "list_all plain_item items" for items
    using that by (induction items) (auto simp: plain_value split: prod.splits option.splits dest: plain_value [of _ e fv])
  moreover have "list_all plain_item (concat (map (\<lambda>d. [dm_dimension d, dm_global_dimension d, dm_local_offset d]) (take n dims)))" for n
    using assms by (auto simp: plain_dims_def list_all_iff dest: in_set_takeD)
  ultimately show ?thesis
    by (simp add: adios_transform_dereference_dimensions_characteristic_def Let_def del: map_map)
qed

lemma copy_transform_plain:
  assumes "plain_dims (av_pre_transform_dimensions v)"
    and "av_transform_metadata_len v \<noteq> 0 \<longrightarrow> (\<exists>md. av_transform_metadata v = Some md \<and> unat (av_transform_metadata_len v) \<le> length md)"
  shows "\<exists>tr. adios_transform_copy_transform_characteristic e fv v = Some (None, tr)"
  using characteristic_no_error [OF assms(1), of e fv] assms(2)
  by (auto simp: adios_transform_copy_transform_characteristic_def Let_def split: prod.splits)

text \<open>An array that was written: its copy, and the characteristic made of the copy.\<close>

lemma array_indexed:
  assumes "var_array_ok e fv infos v" and "is_array v"
  shows "\<exists>err new. copy_of_var e fv u (v\<lparr>av_data := None, av_write_offset := x\<rparr>) = Some (err, new)
    \<and> av_id new = av_id v \<and> av_name new = av_name v \<and> av_path new = av_path v \<and> av_type new = av_type v
    \<and> av_write_offset new = x \<and> av_data new = None
    \<and> (\<forall>ch. \<exists>rows tr dims. index_dims e fv new ch = Some (None, ch\<lparr>ch_bitmap := av_bitmap v, ch_stats := rows, ch_transform := tr,
          ch_dims := dims, ch_value := None\<rparr>))"
proof -
  let ?type = "adios_transform_get_var_original_type_var v"
  let ?w = "v\<lparr>av_data := None, av_write_offset := x\<rparr>"
  obtain rows where rows: "av_stats v = Some rows" "copy_stats ?type (av_bitmap v) (Some rows) = Some rows"
    using assms(1) copy_stats_same [of ?type "av_bitmap v"]
    by (auto simp: var_array_ok_def array_ok_def var_ch_def split: option.splits)
  have ty: "adios_transform_get_var_original_type_var ?w = ?type"
    by (simp add: adios_transform_get_var_original_type_var_def)
  have md: "av_transform_metadata_len v \<noteq> 0 \<longrightarrow>
      (\<exists>md. av_transform_metadata v = Some md \<and> unat (av_transform_metadata_len v) = length md)"
    using assms(1) by (auto simp: var_array_ok_def array_ok_def var_ch_def var_transform_def transform_ok_def zero_transform_def
        split: option.splits if_splits)
  obtain err1 pre where pre: "dereference_dimensions_var e fv (av_pre_transform_dimensions v) = (err1, pre)" by (rule prod.exhaust)
  obtain err2 dims where dims: "dereference_dimensions_var e fv (av_dimensions v) = (err2, dims)" by (rule prod.exhaust)
  obtain new0 where new0: "adios_transform_copy_var_transform e fv (adios_transform_init_transform_var (new_copy u ?w)) ?w = Some (err1, new0)"
    "av_id new0 = av_id v" "av_name new0 = av_name v" "av_path new0 = av_path v" "av_type new0 = av_type v"
    "av_write_offset new0 = x" "av_data new0 = None" "av_transform_type new0 = av_transform_type v"
    "av_pre_transform_type new0 = av_pre_transform_type v" "av_pre_transform_dimensions new0 = pre"
    "av_transform_metadata_len new0 = av_transform_metadata_len v"
    "av_transform_metadata_len v \<noteq> 0 \<longrightarrow> av_transform_metadata new0 = av_transform_metadata v"
    using md by (cases "av_transform_metadata v"; cases "av_transform_metadata_len v = 0")
      (auto simp: adios_transform_copy_var_transform_def pre adios_transform_init_transform_var_def new_copy_def)
  let ?new = "new0\<lparr>av_bitmap := av_bitmap v, av_stats := Some rows, av_dimensions := dims\<rparr>"
  have copy: "copy_of_var e fv u ?w = Some (last_error err1 err2, ?new)"
    using assms(2) rows dims by (simp add: copy_of_var_def Let_def is_array_def new0(1) ty)
  have plain: "plain_dims pre" "plain_dims dims"
    using dereferenced_plain [of e fv "av_pre_transform_dimensions v"] dereferenced_plain [of e fv "av_dimensions v"] pre dims by simp_all
  obtain tr where tr: "adios_transform_copy_transform_characteristic e fv ?new = Some (None, tr)"
    using copy_transform_plain [of ?new e fv] plain(1) md new0 by auto
  obtain d where d: "adios_transform_dereference_dimensions_characteristic e fv dims = (None, d)"
    using characteristic_no_error [OF plain(2), of e fv] by (metis prod.collapse)
  have ty': "adios_transform_get_var_original_type_var ?new = ?type"
    using new0 by (simp add: adios_transform_get_var_original_type_var_def)
  have "index_dims e fv ?new ch = Some (None, ch\<lparr>ch_bitmap := av_bitmap v, ch_stats := Some rows, ch_transform := tr,
      ch_dims := d, ch_value := None\<rparr>)" for ch
    using rows(2) by (simp add: index_dims_def ty' tr d last_error_def)
  with copy new0 show ?thesis by auto
qed


text \<open>
  A variable as it is after it has been written at an offset. Its size does not depend on the
  data and the offset.
\<close>

definition after_write :: "adios_var_struct \<Rightarrow> u64 \<Rightarrow> adios_var_struct" where
  "after_write v x = release_data (v\<lparr>av_write_offset := x\<rparr>)"

lemma overhead_after_write: "adios_calc_var_overhead_v1 infos (after_write v x) = adios_calc_var_overhead_v1 infos v"
proof -
  have "adios_calc_var_overhead_v1 infos (v\<lparr>av_write_offset := x, av_data := data\<rparr>) = adios_calc_var_overhead_v1 infos v" for data
  proof -
    let ?w = "v\<lparr>av_write_offset := x, av_data := data\<rparr>"
    have "adios_transform_get_var_original_type_var ?w = adios_transform_get_var_original_type_var v"
      by (simp add: adios_transform_get_var_original_type_var_def)
    moreover from this have "adios_calc_var_characteristics_stat_overhead ?w = adios_calc_var_characteristics_stat_overhead v"
      by (simp add: adios_calc_var_characteristics_stat_overhead_def del: upt_Suc)
    moreover have "adios_transform_calc_transform_characteristic_overhead infos ?w
        = adios_transform_calc_transform_characteristic_overhead infos v"
      by (simp add: adios_transform_calc_transform_characteristic_overhead_def calc_transform_uid_overhead_def)
    ultimately have "adios_calc_var_characteristics_overhead infos ?w = adios_calc_var_characteristics_overhead infos v"
      by (simp add: adios_calc_var_characteristics_overhead_def Let_def split: option.splits)
    then show ?thesis by (simp add: adios_calc_var_overhead_v1_def)
  qed
  from this [of None] this [of "av_data v"] show ?thesis by (simp add: after_write_def release_data_def)
qed

lemma after_write_path [simp]: "av_path (after_write v x) = av_path v"
  by (simp add: after_write_def release_data_def)

lemma value_indexed:
  assumes "var_data_ok e fv infos v" and "\<not> is_array v"
  shows "\<exists>new. copy_of_var e fv u (after_write v x) = Some (None, new)
    \<and> av_id new = av_id v \<and> av_name new = av_name v \<and> av_path new = av_path v \<and> av_type new = av_type v
    \<and> av_write_offset new = x \<and> av_dimensions new = []
    \<and> (\<exists>bs. av_data new = Some bs
        \<and> unat (adios_get_type_size (av_type v) (Some (string_of_bytes bs))) \<le> length bs)"
proof -
  have ty: "av_type v \<noteq> adios_unknown" "av_type v = adios_string \<or> av_dimensions v = []"
    using assms by (simp_all add: var_data_ok_def is_array_def)
  obtain data where data: "av_data v = Some data" "length data = unat (payload_size e v)"
    using assms(1) by (auto simp: var_data_ok_def split: option.splits)
  show ?thesis
  proof (cases "av_dimensions v = []")
    case True
    then have "length data = unat (adios_get_type_size (av_type v) (Some (string_of_bytes data)))"
      using data by (simp add: payload_size_def adios_get_var_size_def)
    then show ?thesis
      using True ty data(1) by (simp add: copy_of_var_def after_write_def release_data_def Let_def new_copy_def
          adios_transform_init_transform_var_def)
  next
    case False
    then show ?thesis
      using ty by (simp add: copy_of_var_def after_write_def release_data_def Let_def new_copy_def
          adios_transform_init_transform_var_def string_of_bytes_def)
  qed
qed

lemma written_indexed:
  assumes "var_data_ok e fv infos v" and "sizes_known v" and "length (header_bytes e fv infos v) < 2 ^ 16"
  shows "\<exists>err new. copy_of_var e fv u (after_write v x) = Some (err, new)
    \<and> av_id new = av_id v \<and> av_name new = av_name v \<and> av_path new = av_path v \<and> av_type new = av_type v
    \<and> av_write_offset new = x
    \<and> (\<forall>uninit subfile time. \<exists>ch. index_characteristic e fv infos uninit subfile time (after_write v x) new = Some (None, ch)
        \<and> ch_offset ch = x \<and> ch_payload_offset ch = x + of_nat (length (header_bytes e fv infos v))
        \<and> ch_file_index ch = subfile \<and> ch_time_index ch = time)"
proof -
  define overhead :: u16 where "overhead = of_nat (length (header_bytes e fv infos v))"
  have o: "adios_calc_var_overhead_v1 infos (after_write v x) = Some overhead"
    "(ucast overhead :: u64) = of_nat (length (header_bytes e fv infos v))"
    using var_overhead_bytes [OF assms(1,2)] assms(3)
    by (simp_all add: overhead_def overhead_after_write ucast_eq_of_nat)
  have ty: "av_type v \<noteq> adios_unknown" using assms(1) by (simp add: var_data_ok_def)
  show ?thesis
  proof (cases "is_array v")
    case True
    then have "after_write v x = v\<lparr>av_data := None, av_write_offset := x\<rparr>"
      by (cases v) (simp add: after_write_def release_data_def is_array_def)
    then obtain err new where new: "copy_of_var e fv u (after_write v x) = Some (err, new)"
      "av_id new = av_id v" "av_name new = av_name v" "av_path new = av_path v" "av_type new = av_type v"
      "av_write_offset new = x" "av_data new = None"
      and dims: "\<And>ch. \<exists>rows tr dims. index_dims e fv new ch = Some (None, ch\<lparr>ch_bitmap := av_bitmap v, ch_stats := rows,
          ch_transform := tr, ch_dims := dims, ch_value := None\<rparr>)"
      using array_indexed [of e fv infos v u x] assms(1) True by (auto simp: var_data_ok_def)
    have "\<exists>ch. index_characteristic e fv infos uninit subfile time (after_write v x) new = Some (None, ch)
        \<and> ch_offset ch = x \<and> ch_payload_offset ch = x + of_nat (length (header_bytes e fv infos v))
        \<and> ch_file_index ch = subfile \<and> ch_time_index ch = time" for uninit subfile time
    proof -
      define ch where "ch = uninit\<lparr>ch_offset := x, ch_payload_offset := x + of_nat (length (header_bytes e fv infos v)),
        ch_file_index := subfile, ch_time_index := time, ch_value := None, ch_dims := (ch_dims uninit)\<lparr>d_count := 0\<rparr>,
        ch_bitmap := 0, ch_stats := None, ch_transform := adios_transform_init_transform_characteristic\<rparr>"
      have "index_characteristic e fv infos uninit subfile time (after_write v x) new
          = (if av_dimensions new \<noteq> [] then index_dims e fv new ch else Some (None, ch))"
        using True by (simp add: index_characteristic_def o new Let_def ch_def is_array_def split: option.splits)
      with dims [of ch] show ?thesis by (auto simp: ch_def)
    qed
    with new show ?thesis by blast
  next
    case False
    then obtain new bs where new: "copy_of_var e fv u (after_write v x) = Some (None, new)"
      "av_id new = av_id v" "av_name new = av_name v" "av_path new = av_path v" "av_type new = av_type v"
      "av_write_offset new = x" "av_dimensions new = []" "av_data new = Some bs"
      "unat (adios_get_type_size (av_type v) (Some (string_of_bytes bs))) \<le> length bs"
      using value_indexed [of e fv infos v u x] assms(1) by auto
    then have "\<exists>ch. index_characteristic e fv infos uninit subfile time (after_write v x) new = Some (None, ch)
        \<and> ch_offset ch = x \<and> ch_payload_offset ch = x + of_nat (length (header_bytes e fv infos v))
        \<and> ch_file_index ch = subfile \<and> ch_time_index ch = time" for uninit subfile time
      using ty by (cases "av_type v = adios_string") (simp_all add: index_characteristic_def o index_value_def Let_def)
    with new show ?thesis by blast
  qed
qed


section \<open>Writes without errors\<close>

text \<open>Writers that report no error; memory is there.\<close>

definition quiet :: "(wst \<Rightarrow> wst) \<Rightarrow> bool" where
  "quiet W \<longleftrightarrow> (\<forall>s. w_errno (W s) = w_errno s)"

abbreviation room :: "nat \<Rightarrow> bool" where "room \<equiv> \<lambda>_. True"

lemma quiet_pipe: "list_all quiet fs \<Longrightarrow> quiet (pipe fs)"
  by (induction fs) (auto simp: quiet_def)

lemma quiet_fold: "(\<And>x. x \<in> set xs \<Longrightarrow> quiet (W x)) \<Longrightarrow> quiet (fold W xs)"
  by (induction xs) (auto simp: quiet_def)

lemma errno_writes [simp]:
  "w_errno (bw room d s) = w_errno s" "w_errno (bws room d s) = w_errno s" "w_errno (set_item room f s) = w_errno s"
  "w_errno (reserve n s) = w_errno s"
  by (simp_all add: bw_def bwi_def bws_def set_item_def buffer_write_def add_sizes_def Let_def reserve_def)

lemma errno_patch [simp]: "w_errno (patch room start ds s) = w_errno s"
  by (induction ds arbitrary: start s) (simp_all add: buffer_write_def)

lemma errno_str [simp]: "w_errno (snd (bw_str e room str p)) = w_errno (snd p)"
  by (simp add: bw_str_def Let_def split_beta)

lemma quiet_stats_row:
  assumes "k \<le> 32" and "list_all2 (stat_ok type) (stat_bits bitmap k) ds"
    and "take (length ds) (drop i row) = map Some ds"
  shows "quiet (write_stats_row e room type bitmap row i [k..<32])"
  using assms
proof (induction "32 - k" arbitrary: k ds i)
  case 0
  then show ?case by (simp add: quiet_def)
next
  case (Suc m)
  then have k: "k < 32" "m = 32 - Suc k" by simp_all
  have l: "[k..<32] = k # [Suc k..<32]" using k(1) by (rule upt_conv_Cons)
  show ?case
  proof (cases "drop_bit k bitmap = 0")
    case True
    then show ?thesis by (simp add: quiet_def l)
  next
    case nz: False
    show ?thesis
    proof (cases "bit bitmap k")
      case True
      then obtain d ds' where ds: "ds = d # ds'" "stat_ok type k d" "list_all2 (stat_ok type) (stat_bits bitmap (Suc k)) ds'"
        using Suc.prems(2) k(1) by (auto simp: stat_bits_rec list_all2_Cons1)
      have i: "i < length row" using Suc.prems(3) ds(1) by (cases "i < length row") simp_all
      have row: "row ! i = Some d" "take (length ds') (drop (i + 1) row) = map Some ds'"
        using Suc.prems(3) unfolding ds(1) Cons_nth_drop_Suc [OF i, symmetric] by simp_all
      have "quiet (write_stats_row e room type bitmap row (i + 1) [Suc k..<32])"
        using Suc.hyps(1) [OF k(2), of ds' "i + 1"] k(1) ds(3) row(2) by simp
      moreover have "quiet (write_hist e room h)" for h
        by (simp add: write_hist_def quiet_def)
      ultimately show ?thesis using nz True i row(1) ds(2)
        by (cases d) (simp_all add: l quiet_def)
    next
      case False
      then show ?thesis
        using Suc.hyps(1) [OF k(2), of ds i] Suc.prems k(1) nz by (simp add: l stat_bits_rec quiet_def)
    qed
  qed
qed

lemma quiet_stats:
  assumes "ch_stats ch = Some rows" and "length rows = unat (adios_get_stat_set_count type)"
    and "list_all (row_ok type (ch_bitmap ch)) rows"
  shows "quiet (write_stats e room type ch)"
proof -
  have "quiet (write_stats_row e room type (ch_bitmap ch) (rows ! c) 0 [0..<32])" if "c < length rows" for c
  proof -
    have ok: "row_ok type (ch_bitmap ch) (rows ! c)" using assms(3) that by (simp add: list_all_length)
    then have "take (length (row_data (rows ! c))) (drop 0 (rows ! c)) = map Some (row_data (rows ! c))"
      unfolding row_ok_def by (metis append_eq_conv_conj drop_0 length_map)
    with quiet_stats_row [of 0 type "ch_bitmap ch" "row_data (rows ! c)" 0 "rows ! c" e] ok show ?thesis
      by (simp add: row_ok_def del: upt_Suc)
  qed
  then have "quiet (fold (\<lambda>c. write_stats_row e room type (ch_bitmap ch) (if c < length rows then rows ! c else []) 0 [0..<32])
      [0..<length rows])"
    by (intro quiet_fold) (simp del: upt_Suc)
  then show ?thesis using assms(2) by (simp add: quiet_def write_stats_def assms(1) Let_def del: upt_Suc)
qed

text \<open>The values of the dimensions are found.\<close>

definition dims_known :: "endian \<Rightarrow> (ADIOS_DATATYPES \<Rightarrow> u8 list \<Rightarrow> u64) \<Rightarrow> adios_dimension_struct list \<Rightarrow> bool" where
  "dims_known e fv = list_all (\<lambda>d. list_all (\<lambda>item. fst (adios_get_dim_value e fv item) = None)
     [dm_dimension d, dm_global_dimension d, dm_local_offset d])"

lemma errno_dims:
  assumes "dims_known e fv dims"
  shows "w_errno (snd (adios_write_var_characteristics_dims_v1 e fv room dims s)) = w_errno s"
proof -
  have item: "quiet (write_dim_value e fv room item)" if "fst (adios_get_dim_value e fv item) = None" for item
    using that by (simp add: quiet_def write_dim_value_def report_def split_beta)
  have "quiet (fold (\<lambda>d. pipe [write_dim_value e fv room (dm_dimension d), write_dim_value e fv room (dm_global_dimension d),
      write_dim_value e fv room (dm_local_offset d)]) dims)"
    using assms item by (intro quiet_fold quiet_pipe) (auto simp: dims_known_def list_all_iff)
  then show ?thesis by (simp add: adios_write_var_characteristics_dims_v1_def Let_def quiet_def del: patch.simps)
qed

lemma errno_transform:
  assumes "plugins_ok infos" and "var_array_ok e fv infos v" and "dims_known e fv (av_pre_transform_dimensions v)"
  shows "w_errno (snd (snd (adios_transform_serialize_transform_var e fv room infos v s))) = w_errno s"
proof -
  have "dims_known e fv ds \<Longrightarrow> list_all (\<lambda>item. fst (adios_get_dim_value e fv item) = None)
      (concat (map (\<lambda>d. [dm_dimension d, dm_global_dimension d, dm_local_offset d]) ds))" for ds
    by (induction ds) (simp_all add: dims_known_def)
  moreover have "fold (\<lambda>(err, _) old. case err of None \<Rightarrow> old | Some x \<Rightarrow> Some x) (map (adios_get_dim_value e fv) items) None = None"
    if "list_all (\<lambda>item. fst (adios_get_dim_value e fv item) = None) items" for items
    using that by (induction items) (auto split: prod.splits)
  moreover have "dims_known e fv (take n (av_pre_transform_dimensions v))" for n
    using assms(3) by (auto simp: dims_known_def list_all_iff dest: in_set_takeD)
  ultimately obtain d where d: "adios_transform_dereference_dimensions_characteristic e fv (av_pre_transform_dimensions v) = (None, d)"
    by (simp add: adios_transform_dereference_dimensions_characteristic_def Let_def del: map_map)
  show ?thesis
  proof (cases "av_transform_type v = 0")
    case True
    then show ?thesis using assms(2)
      by (simp add: adios_transform_serialize_transform_var_def d adios_transform_serialize_transform_def report_def var_array_ok_def)
  next
    case False
    let ?tr = "var_transform e fv v"
    have ty: "tr_transform_type ?tr = av_transform_type v" using False by (simp add: var_transform_def)
    then have tr: "transform_ok infos ?tr"
      using assms(2) False by (auto simp: var_array_ok_def array_ok_def var_ch_def zero_transform_def)
    then obtain uid where "adios_transform_plugin_uid infos (uint (av_transform_type v)) = Some uid"
      using plugin_uid [OF assms(1), of "av_transform_type v"] ty by (auto simp: transform_ok_def)
    moreover have "\<not> (av_transform_metadata_len v \<noteq> 0 \<and> av_transform_metadata v = None)"
      using tr False by (auto simp: transform_ok_def var_transform_def)
    ultimately show ?thesis using False
      by (cases "av_transform_metadata v") (simp_all add: adios_transform_serialize_transform_var_def d report_def
          adios_transform_serialize_transform_def serialize_transform_type_def Let_def)
  qed
qed


definition sizes_found :: "endian \<Rightarrow> (ADIOS_DATATYPES \<Rightarrow> u8 list \<Rightarrow> u64) \<Rightarrow> adios_var_struct \<Rightarrow> bool" where
  "sizes_found e fv v \<longleftrightarrow> dims_known e fv (av_dimensions v) \<and> dims_known e fv (av_pre_transform_dimensions v)
     \<and> fst (adios_get_var_size e (av_type v) (av_dimensions v) (av_data v)) = None"

lemma errno_characteristics:
  assumes "var_data_ok e fv infos v" and "sizes_found e fv v"
  shows "w_errno (snd (adios_write_var_characteristics_v1 e fv room infos v s)) = w_errno s"
proof (cases "is_array v")
  case True
  let ?st = "zero_characteristic\<lparr>ch_bitmap := av_bitmap v, ch_stats := av_stats v\<rparr>"
  have a: "plugins_ok infos" "var_array_ok e fv infos v" using True assms(1) by (simp_all add: var_data_ok_def)
  obtain rows where rows: "ch_stats ?st = Some rows" "length rows = unat (adios_get_stat_set_count (adios_transform_get_var_original_type_var v))"
    "list_all (row_ok (adios_transform_get_var_original_type_var v) (ch_bitmap ?st)) rows"
    using a(2) by (auto simp: var_array_ok_def array_ok_def var_ch_def split: option.splits)
  have "w_errno (write_array_items e fv room infos v s) = w_errno s" for s
    using errno_dims [of e fv "av_dimensions v"] errno_transform [OF a, of] quiet_stats [OF rows] assms(2)
    by (simp add: write_array_items_def sizes_found_def quiet_def split_beta Let_def)
  then show ?thesis by (simp add: adios_write_var_characteristics_v1_def Let_def del: patch.simps)
next
  case False
  then show ?thesis by (auto simp: adios_write_var_characteristics_v1_def is_array_def Let_def simp del: patch.simps)
qed

lemma errno_dimensions: "w_errno (snd (adios_write_dimensions_v1 e room dims s)) = w_errno s"
proof -
  have item: "w_errno (snd (write_dimension_item e room item p)) = w_errno (snd p)" for item p
    by (simp add: write_dimension_item_def split_beta)
  have "w_errno (snd (fold (\<lambda>d (sz, s). let (n, s') = adios_write_dimension_v1 e room d s in (ucast (ucast sz + n), s'))
      dims p)) = w_errno (snd p)" for p :: "u16 \<times> wst"
    by (induction dims arbitrary: p) (simp_all add: split_beta Let_def adios_write_dimension_v1_def item)
  then show ?thesis by (simp add: adios_write_dimensions_v1_def)
qed

lemma errno_buffer_var:
  assumes "var_data_ok e fv infos v" and "sizes_found e fv v"
  shows "w_errno (fd_w (buffer_var e fv room infos v fd)) = w_errno (fd_w fd)"
proof -
  obtain n where size: "adios_get_var_size e (av_type v) (av_dimensions v) (av_data v) = (None, n)"
    using assms(2) by (metis sizes_found_def prod.collapse)
  then obtain data where data: "av_data v = Some data" "length data = unat n"
    using assms(1) by (auto simp: var_data_ok_def payload_size_def split: option.splits)
  obtain v' fd' n' where h: "adios_write_var_header_v1 e fv room infos v fd = (n', v', fd')" by (metis prod.collapse)
  have "w_errno (fd_w (snd (snd (adios_write_var_header_v1 e fv room infos v fd)))) = w_errno (fd_w fd)"
    using errno_characteristics [OF assms] errno_dimensions
    by (simp add: adios_write_var_header_v1_def split_beta Let_def size report_def del: patch.simps)
  moreover have "v' = v\<lparr>av_write_offset := of_nat (w_off (fd_w fd)) + fd_base_offset fd\<rparr>"
    using h by (auto simp: adios_write_var_header_v1_def split_beta Let_def)
  ultimately show ?thesis
    using size data by (simp add: buffer_var_def h adios_write_var_payload_v1_def report_def)
qed

section \<open>A run of writes\<close>

text \<open>The variable that a write of the bytes \<open>var\<close> is for, with its data and statistics.\<close>

definition var_to_write ::
  "(adios_var_struct \<Rightarrow> adios_var_struct) \<Rightarrow> adios_write_group \<Rightarrow> nat \<times> u8 list \<Rightarrow> adios_var_struct" where
  "var_to_write stats g = (\<lambda>(i, var).
     let v = g_vars g ! i
     in stats (v\<lparr>av_data := Some (if av_dimensions v \<noteq> [] then var
          else take (unat (adios_get_type_size (av_type v) (Some (string_of_bytes var)))) var)\<rparr>))"

text \<open>
  A write that is as it should be: the statistics keep the name, there are enough bytes, and the
  sizes are known and fit their places.
\<close>

definition writable ::
  "endian \<Rightarrow> (ADIOS_DATATYPES \<Rightarrow> u8 list \<Rightarrow> u64) \<Rightarrow> plugin_infos \<Rightarrow> (adios_var_struct \<Rightarrow> adios_var_struct)
    \<Rightarrow> adios_write_group \<Rightarrow> nat \<times> u8 list \<Rightarrow> bool" where
  "writable e fv infos stats g w \<longleftrightarrow>
     (let v = g_vars g ! fst w; x = var_to_write stats g w in
      fst w < length (g_vars g) \<and> av_type v \<noteq> adios_unknown
      \<and> unat (adios_get_type_size (av_type v) (Some (string_of_bytes (snd w)))) \<le> length (snd w)
      \<and> av_name x = av_name v \<and> av_path x = av_path v
      \<and> var_data_ok e fv infos x \<and> sizes_found e fv x \<and> sizes_known x \<and> length (header_bytes e fv infos x) < 2 ^ 16)"

definition bytes_at :: "(nat \<Rightarrow> u8) \<Rightarrow> nat \<Rightarrow> u8 list \<Rightarrow> bool" where
  "bytes_at mem off bs \<longleftrightarrow> (\<forall>k < length bs. mem (off + k) = bs ! k)"

lemma bytes_at_put: "bytes_at (put_bytes off bs mem) off bs"
  by (simp add: bytes_at_def put_bytes_def)

lemma bytes_at_append: "bytes_at mem off (a @ b) \<longleftrightarrow> bytes_at mem off a \<and> bytes_at mem (off + length a) b"
proof
  assume *: "bytes_at mem off (a @ b)"
  have "mem (off + k) = a ! k" if "k < length a" for k
    using * that unfolding bytes_at_def by (metis length_append nth_append trans_less_add1)
  moreover have "mem (off + length a + k) = b ! k" if "k < length b" for k
    using * that unfolding bytes_at_def by (metis add.assoc length_append nat_add_left_cancel_less nth_append_length_plus)
  ultimately show "bytes_at mem off a \<and> bytes_at mem (off + length a) b" by (simp add: bytes_at_def)
next
  assume *: "bytes_at mem off a \<and> bytes_at mem (off + length a) b"
  show "bytes_at mem off (a @ b)" unfolding bytes_at_def
  proof (intro allI impI)
    fix k assume k: "k < length (a @ b)"
    show "mem (off + k) = (a @ b) ! k"
    proof (cases "k < length a")
      case False
      then have "k - length a < length b" using k by simp
      with * have "mem (off + length a + (k - length a)) = b ! (k - length a)" unfolding bytes_at_def by blast
      moreover have "off + length a + (k - length a) = off + k" using False by simp
      ultimately show ?thesis using False by (simp only: nth_append if_False)
    qed (use * in \<open>simp add: bytes_at_def nth_append\<close>)
  qed
qed

lemma bytes_at_same: "bytes_at mem off bs \<Longrightarrow> (\<And>k. k < off + length bs \<Longrightarrow> mem' k = mem k) \<Longrightarrow> bytes_at mem' off bs"
  by (simp add: bytes_at_def)

abbreviation null_method :: "adios_write_group \<Rightarrow> bool" where
  "null_method g \<equiv> list_all (\<lambda>(m, _). m = -1) (g_methods g) \<and> length (g_methods g) = 1"

lemma write_step:
  fixes fd :: adios_file_struct
  assumes "\<And>n. ok n" and "writable e fv infos stats g w" and "\<not> null_method g"
  defines "v \<equiv> var_to_write stats g w" and "x \<equiv> of_nat (w_off (fd_w fd)) + fd_base_offset fd"
  obtains fd' err new where
    "common_adios_write_byid e fv ok infos stats u (fst w) (snd w) (g, fd)
      = Some (g\<lparr>g_vars := (g_vars g)[fst w := after_write v x], g_vars_written := g_vars_written g @ [(fst w, new)]\<rparr>, fd')"
    and "copy_of_var e fv u (after_write v x) = Some (err, new)"
    and "w_mem (fd_w fd') = put_bytes (w_off (fd_w fd)) (data_bytes e fv infos v) (w_mem (fd_w fd))"
    and "w_off (fd_w fd') = w_off (fd_w fd) + length (data_bytes e fv infos v)"
    and "fd_base_offset fd' = fd_base_offset fd"
proof -
  let ?i = "fst w" and ?var = "snd w" and ?v0 = "g_vars g ! fst w"
  have w: "?i < length (g_vars g)" "av_type ?v0 \<noteq> adios_unknown"
    "unat (adios_get_type_size (av_type ?v0) (Some (string_of_bytes ?var))) \<le> length ?var" "var_data_ok e fv infos v"
    "sizes_known v" "length (header_bytes e fv infos v) < 2 ^ 16" "sizes_found e fv v"
    using assms(2) by (simp_all add: writable_def Let_def v_def)
  have ok: "ok = room" using assms(1) by (simp add: fun_eq_iff)
  define fd0 where "fd0 = fd\<lparr>fd_w := (fd_w fd)\<lparr>w_errno := None\<rparr>\<rparr>"
  obtain V where V: "\<And>fd. adios_write_var_header_v1 e fv ok infos v fd =
      (of_nat (8 + length (header_body e fv infos v)) + payload_size e v,
       v\<lparr>av_write_offset := of_nat (w_off (fd_w fd)) + fd_base_offset fd\<rparr>,
       bytes_written (fd\<lparr>fd_w := V (fd_w fd), fd_vars_written := fd_vars_written fd + 1\<rparr>))"
    using var_header_written [of ok, OF assms(1) w(4)] by blast
  define fd2 where "fd2 = buffer_var e fv ok infos v fd0"
  have v: "stats (?v0\<lparr>av_data := (if av_dimensions ?v0 \<noteq> [] then Some ?var else if av_type ?v0 = adios_unknown then None
      else Some (take (unat (adios_get_type_size (av_type ?v0) (Some (string_of_bytes ?var)))) ?var))\<rparr>) = v"
    using w(2) by (simp add: v_def var_to_write_def Let_def split_beta if_distrib [of Some])
  let ?g1 = "g\<lparr>g_vars := (g_vars g)[?i := after_write v x]\<rparr>"
  have byid: "common_adios_write_byid e fv ok infos stats u ?i ?var (g, fd)
      = (if w_errno (fd_w fd2) \<noteq> None then Some (?g1, fd2)
         else map_option (\<lambda>(err, g). (g, fd2\<lparr>fd_w := report err (fd_w fd2)\<rparr>)) (adios_copy_var_written e fv u ?i ?g1))"
    using assms(3) w(1,3) by (cases "length (g_methods g) = 1")
      (simp_all add: common_adios_write_byid_def fd0_def x_def v V fd2_def buffer_var_def after_write_def Let_def)
  obtain err new where new: "copy_of_var e fv u (after_write v x) = Some (err, new)"
    using written_indexed [OF w(4-6)] by blast
  then have copy: "adios_copy_var_written e fv u ?i ?g1
      = Some (err, ?g1\<lparr>g_vars_written := g_vars_written g @ [(?i, new)]\<rparr>)"
    using w(1) by (simp add: adios_copy_var_written_def)
  have "w_errno (fd_w fd2) = None"
    using errno_buffer_var [OF w(4,7)] by (simp add: fd2_def fd0_def ok)
  with byid copy have res: "common_adios_write_byid e fv ok infos stats u ?i ?var (g, fd)
      = Some (?g1\<lparr>g_vars_written := g_vars_written g @ [(?i, new)]\<rparr>, fd2\<lparr>fd_w := report err (fd_w fd2)\<rparr>)" by simp
  have rep: "w_mem (report err s) = w_mem s" "w_off (report err s) = w_off s" for s by (simp_all add: report_def split: option.splits)
  note fills = fills_var [of ok, OF assms(1) w(4), unfolded fills_def, rule_format, of fd0]
  have "fd_base_offset (bytes_written fd) = fd_base_offset fd" for fd by (simp add: bytes_written_def)
  then have "fd_base_offset fd2 = fd_base_offset fd"
    by (simp add: fd2_def buffer_var_def V adios_write_var_payload_v1_def split_beta Let_def) (simp add: fd0_def)
  then have "fd_base_offset (fd2\<lparr>fd_w := report err (fd_w fd2)\<rparr>) = fd_base_offset fd" by simp
  moreover have "w_mem (fd_w (fd2\<lparr>fd_w := report err (fd_w fd2)\<rparr>)) = put_bytes (w_off (fd_w fd)) (data_bytes e fv infos v) (w_mem (fd_w fd))"
    "w_off (fd_w (fd2\<lparr>fd_w := report err (fd_w fd2)\<rparr>)) = w_off (fd_w fd) + length (data_bytes e fv infos v)"
    using fills by (simp_all add: rep fd2_def) (simp_all add: fd0_def)
  ultimately show thesis using that [OF res new] by blast
qed


abbreviation write_all ::
  "endian \<Rightarrow> (ADIOS_DATATYPES \<Rightarrow> u8 list \<Rightarrow> u64) \<Rightarrow> (nat \<Rightarrow> bool) \<Rightarrow> plugin_infos
    \<Rightarrow> (adios_var_struct \<Rightarrow> adios_var_struct) \<Rightarrow> u32 \<Rightarrow> (nat \<times> u8 list) list
    \<Rightarrow> adios_write_group \<times> adios_file_struct \<Rightarrow> (adios_write_group \<times> adios_file_struct) option" where
  "write_all e fv ok infos stats u \<equiv> fold_opt (\<lambda>w. common_adios_write_byid e fv ok infos stats u (fst w) (snd w))"

text \<open>
  A written variable in the end: its bytes are at some offset, and both the variable and its copy
  have this offset.
\<close>

definition recorded ::
  "endian \<Rightarrow> (ADIOS_DATATYPES \<Rightarrow> u8 list \<Rightarrow> u64) \<Rightarrow> plugin_infos \<Rightarrow> u32 \<Rightarrow> nat \<Rightarrow> adios_write_group \<Rightarrow> adios_file_struct
    \<Rightarrow> nat \<times> adios_var_struct \<Rightarrow> nat \<times> adios_var_struct \<Rightarrow> bool" where
  "recorded e fv infos u start g fd = (\<lambda>(i, v) (j, new).
     j = i \<and> (\<exists>off err. start \<le> off \<and> off + length (data_bytes e fv infos v) \<le> w_off (fd_w fd)
       \<and> bytes_at (w_mem (fd_w fd)) off (data_bytes e fv infos v)
       \<and> g_vars g ! i = after_write v (of_nat off + fd_base_offset fd)
       \<and> copy_of_var e fv u (after_write v (of_nat off + fd_base_offset fd)) = Some (err, new)))"

abbreviation jobs where
  "jobs stats g ws \<equiv> map (\<lambda>w. (fst w, var_to_write stats g w)) ws"

lemma writes_run:
  assumes "\<And>n. ok n" and "list_all (writable e fv infos stats g) ws" and "distinct (map fst ws)" and "\<not> null_method g"
  shows "\<exists>g' fd' xs. write_all e fv ok infos stats u ws (g, fd) = Some (g', fd')
    \<and> list_all2 (recorded e fv infos u (w_off (fd_w fd)) g' fd') (jobs stats g ws) xs
    \<and> g' = g\<lparr>g_vars := g_vars g', g_vars_written := g_vars_written g @ xs\<rparr> \<and> length (g_vars g') = length (g_vars g)
    \<and> (\<forall>i. i \<notin> fst ` set ws \<longrightarrow> g_vars g' ! i = g_vars g ! i)
    \<and> (\<forall>k < w_off (fd_w fd). w_mem (fd_w fd') k = w_mem (fd_w fd) k)
    \<and> w_off (fd_w fd') = w_off (fd_w fd) + (\<Sum>w\<leftarrow>ws. length (data_bytes e fv infos (var_to_write stats g w)))
    \<and> fd_base_offset fd' = fd_base_offset fd"
  using assms(2-)
proof (induction ws arbitrary: g fd)
  case Nil
  show ?case by (intro exI [of _ g] exI [of _ fd] exI [of _ "[]"]) simp
next
  case (Cons w ws)
  let ?v = "var_to_write stats g w" and ?o = "w_off (fd_w fd)" and ?base = "fd_base_offset fd"
  have "writable e fv infos stats g w" using Cons.prems(1) by simp
  from write_step [of ok e fv infos stats g w u fd, OF assms(1) this Cons.prems(3)] obtain fd1 err new where
    1: "common_adios_write_byid e fv ok infos stats u (fst w) (snd w) (g, fd)
      = Some (g\<lparr>g_vars := (g_vars g)[fst w := after_write ?v (of_nat ?o + ?base)],
          g_vars_written := g_vars_written g @ [(fst w, new)]\<rparr>, fd1)"
    and new: "copy_of_var e fv u (after_write ?v (of_nat ?o + ?base)) = Some (err, new)"
    and fd1: "w_mem (fd_w fd1) = put_bytes ?o (data_bytes e fv infos ?v) (w_mem (fd_w fd))"
      "w_off (fd_w fd1) = ?o + length (data_bytes e fv infos ?v)" "fd_base_offset fd1 = ?base" by blast
  define g1 where "g1 = g\<lparr>g_vars := (g_vars g)[fst w := after_write ?v (of_nat ?o + ?base)],
      g_vars_written := g_vars_written g @ [(fst w, new)]\<rparr>"
  have notin: "fst w \<notin> fst ` set ws" "distinct (map fst ws)" using Cons.prems(2) by auto
  have vars: "g_vars g1 ! i = g_vars g ! i" if "i \<noteq> fst w" for i using that by (simp add: g1_def)
  have jobs: "var_to_write stats g1 x = var_to_write stats g x" if "x \<in> set ws" for x
  proof -
    have "fst x \<noteq> fst w" using that notin(1) by (metis image_eqI)
    then show ?thesis by (cases x) (simp add: var_to_write_def vars)
  qed
  have "writable e fv infos stats g1 x" if "x \<in> set ws" for x
  proof -
    have "fst x \<noteq> fst w" using that notin(1) by (metis image_eqI)
    moreover have "writable e fv infos stats g x" using that Cons.prems(1) by (auto simp: list_all_iff)
    ultimately show ?thesis by (simp add: writable_def jobs [OF that] vars) (simp add: g1_def)
  qed
  then have wr: "list_all (writable e fv infos stats g1) ws" by (simp add: list_all_iff)
  have "\<not> null_method g1" using Cons.prems(3) by (simp add: g1_def)
  from Cons.IH [OF wr notin(2) this, of fd1] obtain g' fd' xs where run: "write_all e fv ok infos stats u ws (g1, fd1) = Some (g', fd')" and
    IH: "list_all2 (recorded e fv infos u (w_off (fd_w fd1)) g' fd') (jobs stats g1 ws) xs"
      "g' = g1\<lparr>g_vars := g_vars g', g_vars_written := g_vars_written g1 @ xs\<rparr>" "length (g_vars g') = length (g_vars g1)"
      "\<forall>i. i \<notin> fst ` set ws \<longrightarrow> g_vars g' ! i = g_vars g1 ! i"
      "\<forall>k < w_off (fd_w fd1). w_mem (fd_w fd') k = w_mem (fd_w fd1) k"
      "w_off (fd_w fd') = w_off (fd_w fd1) + (\<Sum>w\<leftarrow>ws. length (data_bytes e fv infos (var_to_write stats g1 w)))"
      "fd_base_offset fd' = fd_base_offset fd1"
    by blast
  have sum: "(\<Sum>w\<leftarrow>ws. length (data_bytes e fv infos (var_to_write stats g1 w)))
      = (\<Sum>w\<leftarrow>ws. length (data_bytes e fv infos (var_to_write stats g w)))"
    using jobs by (intro arg_cong [of _ _ sum_list] map_cong) auto
  have "recorded e fv infos u ?o g' fd' (fst w, ?v) (fst w, new)"
  proof -
    have "bytes_at (w_mem (fd_w fd')) ?o (data_bytes e fv infos ?v)"
      using IH(5) fd1(1,2) by (intro bytes_at_same [OF bytes_at_put]) auto
    moreover have "g_vars g' ! fst w = after_write ?v (of_nat ?o + fd_base_offset fd')"
      using IH(4,7) notin(1) Cons.prems(1) fd1(3) by (simp add: g1_def writable_def Let_def)
    ultimately show ?thesis
      using new IH(6,7) fd1(2,3) unfolding recorded_def by (auto intro!: exI [of _ ?o])
  qed
  moreover have "recorded e fv infos u ?o g' fd' a b" if "recorded e fv infos u (w_off (fd_w fd1)) g' fd' a b" for a b
    using that le_trans [OF le_add1 [of ?o "length (data_bytes e fv infos ?v)"]]
    unfolding recorded_def fd1(2) split_beta by blast
  then have "list_all2 (recorded e fv infos u ?o g' fd') (jobs stats g ws) xs"
    using IH(1) jobs by (auto elim!: list_all2_mono cong: map_cong)
  ultimately have "list_all2 (recorded e fv infos u ?o g' fd') (jobs stats g (w # ws)) ((fst w, new) # xs)" by simp
  moreover have "g' = g\<lparr>g_vars := g_vars g', g_vars_written := g_vars_written g @ (fst w, new) # xs\<rparr>"
    using IH(2) by (simp add: g1_def)
  moreover have "\<forall>k < ?o. w_mem (fd_w fd') k = w_mem (fd_w fd) k" using IH(5) fd1(1,2) by (simp add: put_bytes_def)
  moreover have "write_all e fv ok infos stats u (w # ws) (g, fd) = Some (g', fd')" using 1 run by (simp add: g1_def)
  moreover have "length (g_vars g') = length (g_vars g)" using IH(3) by (simp add: g1_def)
  moreover have "\<forall>i. i \<notin> fst ` set (w # ws) \<longrightarrow> g_vars g' ! i = g_vars g ! i" using IH(4) vars by simp
  moreover have "w_off (fd_w fd') = ?o + (\<Sum>w\<leftarrow>w # ws. length (data_bytes e fv infos (var_to_write stats g w)))"
    "fd_base_offset fd' = ?base" using IH(6,7) fd1(2,3) sum by simp_all
  ultimately show ?case by blast
qed

section \<open>The index of a run of writes\<close>

definition written_key :: "adios_write_group \<Rightarrow> nat \<times> u8 list \<Rightarrow> cstring" where
  "written_key g w = genkey (Some (av_path (g_vars g ! fst w))) (av_name (g_vars g ! fst w))"

text \<open>A characteristic that points at the header and at the data of a variable in the buffer.\<close>

definition located ::
  "endian \<Rightarrow> (ADIOS_DATATYPES \<Rightarrow> u8 list \<Rightarrow> u64) \<Rightarrow> plugin_infos \<Rightarrow> adios_file_struct \<Rightarrow> adios_var_struct
    \<Rightarrow> adios_index_characteristic_struct_v1 \<Rightarrow> bool" where
  "located e fv infos fd v ch \<longleftrightarrow>
     (\<exists>off. let payload = off + length (header_bytes e fv infos v) in
       ch_offset ch = of_nat off + fd_base_offset fd \<and> bytes_at (w_mem (fd_w fd)) off (header_bytes e fv infos v)
       \<and> ch_payload_offset ch = of_nat payload + fd_base_offset fd \<and> bytes_at (w_mem (fd_w fd)) payload (the (av_data v))
       \<and> payload + length (the (av_data v)) \<le> w_off (fd_w fd))"

definition indexed ::
  "endian \<Rightarrow> (ADIOS_DATATYPES \<Rightarrow> u8 list \<Rightarrow> u64) \<Rightarrow> plugin_infos \<Rightarrow> adios_file_struct \<Rightarrow> u32 \<Rightarrow> u32 \<Rightarrow> cstring
    \<Rightarrow> adios_var_struct \<Rightarrow> adios_index_var_struct_v1 \<Rightarrow> bool" where
  "indexed e fv infos fd subfile time grp v item \<longleftrightarrow>
     (\<exists>ch. located e fv infos fd v ch \<and> ch_file_index ch = subfile \<and> ch_time_index ch = time
       \<and> v_characteristics item = [ch] \<and> good_var item \<and> v_group_name item = grp
       \<and> var_key item = genkey (Some (av_path v)) (av_name v))"

lemma build_vars_fold:
  "list_all2 (\<lambda>x item. \<forall>s. build_var e fv ok b infos uninit subfile g x s = index_append_var_v1 e ok b item s) xs items
   \<Longrightarrow> fold_opt (build_var e fv ok b infos uninit subfile g) xs s = fold_opt (index_append_var_v1 e ok b) items s"
proof (induction xs items arbitrary: s rule: list_all2_induct)
  case (Cons x xs item items)
  show ?case unfolding fold_opt.simps Cons.hyps(1) [rule_format] Cons.IH by (simp split: option.splits)
qed simp

lemma recorded_indexed:
  assumes "recorded e fv infos u start g fd (i, v) x"
    and "var_data_ok e fv infos v" "sizes_known v" "length (header_bytes e fv infos v) < 2 ^ 16"
    and "0 < start" "w_off (fd_w fd) + unat (fd_base_offset fd) < 2 ^ 64" "i < length (g_vars g)"
  shows "\<exists>item. (\<forall>s. build_var e fv ok b infos uninit subfile g x s = index_append_var_v1 e ok b item s)
    \<and> indexed e fv infos fd subfile (g_time_index g) (g_name g) v item"
proof -
  obtain new off err where x: "x = (i, new)" and off: "start \<le> off" "off + length (data_bytes e fv infos v) \<le> w_off (fd_w fd)"
    "bytes_at (w_mem (fd_w fd)) off (data_bytes e fv infos v)" "g_vars g ! i = after_write v (of_nat off + fd_base_offset fd)"
    "copy_of_var e fv u (after_write v (of_nat off + fd_base_offset fd)) = Some (err, new)"
    using assms(1) by (auto simp: recorded_def split: prod.splits)
  define y where "y = of_nat off + fd_base_offset fd"
  have "unat (of_nat off :: u64) = off" using off(2) assms(6) by (intro unat_of_nat_small) simp
  then have "unat y = off + unat (fd_base_offset fd)"
    unfolding y_def using off(2) assms(6) by (subst unat_add_no_wrap) simp_all
  then have "y \<noteq> 0" using off(1) assms(5) by auto
  obtain ch where new: "av_name new = av_name v" "av_path new = av_path v" "av_write_offset new = y"
    and ch: "index_characteristic e fv infos uninit subfile (g_time_index g) (after_write v y) new = Some (None, ch)"
      "ch_offset ch = y" "ch_payload_offset ch = y + of_nat (length (header_bytes e fv infos v))"
      "ch_file_index ch = subfile" "ch_time_index ch = g_time_index g"
    using written_indexed [OF assms(2-4), of u y] off(5) unfolding y_def [symmetric] by fastforce
  have "located e fv infos fd v ch"
    unfolding located_def Let_def ch(2,3) using off(2,3)
    by (intro exI [of _ off]) (simp add: data_bytes_def bytes_at_append y_def add.assoc)
  moreover have "build_var e fv ok b infos uninit subfile g x s = index_append_var_v1 e ok b (index_item g new ch) s" for s
    using \<open>y \<noteq> 0\<close> off(4) assms(7) ch(1) new(3) by (simp add: build_var_def x y_def [symmetric] last_error_def)
  ultimately show ?thesis
    using ch(4,5) new by (intro exI [of _ "index_item g new ch"])
      (simp add: indexed_def index_item_def good_var_def var_key_def)
qed

lemma indexed_chars:
  assumes "list_all2 (indexed e fv infos fd subfile time grp) vs items"
  shows "list_all2 (\<lambda>v ch. located e fv infos fd v ch \<and> ch_file_index ch = subfile \<and> ch_time_index ch = time)
    (filter (\<lambda>v. genkey (Some (av_path v)) (av_name v) = k) vs) (var_chars items k)"
  using assms
proof (induction rule: list_all2_induct)
  case (Cons v vs item items)
  obtain ch where "located e fv infos fd v ch" "ch_file_index ch = subfile" "ch_time_index ch = time"
    "v_characteristics item = [ch]" "var_key item = genkey (Some (av_path v)) (av_name v)"
    using Cons.hyps(1) unfolding indexed_def by blast
  with Cons.IH show ?case by (simp add: var_chars_def)
qed (simp add: var_chars_def)

lemma build_attributes:
  assumes "\<forall>a \<in> set as. aa_write_offset a \<noteq> 0 \<longrightarrow> build_attr g subfile a \<noteq> None"
  shows "\<exists>attrs. fold_opt (build_attribute (\<lambda>_. True) subfile g) as s = Some (s\<lparr>ms_index := (ms_index s)\<lparr>ix_attrs_root := attrs\<rparr>\<rparr>)"
  using assms
proof (induction as arbitrary: s)
  case Nil
  show ?case by (intro exI [of _ "ix_attrs_root (ms_index s)"]) simp
next
  case (Cons a as)
  obtain attrs where 1: "build_attribute (\<lambda>_. True) subfile g a s = Some (s\<lparr>ms_index := (ms_index s)\<lparr>ix_attrs_root := attrs\<rparr>\<rparr>)"
  proof (cases "aa_write_offset a = 0")
    case True
    then show thesis by (intro that [of "ix_attrs_root (ms_index s)"]) (simp add: build_attribute_def)
  next
    case False
    with Cons.prems obtain item where "build_attr g subfile a = Some item" by auto
    with False show thesis
      by (intro that [of "attr_index.add (ix_attrs_root (ms_index s)) item"]) (simp add: build_attribute_def append_attribute last_error_def)
  qed
  let ?s = "s\<lparr>ms_index := (ms_index s)\<lparr>ix_attrs_root := attrs\<rparr>\<rparr>"
  obtain attrs' where "fold_opt (build_attribute (\<lambda>_. True) subfile g) as ?s = Some (?s\<lparr>ms_index := (ms_index ?s)\<lparr>ix_attrs_root := attrs'\<rparr>\<rparr>)"
    using Cons.IH [of ?s] Cons.prems by auto
  with 1 show ?case by (intro exI [of _ attrs']) simp
qed


lemma list_all2_choose:
  "list_all2 (\<lambda>x y. \<exists>z. P y z \<and> Q x z) xs ys \<Longrightarrow> \<exists>zs. list_all2 P ys zs \<and> list_all2 Q xs zs"
proof (induction rule: list_all2_induct)
  case (Cons x xs y ys)
  then obtain z zs where "P y z" "Q x z" "list_all2 P ys zs" "list_all2 Q xs zs" by blast
  then show ?case by (intro exI [of _ "z # zs"]) simp
qed simp

text \<open>
  C11. The index that a process builds of what it has written. Any writes of different variables
  succeed and leave the header and the data of each in the buffer; then \<open>adios_build_index_v1\<close> succeeds, adds the process group, and
  adds for each write one characteristic under the full path of its variable, in the order of the
  writes and behind those the index has: its offset is the place in the file of the header that is
  in the buffer, its payload offset, which is computed from the variable alone, is the place of its
  data, and its time and file are those of the group.
\<close>

theorem built_index_locates_data:
  assumes "\<And>n. ok n" and "list_all (writable e fv infos stats g0) ws" and "distinct (map fst ws)" and "\<not> null_method g0"
    and recorded: "g_vars_written g0 = []"
    and space: "0 < w_off (fd_w fd0)" "w_off (fd_w fd0) + (\<Sum>w\<leftarrow>ws. length (data_bytes e fv infos (var_to_write stats g0 w)))
      + unat (fd_base_offset fd0) < 2 ^ 64"
    and index: "merge_inv e group_of s" "\<forall>w \<in> set ws. group_of (written_key g0 w) = g_name g0"
      "\<And>k. length (var_chars (ix_vars_root (ms_index s)) k) + length ws < 2 ^ 64"
    and attributes: "\<forall>a \<in> set (g_attributes g0). aa_write_offset a \<noteq> 0 \<longrightarrow> build_attr g0 subfile a \<noteq> None"
  shows "\<exists>g fd s' pg. write_all e fv ok infos stats u ws (g0, fd0) = Some (g, fd)
    \<and> adios_build_index_v1 e fv ok True infos uninit pg_start subfile g s = Some s' \<and> ms_errno s' = ms_errno s
    \<and> ix_pg_root (ms_index s') = ix_pg_root (ms_index s) @ [pg] \<and> pg_offset_in_file pg = pg_start
    \<and> pg_time_index pg = g_time_index g0
    \<and> (\<forall>k. \<exists>chs. var_chars (ix_vars_root (ms_index s')) k = var_chars (ix_vars_root (ms_index s)) k @ chs
        \<and> list_all2 (\<lambda>v ch. located e fv infos fd v ch \<and> ch_file_index ch = subfile \<and> ch_time_index ch = g_time_index g0)
            (map (var_to_write stats g0) (filter (\<lambda>w. written_key g0 w = k) ws)) chs)"
proof -
  have ok: "ok = (\<lambda>_. True)" using assms(1) by (simp add: fun_eq_iff)
  obtain g fd xs where run: "write_all e fv ok infos stats u ws (g0, fd0) = Some (g, fd)"
    and xs: "list_all2 (recorded e fv infos u (w_off (fd_w fd0)) g fd) (jobs stats g0 ws) xs"
    and g: "g = g0\<lparr>g_vars := g_vars g, g_vars_written := g_vars_written g0 @ xs\<rparr>" and len: "length (g_vars g) = length (g_vars g0)"
    and base: "fd_base_offset fd = fd_base_offset fd0" and space': "w_off (fd_w fd) + unat (fd_base_offset fd) < 2 ^ 64"
    using writes_run [of ok, OF assms(1-4), of u fd0] space(2) by auto
  have fields: "g_name g = g_name g0" "g_time_index g = g_time_index g0" "g_vars_written g = xs" "g_attributes g = g_attributes g0"
    using recorded(1) by (subst g, simp)+
  let ?vs = "map (var_to_write stats g0) ws"
  have key: "genkey (Some (av_path (var_to_write stats g0 w))) (av_name (var_to_write stats g0 w)) = written_key g0 w"
    if "w \<in> set ws" for w
    using that assms(2) by (auto simp: list_all_iff writable_def Let_def written_key_def)
  have "\<exists>item. (\<forall>s. build_var e fv ok True infos uninit subfile g x s = index_append_var_v1 e ok True item s)
      \<and> indexed e fv infos fd subfile (g_time_index g0) (g_name g0) (var_to_write stats g0 w) item"
    if "recorded e fv infos u (w_off (fd_w fd0)) g fd (fst w, var_to_write stats g0 w) x" "w \<in> set ws" for w x
    using recorded_indexed [OF that(1), of ok True uninit subfile] that(2) assms(2) space(1) space' len fields base
    by (auto simp: list_all_iff writable_def Let_def)
  then have "list_all2 (\<lambda>w x. \<exists>item. (\<forall>s. build_var e fv ok True infos uninit subfile g x s = index_append_var_v1 e ok True item s)
      \<and> indexed e fv infos fd subfile (g_time_index g0) (g_name g0) (var_to_write stats g0 w) item) ws xs"
    using xs by (auto simp: list_all2_conv_all_nth)
  then obtain items where items: "list_all2 (\<lambda>x item. \<forall>s. build_var e fv ok True infos uninit subfile g x s = index_append_var_v1 e ok True item s) xs items"
    "list_all2 (indexed e fv infos fd subfile (g_time_index g0) (g_name g0)) ?vs items"
    by (atomize_elim, unfold list_all2_map1, rule list_all2_choose)
  have chars: "list_all2 (\<lambda>v ch. located e fv infos fd v ch \<and> ch_file_index ch = subfile \<and> ch_time_index ch = g_time_index g0)
      (map (var_to_write stats g0) (filter (\<lambda>w. written_key g0 w = k) ws)) (var_chars items k)" for k
  proof -
    have "filter (\<lambda>v. genkey (Some (av_path v)) (av_name v) = k) ?vs = map (var_to_write stats g0) (filter (\<lambda>w. written_key g0 w = k) ws)"
      using key by (auto simp: filter_map comp_def cong: filter_cong)
    with indexed_chars [OF items(2), of k] show ?thesis by simp
  qed
  define pg where "pg = \<lparr>pg_group_name = g_name g, pg_adios_host_language_fortran = g_adios_host_language_fortran g,
      pg_process_id = g_process_id g, pg_time_index_name = g_time_index_name g, pg_time_index = g_time_index g,
      pg_offset_in_file = pg_start\<rparr>"
  let ?s = "s\<lparr>ms_index := (ms_index s)\<lparr>ix_pg_root := ix_pg_root (ms_index s) @ [pg]\<rparr>\<rparr>"
  have inv: "merge_inv e group_of ?s" using index(1) by (simp add: merge_inv_def)
  have good: "good_vars group_of items"
    unfolding good_vars_def list_all_length
  proof (intro allI impI)
    fix n assume "n < length items"
    then have "n < length ws" "indexed e fv infos fd subfile (g_time_index g0) (g_name g0) (var_to_write stats g0 (ws ! n)) (items ! n)"
      using items(2) by (auto simp: list_all2_conv_all_nth)
    then show "good_var (items ! n) \<and> v_group_name (items ! n) = group_of (var_key (items ! n))"
      using key [of "ws ! n"] index(2) by (auto simp: indexed_def)
  qed
  have room: "length (var_chars (ix_vars_root (ms_index ?s)) k) + length (var_chars items k) < 2 ^ 64" for k
  proof -
    have "length (var_chars items k) \<le> length ws"
      using list_all2_lengthD [OF chars [of k]] length_filter_le [of "\<lambda>w. written_key g0 w = k" ws] by simp
    with index(3) [of k] show ?thesis by simp
  qed
  obtain t where t: "fold_opt (index_append_var_v1 e ok True) items ?s = Some (?s\<lparr>ms_index := (ms_index ?s)\<lparr>ix_vars_root :=
      var_index.add_all (ix_vars_root (ms_index ?s)) items\<rparr>, ms_hashtbl_vars := Some t\<rparr>)"
    unfolding ok by (rule append_vars [OF inv good room])
  let ?s1 = "?s\<lparr>ms_index := (ms_index ?s)\<lparr>ix_vars_root := var_index.add_all (ix_vars_root (ms_index ?s)) items\<rparr>, ms_hashtbl_vars := Some t\<rparr>"
  obtain attrs where attrs: "fold_opt (build_attribute (\<lambda>_. True) subfile g) (g_attributes g) ?s1
      = Some (?s1\<lparr>ms_index := (ms_index ?s1)\<lparr>ix_attrs_root := attrs\<rparr>\<rparr>)"
    using build_attributes [of "g_attributes g" g subfile ?s1] attributes fields(4)
    by (auto simp: build_attr_def fields)
  let ?s' = "?s1\<lparr>ms_index := (ms_index ?s1)\<lparr>ix_attrs_root := attrs\<rparr>\<rparr>"
  have "adios_build_index_v1 e fv ok True infos uninit pg_start subfile g s = Some ?s'"
    using t attrs build_vars_fold [OF items(1), of ?s] fields(3)
    by (simp add: adios_build_index_v1_def index_append_process_group_v1_def pg_def Let_def ok)
  moreover have "var_index.index_of group_of (ix_vars_root (ms_index s))"
    using index(1) by (simp add: merge_inv_def Let_def index_of_good)
  then have "var_chars (var_index.add_all (ix_vars_root (ms_index s)) items) k
      = var_chars (ix_vars_root (ms_index s)) k @ var_chars items k" for k
    using var_index.add_all_index [of group_of "ix_vars_root (ms_index s)" items] good room
    by (simp add: good_vars_def content_chars)
  ultimately show ?thesis using chars fields(2)
    by (intro exI [of _ g] exI [of _ fd] exI [of _ ?s'] exI [of _ pg] conjI) (auto simp: pg_def run)
qed


section \<open>An example\<close>

text \<open>A scalar and an array of three bytes, written behind the header of a group.\<close>

definition scalar_var :: adios_var_struct where
  "scalar_var = \<lparr>av_id = 1, av_name = ''n'', av_path = ''/a'', av_type = adios_integer, av_dimensions = [],
     av_is_dim = adios_flag_no, av_write_offset = 0, av_data = None, av_data_size = 0, av_stats = None, av_bitmap = 0,
     av_transform_type = 0, av_pre_transform_type = adios_unknown, av_pre_transform_dimensions = [],
     av_transform_metadata_len = 0, av_transform_metadata = None\<rparr>"

definition number_item :: "u64 \<Rightarrow> adios_dimension_item_struct" where
  "number_item n = \<lparr>di_rank = n, di_var = None, di_attr = None, di_time_index = adios_flag_no\<rparr>"

definition array_var :: adios_var_struct where
  "array_var = scalar_var\<lparr>av_id := 2, av_name := ''x'', av_type := adios_byte, av_stats := Some [replicate 7 None],
     av_dimensions := [\<lparr>dm_dimension = number_item 3, dm_global_dimension = number_item 0, dm_local_offset = number_item 0\<rparr>]\<rparr>"

definition write_group :: adios_write_group where
  "write_group = \<lparr>g_name = ''g'', g_adios_host_language_fortran = adios_flag_no, g_hashtbl_vars = g_hashtbl_vars group_example,
     g_group_by = None, g_time_index_name = None, g_time_index = 1, g_methods = [], g_process_id = 0,
     g_vars = [scalar_var, array_var], g_vars_written = [], g_attributes = []\<rparr>"

definition write_file :: adios_file_struct where
  "write_file = \<lparr>fd_w = empty_wst\<lparr>w_off := 30\<rparr>, fd_base_offset = 0, fd_bytes_written = 30, fd_vars_start = 18, fd_vars_written = 0\<rparr>"

lemma example_vars:
  "g_vars write_group = [scalar_var, array_var]" "av_type scalar_var = adios_integer" "av_type array_var = adios_byte"
  by (simp_all add: write_group_def array_var_def scalar_var_def)

lemma example_to_write:
  "var_to_write (\<lambda>v. v) write_group (0, [5, 0, 0, 0]) = scalar_var\<lparr>av_data := Some [5, 0, 0, 0]\<rparr>"
  "var_to_write (\<lambda>v. v) write_group (Suc 0, [7, 8, 9]) = array_var\<lparr>av_data := Some [7, 8, 9]\<rparr>"
  by (simp_all add: var_to_write_def write_group_def array_var_def scalar_var_def)

lemma example_scalar:
  assumes "v = scalar_var\<lparr>av_data := Some [5, 0, 0, 0]\<rparr>"
  shows "var_data_ok Little (\<lambda>_ _. 0) [] v" and "sizes_found Little (\<lambda>_ _. 0) v" and "sizes_known v"
    and "length (header_bytes Little (\<lambda>_ _. 0) [] v) < 100"
proof -
  have arr: "\<not> is_array v" by (simp add: assms is_array_def scalar_var_def)
  have size: "adios_get_var_size Little (av_type v) (av_dimensions v) (av_data v) = (None, 4)"
    by (simp add: assms scalar_var_def adios_get_var_size_def adios_get_dimension_space_size_def)
  then have "payload_size Little v = 4" by (simp add: payload_size_def)
  then show "var_data_ok Little (\<lambda>_ _. 0) [] v" using arr
    by (simp add: var_data_ok_def chars_bytes_def set_bytes_def plugins_ok_def)
      (simp add: assms scalar_var_def str_ok_def nul_free_def)
  show "sizes_found Little (\<lambda>_ _. 0) v" using size
    by (simp add: sizes_found_def) (simp add: assms scalar_var_def dims_known_def)
  show "sizes_known v" using arr
    by (simp add: sizes_known_def) (simp add: assms scalar_var_def adios_transform_get_var_original_type_var_def)
  show "length (header_bytes Little (\<lambda>_ _. 0) [] v) < 100" using arr
    by (simp add: header_bytes_def header_body_def chars_bytes_def set_bytes_def dims_bytes_def)
      (simp add: assms scalar_var_def enc_string_def)
qed

lemma example_array:
  assumes "v = array_var\<lparr>av_data := Some [7, 8, 9]\<rparr>"
  shows "var_data_ok Little (\<lambda>_ _. 0) [] v" and "sizes_found Little (\<lambda>_ _. 0) v" and "sizes_known v"
    and "length (header_bytes Little (\<lambda>_ _. 0) [] v) < 150"
proof -
  have arr: "is_array v" by (simp add: assms is_array_def array_var_def)
  have type: "adios_transform_get_var_original_type_var v = adios_byte"
    by (simp add: assms array_var_def scalar_var_def adios_transform_get_var_original_type_var_def)
  have size: "adios_get_var_size Little (av_type v) (av_dimensions v) (av_data v) = (None, 3)"
    by (simp add: assms array_var_def scalar_var_def adios_get_var_size_def adios_get_dimension_space_size_def
        number_item_def adios_get_dim_value_def)
  have ch: "d_count (ch_dims (var_ch Little (\<lambda>_ _. 0) v)) = 1" "length (d_dims (ch_dims (var_ch Little (\<lambda>_ _. 0) v))) = 3"
     "ch_bitmap (var_ch Little (\<lambda>_ _. 0) v) = 0" "ch_stats (var_ch Little (\<lambda>_ _. 0) v) = Some [replicate 7 None]"
     "ch_transform (var_ch Little (\<lambda>_ _. 0) v) = zero_transform"
    by (simp_all add: var_ch_def var_transform_def assms array_var_def scalar_var_def dim_values_def)
  have row: "row_data (replicate 7 None) = ([] :: stat_data list)" by (simp add: row_data_def numeral_eq_Suc)
  have chars: "length (chars_bytes Little (\<lambda>_ _. 0) [] v) < 60"
    using arr by (simp add: chars_bytes_def set_bytes_def array_bytes_def ch row transform_item_bytes_def row_bytes_def)
  have "var_array_ok Little (\<lambda>_ _. 0) [] v"
    by (simp add: var_array_ok_def array_ok_def ch type row_ok_def row)
     (simp add: assms array_var_def scalar_var_def stat_bits_def adios_get_stat_set_count_def)
  moreover have "payload_size Little v = 3" using size by (simp add: payload_size_def)
  ultimately show "var_data_ok Little (\<lambda>_ _. 0) [] v" using chars
    by (simp add: var_data_ok_def plugins_ok_def)
      (simp add: assms array_var_def scalar_var_def str_ok_def nul_free_def)
  show "sizes_found Little (\<lambda>_ _. 0) v" using size
    by (simp add: sizes_found_def) (simp add: assms array_var_def scalar_var_def dims_known_def number_item_def adios_get_dim_value_def)
  show "sizes_known v" 
    by (simp add: sizes_known_def type) (simp add: assms array_var_def scalar_var_def)
  show "length (header_bytes Little (\<lambda>_ _. 0) [] v) < 150" using chars
    by (simp add: header_bytes_def header_body_def dims_bytes_def)
      (simp add: assms array_var_def scalar_var_def enc_string_def dim_bytes_def item_bytes_def number_item_def is_number_def)
qed

lemma var_overhead_exact_witness:
  "\<exists>overhead. adios_calc_var_overhead_v1 [] (array_var\<lparr>av_data := Some [7, 8, 9]\<rparr>) = Some overhead
    \<and> w_off (fd_w (snd (snd (adios_write_var_header_v1 Little (\<lambda>_ _. 0) (\<lambda>_. True) []
        (array_var\<lparr>av_data := Some [7, 8, 9]\<rparr>) write_file)))) = 30 + unat overhead"
  using var_overhead_exact [OF example_array(1) [OF refl] example_array(3) [OF refl], of "\<lambda>_. True" write_file]
    example_array(4) [OF refl] by (simp add: write_file_def)

lemma built_index_locates_data_witness:
  "\<exists>g fd s'. write_all Little (\<lambda>_ _. 0) (\<lambda>_. True) [] (\<lambda>v. v) 0 [(0, [5, 0, 0, 0]), (1, [7, 8, 9])] (write_group, write_file)
      = Some (g, fd)
    \<and> adios_build_index_v1 Little (\<lambda>_ _. 0) (\<lambda>_. True) True [] zero_characteristic 12 3 g merge_example = Some s'
    \<and> (\<exists>ch. var_chars (ix_vars_root (ms_index s')) ''/a/x'' = [ch]
        \<and> located Little (\<lambda>_ _. 0) [] fd (array_var\<lparr>av_data := Some [7, 8, 9]\<rparr>) ch \<and> ch_file_index ch = 3)"
proof -
  let ?ws = "[(0, [5, 0, 0, 0]), (1, [7, 8, 9])] :: (nat \<times> u8 list) list"
  have ok: "list_all (writable Little (\<lambda>_ _. 0) [] (\<lambda>v. v) write_group) ?ws"
    using example_scalar [OF refl] example_array [OF refl]
    by (simp add: writable_def example_to_write Let_def example_vars)
  have len: "(\<Sum>w\<leftarrow>?ws. length (data_bytes Little (\<lambda>_ _. 0) [] (var_to_write (\<lambda>v. v) write_group w))) < 1000"
    using example_scalar(4) [OF refl] example_array(4) [OF refl]
    by (simp add: example_to_write data_bytes_def)
  have inv: "merge_inv Little (\<lambda>_. ''g'') merge_example"
    using qhashtbl_view [of 500 _ Little] by (auto simp: merge_inv_def merge_example_def adios_alloc_index_v1_def
        good_vars_def qhashtbl_def)
  have empty: "var_chars (ix_vars_root (ms_index merge_example)) k = []" for k
    by (simp add: merge_example_def adios_alloc_index_v1_def var_chars_def)
  have key: "filter (\<lambda>w. written_key write_group w = ''/a/x'') ?ws = [(1, [7, 8, 9])]"
    by (simp add: written_key_def write_group_def array_var_def scalar_var_def genkey_def)
  have group: "g_vars_written write_group = []" "\<not> null_method write_group" "g_attributes write_group = []"
    "g_name write_group = ''g''" by (simp_all add: write_group_def)
  have start: "w_off (fd_w write_file) = 30" "fd_base_offset write_file = 0" by (simp_all add: write_file_def)
  have room: "w_off (fd_w write_file) + (\<Sum>w\<leftarrow>?ws. length (data_bytes Little (\<lambda>_ _. 0) [] (var_to_write (\<lambda>v. v) write_group w)))
      + unat (fd_base_offset write_file) < 2 ^ 64"
    using len by (simp add: start)
  have places: "\<forall>w \<in> set ?ws. ''g'' = g_name write_group" "0 < w_off (fd_w write_file)"
    "length (var_chars (ix_vars_root (ms_index merge_example)) k) + length ?ws < 2 ^ 64" for k
    by (simp_all add: group start empty)
  have attrs: "\<forall>a \<in> set (g_attributes write_group). aa_write_offset a \<noteq> 0 \<longrightarrow> build_attr write_group 3 a \<noteq> None"
    by (simp add: group)
  obtain g fd s' where run: "write_all Little (\<lambda>_ _. 0) (\<lambda>_. True) [] (\<lambda>v. v) 0 ?ws (write_group, write_file) = Some (g, fd)"
    "adios_build_index_v1 Little (\<lambda>_ _. 0) (\<lambda>_. True) True [] zero_characteristic 12 3 g merge_example = Some s'"
    and "\<forall>k. \<exists>chs. var_chars (ix_vars_root (ms_index s')) k = var_chars (ix_vars_root (ms_index merge_example)) k @ chs
      \<and> list_all2 (\<lambda>v ch. located Little (\<lambda>_ _. 0) [] fd v ch \<and> ch_file_index ch = 3 \<and> ch_time_index ch = g_time_index write_group)
       (map (var_to_write (\<lambda>v. v) write_group) (filter (\<lambda>w. written_key write_group w = k) ?ws)) chs"
    using built_index_locates_data [of "\<lambda>_. True", OF TrueI ok _ group(2,1) places(2) room inv places(1,3) attrs,
        of 0 zero_characteristic 12] by auto
  then obtain chs where "var_chars (ix_vars_root (ms_index s')) ''/a/x'' = chs"
    "list_all2 (\<lambda>v ch. located Little (\<lambda>_ _. 0) [] fd v ch \<and> ch_file_index ch = 3 \<and> ch_time_index ch = g_time_index write_group)
       (map (var_to_write (\<lambda>v. v) write_group) (filter (\<lambda>w. written_key write_group w = ''/a/x'') ?ws)) chs"
    unfolding empty by (metis append_Nil)
  then have "\<exists>ch. var_chars (ix_vars_root (ms_index s')) ''/a/x'' = [ch] \<and> located Little (\<lambda>_ _. 0) [] fd
      (array_var\<lparr>av_data := Some [7, 8, 9]\<rparr>) ch \<and> ch_file_index ch = 3"
    unfolding key by (auto simp: example_to_write list_all2_Cons1)
  with run show ?thesis by blast
qed

end
