(* ===== verification/Patchdata.thy ===== *)
theory Patchdata
  imports Subvolume Selection
begin

text \<open>
  Patching the data of one selection into a buffer that is shaped like another one
  (\<open>core/transforms/adios_patchdata.c\<close>). A function gives the error it reports, the number of
  elements it copied and the memory it leaves; \<open>None\<close> is a failed assertion or undefined behaviour.
\<close>

section \<open>Definitions\<close>

type_synonym patched = "(adios_errcode option \<times> u64 \<times> mem) option"

definition adios_patch_data_bb_to_bb ::
  "endian \<Rightarrow> bool \<Rightarrow> u64 \<Rightarrow> u64 \<Rightarrow> ADIOS_SELECTION_BOUNDINGBOX_STRUCT \<Rightarrow> u64 \<Rightarrow> u64
    \<Rightarrow> ADIOS_SELECTION_BOUNDINGBOX_STRUCT \<Rightarrow> ADIOS_DATATYPES \<Rightarrow> ADIOS_FLAG \<Rightarrow> mem \<Rightarrow> patched" where
  "adios_patch_data_bb_to_bb e malloc_ok dst dst_ragged_offset dst_bb src src_ragged_offset src_bb datum_type swap_endianness m =
     (case adios_selection_intersect_bb_bb malloc_ok dst_bb src_bb of
        Inl err \<Rightarrow> if err = err_assertion then None else Some (Some err, 0, m)
      | Inr (Some (Sel_boundingbox inter_bb)) \<Rightarrow>
          map_option (\<lambda>m'. (None, compute_volume (bb_count inter_bb), m'))
            (copy_subvolume_ragged_offset e dst src (bb_count inter_bb)
               (bb_count dst_bb) (vector_sub (bb_start inter_bb) (bb_start dst_bb)) dst_ragged_offset
               (bb_count src_bb) (vector_sub (bb_start inter_bb) (bb_start src_bb)) src_ragged_offset
               datum_type swap_endianness m)
      | Inr _ \<Rightarrow> Some (None, 0, m))"

text \<open>
  One point of \<open>adios_patch_data_bb_pts_helper\<close>: the \<open>i\<close>-th point, its element in the buffer of the box,
  and the copy in one of the two directions. The flag \<open>swap_endianness\<close> is not looked at.
\<close>

definition patch_point ::
  "u64 \<Rightarrow> u64 \<Rightarrow> u64 \<Rightarrow> u64 \<Rightarrow> ADIOS_SELECTION_BOUNDINGBOX_STRUCT \<Rightarrow> bool \<Rightarrow> u64 \<Rightarrow> u64 \<times> u64 list
    \<Rightarrow> u64 \<times> mem \<Rightarrow> (u64 \<times> mem) option" where
  "patch_point dst dst_byte_ragged_offset src src_byte_ragged_offset bb isDestPoints typelen = (\<lambda>(i, cur_pt) (pts_copied, m).
     if \<not> point_in_bb (bb_start bb) (bb_count bb) cur_pt then Some (pts_copied, m)
     else
       let pt_relative_to_bb = vector_sub cur_pt (bb_start bb);
           byte_offset_in_bb_buffer = compute_start_offset pt_relative_to_bb (compute_strides typelen (bb_count bb));
           byte_offset_in_pt_buffer = i * typelen;
           (dst_offset, src_offset) = (if isDestPoints then (byte_offset_in_pt_buffer, byte_offset_in_bb_buffer)
             else (byte_offset_in_bb_buffer, byte_offset_in_pt_buffer))
       in if dst_offset < dst_byte_ragged_offset \<or> src_offset < src_byte_ragged_offset then None
          else Some (pts_copied + 1, memcpy (dst + dst_offset - dst_byte_ragged_offset)
                 (src + src_offset - src_byte_ragged_offset) (unat typelen) m))"

fun patch_points ::
  "(u64 \<times> u64 list \<Rightarrow> u64 \<times> mem \<Rightarrow> (u64 \<times> mem) option) \<Rightarrow> u64 \<Rightarrow> u64 list list \<Rightarrow> u64 \<times> mem \<Rightarrow> (u64 \<times> mem) option" where
  "patch_points f i [] s = Some s"
| "patch_points f i (pt # pts) s = (case f (i, pt) s of None \<Rightarrow> None | Some s' \<Rightarrow> patch_points f (i + 1) pts s')"

definition adios_patch_data_bb_pts_helper ::
  "u64 \<Rightarrow> u64 \<Rightarrow> u64 \<Rightarrow> u64 \<Rightarrow> ADIOS_SELECTION_POINTS_STRUCT \<Rightarrow> ADIOS_SELECTION_BOUNDINGBOX_STRUCT \<Rightarrow> bool
    \<Rightarrow> ADIOS_DATATYPES \<Rightarrow> mem \<Rightarrow> patched" where
  "adios_patch_data_bb_pts_helper dst dst_ragged_offset src src_ragged_offset pts bb isDestPoints datum_type m =
     (let typelen = u64_of_int (int_of_u64 (adios_get_type_size datum_type None))
      in if pts_ndim pts \<noteq> bb_ndim bb then None
         else map_option (\<lambda>(pts_copied, m'). (None, pts_copied, m'))
           (patch_points (patch_point dst (dst_ragged_offset * typelen) src (src_ragged_offset * typelen) bb isDestPoints typelen)
              0 (pts_list pts) (0, m)))"

definition adios_patch_data_pts_to_bb ::
  "u64 \<Rightarrow> u64 \<Rightarrow> ADIOS_SELECTION_BOUNDINGBOX_STRUCT \<Rightarrow> u64 \<Rightarrow> u64 \<Rightarrow> ADIOS_SELECTION_POINTS_STRUCT
    \<Rightarrow> ADIOS_DATATYPES \<Rightarrow> mem \<Rightarrow> patched" where
  "adios_patch_data_pts_to_bb dst dst_ragged_offset dst_bb src src_ragged_offset src_pts datum_type m =
     adios_patch_data_bb_pts_helper dst dst_ragged_offset src src_ragged_offset src_pts dst_bb False datum_type m"

definition adios_patch_data_bb_to_pts ::
  "u64 \<Rightarrow> u64 \<Rightarrow> ADIOS_SELECTION_POINTS_STRUCT \<Rightarrow> u64 \<Rightarrow> u64 \<Rightarrow> ADIOS_SELECTION_BOUNDINGBOX_STRUCT
    \<Rightarrow> ADIOS_DATATYPES \<Rightarrow> mem \<Rightarrow> patched" where
  "adios_patch_data_bb_to_pts dst dst_ragged_offset dst_pts src src_ragged_offset src_bb datum_type m =
     adios_patch_data_bb_pts_helper dst dst_ragged_offset src src_ragged_offset dst_pts src_bb True datum_type m"

definition adios_patch_data_to_bb ::
  "endian \<Rightarrow> bool \<Rightarrow> u64 \<Rightarrow> u64 \<Rightarrow> ADIOS_SELECTION_BOUNDINGBOX_STRUCT \<Rightarrow> u64 \<Rightarrow> u64 \<Rightarrow> ADIOS_SELECTION
    \<Rightarrow> ADIOS_DATATYPES \<Rightarrow> ADIOS_FLAG \<Rightarrow> mem \<Rightarrow> patched" where
  "adios_patch_data_to_bb e malloc_ok dst dst_ragged_offset dst_bb src src_ragged_offset src_sel datum_type swap_endianness m =
     (case src_sel of
        Sel_boundingbox src_bb \<Rightarrow>
          adios_patch_data_bb_to_bb e malloc_ok dst dst_ragged_offset dst_bb src src_ragged_offset src_bb datum_type swap_endianness m
      | Sel_points src_pts \<Rightarrow>
          adios_patch_data_pts_to_bb dst dst_ragged_offset dst_bb src src_ragged_offset src_pts datum_type m
      | _ \<Rightarrow> Some (Some err_invalid_argument, 0, m))"

text \<open>\<open>adios_patch_data_pts_to_pts\<close> is not implemented: it reports an error.\<close>

definition adios_patch_data_to_pts ::
  "u64 \<Rightarrow> u64 \<Rightarrow> ADIOS_SELECTION_POINTS_STRUCT \<Rightarrow> u64 \<Rightarrow> u64 \<Rightarrow> ADIOS_SELECTION
    \<Rightarrow> ADIOS_DATATYPES \<Rightarrow> mem \<Rightarrow> patched" where
  "adios_patch_data_to_pts dst dst_ragged_offset dst_pts src src_ragged_offset src_sel datum_type m =
     (case src_sel of
        Sel_boundingbox src_bb \<Rightarrow>
          adios_patch_data_bb_to_pts dst dst_ragged_offset dst_pts src src_ragged_offset src_bb datum_type m
      | _ \<Rightarrow> Some (Some err_invalid_argument, 0, m))"

definition adios_patch_data_to_global ::
  "endian \<Rightarrow> bool \<Rightarrow> u64 \<Rightarrow> u64 \<Rightarrow> ADIOS_SELECTION \<Rightarrow> u64 \<Rightarrow> u64 \<Rightarrow> ADIOS_SELECTION
    \<Rightarrow> ADIOS_DATATYPES \<Rightarrow> ADIOS_FLAG \<Rightarrow> mem \<Rightarrow> patched" where
  "adios_patch_data_to_global e malloc_ok dst dst_ragged_offset dst_sel src src_ragged_offset src_sel datum_type swap_endianness m =
     (if \<not> is_global_selection dst_sel \<or> \<not> is_global_selection src_sel then Some (Some err_invalid_argument, 0, m)
      else case dst_sel of
          Sel_boundingbox dst_bb \<Rightarrow>
            adios_patch_data_to_bb e malloc_ok dst dst_ragged_offset dst_bb src src_ragged_offset src_sel datum_type swap_endianness m
        | Sel_points dst_pts \<Rightarrow>
            adios_patch_data_to_pts dst dst_ragged_offset dst_pts src src_ragged_offset src_sel datum_type m
        | _ \<Rightarrow> Some (Some err_invalid_argument, 0, m))"

text \<open>Element 0 of a buffer for a part of a block is the first element of the part.\<close>

definition part_ragged_offset :: "u64 \<Rightarrow> ADIOS_SELECTION_WRITEBLOCK_STRUCT \<Rightarrow> u64" where
  "part_ragged_offset dst_ragged_offset dst_wb =
     (if wb_is_sub_pg_selection dst_wb then dst_ragged_offset + wb_element_offset dst_wb else dst_ragged_offset)"

definition adios_patch_data_bb_to_wb ::
  "endian \<Rightarrow> bool \<Rightarrow> u64 \<Rightarrow> u64 \<Rightarrow> ADIOS_SELECTION_WRITEBLOCK_STRUCT \<Rightarrow> u64 \<Rightarrow> u64
    \<Rightarrow> ADIOS_SELECTION_BOUNDINGBOX_STRUCT \<Rightarrow> ADIOS_SELECTION_BOUNDINGBOX_STRUCT \<Rightarrow> ADIOS_DATATYPES \<Rightarrow> ADIOS_FLAG \<Rightarrow> mem
    \<Rightarrow> patched" where
  "adios_patch_data_bb_to_wb e malloc_ok dst dst_ragged_offset dst_wb src src_ragged_offset src_bb vb_bounds datum_type swap_endianness m =
     adios_patch_data_bb_to_bb e malloc_ok dst (part_ragged_offset dst_ragged_offset dst_wb) vb_bounds
       src src_ragged_offset src_bb datum_type swap_endianness m"

definition adios_patch_data_pts_to_wb ::
  "u64 \<Rightarrow> u64 \<Rightarrow> ADIOS_SELECTION_WRITEBLOCK_STRUCT \<Rightarrow> u64 \<Rightarrow> u64
    \<Rightarrow> ADIOS_SELECTION_POINTS_STRUCT \<Rightarrow> ADIOS_SELECTION_BOUNDINGBOX_STRUCT \<Rightarrow> ADIOS_DATATYPES \<Rightarrow> mem \<Rightarrow> patched" where
  "adios_patch_data_pts_to_wb dst dst_ragged_offset dst_wb src src_ragged_offset src_pts vb_bounds datum_type m =
     adios_patch_data_pts_to_bb dst (part_ragged_offset dst_ragged_offset dst_wb) vb_bounds src src_ragged_offset src_pts datum_type m"

text \<open>The ragged offsets are not looked at.\<close>

definition adios_patch_data_wb_to_wb ::
  "endian \<Rightarrow> u64 \<Rightarrow> ADIOS_SELECTION_WRITEBLOCK_STRUCT \<Rightarrow> u64 \<Rightarrow> ADIOS_SELECTION_WRITEBLOCK_STRUCT
    \<Rightarrow> ADIOS_SELECTION_BOUNDINGBOX_STRUCT \<Rightarrow> ADIOS_DATATYPES \<Rightarrow> ADIOS_FLAG \<Rightarrow> mem \<Rightarrow> patched" where
  "adios_patch_data_wb_to_wb e dst dst_wb src src_wb vb_bounds datum_type swap_endianness m =
     (let vb_size_in_elements = compute_volume (bb_count vb_bounds);
          range = (\<lambda>wb. if wb_is_sub_pg_selection wb then (wb_element_offset wb, wb_nelements wb) else (0, vb_size_in_elements));
          (dst_elem_offset, dst_nelems) = range dst_wb;
          (src_elem_offset, src_nelems) = range src_wb
      in case intersect_segments dst_elem_offset dst_nelems src_elem_offset src_nelems of
           None \<Rightarrow> Some (None, 0, m)
         | Some (copy_elem_offset, copy_nelems) \<Rightarrow>
             let typesize = u64_of_int (int_of_u64 (adios_get_type_size datum_type None))
             in Some (None, copy_nelems,
                  copy_block e datum_type (swap_endianness = adios_flag_yes) (copy_nelems * typesize)
                    (dst + (copy_elem_offset - dst_elem_offset) * typesize)
                    (src + (copy_elem_offset - src_elem_offset) * typesize) m))"

definition adios_patch_data_to_wb ::
  "endian \<Rightarrow> bool \<Rightarrow> u64 \<Rightarrow> u64 \<Rightarrow> ADIOS_SELECTION_WRITEBLOCK_STRUCT \<Rightarrow> u64 \<Rightarrow> u64 \<Rightarrow> ADIOS_SELECTION
    \<Rightarrow> ADIOS_SELECTION_BOUNDINGBOX_STRUCT \<Rightarrow> ADIOS_DATATYPES \<Rightarrow> ADIOS_FLAG \<Rightarrow> mem \<Rightarrow> patched" where
  "adios_patch_data_to_wb e malloc_ok dst dst_ragged_offset dst_wb src src_ragged_offset src_sel vb_bounds datum_type swap_endianness m =
     (case src_sel of
        Sel_boundingbox src_bb \<Rightarrow>
          adios_patch_data_bb_to_wb e malloc_ok dst dst_ragged_offset dst_wb src src_ragged_offset src_bb vb_bounds datum_type swap_endianness m
      | Sel_points src_pts \<Rightarrow>
          adios_patch_data_pts_to_wb dst dst_ragged_offset dst_wb src src_ragged_offset src_pts vb_bounds datum_type m
      | Sel_writeblock src_wb \<Rightarrow>
          adios_patch_data_wb_to_wb e dst dst_wb src src_wb vb_bounds datum_type swap_endianness m
      | Sel_auto _ \<Rightarrow> Some (Some err_invalid_argument, 0, m))"

definition adios_patch_data_to_local ::
  "endian \<Rightarrow> bool \<Rightarrow> u64 \<Rightarrow> u64 \<Rightarrow> ADIOS_SELECTION \<Rightarrow> u64 \<Rightarrow> u64 \<Rightarrow> ADIOS_SELECTION
    \<Rightarrow> ADIOS_SELECTION_BOUNDINGBOX_STRUCT \<Rightarrow> ADIOS_DATATYPES \<Rightarrow> ADIOS_FLAG \<Rightarrow> mem \<Rightarrow> patched" where
  "adios_patch_data_to_local e malloc_ok dst dst_ragged_offset dst_sel src src_ragged_offset src_sel vb_bounds datum_type swap_endianness m =
     (if is_global_selection dst_sel then Some (Some err_invalid_argument, 0, m)
      else case dst_sel of
          Sel_writeblock dst_wb \<Rightarrow>
            adios_patch_data_to_wb e malloc_ok dst dst_ragged_offset dst_wb src src_ragged_offset src_sel vb_bounds datum_type swap_endianness m
        | _ \<Rightarrow> Some (Some err_invalid_argument, 0, m))"


section \<open>Boxes\<close>

text \<open>The address of the element of the point \<open>p\<close> in a buffer that is shaped like a box.\<close>

definition bb_addr :: "nat \<Rightarrow> u64 \<Rightarrow> ADIOS_SELECTION_BOUNDINGBOX_STRUCT \<Rightarrow> u64 \<Rightarrow> u64 list \<Rightarrow> u64" where
  "bb_addr z base bb ragged p =
     base + (compute_linear_offset_in_volume (vector_sub p (bb_start bb)) (bb_count bb) - ragged) * of_nat z"

definition in_bb :: "ADIOS_SELECTION_BOUNDINGBOX_STRUCT \<Rightarrow> u64 list \<Rightarrow> bool" where
  "in_bb bb p \<longleftrightarrow> in_box (bb_start bb) (bb_count bb) (map unat p)"

lemma vector_sub_simps [simp]:
  "vector_sub [] v = []" "vector_sub v [] = []"
  "vector_sub (a # v) (b # w) = (a - b) # vector_sub v w"
  by (simp_all add: vector_sub_def)

lemma length_vector_sub [simp]: "length (vector_sub v w) = min (length v) (length w)"
  by (simp add: vector_sub_def)

lemma vector_sub_add: "length v = length w \<Longrightarrow> vector_sub (vector_add v w) v = w"
  by (induction v w rule: list_induct2) simp_all

lemma vector_add_sub: "length v = length w \<Longrightarrow> vector_add v (vector_sub w v) = w"
  by (induction v w rule: list_induct2) simp_all

lemma vector_sub_shift: "length v = length w \<Longrightarrow> length v = length p \<Longrightarrow> vector_sub p v = vector_add w (vector_sub p (vector_add v w))"
proof (induction v w arbitrary: p rule: list_induct2)
  case (Cons x v y w)
  then obtain a q where "p = a # q" by (cases p) auto
  with Cons show ?case by (simp add: algebra_simps)
qed simp

lemma seg_offset:
  fixes s l x :: u64
  assumes "seg_fits s l"
  shows "unat x \<in> seg s l \<longleftrightarrow> x - s < l"
proof (cases "s \<le> x")
  case True
  then show ?thesis by (auto simp: word_less_nat_alt unat_sub word_le_nat_alt)
next
  case False
  then have lt: "unat x < unat s" by (simp add: word_le_nat_alt not_le)
  then have "unat (x - s) = unat x + 2 ^ 64 - unat s" by (simp add: unat_sub_if')
  with lt assms show ?thesis by (auto simp: word_less_nat_alt)
qed

lemma in_box_offset:
  "box_fits start count \<Longrightarrow>
   in_box start count (map unat p) \<longleftrightarrow> length p = length start \<and> list_all2 (<) (vector_sub p start) count"
proof (induction start count arbitrary: p rule: box_fits.induct)
  case (1 s start l count)
  then show ?case using seg_offset [of s l] by (cases p) auto
next
  case 2
  then show ?case by (cases p) auto
qed auto

lemma intersect_volumes_fits:
  "box_fits o1 d1 \<Longrightarrow> box_fits o2 d2 \<Longrightarrow> length d1 = length d2 \<Longrightarrow>
   intersect_volumes d1 o1 d2 o2 = Some (ds, off, r1, r2) \<Longrightarrow> box_fits off ds"
proof (induction d1 o1 d2 o2 arbitrary: ds off r1 r2 rule: intersect_volumes.induct)
  case (1 l1 d1 s1 o1 l2 d2 s2 o2)
  then obtain s l ds' off' r1' r2' where seg: "intersect_segments s1 l1 s2 l2 = Some (s, l)"
    and vol: "intersect_volumes d1 o1 d2 o2 = Some (ds', off', r1', r2')" and out: "ds = l # ds'" "off = s # off'"
    by (auto split: option.splits)
  moreover have "box_fits off' ds'" using 1(1) [OF seg refl _ _ _ vol] 1(2-4) by simp
  ultimately show ?case using intersect_segments_Some(4) [OF _ _ seg] 1(2,3) by simp
qed (auto dest!: box_fits_length)

lemma prod_pos_exists: "0 < prod_list (map unat ds) \<longleftrightarrow> (\<exists>q. list_all2 (<) q (ds :: u64 list))"
proof
  assume "0 < prod_list (map unat ds)"
  then have "list_all2 (<) (map (\<lambda>_. 0) ds) ds"
    by (induction ds) (auto simp: word_less_nat_alt)
  then show "\<exists>q. list_all2 (<) q ds" by blast
next
  assume "\<exists>q. list_all2 (<) q ds"
  then obtain q where "list_all2 (<) q ds" by blast
  then show "0 < prod_list (map unat ds)"
    by (induction rule: list_all2_induct) (auto simp: word_less_nat_alt)
qed

text \<open>A box whose buffer is addressed without wrap-around.\<close>

definition bb_buffer :: "nat \<Rightarrow> nat \<Rightarrow> ADIOS_SELECTION_BOUNDINGBOX_STRUCT \<Rightarrow> bool" where
  "bb_buffer n z bb \<longleftrightarrow> sel_wf n (Sel_boundingbox bb)
     \<and> 0 < prod_list (map unat (bb_count bb)) * z \<and> prod_list (map unat (bb_count bb)) * z < 2 ^ 64"

text \<open>The intersection of two boxes, point by point: its points are moved to those common to both.\<close>

lemma common_box:
  assumes wf: "sel_wf n (Sel_boundingbox bb1)" "sel_wf n (Sel_boundingbox bb2)"
    and inter: "intersect_volumes (bb_count bb1) (bb_start bb1) (bb_count bb2) (bb_start bb2) = Some (ds, off, r1, r2)"
  shows "length ds = n" "length off = n" "length r2 = n" "fits_in r1 ds (bb_count bb1)" "box_fits off ds"
    and "in_bb bb1 p \<and> in_bb bb2 p \<longleftrightarrow> length p = n \<and> list_all2 (<) (vector_sub p off) ds"
    and "length p = n \<Longrightarrow> bb_addr z base bb1 ragged p = elem_addr z base (bb_count bb1) r1 ragged (vector_sub p off)"
    and "length p = n \<Longrightarrow> bb_addr z base bb2 ragged p = elem_addr z base (bb_count bb2) r2 ragged (vector_sub p off)"
    and "vector_sub off (bb_start bb1) = r1" "vector_sub off (bb_start bb2) = r2"
proof -
  have bb: "length (bb_start bb1) = n" "length (bb_count bb1) = n" "box_fits (bb_start bb1) (bb_count bb1)"
    "length (bb_start bb2) = n" "length (bb_count bb2) = n" "box_fits (bb_start bb2) (bb_count bb2)"
    using wf by (auto simp: bb_wf_def)
  note boxes = bb(3,6)
  have len: "length (bb_count bb1) = length (bb_count bb2)" using bb by simp
  note vol = intersect_volumes_Some [OF boxes len inter]
  have off: "off = vector_add (bb_start bb1) r1" "off = vector_add (bb_start bb2) r2" and lens: "length r1 = n"
    using vol [of undefined] bb by argo+
  show "length ds = n" "length off = n" and r2: "length r2 = n" and "fits_in r1 ds (bb_count bb1)"
    using vol [of undefined] bb unfolding fits_in_def by argo+
  show fit: "box_fits off ds" by (rule intersect_volumes_fits [OF boxes len inter])
  show "in_bb bb1 p \<and> in_bb bb2 p \<longleftrightarrow> length p = n \<and> list_all2 (<) (vector_sub p off) ds"
    using vol [of "map unat p"] in_box_offset [OF fit, of p] bb by (simp add: in_bb_def)
  show "bb_addr z base bb1 ragged p = elem_addr z base (bb_count bb1) r1 ragged (vector_sub p off)" if "length p = n"
    using vector_sub_shift [of "bb_start bb1" r1 p] off(1) lens bb that by (simp add: bb_addr_def elem_addr_def)
  show "bb_addr z base bb2 ragged p = elem_addr z base (bb_count bb2) r2 ragged (vector_sub p off)" if "length p = n"
    using vector_sub_shift [of "bb_start bb2" r2 p] off(2) r2 bb that by (simp add: bb_addr_def elem_addr_def)
  show "vector_sub off (bb_start bb1) = r1" "vector_sub off (bb_start bb2) = r2"
    using off vector_sub_add lens r2 bb by metis+
qed

lemma moved_to_common:
  assumes "sel_wf n (Sel_boundingbox bb1)" "sel_wf n (Sel_boundingbox bb2)"
    and "intersect_volumes (bb_count bb1) (bb_start bb1) (bb_count bb2) (bb_start bb2) = Some (ds, off, r1, r2)"
    and "list_all2 (<) q ds"
  shows "\<exists>p. in_bb bb1 p \<and> in_bb bb2 p \<and> length p = n \<and> vector_sub p off = q"
proof -
  note common = common_box [OF assms(1-3)]
  have "length q = n" using list_all2_lengthD [OF assms(4)] common(1) by simp
  then have "vector_sub (vector_add off q) off = q" "length (vector_add off q) = n"
    using common(2) vector_sub_add [of off q] by simp_all
  then show ?thesis using common(6) [of "vector_add off q"] assms(4) by metis
qed

lemma volume_positive:
  assumes "fits_in r ds dims" and "prod_list (map unat dims) * z < 2 ^ 64" and "0 < z"
  shows "compute_volume ds \<noteq> 0 \<longleftrightarrow> (\<exists>q. list_all2 (<) q ds)"
proof -
  have "prod_list (map unat ds) \<le> prod_list (map unat dims)" by (rule prod_list_mono [OF fits_in_le [OF assms(1)]])
  also have "\<dots> \<le> prod_list (map unat dims) * z" using assms(3) by simp
  finally have "prod_list (map unat ds) < 2 ^ 64" using assms(2) by simp
  then show ?thesis
    using of_nat_u64_eq [of "prod_list (map unat ds)" 0] prod_pos_exists [of ds] by (simp add: compute_volume_prod)
qed

lemma box_fits_small: "box_fits start count \<Longrightarrow> list_all (\<lambda>d. unat d < 2 ^ 31) count"
  by (induction start count rule: box_fits.induct) auto

lemma patch_boxes:
  assumes n: "0 < n" "n \<le> 32" and type: "sized_type type"
    and dst: "bb_buffer n (elem_size type) dst_bb" and src: "sel_wf n (Sel_boundingbox src_bb)"
    and disjoint: "\<forall>p q. in_bb dst_bb p \<and> in_bb src_bb p \<and> in_bb dst_bb q \<and> in_bb src_bb q \<longrightarrow>
        apart (elem_size type) (bb_addr (elem_size type) dst dst_bb dr p) (bb_addr (elem_size type) src src_bb sr q)"
  shows "\<exists>c m'. adios_patch_data_bb_to_bb e True dst dr dst_bb src sr src_bb type sw m = Some (None, c, m')
    \<and> (c \<noteq> 0 \<longleftrightarrow> (\<exists>p. in_bb dst_bb p \<and> in_bb src_bb p))
    \<and> (\<forall>p. in_bb dst_bb p \<and> in_bb src_bb p \<longrightarrow> load (bb_addr (elem_size type) dst dst_bb dr p) (elem_size type) m'
         = elem_fun type (sw = adios_flag_yes) (load (bb_addr (elem_size type) src src_bb sr p) (elem_size type) m))
    \<and> (\<forall>x. (\<forall>p. in_bb dst_bb p \<and> in_bb src_bb p \<longrightarrow> (\<forall>u < elem_size type. x \<noteq> bb_addr (elem_size type) dst dst_bb dr p + of_nat u))
         \<longrightarrow> m' x = m x)"
proof (cases "intersect_volumes (bb_count dst_bb) (bb_start dst_bb) (bb_count src_bb) (bb_start src_bb)")
  case None
  have "\<not> (in_bb dst_bb p \<and> in_bb src_bb p)" for p
    using intersect_volumes_None [OF _ _ _ None, of "map unat p"] dst src by (simp add: in_bb_def bb_buffer_def bb_wf_def)
  then show ?thesis using None dst src
    by (intro exI [of _ 0] exI [of _ m])
      (auto simp: adios_patch_data_bb_to_bb_def adios_selection_intersect_bb_bb_def intersect_bb_def bb_buffer_def)
next
  case (Some r)
  let ?z = "elem_size type"
  obtain ds off r1 r2 where "r = (ds, off, r1, r2)" by (cases r)
  with Some have inter: "intersect_volumes (bb_count dst_bb) (bb_start dst_bb) (bb_count src_bb) (bb_start src_bb)
    = Some (ds, off, r1, r2)" by simp
  have wf: "sel_wf n (Sel_boundingbox dst_bb)" "bb_ndim dst_bb = bb_ndim src_bb" "length (bb_count src_bb) = n"
    and pos: "0 < prod_list (map unat (bb_count dst_bb)) * ?z" "prod_list (map unat (bb_count dst_bb)) * ?z < 2 ^ 64"
    using dst src by (simp_all add: bb_buffer_def bb_wf_def)
  note common = common_box [OF wf(1) src inter] and moved = moved_to_common [OF wf(1) src inter]
  have "apart ?z (elem_addr ?z dst (bb_count dst_bb) r1 dr p) (elem_addr ?z src (bb_count src_bb) r2 sr q)"
    if "list_all2 (<) p ds" "list_all2 (<) q ds" for p q
    using disjoint moved [OF that(1)] moved [OF that(2)] common(7,8) by metis
  then obtain m' where m': "copy_subvolume_ragged_offset e dst src ds (bb_count dst_bb) r1 dr (bb_count src_bb) r2 sr type sw m = Some m'"
    "\<forall>q. list_all2 (<) q ds \<longrightarrow> load (elem_addr ?z dst (bb_count dst_bb) r1 dr q) ?z m'
       = elem_fun type (sw = adios_flag_yes) (load (elem_addr ?z src (bb_count src_bb) r2 sr q) ?z m)"
    "\<forall>x. (\<forall>q. list_all2 (<) q ds \<longrightarrow> (\<forall>u < ?z. x \<noteq> elem_addr ?z dst (bb_count dst_bb) r1 dr q + of_nat u)) \<longrightarrow> m' x = m x"
    using copy_subvolume_points [OF _ _ _ _ common(4) pos type box_fits_small [OF common(5)], of "bb_count src_bb" r2 dst dr src sr e sw m]
      n common(1,3) wf(3) by auto
  have run: "adios_patch_data_bb_to_bb e True dst dr dst_bb src sr src_bb type sw m = Some (None, compute_volume ds, m')"
    using inter wf(2) m'(1) common(9,10) by (simp add: adios_patch_data_bb_to_bb_def adios_selection_intersect_bb_bb_def
        intersect_bb_def common_read_selection_boundingbox_def)
  have count: "compute_volume ds \<noteq> 0 \<longleftrightarrow> (\<exists>p. in_bb dst_bb p \<and> in_bb src_bb p)"
  proof -
    have "compute_volume ds \<noteq> 0 \<longleftrightarrow> (\<exists>q. list_all2 (<) q ds)"
      using volume_positive [OF common(4) pos(2)] elem_size_small [of type] type by simp
    also have "\<dots> \<longleftrightarrow> (\<exists>p. in_bb dst_bb p \<and> in_bb src_bb p)" unfolding common(6) using moved common(6) by metis
    finally show ?thesis .
  qed
  have "m' x = m x" if "\<forall>p. in_bb dst_bb p \<and> in_bb src_bb p \<longrightarrow> (\<forall>u < ?z. x \<noteq> bb_addr ?z dst dst_bb dr p + of_nat u)" for x
  proof -
    have "x \<noteq> elem_addr ?z dst (bb_count dst_bb) r1 dr q + of_nat u" if "list_all2 (<) q ds" "u < ?z" for q u
      using moved [OF that(1)] common(7) that(2) \<open>\<forall>p. in_bb dst_bb p \<and> _ p \<longrightarrow> _ p\<close> by metis
    with m'(3) show ?thesis by blast
  qed
  then show ?thesis using run count m'(2) common(6-8)
    by (intro exI [of _ "compute_volume ds"] exI [of _ m']) simp
qed

section \<open>Properties\<close>

text \<open>
  C23. Patching the data of one box into a buffer of the shape of another one: with buffers that do
  not share bytes, the call succeeds, every point common to the two boxes gets its element, in the
  byte order of the machine if asked for, nothing else is changed, and the number returned is 0
  exactly if the boxes have no common point. Either buffer may start in the middle of its box. The
  boxes have up to 32 dimensions and ends below \<open>2 ^ 31\<close>, which \<open>intersect_segments\<close> keeps in \<open>int\<close>
  variables (\<open>sel_wf\<close>, \<open>bb_buffer\<close>).
\<close>

theorem patch_global_boxes:
  assumes "0 < n" "n \<le> 32" and "sized_type type"
    and "bb_buffer n (elem_size type) dst_bb" and "sel_wf n (Sel_boundingbox src_bb)"
    and "\<forall>p q. in_bb dst_bb p \<and> in_bb src_bb p \<and> in_bb dst_bb q \<and> in_bb src_bb q \<longrightarrow>
        apart (elem_size type) (bb_addr (elem_size type) dst dst_bb dr p) (bb_addr (elem_size type) src src_bb sr q)"
  shows "\<exists>c m'. adios_patch_data_to_global e True dst dr (Sel_boundingbox dst_bb) src sr (Sel_boundingbox src_bb) type sw m
        = Some (None, c, m')
    \<and> (c \<noteq> 0 \<longleftrightarrow> (\<exists>p. in_bb dst_bb p \<and> in_bb src_bb p))
    \<and> (\<forall>p. in_bb dst_bb p \<and> in_bb src_bb p \<longrightarrow> load (bb_addr (elem_size type) dst dst_bb dr p) (elem_size type) m'
         = elem_fun type (sw = adios_flag_yes) (load (bb_addr (elem_size type) src src_bb sr p) (elem_size type) m))
    \<and> (\<forall>x. (\<forall>p. in_bb dst_bb p \<and> in_bb src_bb p \<longrightarrow> (\<forall>u < elem_size type. x \<noteq> bb_addr (elem_size type) dst dst_bb dr p + of_nat u))
         \<longrightarrow> m' x = m x)"
  using patch_boxes [OF assms] by (simp add: adios_patch_data_to_global_def adios_patch_data_to_bb_def)

text \<open>A block of three elements at 4, of which the buffer holds those from its second on, and a box of five at 2.\<close>

lemma patch_global_boxes_witness:
  "\<exists>c m'. adios_patch_data_to_global Little True 0 0 (Sel_boundingbox \<lparr>bb_ndim = 1, bb_start = [2], bb_count = [5]\<rparr>)
      1000 1 (Sel_boundingbox \<lparr>bb_ndim = 1, bb_start = [4], bb_count = [3]\<rparr>) adios_byte adios_flag_no (\<lambda>a. ucast a) = Some (None, c, m')
    \<and> load 3 1 m' = load 1000 1 (\<lambda>a. ucast a)"
proof -
  let ?dst = "\<lparr>bb_ndim = 1, bb_start = [2], bb_count = [5]\<rparr> :: ADIOS_SELECTION_BOUNDINGBOX_STRUCT"
    and ?src = "\<lparr>bb_ndim = 1, bb_start = [4], bb_count = [3]\<rparr> :: ADIOS_SELECTION_BOUNDINGBOX_STRUCT"
    and ?m = "\<lambda>a :: u64. ucast a :: u8"
  have addr: "bb_addr 1 0 ?dst 0 [x] = x - 2" "bb_addr 1 1000 ?src 1 [x] = 1000 + (x - 4 - 1)" for x
    by (simp_all add: bb_addr_def compute_linear_offset_in_volume_def)
  have one: "\<exists>x. p = [x] \<and> x \<in> {4, 5, 6}" if p: "in_bb ?dst p" "in_bb ?src p" for p
  proof -
    obtain x where x: "p = [x]" "4 \<le> unat x" "unat x < 7" using p by (cases p; cases "tl p") (auto simp: in_bb_def)
    then have "unat x = 4 \<or> unat x = 5 \<or> unat x = 6" by linarith
    moreover have "x = of_nat (unat x)" by simp
    ultimately have "x = 4 \<or> x = 5 \<or> x = 6" by fastforce
    with x(1) show ?thesis by simp
  qed
  have "apart 1 (bb_addr 1 0 ?dst 0 p) (bb_addr 1 1000 ?src 1 q)"
    if "in_bb ?dst p" "in_bb ?src p" "in_bb ?dst q" "in_bb ?src q" for p q
    using one [OF that(1,2)] one [OF that(3,4)] by (auto simp: apart_def addr simp del: One_nat_def)
  then obtain c m' where "adios_patch_data_to_global Little True 0 0 (Sel_boundingbox ?dst) 1000 1 (Sel_boundingbox ?src)
      adios_byte adios_flag_no ?m = Some (None, c, m')"
    "\<forall>p. in_bb ?dst p \<and> in_bb ?src p \<longrightarrow> load (bb_addr 1 0 ?dst 0 p) 1 m' = load (bb_addr 1 1000 ?src 1 p) 1 ?m"
    using patch_global_boxes [of 1 adios_byte ?dst ?src 0 0 1000 1 Little adios_flag_no ?m]
    by (auto simp: bb_buffer_def bb_wf_def elem_fun_def simp del: One_nat_def)
  moreover have "in_bb ?dst [5]" "in_bb ?src [5]" by (simp_all add: in_bb_def)
  moreover have "bb_addr 1 0 ?dst 0 [5] = 3" "bb_addr 1 1000 ?src 1 [5] = 1000" by (simp_all add: addr del: One_nat_def)
  ultimately show ?thesis by metis
qed

end
