(* ===== verification/Spec2Isabelle.thy ===== *)
theory Spec2Isabelle
  imports Subvolume Selection Buffer_Pool BP_Read BP_Merge BP_Sort BP_Deliver BP_Blocks BP_Build Patchdata
begin

text \<open>
  A verification development for ADIOS, the adaptable I/O system (sources under \<open>src/src\<close>).

  The program. An application declares groups of variables and attributes and writes them in steps.
  Each process collects what it writes as a process group in a buffer: a header, the variables with
  their dimensions, statistics and data, and the attributes (\<open>core/adios_internals.c\<close>). While it
  does so it builds an index; the indexes of all processes are merged, sorted by time and written
  behind the process groups as the metadata of a BP file. A reader parses the metadata from the end
  of the file, on a machine of any byte order (\<open>core/adios_bp_v1.c\<close>), and finds for each variable and step
  the blocks that the processes wrote. It answers requests for boxes, points or write blocks by copying
  the parts of the blocks that lie in the selection (\<open>core/bp_utils.c\<close>, \<open>read/read_bp.c\<close>). Below all of this lie
  the geometry of boxes and strided copies (\<open>core/adios_subvolume.c\<close>, \<open>core/adios_copyspec.c\<close>), selections
  (\<open>core/adios_selection_util.c\<close>), conversion of byte orders, a hash table and the accounting of buffer
  memory.

  The model. C integers are words of their width and wrap around; the implicit conversions of C are
  the functions of \<open>Prelude\<close>. Memory is a function from 64-bit addresses to bytes wherever the code copies
  or converts in place; buffers that are only appended to or read in order are lists of bytes. Structs
  are records, enumerations datatypes with their codes, linked lists are lists, except where nodes
  are shared or freed (the hash table, with an explicit heap, and the sort of the process groups,
  with an array of nodes). Errors are values: \<open>adios_errno\<close> or the result of the function. \<open>None\<close> of an
  option that wraps a whole state stands for undefined behaviour, a failed assertion, or a loop that
  never ends. Loops that may run for ever are \<open>partial_function (option)\<close>, so no fuel is used anywhere:
  returning is \<open>Some\<close>, and theorems state it. All other recursions have a termination proof. The indexes
  of \<open>for\<close> loops over arrays are unbounded numbers where the code's type holds them.

  Theories, from the bottom up.

  \<^item> \<open>Prelude\<close>: words, bytes, memory, encoding of numbers, strings; the locale \<open>simulation\<close>.
  \<^item> \<open>Adios_Types\<close>: enumerations, sizes and selection records (\<open>public/adios_types.h\<close>, \<open>public/adios_selection.h\<close>).
  \<^item> \<open>Endianness\<close>: \<open>core/adios_endianness.c\<close>, \<open>change_endianness\<close> of \<open>core/util.c\<close>. Conversions are
    involutions and give the numbers of the other machine.
  \<^item> \<open>Buffer_Pool\<close>: \<open>core/buffer.c\<close>; the locale \<open>byte_budget\<close>. No byte is lost or handed out twice.
  \<^item> \<open>Hashtbl\<close>: \<open>core/qhashtbl.c\<close> on a heap of nodes; it refines a finite map by an interpretation of
    \<open>simulation\<close>.
  \<^item> \<open>Geometry\<close>, \<open>Copyspec\<close>, \<open>Subvolume\<close>: \<open>core/adios_subvolume.c\<close> and \<open>core/adios_copyspec.c\<close>. Intersections of
    boxes are exact; the copy by contiguous runs equals the copy of single elements and moves
    exactly the subvolume. \<open>intersect_segments\<close> keeps the ends of segments in \<open>int\<close> variables, so that all
    theorems that rest on it are stated for boxes and ranges that end below \<open>2 ^ 31\<close>.
  \<^item> \<open>Selection\<close>: \<open>core/adios_selection_util.c\<close>. Intersections denote the intersection of the selected points
    or elements, where the code does not cut them.
  \<^item> \<open>Patchdata\<close>: \<open>core/transforms/adios_patchdata.c\<close>, which puts the data of one selection into a buffer of the
    shape of another; for boxes exactly the common points are copied.
  \<^item> \<open>BP_Buffer\<close>: the write and read buffers, the version word, the table of offsets; the locale \<open>index_codec\<close>,
    which lifts a round trip of one entry to a whole index and is interpreted on process groups,
    variables and attributes.
  \<^item> \<open>BP_PG\<close>, \<open>BP_Transform\<close>, \<open>BP_Chars\<close>, \<open>BP_Vars\<close>, \<open>BP_Attrs\<close>, \<open>BP_Index\<close>: the metadata, written by
    \<open>adios_write_index_v1\<close> and parsed by \<open>adios_parse_..._v1\<close>. Each part is read back as it was written,
    for all four pairs of byte orders, apart from the losses named in \<open>var_as_read\<close> and \<open>attr_as_read\<close>.
  \<^item> \<open>BP_Posix\<close>: reading the metadata from the end of a file and the append mode of \<open>write/adios_posix.c\<close>.
  \<^item> \<open>BP_Dims\<close>, \<open>BP_Data\<close>, \<open>BP_Read\<close>: dimensions, variables and attributes in a process group, and
    \<open>adios_posix_do_read\<close>, which restores them.
  \<^item> \<open>BP_Build\<close>: the sizes that are computed in advance, \<open>common_adios_write_byid\<close> for variables without a
    transform, and \<open>adios_build_index_v1\<close>. The sizes are those of what is written; the index of any run of
    writes points at the headers and at the data in the buffer.
  \<^item> \<open>BP_Merge\<close>, \<open>BP_Sort\<close>: \<open>adios_merge_index_v1\<close> and \<open>adios_sort_index_v1\<close>; the locale \<open>keyed_index\<close> for
    entries that are found by a key and extended, interpreted on variables and on attributes.
  \<^item> \<open>BP_Steps\<close>, \<open>BP_ReadVar\<close>: steps, blocks and dimensions as the reader sees them, and \<open>read_var_bb\<close>: every
    point of the box gets the element of the last block that covers it.
  \<^item> \<open>BP_Request\<close>, \<open>BP_Split\<close>, \<open>BP_Deliver\<close>, \<open>BP_Blocks\<close>: scheduling and performing reads, splitting of
    requests into chunks and their delivery, points and write blocks. The data that a program
    receives are those of the blocks; a split box is covered by its parts, each point once.

  Parameters and hypotheses. The bytes of files are parameters, as are the results of \<open>realloc\<close>, the
  amount of free memory, the table of transform plugins (generated from a list in the build), the
  version numbers of the configuration, and the contents of uninitialised memory where the code
  reads it. Memory allocations succeed unless a parameter says otherwise; \<open>bp_realloc_aligned\<close> of the
  reader is taken to succeed. Addresses of distinct buffers are taken to be apart where the code copies
  between them. References to variables in dimensions are snapshots of the fields that are read.
  A \<open>memcpy\<close> of overlapping blocks, which C leaves undefined, has the effect of \<open>memmove\<close> in the model;
  the properties of \<open>copy_subvolume\<close> and of the compaction are stated for blocks that do not overlap.
  \<open>MPI_File_read\<close> is that of \<open>core/mpidummy.c\<close>, with its \<open>int\<close> count and one \<open>read\<close>, which Linux cuts at
  \<open>0x7ffff000\<close> bytes; the theorems on the reader are stated for blocks of at most this size.
  Counters that count objects in memory (nodes of the hash table, blocks of a variable, bytes of the
  write buffer) are unbounded numbers. \<open>adios_find_var_by_name\<close> leaves out its counters of calls. The retry of
  \<open>adios_posix_read_process_group\<close> after a short read depends on \<open>errno\<close> and is left out.

  Not modelled. The write methods (MPI, aggregation, staging) are I/O and communication and so are the
  staged and staging readers; the query layer rests on the index libraries FastBit and ALACRITY;
  transform plugins wrap compression libraries; of reading transformed variables only the
  patching of data is modelled, not the tree of requests to the plugins (\<open>core/transforms/adios_transforms_read.c\<close>,
  \<open>core/transforms/adios_transforms_reqgroup.c\<close>); the configuration is read by the Mini-XML library;
  language bindings and tools are generated or call the library only. Of the BP reader, opening a file,
  advancing steps and the inquiries of variables and attributes are left out, of the index building the
  computation of statistics from floating point data.
\<close>

end
